(* ===== verification/Mmbus_Prelude.thy ===== *)
theory Mmbus_Prelude
  imports Main "HOL-Library.Word"
begin

text \<open>
  Shared vocabulary of the development: the machine integers of the Rust sources, byte buffers
  (\<open>&[u8]\<close>, \<open>Vec<u8>\<close> and memory maps are all lists of bytes), the little-endian
  encodings \<open>to_le_bytes\<close> / \<open>from_le_bytes\<close>, and reads and writes at a byte offset of a
  buffer. The locale \<open>le_codec\<close> states the contract of a fixed-width encoding once; it is
  interpreted for \<open>u16\<close>, \<open>u32\<close> and \<open>u64\<close>, and the read-after-write laws of the typed
  accessors are proved inside it.

  \<open>usize\<close> values that are lengths or indices are \<open>nat\<close>; counters that live in shared memory
  or on disk keep their width.
\<close>

unbundle bit_operations_syntax

type_synonym u8 = "8 word"
type_synonym u16 = "16 word"
type_synonym u32 = "32 word"
type_synonym u64 = "64 word"
type_synonym bytes = "u8 list"

text \<open>Collections: reads of a buffer after writes, and sizes of encodings.\<close>

named_theorems buf_simps "reads of a buffer after a write"
named_theorems len_simps "lengths of encodings and buffers"

subsection \<open>Rust integer helpers\<close>

definition saturating_sub :: "u64 \<Rightarrow> u64 \<Rightarrow> u64" where
  "saturating_sub a b = (if a \<le> b then 0 else a - b)"

lemma unat_saturating_sub: "unat (saturating_sub a b) = unat a - unat b"
  by (auto simp: saturating_sub_def unat_sub_if' word_le_nat_alt)

lemma unat_Suc_word:
  fixes w :: "'a::len word"
  assumes "unat w + 1 < 2 ^ LENGTH('a)"
  shows "unat (w + 1) = unat w + 1"
proof -
  have "unat (w + 1) = (unat w + unat (1 :: 'a word)) mod 2 ^ LENGTH('a)"
    by (simp only: unat_word_ariths)
  with assms show ?thesis by simp
qed

lemma unat_lt2p: "unat (w :: 'a::len word) < 2 ^ LENGTH('a)"
  by (rule unsigned_less)

lemma unat_of_nat_eq: "n < 2 ^ LENGTH('a) \<Longrightarrow> unat (of_nat n :: 'a::len word) = n"
  by (simp add: unat_of_nat)

lemma unat_u32_less: "unat (w :: u32) < 4294967296"
  using unat_lt2p [of w] by simp

lemma unat_u64_less: "unat (w :: u64) < 18446744073709551616"
  using unat_lt2p [of w] by simp

lemma unat_of_nat_u64: "n < 2 ^ 64 \<Longrightarrow> unat (of_nat n :: u64) = n"
  by (simp add: unat_of_nat_eq)

lemma unat_of_nat_u32: "n < 2 ^ 32 \<Longrightarrow> unat (of_nat n :: u32) = n"
  by (simp add: unat_of_nat_eq)

lemma and_not_mask_word: "w AND NOT (mask n) = push_bit n (drop_bit n (w :: 'a::len word))"
  by (rule bit_word_eqI) (auto simp: bit_simps)

lemma unat_align_down: "unat ((w :: 'a::len word) AND NOT (mask n)) = unat w div 2 ^ n * 2 ^ n"
proof -
  have "unat w div 2 ^ n * 2 ^ n \<le> unat w"
    by simp
  then have "unat w div 2 ^ n * 2 ^ n < 2 ^ LENGTH('a)"
    using unat_lt2p [of w] by linarith
  then show ?thesis
    unfolding and_not_mask_word unsigned_push_bit_eq unsigned_drop_bit_eq
    by (simp add: push_bit_eq_mult drop_bit_eq_div take_bit_nat_eq_self)
qed

lemma unat_add_small: "unat a + unat b < 2 ^ LENGTH('a) \<Longrightarrow> unat (a + b :: 'a::len word) = unat a + unat b"
  by (simp add: unat_word_ariths)

lemma unat_mult_small: "unat a * unat b < 2 ^ LENGTH('a) \<Longrightarrow> unat (a * b :: 'a::len word) = unat a * unat b"
  by (simp add: unat_word_ariths)

lemma unat_ucast_u32 [simp]: "unat (ucast (w :: u32) :: u64) = unat w"
  by (simp add: unsigned_ucast_eq take_bit_nat_eq_self unat_lt2p [THEN less_le_trans])

subsection \<open>Little-endian integers\<close>

fun le_bytes :: "nat \<Rightarrow> nat \<Rightarrow> bytes" where
  "le_bytes 0 v = []"
| "le_bytes (Suc n) v = of_nat (v mod 256) # le_bytes n (v div 256)"

fun le_nat :: "bytes \<Rightarrow> nat" where
  "le_nat [] = 0"
| "le_nat (b # bs) = unat b + 256 * le_nat bs"

lemma length_le_bytes [simp]: "length (le_bytes n v) = n"
  by (induction n arbitrary: v) auto

lemma unat_byte: "unat (of_nat (v mod 256) :: u8) = v mod 256"
  by (simp add: unat_of_nat_eq)

lemma le_nat_le_bytes: "le_nat (le_bytes n v) = v mod 256 ^ n"
proof (induction n arbitrary: v)
  case 0
  show ?case by simp
next
  case (Suc n)
  then show ?case
    by (simp add: unat_byte mod_mult2_eq add.commute)
qed

lemma le_nat_less: "le_nat bs < 256 ^ length bs"
proof (induction bs)
  case Nil
  show ?case by simp
next
  case (Cons b bs)
  have "unat b < 256"
    using unat_lt2p [of b] by simp
  moreover have "le_nat bs + 1 \<le> 256 ^ length bs"
    using Cons by simp
  then have "256 * le_nat bs + 256 \<le> 256 ^ length (b # bs)"
    using mult_le_mono2 [of "le_nat bs + 1" "256 ^ length bs" 256] by simp
  ultimately show ?case by simp
qed

lemma le_bytes_le_nat: "le_bytes (length bs) (le_nat bs) = bs"
proof (induction bs)
  case Nil
  show ?case by simp
next
  case (Cons b bs)
  have "unat b < 256"
    using unat_lt2p [of b] by simp
  then show ?case
    using Cons by simp
qed

definition u16_le :: "u16 \<Rightarrow> bytes" where
  "u16_le w = le_bytes 2 (unat w)"

definition u32_le :: "u32 \<Rightarrow> bytes" where
  "u32_le w = le_bytes 4 (unat w)"

definition u64_le :: "u64 \<Rightarrow> bytes" where
  "u64_le w = le_bytes 8 (unat w)"

definition le_u16 :: "bytes \<Rightarrow> u16" where
  "le_u16 bs = of_nat (le_nat bs)"

definition le_u32 :: "bytes \<Rightarrow> u32" where
  "le_u32 bs = of_nat (le_nat bs)"

definition le_u64 :: "bytes \<Rightarrow> u64" where
  "le_u64 bs = of_nat (le_nat bs)"

subsection \<open>Sub-slices and in-place writes\<close>

text \<open>\<open>sub m off n\<close> is \<open>m[off..off+n]\<close>; \<open>poke m off xs\<close> overwrites the bytes from
  \<open>off\<close> on. Both are used inside the bounds only; \<open>fits\<close> is the bounds check.\<close>

definition sub :: "bytes \<Rightarrow> nat \<Rightarrow> nat \<Rightarrow> bytes" where
  "sub m off n = take n (drop off m)"

definition poke :: "bytes \<Rightarrow> nat \<Rightarrow> bytes \<Rightarrow> bytes" where
  "poke m off xs = take off m @ xs @ drop (off + length xs) m"

definition fits :: "bytes \<Rightarrow> nat \<Rightarrow> nat \<Rightarrow> bool" where
  "fits m off n \<longleftrightarrow> off + n \<le> length m"

definition disjoint_ranges :: "nat \<Rightarrow> nat \<Rightarrow> nat \<Rightarrow> nat \<Rightarrow> bool" where
  "disjoint_ranges a n b k \<longleftrightarrow> a + n \<le> b \<or> b + k \<le> a"

lemma disjoint_table: "i \<noteq> j \<Longrightarrow> disjoint_ranges (a + 8 * i) 8 (a + 8 * j) 8"
  unfolding disjoint_ranges_def by linarith

lemma length_sub [len_simps]: "fits m off n \<Longrightarrow> length (sub m off n) = n"
  by (simp add: sub_def fits_def)

lemma length_poke [len_simps, simp]:
  "off + length xs \<le> length m \<Longrightarrow> length (poke m off xs) = length m"
  by (simp add: poke_def)

lemma fits_poke [simp]:
  "off + length xs \<le> length m \<Longrightarrow> fits (poke m off xs) a n = fits m a n"
  by (simp add: fits_def)

lemma sub_poke_same [buf_simps]:
  "off + length xs \<le> length m \<Longrightarrow> n = length xs \<Longrightarrow> sub (poke m off xs) off n = xs"
  by (simp add: sub_def poke_def)

lemma poke_nth:
  assumes "off + length xs \<le> length m" "i < length m"
  shows "poke m off xs ! i = (if off \<le> i \<and> i < off + length xs then xs ! (i - off) else m ! i)"
  using assms by (auto simp: poke_def nth_append min_def)

lemma sub_nth: "fits m off n \<Longrightarrow> k < n \<Longrightarrow> sub m off n ! k = m ! (off + k)"
  by (simp add: sub_def fits_def)

lemma sub_poke_other [buf_simps]:
  assumes "off + length xs \<le> length m" "disjoint_ranges off (length xs) a n"
  shows "sub (poke m off xs) a n = sub m a n"
proof (rule nth_equalityI)
  show "length (sub (poke m off xs) a n) = length (sub m a n)"
    using assms by (simp add: sub_def)
next
  fix k assume "k < length (sub (poke m off xs) a n)"
  then have k: "k < n" "a + k < length m"
    using assms by (auto simp: sub_def)
  then have "\<not> (off \<le> a + k \<and> a + k < off + length xs)"
    using assms(2) by (auto simp: disjoint_ranges_def)
  then show "sub (poke m off xs) a n ! k = sub m a n ! k"
    using k assms(1) by (auto simp: sub_def poke_nth)
qed

lemma nth_poke_other [buf_simps]:
  "off + length xs \<le> length m \<Longrightarrow> i < length m \<Longrightarrow> disjoint_ranges off (length xs) i 1
    \<Longrightarrow> poke m off xs ! i = m ! i"
  by (auto simp: poke_nth disjoint_ranges_def)

lemma sub_split: "sub b a (k + l) = sub b a k @ sub b (a + k) l"
  by (simp add: sub_def take_add add.commute)

lemma sub_sub: "a + k \<le> n \<Longrightarrow> sub (sub m off n) a k = sub m (off + a) k"
  by (simp add: sub_def drop_take min_def add.commute)

lemma sub_take: "off + k \<le> n \<Longrightarrow> sub (take n b) off k = sub b off k"
  by (simp add: sub_def drop_take min_def)

lemma sub_append_left: "off + n \<le> length xs \<Longrightarrow> sub (xs @ ys) off n = sub xs off n"
  by (simp add: sub_def)

lemma sub_append_right: "length xs \<le> off \<Longrightarrow> sub (xs @ ys) off n = sub ys (off - length xs) n"
  by (simp add: sub_def)

lemma sub_all: "n = length xs \<Longrightarrow> sub xs 0 n = xs"
  by (simp add: sub_def)

lemma sub_prefix: "n = length xs \<Longrightarrow> sub (xs @ ys) 0 n = xs"
  by (simp add: sub_def)

lemma poke_poke_append:
  assumes "off + length xs + length ys \<le> length m"
  shows "poke (poke m off xs) (off + length xs) ys = poke m off (xs @ ys)"
  using assms by (simp add: poke_def drop_drop add.commute add.left_commute)

subsection \<open>The contract of a fixed-width integer encoding\<close>

locale le_codec =
  fixes enc :: "'a \<Rightarrow> bytes"
    and dec :: "bytes \<Rightarrow> 'a"
    and width :: nat
  assumes dec_enc: "dec (enc v) = v"
    and length_enc: "length (enc v) = width"
begin

lemma enc_inj: "enc v = enc w \<longleftrightarrow> v = w"
  using dec_enc by metis

lemma rd_wr_same:
  "off + width \<le> length m \<Longrightarrow> dec (sub (poke m off (enc v)) off width) = v"
  by (simp add: sub_poke_same length_enc dec_enc)

lemma rd_wr_other:
  "off + width \<le> length m \<Longrightarrow> disjoint_ranges off width a n
    \<Longrightarrow> sub (poke m off (enc v)) a n = sub m a n"
  by (simp add: sub_poke_other length_enc)

lemma length_wr: "off + width \<le> length m \<Longrightarrow> length (poke m off (enc v)) = length m"
  by (simp add: length_enc)

lemma rd_append: "dec (sub (pre @ enc v @ rest) (length pre) width) = v"
  by (simp add: sub_def length_enc dec_enc)

end

lemma u16_codec: "le_u16 (u16_le w) = w"
proof -
  have "unat w < 256 ^ 2"
    using unat_lt2p [of w] by simp
  then show ?thesis
    by (simp add: u16_le_def le_u16_def le_nat_le_bytes)
qed

lemma u32_codec: "le_u32 (u32_le w) = w"
proof -
  have "unat w < 256 ^ 4"
    using unat_lt2p [of w] by simp
  then show ?thesis
    by (simp add: u32_le_def le_u32_def le_nat_le_bytes)
qed

lemma u64_codec: "le_u64 (u64_le w) = w"
proof -
  have "unat w < 256 ^ 8"
    using unat_lt2p [of w] by simp
  then show ?thesis
    by (simp add: u64_le_def le_u64_def le_nat_le_bytes)
qed

interpretation c16: le_codec u16_le le_u16 2
  by unfold_locales (rule u16_codec, simp add: u16_le_def)

interpretation c32: le_codec u32_le le_u32 4
  by unfold_locales (rule u32_codec, simp add: u32_le_def)

interpretation c64: le_codec u64_le le_u64 8
  by unfold_locales (rule u64_codec, simp add: u64_le_def)

lemmas le_lengths [simp, len_simps] = c16.length_enc c32.length_enc c64.length_enc
lemmas le_round [simp] = c16.dec_enc c32.dec_enc c64.dec_enc

lemma u32_le_le_u32: "length bs = 4 \<Longrightarrow> u32_le (le_u32 bs) = bs"
proof -
  assume *: "length bs = 4"
  then have "le_nat bs < 2 ^ 32"
    using le_nat_less [of bs] by simp
  then show ?thesis
    using * le_bytes_le_nat [of bs] by (simp add: u32_le_def le_u32_def unat_of_nat_eq)
qed

lemma u64_le_le_u64: "length bs = 8 \<Longrightarrow> u64_le (le_u64 bs) = bs"
proof -
  assume *: "length bs = 8"
  then have "le_nat bs < 2 ^ 64"
    using le_nat_less [of bs] by simp
  then show ?thesis
    using * le_bytes_le_nat [of bs] by (simp add: u64_le_def le_u64_def unat_of_nat_eq)
qed

subsection \<open>Typed accessors of a buffer\<close>

definition rd16 :: "bytes \<Rightarrow> nat \<Rightarrow> u16" where
  "rd16 m off = le_u16 (sub m off 2)"

definition rd32 :: "bytes \<Rightarrow> nat \<Rightarrow> u32" where
  "rd32 m off = le_u32 (sub m off 4)"

definition rd64 :: "bytes \<Rightarrow> nat \<Rightarrow> u64" where
  "rd64 m off = le_u64 (sub m off 8)"

definition wr32 :: "bytes \<Rightarrow> nat \<Rightarrow> u32 \<Rightarrow> bytes" where
  "wr32 m off v = poke m off (u32_le v)"

definition wr64 :: "bytes \<Rightarrow> nat \<Rightarrow> u64 \<Rightarrow> bytes" where
  "wr64 m off v = poke m off (u64_le v)"

lemma wr_length [simp, len_simps]:
  "off + 4 \<le> length m \<Longrightarrow> length (wr32 m off v) = length m"
  "off + 8 \<le> length m \<Longrightarrow> length (wr64 m off w) = length m"
  by (simp_all add: wr32_def wr64_def)

lemma rd_after_wr [buf_simps]:
  "off + 4 \<le> length m \<Longrightarrow> rd32 (wr32 m off v) off = v"
  "off + 8 \<le> length m \<Longrightarrow> rd64 (wr64 m off w) off = w"
  by (simp_all add: rd32_def wr32_def rd64_def wr64_def c32.rd_wr_same c64.rd_wr_same)

lemma rd_beside_wr [buf_simps]:
  "off + 8 \<le> length m \<Longrightarrow> disjoint_ranges off 8 a 8 \<Longrightarrow> rd64 (wr64 m off w) a = rd64 m a"
  "off + 8 \<le> length m \<Longrightarrow> disjoint_ranges off 8 a 4 \<Longrightarrow> rd32 (wr64 m off w) a = rd32 m a"
  "off + 4 \<le> length m \<Longrightarrow> disjoint_ranges off 4 a 8 \<Longrightarrow> rd64 (wr32 m off v) a = rd64 m a"
  "off + 4 \<le> length m \<Longrightarrow> disjoint_ranges off 4 a 4 \<Longrightarrow> rd32 (wr32 m off v) a = rd32 m a"
  by (simp_all add: rd32_def wr32_def rd64_def wr64_def c32.rd_wr_other c64.rd_wr_other)

lemma rd_poke_other [buf_simps]:
  "off + length xs \<le> length m \<Longrightarrow> disjoint_ranges off (length xs) a 8
    \<Longrightarrow> rd64 (poke m off xs) a = rd64 m a"
  "off + length xs \<le> length m \<Longrightarrow> disjoint_ranges off (length xs) a 4
    \<Longrightarrow> rd32 (poke m off xs) a = rd32 m a"
  by (simp_all add: rd32_def rd64_def sub_poke_other)

subsection \<open>Runs and refinement\<close>

text \<open>A run of operations, each with an observable result; \<open>None\<close> when a step has no defined
  outcome. The locale states once what it means that concrete steps implement abstract ones, and
  lifts the step-wise obligation to runs.\<close>

fun run_steps :: "('op \<Rightarrow> 's \<Rightarrow> ('o \<times> 's) option) \<Rightarrow> 'op list \<Rightarrow> 's \<Rightarrow> ('o list \<times> 's) option" where
  "run_steps step [] s = Some ([], s)"
| "run_steps step (op # ops) s = (case step op s of
      None \<Rightarrow> None
    | Some (out, s') \<Rightarrow> (case run_steps step ops s' of
          None \<Rightarrow> None
        | Some (outs, s'') \<Rightarrow> Some (out # outs, s'')))"

fun run_abs :: "('op \<Rightarrow> 'a \<Rightarrow> 'o \<times> 'a) \<Rightarrow> 'op list \<Rightarrow> 'a \<Rightarrow> 'o list \<times> 'a" where
  "run_abs astep [] a = ([], a)"
| "run_abs astep (op # ops) a =
    (let (out, a') = astep op a; (outs, a'') = run_abs astep ops a' in (out # outs, a''))"

text \<open>\<open>ok\<close> is what a caller must respect before an operation (all along a run).\<close>

fun run_ok :: "('op \<Rightarrow> 'a \<Rightarrow> bool) \<Rightarrow> ('op \<Rightarrow> 'a \<Rightarrow> 'o \<times> 'a) \<Rightarrow> 'op list \<Rightarrow> 'a \<Rightarrow> bool" where
  "run_ok ok astep [] a = True"
| "run_ok ok astep (op # ops) a \<longleftrightarrow> ok op a \<and> run_ok ok astep ops (snd (astep op a))"

lemma length_run_abs: "length (fst (run_abs astep ops a)) = length ops"
  by (induction ops arbitrary: a) (auto simp: split_beta Let_def)

lemma run_abs_Cons_snd:
  "snd (run_abs astep (op # ops) a) = snd (run_abs astep ops (snd (astep op a)))"
  by (simp add: split_beta Let_def)

lemma run_abs_Cons_fst:
  "fst (run_abs astep (op # ops) a) = fst (astep op a) # fst (run_abs astep ops (snd (astep op a)))"
  by (simp add: split_beta Let_def)

locale step_refinement =
  fixes R :: "'s \<Rightarrow> 'a \<Rightarrow> bool"
    and step :: "'op \<Rightarrow> 's \<Rightarrow> ('o \<times> 's) option"
    and astep :: "'op \<Rightarrow> 'a \<Rightarrow> 'o \<times> 'a"
    and ok :: "'op \<Rightarrow> 'a \<Rightarrow> bool"
  assumes step_sim: "R s a \<Longrightarrow> ok op a \<Longrightarrow>
    \<exists>s'. step op s = Some (fst (astep op a), s') \<and> R s' (snd (astep op a))"
begin

lemma run_sim:
  assumes "R s a" "run_ok ok astep ops a"
  shows "\<exists>s'. run_steps step ops s = Some (fst (run_abs astep ops a), s')
    \<and> R s' (snd (run_abs astep ops a))"
  using assms
proof (induction ops arbitrary: s a)
  case Nil
  then show ?case by simp
next
  case (Cons op ops)
  obtain s' where "step op s = Some (fst (astep op a), s')" "R s' (snd (astep op a))"
    using step_sim [of s a op] Cons.prems by auto
  then show ?case
    using Cons.IH [of s' "snd (astep op a)"] Cons.prems(2)
    by (auto simp: run_abs_Cons_fst run_abs_Cons_snd simp del: run_abs.simps)
qed

lemma run_abs_obs:
  assumes "R s a" "run_ok ok astep ops a" "run_steps step ops s = Some (outs, s')"
  shows "outs = fst (run_abs astep ops a) \<and> R s' (snd (run_abs astep ops a))"
  using run_sim [OF assms(1,2)] assms(3) by auto

end

end
