(* ===== verification/Ring.thy ===== *)
theory Ring
  imports Mmbus_Prelude
begin

text \<open>
  The SPMC ring buffer of \<open>crates/mmbus/src/ring.rs\<close>: the layout of the memory map, the header,
  the cursor and wakeup-flag tables, and every operation of \<open>RingBuffer\<close>. The map is a byte
  list passed explicitly; the handle is the record \<open>ring\<close>. A store to the map is an address with
  the bytes stored there, so that the order of the stores of \<open>write_slot\<close> is part of the model.

  A result \<open>None\<close> of an \<open>option\<close> that wraps a whole operation is a run without a defined
  outcome: a panic (\<open>assert!\<close>, remainder by zero) or an access outside the map.
  The reading operations take the memory as a function of time, \<open>E t\<close>: each load happens one tick
  after the previous one, and other processes may store between two ticks. The sequential
  operations are the instances in which the memory does not change.
\<close>

subsection \<open>Constants and layout (lines 56--106)\<close>

type_synonym usize = "64 word"
type_synonym store = "nat \<times> bytes"

definition MAGIC :: u64 where "MAGIC = 0x6D6D627573000005"
definition CURSOR_UNCLAIMED :: u64 where "CURSOR_UNCLAIMED = - 1"
definition WAKEFLAG_WAITING :: u64 where "WAKEFLAG_WAITING = 1"
definition SEQ_WRITING_BIT :: u64 where "SEQ_WRITING_BIT = push_bit 63 1"

abbreviation (input) OFF_MAGIC :: nat where "OFF_MAGIC \<equiv> 0"
abbreviation (input) OFF_VERSION :: nat where "OFF_VERSION \<equiv> 8"
abbreviation (input) OFF_CAPACITY :: nat where "OFF_CAPACITY \<equiv> 12"
abbreviation (input) OFF_SLOT_SIZE :: nat where "OFF_SLOT_SIZE \<equiv> 16"
abbreviation (input) OFF_MAX_SUBS :: nat where "OFF_MAX_SUBS \<equiv> 20"
abbreviation (input) OFF_GENERATION :: nat where "OFF_GENERATION \<equiv> 24"
abbreviation (input) OFF_TAIL :: nat where "OFF_TAIL \<equiv> 32"
abbreviation (input) OFF_CURSORS :: nat where "OFF_CURSORS \<equiv> 64"

definition wakeflags_offset :: "u32 \<Rightarrow> usize" where
  "wakeflags_offset max_subscribers = 64 + 8 * ucast max_subscribers"

definition slots_offset :: "u32 \<Rightarrow> usize" where
  "slots_offset max_subscribers =
    (let raw = wakeflags_offset max_subscribers + 8 * ucast max_subscribers
     in (raw + 63) AND NOT 63)"

definition slot_stride :: "u32 \<Rightarrow> usize" where
  "slot_stride slot_payload_size =
    (let raw = 8 + 4 + ucast slot_payload_size in (raw + 8 - 1) AND NOT (8 - 1))"

definition mmap_size :: "u32 \<Rightarrow> u32 \<Rightarrow> u32 \<Rightarrow> usize" where
  "mmap_size capacity slot_payload_size max_subscribers =
    slots_offset max_subscribers + slot_stride slot_payload_size * ucast capacity"

record ring =
  capacity :: u32
  slot_payload_size :: u32
  max_subscribers :: u32
  slots_off :: usize

subsection \<open>Fields of the map (lines 258--335, 638--648)\<close>

definition stride :: "ring \<Rightarrow> usize" where
  "stride r = slot_stride (slot_payload_size r)"

definition cursor_addr :: "nat \<Rightarrow> nat" where
  "cursor_addr idx = OFF_CURSORS + idx * 8"

definition wakeflag_addr :: "ring \<Rightarrow> nat \<Rightarrow> nat" where
  "wakeflag_addr r idx = unat (wakeflags_offset (max_subscribers r)) + idx * 8"

definition slot_addr :: "ring \<Rightarrow> u64 \<Rightarrow> nat" where
  "slot_addr r cur = unat (slots_off r + (cur mod ucast (capacity r)) * stride r)"

definition generation :: "bytes \<Rightarrow> u64" where
  "generation m = rd64 m OFF_GENERATION"

definition current_tail :: "bytes \<Rightarrow> u64" where
  "current_tail m = rd64 m OFF_TAIL"

definition set_tail :: "bytes \<Rightarrow> u64 \<Rightarrow> bytes" where
  "set_tail m value = wr64 m OFF_TAIL value"

definition cursor_at :: "bytes \<Rightarrow> nat \<Rightarrow> u64" where
  "cursor_at m idx = rd64 m (cursor_addr idx)"

definition set_cursor :: "bytes \<Rightarrow> nat \<Rightarrow> u64 \<Rightarrow> bytes" where
  "set_cursor m idx value = wr64 m (cursor_addr idx) value"

definition release_cursor :: "bytes \<Rightarrow> nat \<Rightarrow> bytes" where
  "release_cursor m idx = set_cursor m idx CURSOR_UNCLAIMED"

definition cursor_is_unclaimed :: "bytes \<Rightarrow> nat \<Rightarrow> bool" where
  "cursor_is_unclaimed m idx \<longleftrightarrow> cursor_at m idx = CURSOR_UNCLAIMED"

definition wakeflag_at :: "ring \<Rightarrow> bytes \<Rightarrow> nat \<Rightarrow> u64" where
  "wakeflag_at r m idx = rd64 m (wakeflag_addr r idx)"

definition set_wakeflag :: "ring \<Rightarrow> bytes \<Rightarrow> nat \<Rightarrow> bytes" where
  "set_wakeflag r m idx = wr64 m (wakeflag_addr r idx) WAKEFLAG_WAITING"

definition clear_wakeflag :: "ring \<Rightarrow> bytes \<Rightarrow> nat \<Rightarrow> bytes" where
  "clear_wakeflag r m idx = wr64 m (wakeflag_addr r idx) 0"

definition take_wakeflag :: "ring \<Rightarrow> bytes \<Rightarrow> nat \<Rightarrow> bool \<times> bytes" where
  "take_wakeflag r m idx =
    (wakeflag_at r m idx = WAKEFLAG_WAITING, wr64 m (wakeflag_addr r idx) 0)"

subsection \<open>Creating and opening (lines 126--253)\<close>

text \<open>The file is \<open>None\<close> when it does not exist. \<open>open\<close> maps the whole file; a header read
  past the end of a shorter file is outside the map.\<close>

datatype ring_open_error = NotFound | InvalidData

fun init_cursors :: "nat \<Rightarrow> bytes \<Rightarrow> bytes" where
  "init_cursors 0 m = m"
| "init_cursors (Suc i) m = set_cursor (init_cursors i m) i CURSOR_UNCLAIMED"

definition ring_create :: "u32 \<Rightarrow> u32 \<Rightarrow> u32 \<Rightarrow> ring \<times> bytes" where
  "ring_create cap sps msubs =
    (let total = mmap_size cap sps msubs;
         m = replicate (unat total) 0;
         m = wr64 m OFF_MAGIC MAGIC;
         m = wr32 m OFF_VERSION 5;
         m = wr32 m OFF_CAPACITY cap;
         m = wr32 m OFF_SLOT_SIZE sps;
         m = wr32 m OFF_MAX_SUBS msubs;
         m = wr64 m OFF_GENERATION 1;
         m = init_cursors (unat msubs) m
     in (\<lparr>capacity = cap, slot_payload_size = sps, max_subscribers = msubs,
          slots_off = slots_offset msubs\<rparr>, m))"

definition ring_open :: "bytes option \<Rightarrow> (ring_open_error + ring) option" where
  "ring_open file = (case file of
      None \<Rightarrow> Some (Inl NotFound)
    | Some m \<Rightarrow>
        if length m < 24 then None
        else if rd64 m OFF_MAGIC \<noteq> MAGIC then Some (Inl InvalidData)
        else Some (Inr \<lparr>capacity = rd32 m OFF_CAPACITY,
                        slot_payload_size = rd32 m OFF_SLOT_SIZE,
                        max_subscribers = rd32 m OFF_MAX_SUBS,
                        slots_off = slots_offset (rd32 m OFF_MAX_SUBS)\<rparr>))"

definition ring_create_or_reuse ::
    "bytes option \<Rightarrow> u32 \<Rightarrow> u32 \<Rightarrow> u32 \<Rightarrow> (ring \<times> bytes) option" where
  "ring_create_or_reuse file cap sps msubs = (case ring_open file of
      None \<Rightarrow> None
    | Some (Inl e) \<Rightarrow> Some (ring_create cap sps msubs)
    | Some (Inr existing) \<Rightarrow>
        if capacity existing = cap \<and> slot_payload_size existing = sps
            \<and> max_subscribers existing = msubs
        then (let m = the file in
              if length m < 40 then None
              else Some (existing, set_tail (wr64 m OFF_GENERATION (generation m + 1)) 0))
        else Some (ring_create cap sps msubs))"

subsection \<open>Cursor management (lines 341--388)\<close>

fun claim_from :: "ring \<Rightarrow> nat \<Rightarrow> nat \<Rightarrow> bytes \<Rightarrow> u64 \<Rightarrow> nat option \<times> bytes" where
  "claim_from r i 0 m initial = (None, m)"
| "claim_from r i (Suc n) m initial =
    (if cursor_at m i = CURSOR_UNCLAIMED
     then (Some i, clear_wakeflag r (set_cursor m i initial) i)
     else claim_from r (Suc i) n m initial)"

definition claim_cursor :: "ring \<Rightarrow> bytes \<Rightarrow> u64 \<Rightarrow> nat option \<times> bytes" where
  "claim_cursor r m initial = claim_from r 0 (unat (max_subscribers r)) m initial"

definition min_step :: "bytes \<Rightarrow> u64 option \<Rightarrow> nat \<Rightarrow> u64 option" where
  "min_step m acc i =
    (let c = cursor_at m i
     in if c \<noteq> CURSOR_UNCLAIMED
        then Some (case acc of None \<Rightarrow> c | Some a \<Rightarrow> min a c) else acc)"

definition min_active_cursor :: "ring \<Rightarrow> bytes \<Rightarrow> u64 option" where
  "min_active_cursor r m = foldl (min_step m) None [0..<unat (max_subscribers r)]"

subsection \<open>Publishing (lines 392--458, 655--659)\<close>

definition apply_store :: "bytes \<Rightarrow> store \<Rightarrow> bytes" where
  "apply_store m s = poke m (fst s) (snd s)"

definition apply_stores :: "bytes \<Rightarrow> store list \<Rightarrow> bytes" where
  "apply_stores m ss = foldl apply_store m ss"

definition write_slot_stores :: "ring \<Rightarrow> u64 \<Rightarrow> bytes \<Rightarrow> store list" where
  "write_slot_stores r tail data =
    (let slot = slot_addr r tail in
     [(slot, u64_le (tail OR SEQ_WRITING_BIT)),
      (slot + 8, u32_le (of_nat (length data)))]
     @ map (\<lambda>k. (slot + 12 + k, [data ! k])) [0..<length data]
     @ [(slot, u64_le tail)])"

definition write_slot :: "ring \<Rightarrow> bytes \<Rightarrow> u64 \<Rightarrow> bytes \<Rightarrow> bytes option" where
  "write_slot r m tail data =
    (if capacity r = 0 \<or> slot_addr r tail + 12 + length data > length m then None
     else Some (apply_stores m (write_slot_stores r tail data)))"

definition is_full :: "ring \<Rightarrow> bytes \<Rightarrow> bool" where
  "is_full r m =
    (let tail = current_tail m;
         effective_min = case_option tail id (min_active_cursor r m)
     in ucast (capacity r) \<le> tail - effective_min)"

definition try_publish :: "ring \<Rightarrow> bytes \<Rightarrow> bytes \<Rightarrow> (bool \<times> bytes) option" where
  "try_publish r m data =
    (if length data > unat (slot_payload_size r) then None
     else
       let tail = current_tail m;
           effective_min = case_option tail id (min_active_cursor r m)
       in if ucast (capacity r) \<le> tail - effective_min then Some (False, m)
          else case write_slot r m tail data of
                 None \<Rightarrow> None
               | Some m' \<Rightarrow> Some (True, set_tail m' (tail + 1)))"

definition publish_drop_oldest :: "ring \<Rightarrow> bytes \<Rightarrow> bytes \<Rightarrow> (bool \<times> bytes) option" where
  "publish_drop_oldest r m data =
    (let tail = current_tail m
     in case write_slot r m tail data of
          None \<Rightarrow> None
        | Some m' \<Rightarrow> Some (True, set_tail m' (tail + 1)))"

subsection \<open>Receiving (lines 472--636)\<close>

abbreviation (input) MAX_RETRIES :: nat where "MAX_RETRIES \<equiv> 16"

definition copy_from :: "(nat \<Rightarrow> bytes) \<Rightarrow> nat \<Rightarrow> nat \<Rightarrow> nat \<Rightarrow> bytes" where
  "copy_from E t addr n = map (\<lambda>k. E (t + k) ! (addr + k)) [0..<n]"

text \<open>One pass of the retry loop per unit of the second argument; the result is the accepted
  cursor, the contents of \<open>out\<close>, and the time.\<close>

fun recv_loop ::
    "(nat \<Rightarrow> bytes) \<Rightarrow> nat \<Rightarrow> ring \<Rightarrow> u64 \<Rightarrow> bytes \<Rightarrow> nat \<Rightarrow> u64 option \<times> bytes \<times> nat" where
  "recv_loop E 0 r effective out t = (None, out, t)"
| "recv_loop E (Suc retries) r effective out t =
    (let slot = slot_addr r effective;
         seq_before = rd64 (E t) slot in
     if seq_before AND SEQ_WRITING_BIT \<noteq> 0 then recv_loop E retries r effective out (t + 1)
     else if seq_before > effective then recv_loop E retries r seq_before out (t + 1)
     else if seq_before < effective then (None, out, t + 1)
     else
       let len = unat (rd32 (E (t + 1)) (slot + 8)) in
       if len > unat (slot_payload_size r) then recv_loop E retries r effective out (t + 2)
       else
         let out = copy_from E (t + 2) (slot + 12) len;
             seq_after = rd64 (E (t + 2 + len)) slot in
         if seq_after \<noteq> seq_before then
           let seq_after_clean = seq_after AND NOT SEQ_WRITING_BIT
           in recv_loop E retries r
                (if seq_after_clean > effective then seq_after_clean else effective)
                out (t + 3 + len)
         else (Some effective, out, t + 3 + len))"

definition try_receive_at ::
    "(nat \<Rightarrow> bytes) \<Rightarrow> nat \<Rightarrow> ring \<Rightarrow> nat \<Rightarrow> u64 \<Rightarrow> bytes
      \<Rightarrow> (u64 option \<times> bytes \<times> store list) option" where
  "try_receive_at E t r cursor_idx local_cursor out =
    (let tail = rd64 (E t) OFF_TAIL in
     if local_cursor \<ge> tail then Some (None, out, [])
     else if capacity r = 0 then None
     else case recv_loop E MAX_RETRIES r local_cursor out (t + 1) of
            (None, out', t') \<Rightarrow> Some (None, out', [])
          | (Some effective, out', t') \<Rightarrow>
              (let new_cursor = effective + 1
               in Some (Some new_cursor, out', [(cursor_addr cursor_idx, u64_le new_cursor)])))"

definition try_receive ::
    "ring \<Rightarrow> bytes \<Rightarrow> nat \<Rightarrow> u64 \<Rightarrow> bytes \<Rightarrow> (u64 option \<times> bytes \<times> bytes) option" where
  "try_receive r m cursor_idx local_cursor out =
    map_option (\<lambda>(res, out', stores). (res, out', apply_stores m stores))
      (try_receive_at (\<lambda>_. m) 0 r cursor_idx local_cursor out)"

text \<open>The slice variant: \<open>out\<close> keeps its length, its first \<open>len\<close> bytes are overwritten; an
  accepted cursor comes with \<open>Some len\<close>, or \<open>None\<close> for the sentinel \<open>usize::MAX\<close>.\<close>

fun recv_slice_loop ::
    "(nat \<Rightarrow> bytes) \<Rightarrow> nat \<Rightarrow> ring \<Rightarrow> u64 \<Rightarrow> bytes \<Rightarrow> nat
      \<Rightarrow> (u64 \<times> nat option) option \<times> bytes \<times> nat" where
  "recv_slice_loop E 0 r effective out t = (None, out, t)"
| "recv_slice_loop E (Suc retries) r effective out t =
    (let slot = slot_addr r effective;
         seq_before = rd64 (E t) slot in
     if seq_before AND SEQ_WRITING_BIT \<noteq> 0 then recv_slice_loop E retries r effective out (t + 1)
     else if seq_before > effective then recv_slice_loop E retries r seq_before out (t + 1)
     else if seq_before < effective then (None, out, t + 1)
     else
       let len = unat (rd32 (E (t + 1)) (slot + 8)) in
       if len > unat (slot_payload_size r) then recv_slice_loop E retries r effective out (t + 2)
       else if len > length out then (Some (effective, None), out, t + 2)
       else
         let out = poke out 0 (copy_from E (t + 2) (slot + 12) len);
             seq_after = rd64 (E (t + 2 + len)) slot in
         if seq_after \<noteq> seq_before then
           let seq_after_clean = seq_after AND NOT SEQ_WRITING_BIT
           in recv_slice_loop E retries r
                (if seq_after_clean > effective then seq_after_clean else effective)
                out (t + 3 + len)
         else (Some (effective, Some len), out, t + 3 + len))"

definition try_receive_into_slice_at ::
    "(nat \<Rightarrow> bytes) \<Rightarrow> nat \<Rightarrow> ring \<Rightarrow> nat \<Rightarrow> u64 \<Rightarrow> bytes
      \<Rightarrow> ((u64 \<times> nat option) option \<times> bytes \<times> store list) option" where
  "try_receive_into_slice_at E t r cursor_idx local_cursor out =
    (let tail = rd64 (E t) OFF_TAIL in
     if local_cursor \<ge> tail then Some (None, out, [])
     else if capacity r = 0 then None
     else case recv_slice_loop E MAX_RETRIES r local_cursor out (t + 1) of
            (None, out', t') \<Rightarrow> Some (None, out', [])
          | (Some (effective, len), out', t') \<Rightarrow>
              (let new_cursor = effective + 1
               in Some (Some (new_cursor, len), out',
                        [(cursor_addr cursor_idx, u64_le new_cursor)])))"

definition try_receive_into_slice ::
    "ring \<Rightarrow> bytes \<Rightarrow> nat \<Rightarrow> u64 \<Rightarrow> bytes
      \<Rightarrow> ((u64 \<times> nat option) option \<times> bytes \<times> bytes) option" where
  "try_receive_into_slice r m cursor_idx local_cursor out =
    map_option (\<lambda>(res, out', stores). (res, out', apply_stores m stores))
      (try_receive_into_slice_at (\<lambda>_. m) 0 r cursor_idx local_cursor out)"

subsection \<open>Monitoring (lines 664--706)\<close>

record ring_stats =
  rs_tail :: u64
  rs_active_subscribers :: nat
  rs_lags :: "u64 list"

definition lags_with_idx :: "ring \<Rightarrow> bytes \<Rightarrow> (nat \<times> u64) list" where
  "lags_with_idx r m =
    List.map_filter
      (\<lambda>i. let c = cursor_at m i
           in if c = CURSOR_UNCLAIMED then None else Some (i, saturating_sub (current_tail m) c))
      [0..<unat (max_subscribers r)]"

definition stats :: "ring \<Rightarrow> bytes \<Rightarrow> ring_stats" where
  "stats r m =
    (let tail = current_tail m;
         lags = foldl (\<lambda>lags i. let c = cursor_at m i
                                 in if c \<noteq> CURSOR_UNCLAIMED
                                    then lags @ [saturating_sub tail c] else lags)
                  [] [0..<unat (max_subscribers r)]
     in \<lparr>rs_tail = tail, rs_active_subscribers = length lags, rs_lags = lags\<rparr>)"

end
