(* ===== verification/Ring_Layout.thy ===== *)
theory Ring_Layout
  imports Ring
begin

text \<open>
  The layout of the ring map: sizes and addresses as natural numbers, the regions of the map
  (header fields, cursor table, wakeup-flag table, slots) and the frame lemmas that tell which
  field a store leaves alone. The collection \<open>frame_simps\<close> carries the later proofs.
\<close>

named_theorems frame_simps "fields of the ring map left alone by a store"

definition nslots_off :: "ring \<Rightarrow> nat" where
  "nslots_off r = (64 + 16 * unat (max_subscribers r) + 63) div 64 * 64"

definition nstride :: "ring \<Rightarrow> nat" where
  "nstride r = (12 + unat (slot_payload_size r) + 7) div 8 * 8"

definition ncap :: "ring \<Rightarrow> nat" where
  "ncap r = unat (capacity r)"

definition ring_bytes :: "ring \<Rightarrow> nat" where
  "ring_bytes r = nslots_off r + nstride r * ncap r"

text \<open>A handle that \<open>create\<close> or \<open>open\<close> returns has \<open>slots_off\<close> computed from
  \<open>max_subscribers\<close>; a map cannot be larger than \<open>isize::MAX\<close> bytes.\<close>

definition ring_wf :: "ring \<Rightarrow> bool" where
  "ring_wf r \<longleftrightarrow> capacity r \<noteq> 0 \<and> slots_off r = slots_offset (max_subscribers r)
     \<and> ring_bytes r < 2 ^ 63"

definition mapped :: "ring \<Rightarrow> bytes \<Rightarrow> bool" where
  "mapped r m \<longleftrightarrow> ring_wf r \<and> ring_bytes r \<le> length m"

definition slot_base :: "ring \<Rightarrow> nat \<Rightarrow> nat" where
  "slot_base r i = nslots_off r + i * nstride r"

subsection \<open>Layout functions as natural numbers\<close>

lemma unat_wakeflags_offset: "unat (wakeflags_offset ms) = 64 + 8 * unat ms"
proof -
  have b: "unat ms < 4294967296"
    by (rule unat_u32_less)
  have "unat (8 * ucast ms :: u64) = 8 * unat ms"
    using b by (subst unat_mult_small) simp_all
  then show ?thesis
    unfolding wakeflags_offset_def using b by (subst unat_add_small) simp_all
qed

lemma unat_slots_offset: "unat (slots_offset ms) = (64 + 16 * unat ms + 63) div 64 * 64"
proof -
  have b: "unat ms < 4294967296"
    by (rule unat_u32_less)
  have m: "unat (8 * ucast ms :: u64) = 8 * unat ms"
    using b by (subst unat_mult_small) simp_all
  have raw: "unat (wakeflags_offset ms + 8 * ucast ms) = 64 + 16 * unat ms"
    using b m by (subst unat_add_small) (simp_all add: unat_wakeflags_offset)
  have sum: "unat (wakeflags_offset ms + 8 * ucast ms + 63) = 64 + 16 * unat ms + 63"
    using b raw by (subst unat_add_small) simp_all
  have mask: "(63 :: u64) = mask 6"
    by (simp add: mask_eq_exp_minus_1)
  show ?thesis
    unfolding slots_offset_def Let_def
    by (subst (2) mask) (simp only: unat_align_down sum, simp)
qed

lemma unat_slot_stride: "unat (slot_stride s) = (12 + unat s + 7) div 8 * 8"
proof -
  have b: "unat s < 4294967296"
    by (rule unat_u32_less)
  have raw: "unat (12 + ucast s :: u64) = 12 + unat s"
    using b by (subst unat_add_small) simp_all
  have sum: "unat (12 + ucast s + 7 :: u64) = 12 + unat s + 7"
    using b raw by (subst unat_add_small) simp_all
  have mask: "(7 :: u64) = mask 3"
    by (simp add: mask_eq_exp_minus_1)
  have e: "slot_stride s = (12 + ucast s + 7) AND NOT (mask 3)"
    unfolding slot_stride_def Let_def by (simp add: mask_eq_exp_minus_1)
  show ?thesis
    unfolding e by (simp only: unat_align_down sum, simp)
qed

lemma unat_stride: "unat (stride r) = nstride r"
  by (simp add: stride_def unat_slot_stride nstride_def)

lemma nslots_off_bounds: "64 + 16 * unat (max_subscribers r) \<le> nslots_off r"
  unfolding nslots_off_def
  using div_mult_mod_eq [of "64 + 16 * unat (max_subscribers r) + 63" 64]
    mod_less_divisor [of 64 "64 + 16 * unat (max_subscribers r) + 63"] by linarith

lemma nslots_off_dvd: "64 dvd nslots_off r"
  by (simp add: nslots_off_def)

lemma nstride_bounds: "12 + unat (slot_payload_size r) \<le> nstride r"
  unfolding nstride_def
  using div_mult_mod_eq [of "12 + unat (slot_payload_size r) + 7" 8]
    mod_less_divisor [of 8 "12 + unat (slot_payload_size r) + 7"] by linarith

lemma nstride_dvd: "8 dvd nstride r"
  by (simp add: nstride_def)

lemma wakeflag_addr_eq: "wakeflag_addr r i = 64 + 8 * unat (max_subscribers r) + 8 * i"
  by (simp add: wakeflag_addr_def unat_wakeflags_offset)

lemma cursor_addr_eq: "cursor_addr i = 64 + 8 * i"
  by (simp add: cursor_addr_def)

lemma ring_wf_ncap: "ring_wf r \<Longrightarrow> 0 < ncap r"
  by (simp add: ring_wf_def ncap_def unat_gt_0)

lemma slot_base_end:
  assumes "i < ncap r"
  shows "slot_base r i + nstride r \<le> ring_bytes r"
proof -
  have "(i + 1) * nstride r \<le> ncap r * nstride r"
    using assms by (intro mult_le_mono1) simp
  then show ?thesis
    by (simp add: slot_base_def ring_bytes_def algebra_simps)
qed

lemma slot_addr_base:
  assumes wf: "ring_wf r"
  shows "slot_addr r cur = slot_base r (unat cur mod ncap r)"
proof -
  let ?i = "unat cur mod ncap r"
  have i: "?i < ncap r"
    using ring_wf_ncap [OF wf] by simp
  have idx: "unat (cur mod ucast (capacity r)) = ?i"
    by (simp add: unat_mod ncap_def)
  have end': "slot_base r ?i + nstride r < 2 ^ 63"
    using slot_base_end [OF i] wf by (simp add: ring_wf_def)
  have so: "unat (slots_off r) = nslots_off r"
    using wf by (simp add: ring_wf_def unat_slots_offset nslots_off_def)
  have "?i * nstride r < 2 ^ 63"
    using end' unfolding slot_base_def by linarith
  then have prod: "unat (cur mod ucast (capacity r) * stride r) = ?i * nstride r"
    by (subst unat_mult_small) (simp_all add: idx unat_stride)
  have "unat (slots_off r + cur mod ucast (capacity r) * stride r)
      = nslots_off r + ?i * nstride r"
    using end' by (subst unat_add_small) (simp_all add: so prod slot_base_def)
  then show ?thesis
    by (simp add: slot_addr_def slot_base_def)
qed

lemma slot_base_disjoint:
  assumes "i \<noteq> j"
  shows "slot_base r i + nstride r \<le> slot_base r j \<or> slot_base r j + nstride r \<le> slot_base r i"
proof -
  have "i + 1 \<le> j \<or> j + 1 \<le> i"
    using assms by linarith
  then show ?thesis
  proof
    assume "i + 1 \<le> j"
    then have "(i + 1) * nstride r \<le> j * nstride r"
      by (rule mult_le_mono1)
    then show ?thesis by (simp add: slot_base_def algebra_simps)
  next
    assume "j + 1 \<le> i"
    then have "(j + 1) * nstride r \<le> i * nstride r"
      by (rule mult_le_mono1)
    then show ?thesis by (simp add: slot_base_def algebra_simps)
  qed
qed

lemma mapped_bounds:
  assumes "mapped r m"
  shows "64 + 16 * unat (max_subscribers r) \<le> length m"
    and "i < ncap r \<Longrightarrow> slot_base r i + nstride r \<le> length m"
    and "64 + 16 * unat (max_subscribers r) \<le> slot_base r i"
  using assms nslots_off_bounds [of r] slot_base_end [of i r]
  by (auto simp: mapped_def ring_bytes_def slot_base_def)

lemma mapped_length: "mapped r m \<Longrightarrow> length m' = length m \<Longrightarrow> mapped r m'"
  by (simp add: mapped_def)

lemma mmap_size_ring_bytes:
  assumes "ring_bytes r < 2 ^ 63"
  shows "unat (mmap_size (capacity r) (slot_payload_size r) (max_subscribers r)) = ring_bytes r"
proof -
  have "nstride r * ncap r < 2 ^ 63"
    using assms unfolding ring_bytes_def by linarith
  then have prod: "unat (slot_stride (slot_payload_size r) * ucast (capacity r)) = nstride r * ncap r"
    by (subst unat_mult_small) (simp_all add: unat_slot_stride nstride_def ncap_def)
  show ?thesis
    unfolding mmap_size_def
    using assms by (subst unat_add_small)
      (simp_all add: prod unat_slots_offset nslots_off_def ring_bytes_def)
qed

subsection \<open>Lists of stores\<close>

lemma apply_stores_simps [simp]:
  "apply_stores m [] = m"
  "apply_stores m (s # ss) = apply_stores (apply_store m s) ss"
  "apply_stores m (ss @ ts) = apply_stores (apply_stores m ss) ts"
  by (simp_all add: apply_stores_def)

definition store_within :: "nat \<Rightarrow> nat \<Rightarrow> store \<Rightarrow> bool" where
  "store_within lo hi s \<longleftrightarrow> lo \<le> fst s \<and> fst s + length (snd s) \<le> hi"

lemma apply_store_within:
  assumes "store_within lo hi s" "hi \<le> length m"
  shows "length (apply_store m s) = length m"
    and "disjoint_ranges lo (hi - lo) a n \<Longrightarrow> sub (apply_store m s) a n = sub m a n"
  using assms
  by (auto simp: store_within_def apply_store_def disjoint_ranges_def intro!: sub_poke_other)

lemma apply_stores_within:
  assumes "\<forall>s \<in> set ss. store_within lo hi s" "hi \<le> length m"
  shows "length (apply_stores m ss) = length m"
    and "disjoint_ranges lo (hi - lo) a n \<Longrightarrow> sub (apply_stores m ss) a n = sub m a n"
  using assms by (induction ss arbitrary: m) (auto simp: apply_store_within)

lemma poke_empty [simp]: "poke m off [] = m"
  by (simp add: poke_def)

lemma apply_byte_stores:
  assumes "a + n \<le> length m" "n \<le> length d"
  shows "apply_stores m (map (\<lambda>k. (a + k, [d ! k])) [0..<n]) = poke m a (take n d)"
  using assms
proof (induction n)
  case 0
  show ?case by simp
next
  case (Suc n)
  have "apply_stores m (map (\<lambda>k. (a + k, [d ! k])) [0..<Suc n])
      = poke (poke m a (take n d)) (a + n) [d ! n]"
    using Suc by (simp add: apply_store_def)
  also have "\<dots> = poke m a (take n d @ [d ! n])"
    using Suc.prems poke_poke_append [of a "take n d" "[d ! n]" m] by (simp add: min_def)
  finally show ?case
    using Suc.prems by (simp add: take_Suc_conv_app_nth)
qed

subsection \<open>Views of a slot\<close>

definition slot_seq :: "ring \<Rightarrow> bytes \<Rightarrow> nat \<Rightarrow> u64" where
  "slot_seq r m i = rd64 m (slot_base r i)"

definition slot_len :: "ring \<Rightarrow> bytes \<Rightarrow> nat \<Rightarrow> u32" where
  "slot_len r m i = rd32 m (slot_base r i + 8)"

definition slot_data :: "ring \<Rightarrow> bytes \<Rightarrow> nat \<Rightarrow> bytes" where
  "slot_data r m i = sub m (slot_base r i + 12) (unat (slot_len r m i))"

text \<open>Everything the operations read of slot \<open>i\<close>.\<close>

definition slot_view :: "ring \<Rightarrow> bytes \<Rightarrow> nat \<Rightarrow> bytes" where
  "slot_view r m i = sub m (slot_base r i) (nstride r)"

lemma slot_view_seq: "slot_seq r m i = rd64 (slot_view r m i) 0"
  using nstride_bounds [of r] by (simp add: slot_seq_def slot_view_def rd64_def sub_sub)

lemma slot_view_len: "slot_len r m i = rd32 (slot_view r m i) 8"
  using nstride_bounds [of r] by (simp add: slot_len_def slot_view_def rd32_def sub_sub)

lemma slot_view_data:
  assumes "unat (slot_len r m i) \<le> unat (slot_payload_size r)"
  shows "slot_data r m i = sub (slot_view r m i) 12 (unat (slot_len r m i))"
  using assms nstride_bounds [of r] by (simp add: slot_data_def slot_view_def sub_sub)

lemma slot_view_cong:
  assumes "slot_view r m i = slot_view r m' i"
  shows "slot_seq r m i = slot_seq r m' i"
    and "slot_len r m i = slot_len r m' i"
    and "unat (slot_len r m' i) \<le> unat (slot_payload_size r)
      \<Longrightarrow> slot_data r m i = slot_data r m' i"
  using assms by (simp_all add: slot_view_seq slot_view_len slot_view_data)

subsection \<open>Stores below the slots\<close>

lemma slot_view_low_poke:
  assumes "mapped r m" "off + length xs \<le> 64 + 16 * unat (max_subscribers r)"
  shows "slot_view r (poke m off xs) i = slot_view r m i"
  using assms mapped_bounds(1,3) [OF assms(1)] unfolding slot_view_def
  by (intro sub_poke_other) (auto simp: disjoint_ranges_def intro: le_trans)

lemma slot_view_set_tail [frame_simps]:
  "mapped r m \<Longrightarrow> slot_view r (set_tail m v) i = slot_view r m i"
  by (simp add: set_tail_def wr64_def slot_view_low_poke)

lemma slot_view_set_cursor [frame_simps]:
  "mapped r m \<Longrightarrow> j < unat (max_subscribers r)
    \<Longrightarrow> slot_view r (set_cursor m j v) i = slot_view r m i"
  by (simp add: set_cursor_def wr64_def slot_view_low_poke cursor_addr_eq)

lemma slot_view_wakeflag [frame_simps]:
  "mapped r m \<Longrightarrow> j < unat (max_subscribers r)
    \<Longrightarrow> slot_view r (wr64 m (wakeflag_addr r j) v) i = slot_view r m i"
  by (simp add: wr64_def slot_view_low_poke wakeflag_addr_eq)

lemma slot_view_generation [frame_simps]:
  "mapped r m \<Longrightarrow> slot_view r (wr64 m OFF_GENERATION v) i = slot_view r m i"
  by (simp add: wr64_def slot_view_low_poke)

lemma mapped_tail_room: "mapped r m \<Longrightarrow> 64 \<le> length m"
  using mapped_bounds(1) [of r m] by simp

lemma mapped_cursor_room:
  "mapped r m \<Longrightarrow> j < unat (max_subscribers r) \<Longrightarrow> cursor_addr j + 8 \<le> length m"
  using mapped_bounds(1) [of r m] by (simp add: cursor_addr_eq)

lemma mapped_wakeflag_room:
  "mapped r m \<Longrightarrow> j < unat (max_subscribers r) \<Longrightarrow> wakeflag_addr r j + 8 \<le> length m"
  using mapped_bounds(1) [of r m] by (simp add: wakeflag_addr_eq)

lemma length_low_writes [simp]:
  "mapped r m \<Longrightarrow> length (set_tail m v) = length m"
  "mapped r m \<Longrightarrow> j < unat (max_subscribers r) \<Longrightarrow> length (set_cursor m j v) = length m"
  "mapped r m \<Longrightarrow> j < unat (max_subscribers r)
    \<Longrightarrow> length (wr64 m (wakeflag_addr r j) v) = length m"
  "mapped r m \<Longrightarrow> length (wr64 m OFF_GENERATION v) = length m"
  using mapped_tail_room [of r m] mapped_cursor_room [of r m j] mapped_wakeflag_room [of r m j]
  by (simp_all add: set_tail_def set_cursor_def)

lemma mapped_low_writes [frame_simps]:
  "mapped r m \<Longrightarrow> mapped r (set_tail m v)"
  "mapped r m \<Longrightarrow> j < unat (max_subscribers r) \<Longrightarrow> mapped r (set_cursor m j v)"
  "mapped r m \<Longrightarrow> j < unat (max_subscribers r) \<Longrightarrow> mapped r (wr64 m (wakeflag_addr r j) v)"
  "mapped r m \<Longrightarrow> mapped r (wr64 m OFF_GENERATION v)"
  by (auto intro: mapped_length)

lemma header_set_tail [frame_simps]:
  assumes "mapped r m"
  shows "current_tail (set_tail m v) = v"
    and "generation (set_tail m v) = generation m"
    and "cursor_at (set_tail m v) j = cursor_at m j"
    and "wakeflag_at r (set_tail m v) j = wakeflag_at r m j"
  using mapped_tail_room [OF assms]
  by (simp_all add: current_tail_def set_tail_def generation_def cursor_at_def wakeflag_at_def
      cursor_addr_eq wakeflag_addr_eq buf_simps disjoint_ranges_def)

lemma header_set_cursor [frame_simps]:
  assumes "mapped r m" "i < unat (max_subscribers r)"
  shows "current_tail (set_cursor m i v) = current_tail m"
    and "generation (set_cursor m i v) = generation m"
    and "cursor_at (set_cursor m i v) j = (if j = i then v else cursor_at m j)"
    and "wakeflag_at r (set_cursor m i v) j = wakeflag_at r m j"
proof -
  show "cursor_at (set_cursor m i v) j = (if j = i then v else cursor_at m j)"
    using mapped_cursor_room [OF assms] disjoint_table [of i j 64]
    by (simp add: cursor_at_def set_cursor_def cursor_addr_eq buf_simps)
qed (use mapped_cursor_room [OF assms] assms(2) in
  \<open>simp_all add: current_tail_def set_cursor_def generation_def wakeflag_at_def
      cursor_addr_eq wakeflag_addr_eq buf_simps disjoint_ranges_def\<close>)

lemma header_wakeflag [frame_simps]:
  assumes "mapped r m" "i < unat (max_subscribers r)"
  shows "current_tail (wr64 m (wakeflag_addr r i) v) = current_tail m"
    and "generation (wr64 m (wakeflag_addr r i) v) = generation m"
    and "j < unat (max_subscribers r)
      \<Longrightarrow> cursor_at (wr64 m (wakeflag_addr r i) v) j = cursor_at m j"
    and "wakeflag_at r (wr64 m (wakeflag_addr r i) v) j = (if j = i then v else wakeflag_at r m j)"
proof -
  show "wakeflag_at r (wr64 m (wakeflag_addr r i) v) j = (if j = i then v else wakeflag_at r m j)"
    using mapped_wakeflag_room [OF assms]
      disjoint_table [of i j "64 + 8 * unat (max_subscribers r)"]
    by (simp add: wakeflag_at_def wakeflag_addr_eq buf_simps)
qed (use mapped_wakeflag_room [OF assms] in
  \<open>simp_all add: current_tail_def generation_def cursor_at_def
      cursor_addr_eq wakeflag_addr_eq buf_simps disjoint_ranges_def\<close>)

lemma header_generation [frame_simps]:
  assumes "mapped r m"
  shows "current_tail (wr64 m OFF_GENERATION v) = current_tail m"
    and "generation (wr64 m OFF_GENERATION v) = v"
    and "cursor_at (wr64 m OFF_GENERATION v) j = cursor_at m j"
    and "wakeflag_at r (wr64 m OFF_GENERATION v) j = wakeflag_at r m j"
  using mapped_tail_room [OF assms]
  by (simp_all add: current_tail_def generation_def cursor_at_def wakeflag_at_def
      cursor_addr_eq wakeflag_addr_eq buf_simps disjoint_ranges_def)

subsection \<open>Writing a slot\<close>

lemma write_slot_stores_within:
  assumes "ring_wf r" "length data \<le> unat (slot_payload_size r)"
  shows "\<forall>s \<in> set (write_slot_stores r tail data).
    store_within (slot_base r (unat tail mod ncap r))
      (slot_base r (unat tail mod ncap r) + nstride r) s"
  using nstride_bounds [of r] assms
  by (auto simp: write_slot_stores_def Let_def store_within_def slot_addr_base)

lemma write_slot_ok:
  assumes "mapped r m" "length data \<le> unat (slot_payload_size r)"
  shows "write_slot r m tail data = Some (apply_stores m (write_slot_stores r tail data))"
proof -
  have wf: "ring_wf r"
    using assms(1) by (simp add: mapped_def)
  then have "slot_base r (unat tail mod ncap r) + nstride r \<le> length m"
    using assms(1) ring_wf_ncap [OF wf] by (intro mapped_bounds(2)) simp_all
  then show ?thesis
    using wf assms(2) nstride_bounds [of r] by (simp add: write_slot_def slot_addr_base ring_wf_def)
qed

lemma apply_write_slot:
  fixes tail :: u64
  assumes "mapped r m" "length data \<le> unat (slot_payload_size r)"
  defines "i \<equiv> unat tail mod ncap r"
  shows "apply_stores m (write_slot_stores r tail data)
    = poke (poke (poke (poke m (slot_base r i) (u64_le (tail OR SEQ_WRITING_BIT)))
        (slot_base r i + 8) (u32_le (of_nat (length data))))
        (slot_base r i + 12) data) (slot_base r i) (u64_le tail)"
proof -
  have wf: "ring_wf r"
    using assms(1) by (simp add: mapped_def)
  have "slot_base r i + nstride r \<le> length m"
    using assms(1) ring_wf_ncap [OF wf] by (auto simp: i_def intro!: mapped_bounds(2))
  then have "slot_base r i + 12 + length data \<le> length m"
    using nstride_bounds [of r] assms(2) by linarith
  then show ?thesis
    unfolding write_slot_stores_def Let_def slot_addr_base [OF wf] i_def [symmetric]
    by (simp add: apply_store_def apply_byte_stores)
qed

text \<open>What a completed \<open>write_slot\<close> leaves behind.\<close>

lemma write_slot_effect:
  fixes tail :: u64
  assumes "mapped r m" "length data \<le> unat (slot_payload_size r)"
  defines "i \<equiv> unat tail mod ncap r"
    and "m' \<equiv> apply_stores m (write_slot_stores r tail data)"
  shows "length m' = length m"
    and "slot_seq r m' i = tail"
    and "slot_len r m' i = of_nat (length data)"
    and "slot_data r m' i = data"
proof -
  have wf: "ring_wf r"
    using assms(1) by (simp add: mapped_def)
  have room: "slot_base r i + nstride r \<le> length m"
    using assms(1) ring_wf_ncap [OF wf] by (auto simp: i_def intro!: mapped_bounds(2))
  then have room': "slot_base r i + 12 + length data \<le> length m"
    using nstride_bounds [of r] assms(2) by linarith
  have small: "unat (of_nat (length data) :: u32) = length data"
    using assms(2) unat_u32_less [of "slot_payload_size r"] by (intro unat_of_nat_u32) simp
  note m' = m'_def [unfolded apply_write_slot [OF assms(1,2)], folded i_def]
  show "length m' = length m"
    using room' by (simp add: m')
  show "slot_seq r m' i = tail"
    using room' by (simp add: m' slot_seq_def rd64_def sub_poke_same)
  show len: "slot_len r m' i = of_nat (length data)"
    using room' by (simp add: m' slot_len_def rd32_def sub_poke_same sub_poke_other
        disjoint_ranges_def)
  show "slot_data r m' i = data"
    unfolding slot_data_def len small
    using room' by (simp add: m' sub_poke_same sub_poke_other disjoint_ranges_def)
qed

lemma write_slot_frame:
  fixes tail :: u64
  assumes "mapped r m" "length data \<le> unat (slot_payload_size r)"
  defines "m' \<equiv> apply_stores m (write_slot_stores r tail data)"
  shows "mapped r m'"
    and "j \<noteq> unat tail mod ncap r \<Longrightarrow> slot_view r m' j = slot_view r m j"
    and "current_tail m' = current_tail m"
    and "generation m' = generation m"
    and "j < unat (max_subscribers r) \<Longrightarrow> cursor_at m' j = cursor_at m j"
    and "j < unat (max_subscribers r) \<Longrightarrow> wakeflag_at r m' j = wakeflag_at r m j"
proof -
  let ?i = "unat tail mod ncap r"
  have wf: "ring_wf r"
    using assms(1) by (simp add: mapped_def)
  have room: "slot_base r ?i + nstride r \<le> length m"
    using assms(1) ring_wf_ncap [OF wf] by (intro mapped_bounds(2)) simp_all
  note within = apply_stores_within [OF write_slot_stores_within [OF wf assms(2)] room,
      folded m'_def]
  show "mapped r m'"
    using within(1) assms(1) by (rule mapped_length [rotated])
  show "slot_view r m' j = slot_view r m j" if "j \<noteq> ?i"
    using slot_base_disjoint [OF that, of r] within(2)
    by (auto simp: slot_view_def disjoint_ranges_def)
  have low: "sub m' a 8 = sub m a 8" if "a + 8 \<le> 64 + 16 * unat (max_subscribers r)" for a
    using that mapped_bounds(3) [OF assms(1), of ?i] within(2)
    by (auto simp: disjoint_ranges_def)
  show "current_tail m' = current_tail m" "generation m' = generation m"
    by (simp_all add: current_tail_def generation_def rd64_def low)
  show "cursor_at m' j = cursor_at m j" "wakeflag_at r m' j = wakeflag_at r m j"
    if "j < unat (max_subscribers r)"
    using that
    by (simp_all add: cursor_at_def wakeflag_at_def rd64_def low cursor_addr_eq wakeflag_addr_eq)
qed

end
