(* ===== verification/Ring_Log.thy ===== *)
theory Ring_Log
  imports Ring_Layout
begin

text \<open>
  The abstract ring: a log of messages with one read position per cursor slot, and the proof that
  the byte-level operations of \<open>Ring\<close> implement it. \<open>log_view\<close> ties the slots of the map to the
  last \<open>capacity\<close> messages of the log; \<open>ring_refines\<close> adds the cursor table.
\<close>

subsection \<open>The writing bit\<close>

lemma writing_bit_iff: "bit SEQ_WRITING_BIT n \<longleftrightarrow> n = 63"
  unfolding SEQ_WRITING_BIT_def bit_push_bit_iff bit_1_iff by auto

lemma clean_iff_bit: "s AND SEQ_WRITING_BIT = 0 \<longleftrightarrow> \<not> bit s 63"
proof
  assume "s AND SEQ_WRITING_BIT = 0"
  then have "\<not> bit (s AND SEQ_WRITING_BIT) 63"
    by simp
  then show "\<not> bit s 63"
    by (simp add: bit_and_iff writing_bit_iff)
next
  assume "\<not> bit s 63"
  then show "s AND SEQ_WRITING_BIT = 0"
    by (intro bit_word_eqI) (auto simp: bit_and_iff writing_bit_iff)
qed

lemma bit63_iff: "bit (s :: u64) 63 \<longleftrightarrow> 2 ^ 63 \<le> unat s"
proof -
  have "bit s 63 \<longleftrightarrow> bit (unat s) 63"
    by (simp add: bit_unsigned_iff)
  then have "bit s 63 \<longleftrightarrow> odd (unat s div 2 ^ 63)"
    by (simp only: bit_iff_odd)
  moreover have "unat s div 2 ^ 63 \<le> 1"
    using unat_u64_less [of s] by simp
  ultimately show ?thesis
    by (cases "unat s div 2 ^ 63") (auto simp: div_eq_0_iff)
qed

lemma clean_iff: "s AND SEQ_WRITING_BIT = 0 \<longleftrightarrow> unat s < 2 ^ 63"
  by (auto simp: clean_iff_bit bit63_iff)

lemma marked_not_clean: "(s OR SEQ_WRITING_BIT) AND SEQ_WRITING_BIT \<noteq> 0"
  unfolding clean_iff_bit bit_or_iff writing_bit_iff by simp

lemma unmark: "s AND SEQ_WRITING_BIT = 0 \<Longrightarrow> (s OR SEQ_WRITING_BIT) AND NOT SEQ_WRITING_BIT = s"
  by (rule bit_word_eqI) (auto simp: clean_iff_bit bit_simps writing_bit_iff)

lemma clean_and_not: "s AND SEQ_WRITING_BIT = 0 \<Longrightarrow> s AND NOT SEQ_WRITING_BIT = s"
  by (rule bit_word_eqI) (auto simp: clean_iff_bit bit_simps writing_bit_iff)

lemma unat_of_nat_small: "n < 2 ^ 63 \<Longrightarrow> unat (of_nat n :: u64) = n"
  by (rule unat_of_nat_u64) simp

subsection \<open>The log in the map\<close>

text \<open>\<open>base\<close> is the number of the first message of the log: 0 for a fresh or reused ring, the
  recovered tail after \<open>set_tail\<close>.\<close>

definition log_view :: "ring \<Rightarrow> bytes \<Rightarrow> nat \<Rightarrow> bytes list \<Rightarrow> bool" where
  "log_view r m base msgs \<longleftrightarrow> mapped r m
     \<and> unat (current_tail m) = base + length msgs
     \<and> base + length msgs < 2 ^ 63
     \<and> (\<forall>d \<in> set msgs. length d \<le> unat (slot_payload_size r))
     \<and> (\<forall>k. base \<le> k \<and> k < base + length msgs \<and> base + length msgs \<le> k + ncap r \<longrightarrow>
          slot_seq r m (k mod ncap r) = of_nat k
          \<and> slot_len r m (k mod ncap r) = of_nat (length (msgs ! (k - base)))
          \<and> slot_data r m (k mod ncap r) = msgs ! (k - base))"

lemma log_viewD:
  assumes "log_view r m base msgs"
  shows "mapped r m" and "unat (current_tail m) = base + length msgs"
    and "base + length msgs < 2 ^ 63"
    and "current_tail m = of_nat (base + length msgs)"
  using assms by (auto simp: log_view_def word_unat_eq_iff unat_of_nat_small simp flip: of_nat_add)

lemma log_view_slot:
  assumes "log_view r m base msgs"
    and "base \<le> k" "k < base + length msgs" "base + length msgs \<le> k + ncap r"
  shows "slot_seq r m (k mod ncap r) = of_nat k"
    and "slot_len r m (k mod ncap r) = of_nat (length (msgs ! (k - base)))"
    and "slot_data r m (k mod ncap r) = msgs ! (k - base)"
  using assms by (auto simp: log_view_def)

lemma log_view_payload:
  assumes "log_view r m base msgs" "base \<le> k" "k < base + length msgs"
  shows "length (msgs ! (k - base)) \<le> unat (slot_payload_size r)"
  using assms by (auto simp: log_view_def)

text \<open>Stores that leave the slots and the tail alone keep the log.\<close>

lemma log_view_cong:
  assumes "log_view r m base msgs" "mapped r m'" "current_tail m' = current_tail m"
    and "\<And>i. slot_view r m' i = slot_view r m i"
  shows "log_view r m' base msgs"
proof -
  have *: "slot_seq r m' i = slot_seq r m i" "slot_len r m' i = slot_len r m i" for i
    using slot_view_cong(1,2) [OF assms(4) [of i]] by auto
  have "slot_data r m' (k mod ncap r) = slot_data r m (k mod ncap r)"
    if k: "base \<le> k" "k < base + length msgs" "base + length msgs \<le> k + ncap r" for k
  proof (rule slot_view_cong(3) [OF assms(4)])
    have "length (msgs ! (k - base)) \<le> unat (slot_payload_size r)"
      by (rule log_view_payload [OF assms(1) k(1,2)])
    then show "unat (slot_len r m (k mod ncap r)) \<le> unat (slot_payload_size r)"
      using unat_u32_less [of "slot_payload_size r"]
      by (simp add: log_view_slot(2) [OF assms(1) k] unat_of_nat_u32)
  qed
  with assms * show ?thesis
    by (simp add: log_view_def)
qed

text \<open>Completing \<open>write_slot\<close> and the store of the tail appends one message.\<close>

lemma log_view_append:
  assumes view: "log_view r m base msgs"
    and len: "length data \<le> unat (slot_payload_size r)"
    and room: "base + length msgs + 1 < 2 ^ 63"
  defines "m' \<equiv> apply_stores m (write_slot_stores r (current_tail m) data)"
  shows "log_view r (set_tail m' (current_tail m + 1)) base (msgs @ [data])"
proof -
  let ?T = "base + length msgs" and ?n = "ncap r"
  let ?m = "set_tail m' (current_tail m + 1)"
  note mp = log_viewD(1) [OF view] and T = log_viewD(2) [OF view]
  note eff = write_slot_effect [OF mp len, where tail = "current_tail m", folded m'_def, unfolded T]
  note frame = write_slot_frame [OF mp len, where tail = "current_tail m", folded m'_def, unfolded T]
  have sv: "slot_view r ?m i = slot_view r m' i" for i
    using frame(1) by (simp add: frame_simps)
  have tail: "unat (current_tail m + 1) = ?T + 1"
    using T room by (subst unat_Suc_word) simp_all
  have small: "unat (of_nat (length data) :: u32) = length data"
    using len unat_u32_less [of "slot_payload_size r"] by (intro unat_of_nat_u32) simp
  have new: "slot_seq r ?m (?T mod ?n) = of_nat ?T" "slot_len r ?m (?T mod ?n) = of_nat (length data)"
      "slot_data r ?m (?T mod ?n) = data"
    using slot_view_cong [OF sv [of "?T mod ?n"]] eff small len
    by (simp_all add: log_viewD(4) [OF view])
  have old: "slot_seq r ?m (k mod ?n) = of_nat k
      \<and> slot_len r ?m (k mod ?n) = of_nat (length (msgs ! (k - base)))
      \<and> slot_data r ?m (k mod ?n) = msgs ! (k - base)"
    if k: "base \<le> k" "k < ?T" "?T + 1 \<le> k + ?n" for k
  proof -
    have "k mod ?n \<noteq> ?T mod ?n"
    proof
      assume "k mod ?n = ?T mod ?n"
      then have "?n dvd ?T - k"
        using k(2) by (metis less_imp_le mod_eq_dvd_iff_nat)
      then show False
        using k by (auto dest!: dvd_imp_le)
    qed
    then have v: "slot_view r ?m (k mod ?n) = slot_view r m (k mod ?n)"
      using sv frame(2) by simp
    have *: "?T \<le> k + ?n"
      using k by simp
    note slot = log_view_slot [OF view k(1,2) *]
    have "unat (slot_len r m (k mod ?n)) \<le> unat (slot_payload_size r)"
      using log_view_payload [OF view k(1,2)] unat_u32_less [of "slot_payload_size r"]
      by (simp add: slot unat_of_nat_u32)
    then show ?thesis
      using slot_view_cong [OF v] slot by simp
  qed
  have "(msgs @ [data]) ! (k - base) = (if k = ?T then data else msgs ! (k - base))"
    if "base \<le> k" "k \<le> ?T" for k
    using that by (auto simp: nth_append)
  moreover have "k = ?T \<or> k < ?T" if "k < base + length (msgs @ [data])" for k
    using that by auto
  ultimately show ?thesis
    unfolding log_view_def using view new old frame(1) len room tail
    by (auto simp: frame_simps log_view_def less_Suc_eq)
qed

subsection \<open>Receiving in a quiescent map\<close>

text \<open>The newest message of the log that shares its slot with message \<open>c\<close>: where a reader that
  was overtaken by \<open>publish_drop_oldest\<close> continues.\<close>

definition skip_to :: "nat \<Rightarrow> nat \<Rightarrow> nat \<Rightarrow> nat" where
  "skip_to n T c = c + (T - 1 - c) div n * n"

lemma skip_to_bounds:
  assumes "c < T" "0 < n"
  shows "c \<le> skip_to n T c" and "skip_to n T c < T" and "T \<le> skip_to n T c + n"
    and "skip_to n T c mod n = c mod n"
proof -
  have "(T - 1 - c) div n * n \<le> T - 1 - c"
    by simp
  then show "skip_to n T c < T"
    using assms unfolding skip_to_def by linarith
  have "T - 1 - c < (T - 1 - c) div n * n + n"
    using assms(2) by (metis add.commute div_mult_mod_eq mod_less_divisor nat_add_left_cancel_less)
  then show "T \<le> skip_to n T c + n"
    using assms(1) unfolding skip_to_def by linarith
qed (simp_all add: skip_to_def)

lemma skip_to_here: "c < T \<Longrightarrow> T \<le> c + n \<Longrightarrow> skip_to n T c = c"
  by (simp add: skip_to_def)

lemma copy_from_const:
  "addr + n \<le> length m \<Longrightarrow> copy_from (\<lambda>_. m) t addr n = sub m addr n"
  by (rule nth_equalityI) (auto simp: copy_from_def sub_def)

lemma slot_reads:
  assumes view: "log_view r m base msgs"
    and k: "base \<le> k" "k < base + length msgs" "base + length msgs \<le> k + ncap r"
    and eq: "unat eff mod ncap r = k mod ncap r"
  shows "rd64 m (slot_addr r eff) = of_nat k"
    and "unat (rd32 m (slot_addr r eff + 8)) = length (msgs ! (k - base))"
    and "copy_from (\<lambda>_. m) t (slot_addr r eff + 12) (length (msgs ! (k - base)))
      = msgs ! (k - base)"
proof -
  have wf: "ring_wf r" and mp: "mapped r m"
    using log_viewD(1) [OF view] by (auto simp: mapped_def)
  note slot = log_view_slot [OF view k]
  have base: "slot_addr r eff = slot_base r (k mod ncap r)"
    using eq by (simp add: slot_addr_base [OF wf])
  have len: "length (msgs ! (k - base)) \<le> unat (slot_payload_size r)"
    by (rule log_view_payload [OF view k(1,2)])
  then have l32: "unat (slot_len r m (k mod ncap r)) = length (msgs ! (k - base))"
    using unat_u32_less [of "slot_payload_size r"] by (simp add: slot unat_of_nat_u32)
  show "rd64 m (slot_addr r eff) = of_nat k"
    using slot(1) by (simp add: base slot_seq_def)
  show "unat (rd32 m (slot_addr r eff + 8)) = length (msgs ! (k - base))"
    using l32 by (simp add: base slot_len_def)
  have "slot_base r (k mod ncap r) + nstride r \<le> length m"
    using ring_wf_ncap [OF wf] by (intro mapped_bounds(2) [OF mp]) simp
  then have "slot_addr r eff + 12 + length (msgs ! (k - base)) \<le> length m"
    using len nstride_bounds [of r] by (simp add: base)
  then show "copy_from (\<lambda>_. m) t (slot_addr r eff + 12) (length (msgs ! (k - base)))
      = msgs ! (k - base)"
    using slot(3) l32 by (simp add: copy_from_const base slot_data_def)
qed

lemma recv_loop_accept:
  assumes view: "log_view r m base msgs"
    and k: "base \<le> k" "k < base + length msgs" "base + length msgs \<le> k + ncap r"
  shows "\<exists>t'. recv_loop (\<lambda>_. m) (Suc n) r (of_nat k) out t
    = (Some (of_nat k), msgs ! (k - base), t')"
proof -
  have small: "k < 2 ^ 63"
    using log_viewD(3) [OF view] k by linarith
  then have clean: "of_nat k AND SEQ_WRITING_BIT = 0"
    by (simp only: clean_iff unat_of_nat_small)
  have "unat (of_nat k :: u64) mod ncap r = k mod ncap r"
    using small by (simp only: unat_of_nat_small)
  note reads = slot_reads [OF view k this]
  show ?thesis
    using log_view_payload [OF view k(1,2)] clean
    by (simp add: reads Let_def)
qed

lemma recv_loop_skip:
  assumes view: "log_view r m base msgs"
    and c: "base \<le> c" "c < base + length msgs"
  defines "k \<equiv> skip_to (ncap r) (base + length msgs) c"
  shows "\<exists>t'. recv_loop (\<lambda>_. m) (Suc (Suc n)) r (of_nat c) out t
    = (Some (of_nat k), msgs ! (k - base), t')"
proof (cases "k = c")
  case True
  have wf: "0 < ncap r"
    using log_viewD(1) [OF view] by (simp add: mapped_def ring_wf_ncap)
  then show ?thesis
    using recv_loop_accept [OF view c(1,2)] skip_to_bounds(3) [OF c(2) wf] True
    by (simp add: k_def)
next
  case False
  have "0 < ncap r"
    using log_viewD(1) [OF view] by (simp add: mapped_def ring_wf_ncap)
  note b = skip_to_bounds [OF c(2) this, folded k_def]
  have k: "base \<le> k" "k < base + length msgs" "base + length msgs \<le> k + ncap r"
    using b c by linarith+
  have small: "k < 2 ^ 63" "c < 2 ^ 63"
    using log_viewD(3) [OF view] k c by linarith+
  have clean: "of_nat k AND SEQ_WRITING_BIT = 0"
    using small(1) by (simp only: clean_iff unat_of_nat_small)
  have less: "(of_nat c :: u64) < of_nat k"
    using False b(1) small by (simp add: word_less_nat_alt unat_of_nat_small)
  have "unat (of_nat c :: u64) mod ncap r = k mod ncap r"
    using b(4) small(2) by (simp only: unat_of_nat_small)
  note reads = slot_reads [OF view k this]
  have "recv_loop (\<lambda>_. m) (Suc (Suc n)) r (of_nat c) out t
      = recv_loop (\<lambda>_. m) (Suc n) r (of_nat k) out (t + 1)"
    by (subst recv_loop.simps) (simp only: Let_def reads clean less if_True if_False simp_thms not_False_eq_True)
  then show ?thesis
    using recv_loop_accept [OF view k] by simp
qed

text \<open>The functional behaviour of \<open>try_receive\<close> on a map that no one else changes.\<close>

lemma try_receive_seq:
  assumes view: "log_view r m base msgs" and c: "base \<le> unat c"
  shows "try_receive r m idx c out =
    (if unat c < base + length msgs
     then let k = skip_to (ncap r) (base + length msgs) (unat c)
          in Some (Some (of_nat (k + 1)), msgs ! (k - base), set_cursor m idx (of_nat (k + 1)))
     else Some (None, out, m))"
proof (cases "unat c < base + length msgs")
  case False
  then have "rd64 m OFF_TAIL \<le> c"
    using log_viewD(2) [OF view] by (simp add: word_le_nat_alt current_tail_def)
  then show ?thesis
    using False by (simp add: try_receive_def try_receive_at_def)
next
  case True
  then have lt: "\<not> rd64 m OFF_TAIL \<le> c"
    using log_viewD(2) [OF view] by (simp add: word_le_nat_alt current_tail_def)
  have cap: "capacity r \<noteq> 0"
    using log_viewD(1) [OF view] by (simp add: mapped_def ring_wf_def)
  have of: "of_nat (unat c) = c"
    by simp
  have retries: "(16::nat) = Suc (Suc 14)"
    by simp
  obtain t' where "recv_loop (\<lambda>_. m) 16 r c out 1
      = (Some (of_nat (skip_to (ncap r) (base + length msgs) (unat c))),
         msgs ! (skip_to (ncap r) (base + length msgs) (unat c) - base), t')"
    using recv_loop_skip [OF view c True, of 14 out 1] unfolding of retries by blast
  then show ?thesis
    using True lt cap
    by (simp add: try_receive_def try_receive_at_def Let_def set_cursor_def wr64_def
        apply_store_def ac_simps del: recv_loop.simps)
qed

end
