(* ===== verification/Ring_Refine.thy ===== *)
theory Ring_Refine
  imports Ring_Log
begin

text \<open>
  The abstract specification of the ring and the simulation. The abstract state is the log of
  messages with the read position of every cursor slot; its operations say what
  \<open>try_publish\<close>, \<open>publish_drop_oldest\<close>, \<open>try_receive\<close>, \<open>claim_cursor\<close> and
  \<open>release_cursor\<close> promise. The locale \<open>step_refinement\<close> is interpreted on the byte-level
  operations, and gives the properties of whole runs.
\<close>

subsection \<open>The slowest subscriber\<close>

definition claimed :: "ring \<Rightarrow> bytes \<Rightarrow> u64 set" where
  "claimed r m = {cursor_at m i | i. i < unat (max_subscribers r) \<and> cursor_at m i \<noteq> CURSOR_UNCLAIMED}"

lemma foldl_min_step:
  "foldl (min_step m) None [0..<n] =
    (let cs = {cursor_at m i | i. i < n \<and> cursor_at m i \<noteq> CURSOR_UNCLAIMED}
     in if cs = {} then None else Some (Min cs))"
proof (induction n)
  case 0
  show ?case by simp
next
  case (Suc n)
  define cs where "cs n = {cursor_at m i | i. i < n \<and> cursor_at m i \<noteq> CURSOR_UNCLAIMED}" for n
  have fin: "finite (cs n)"
    by (rule finite_subset [of _ "cursor_at m ` {..<n}"]) (auto simp: cs_def)
  have IH: "foldl (min_step m) None [0..<n] = (if cs n = {} then None else Some (Min (cs n)))"
    using Suc by (simp add: cs_def Let_def)
  have "cs (Suc n) = (if cursor_at m n = CURSOR_UNCLAIMED then cs n else insert (cursor_at m n) (cs n))"
    by (auto simp: less_Suc_eq cs_def)
  then have "foldl (min_step m) None [0..<Suc n]
      = (if cs (Suc n) = {} then None else Some (Min (cs (Suc n))))"
    using fin by (simp add: IH min_step_def min.commute)
  then show ?case
    by (simp only: cs_def Let_def)
qed

lemma min_active_cursor_eq:
  "min_active_cursor r m = (if claimed r m = {} then None else Some (Min (claimed r m)))"
  unfolding min_active_cursor_def foldl_min_step by (simp add: claimed_def Let_def)

lemma finite_claimed: "finite (claimed r m)"
  by (rule finite_subset [of _ "cursor_at m ` {..<unat (max_subscribers r)}"])
     (auto simp: claimed_def)

lemma unat_sub_le: "c \<le> t \<Longrightarrow> unat (t - c :: u64) = unat t - unat c"
  by (simp add: unat_sub_if' word_le_nat_alt)

lemma ncap_ucast: "unat (ucast (capacity r) :: u64) = ncap r"
  by (simp add: ncap_def)

text \<open>While no claimed cursor is ahead of the tail, the wrapping subtraction tests whether some
  subscriber is \<open>capacity\<close> messages behind.\<close>

lemma is_full_iff:
  assumes "0 < ncap r" "\<forall>c \<in> claimed r m. c \<le> current_tail m"
  shows "is_full r m \<longleftrightarrow> (\<exists>c \<in> claimed r m. unat c + ncap r \<le> unat (current_tail m))"
proof (cases "claimed r m = {}")
  case True
  then show ?thesis
    using assms(1) by (simp add: is_full_def min_active_cursor_eq word_le_nat_alt ncap_def)
next
  case False
  let ?mn = "Min (claimed r m)"
  have mem: "?mn \<in> claimed r m"
    using finite_claimed False by (rule Min_in)
  have le: "?mn \<le> c" if "c \<in> claimed r m" for c
    using finite_claimed that by (rule Min_le)
  have mt: "?mn \<le> current_tail m"
    using mem assms(2) by blast
  have "is_full r m \<longleftrightarrow> ncap r \<le> unat (current_tail m) - unat ?mn"
    using False by (simp add: is_full_def min_active_cursor_eq word_le_nat_alt ncap_def
        unat_sub_le [OF mt])
  then have "is_full r m \<longleftrightarrow> unat ?mn + ncap r \<le> unat (current_tail m)"
    using mt by (auto simp: word_le_nat_alt)
  then show ?thesis
    using mem le by (auto simp: word_le_nat_alt intro: le_trans [rotated] add_le_mono1)
qed

subsection \<open>The abstract ring\<close>

record alog =
  a_base :: nat
  a_msgs :: "bytes list"
  a_cursors :: "nat option list"

definition a_tail :: "alog \<Rightarrow> nat" where
  "a_tail a = a_base a + length (a_msgs a)"

definition a_get :: "alog \<Rightarrow> nat \<Rightarrow> bytes" where
  "a_get a k = a_msgs a ! (k - a_base a)"

definition a_full :: "nat \<Rightarrow> alog \<Rightarrow> bool" where
  "a_full n a \<longleftrightarrow> (\<exists>c \<in> set (a_cursors a). case c of None \<Rightarrow> False | Some c \<Rightarrow> c + n \<le> a_tail a)"

lemma a_full_iff: "a_full n a \<longleftrightarrow> (\<exists>c. Some c \<in> set (a_cursors a) \<and> c + n \<le> a_tail a)"
proof
  assume "a_full n a"
  then obtain x where "x \<in> set (a_cursors a)" "case x of None \<Rightarrow> False | Some c \<Rightarrow> c + n \<le> a_tail a"
    unfolding a_full_def by blast
  then show "\<exists>c. Some c \<in> set (a_cursors a) \<and> c + n \<le> a_tail a"
    by (auto split: option.split_asm)
next
  assume "\<exists>c. Some c \<in> set (a_cursors a) \<and> c + n \<le> a_tail a"
  then show "a_full n a"
    unfolding a_full_def by force
qed

fun first_free :: "nat option list \<Rightarrow> nat option" where
  "first_free [] = None"
| "first_free (c # cs) = (if c = None then Some 0 else map_option Suc (first_free cs))"

datatype ring_op =
    Publish bytes
  | PublishDropOldest bytes
  | Receive nat
  | Claim
  | Release nat

datatype ring_obs =
    Published bool
  | Delivered bytes
  | Empty
  | Claimed "nat option"
  | Released

fun a_step :: "nat \<Rightarrow> ring_op \<Rightarrow> alog \<Rightarrow> ring_obs \<times> alog" where
  "a_step n (Publish d) a =
    (if a_full n a then (Published False, a)
     else (Published True, a\<lparr>a_msgs := a_msgs a @ [d]\<rparr>))"
| "a_step n (PublishDropOldest d) a = (Published True, a\<lparr>a_msgs := a_msgs a @ [d]\<rparr>)"
| "a_step n (Receive i) a =
    (case a_cursors a ! i of
       None \<Rightarrow> (Empty, a)
     | Some c \<Rightarrow>
         if c < a_tail a
         then let k = skip_to n (a_tail a) c
              in (Delivered (a_get a k), a\<lparr>a_cursors := (a_cursors a)[i := Some (k + 1)]\<rparr>)
         else (Empty, a))"
| "a_step n Claim a =
    (case first_free (a_cursors a) of
       None \<Rightarrow> (Claimed None, a)
     | Some i \<Rightarrow> (Claimed (Some i), a\<lparr>a_cursors := (a_cursors a)[i := Some (a_tail a)]\<rparr>))"
| "a_step n (Release i) a = (Released, a\<lparr>a_cursors := (a_cursors a)[i := None]\<rparr>)"

text \<open>The callers' side of the contract: payloads fit a slot, cursor indices are in the table,
  and the tail stays below bit 63, which \<open>write_slot\<close> uses as a flag.\<close>

fun a_ok :: "ring \<Rightarrow> ring_op \<Rightarrow> alog \<Rightarrow> bool" where
  "a_ok r (Publish d) a \<longleftrightarrow> length d \<le> unat (slot_payload_size r) \<and> a_tail a + 1 < 2 ^ 63"
| "a_ok r (PublishDropOldest d) a
    \<longleftrightarrow> length d \<le> unat (slot_payload_size r) \<and> a_tail a + 1 < 2 ^ 63"
| "a_ok r (Receive i) a \<longleftrightarrow> i < unat (max_subscribers r)"
| "a_ok r Claim a \<longleftrightarrow> True"
| "a_ok r (Release i) a \<longleftrightarrow> i < unat (max_subscribers r)"

text \<open>The concrete step: a subscriber's \<open>local_cursor\<close> is the value in its cursor slot, and a new
  subscriber claims a slot at the current tail (\<open>StartPos::Live\<close>).\<close>

fun ring_step :: "ring \<Rightarrow> ring_op \<Rightarrow> bytes \<Rightarrow> (ring_obs \<times> bytes) option" where
  "ring_step r (Publish d) m = map_option (\<lambda>(b, m'). (Published b, m')) (try_publish r m d)"
| "ring_step r (PublishDropOldest d) m =
    map_option (\<lambda>(b, m'). (Published b, m')) (publish_drop_oldest r m d)"
| "ring_step r (Receive i) m =
    map_option (\<lambda>(res, out, m'). (case res of None \<Rightarrow> Empty | Some _ \<Rightarrow> Delivered out, m'))
      (try_receive r m i (cursor_at m i) [])"
| "ring_step r Claim m =
    (let (res, m') = claim_cursor r m (current_tail m) in Some (Claimed res, m'))"
| "ring_step r (Release i) m = Some (Released, release_cursor m i)"

definition cursor_rel :: "alog \<Rightarrow> u64 \<Rightarrow> nat option \<Rightarrow> bool" where
  "cursor_rel a w c = (case c of
      None \<Rightarrow> w = CURSOR_UNCLAIMED
    | Some c \<Rightarrow> w = of_nat c \<and> a_base a \<le> c \<and> c \<le> a_tail a)"

definition ring_refines :: "ring \<Rightarrow> bytes \<Rightarrow> alog \<Rightarrow> bool" where
  "ring_refines r m a \<longleftrightarrow> log_view r m (a_base a) (a_msgs a)
     \<and> length (a_cursors a) = unat (max_subscribers r)
     \<and> (\<forall>i < unat (max_subscribers r). cursor_rel a (cursor_at m i) (a_cursors a ! i))"

lemma ring_refinesD:
  assumes "ring_refines r m a"
  shows "log_view r m (a_base a) (a_msgs a)" and "mapped r m" and "0 < ncap r"
    and "unat (current_tail m) = a_tail a" and "a_tail a < 2 ^ 63"
    and "current_tail m = of_nat (a_tail a)"
    and "length (a_cursors a) = unat (max_subscribers r)"
    and "i < unat (max_subscribers r) \<Longrightarrow> cursor_rel a (cursor_at m i) (a_cursors a ! i)"
  using assms log_viewD [of r m "a_base a" "a_msgs a"] ring_wf_ncap [of r]
  by (auto simp: ring_refines_def a_tail_def mapped_def)

lemma of_nat_not_unclaimed: "c < 2 ^ 63 \<Longrightarrow> (of_nat c :: u64) \<noteq> CURSOR_UNCLAIMED"
  by (auto simp: CURSOR_UNCLAIMED_def word_unat_eq_iff unat_of_nat_small unsigned_minus_1_eq_mask
      mask_eq_exp_minus_1)

lemma cursor_rel_claimed:
  "cursor_rel a w c \<Longrightarrow> a_tail a < 2 ^ 63 \<Longrightarrow> w \<noteq> CURSOR_UNCLAIMED \<longleftrightarrow> c \<noteq> None"
  using of_nat_not_unclaimed by (auto simp: cursor_rel_def split: option.splits)

lemma claimed_eq:
  assumes "ring_refines r m a"
  shows "claimed r m = (\<lambda>c. of_nat c) ` {c. Some c \<in> set (a_cursors a)}"
proof -
  note R = ring_refinesD [OF assms]
  have *: "cursor_at m i = of_nat c"
    if "i < unat (max_subscribers r)" "a_cursors a ! i = Some c" for i c
    using R(8) [OF that(1)] that(2) by (simp add: cursor_rel_def)
  have cl: "cursor_at m i \<noteq> CURSOR_UNCLAIMED \<longleftrightarrow> a_cursors a ! i \<noteq> None"
    if "i < unat (max_subscribers r)" for i
    by (rule cursor_rel_claimed [OF R(8) [OF that] R(5)])
  show ?thesis
  proof (intro set_eqI iffI)
    fix w assume "w \<in> claimed r m"
    then obtain i where i: "i < unat (max_subscribers r)" "w = cursor_at m i"
        "cursor_at m i \<noteq> CURSOR_UNCLAIMED"
      unfolding claimed_def by blast
    then obtain c where c: "a_cursors a ! i = Some c"
      using cl by blast
    then have "Some c \<in> set (a_cursors a)"
      using i(1) R(7) by (metis nth_mem)
    then show "w \<in> (\<lambda>c. of_nat c) ` {c. Some c \<in> set (a_cursors a)}"
      using * [OF i(1) c] i(2) by blast
  next
    fix w :: u64 assume "w \<in> (\<lambda>c. of_nat c) ` {c. Some c \<in> set (a_cursors a)}"
    then obtain c where c: "Some c \<in> set (a_cursors a)" "w = of_nat c"
      by blast
    then obtain i where i: "i < unat (max_subscribers r)" "a_cursors a ! i = Some c"
      using R(7) by (metis in_set_conv_nth)
    then have "w = cursor_at m i" "cursor_at m i \<noteq> CURSOR_UNCLAIMED"
      using * [OF i] cl [OF i(1)] c(2) by simp_all
    then show "w \<in> claimed r m"
      using i(1) unfolding claimed_def by blast
  qed
qed

lemma is_full_refines:
  assumes "ring_refines r m a"
  shows "is_full r m \<longleftrightarrow> a_full (ncap r) a"
proof -
  note R = ring_refinesD [OF assms]
  have le: "c \<le> a_tail a" if c: "Some c \<in> set (a_cursors a)" for c
  proof -
    obtain i where "i < unat (max_subscribers r)" "a_cursors a ! i = Some c"
      using c R(7) by (auto simp: in_set_conv_nth)
    then show ?thesis
      using R(8) [of i] by (simp add: cursor_rel_def)
  qed
  have small: "c < 2 ^ 63" if "Some c \<in> set (a_cursors a)" for c
    using le [OF that] R(5) by linarith
  have "\<forall>c \<in> claimed r m. c \<le> current_tail m"
    unfolding claimed_eq [OF assms] using le small R(4)
    by (auto simp only: word_le_nat_alt unat_of_nat_small image_iff mem_Collect_eq Ball_def)
  note is_full_iff [OF R(3) this]
  also have "(\<exists>c \<in> claimed r m. unat c + ncap r \<le> unat (current_tail m))
      \<longleftrightarrow> (\<exists>c. Some c \<in> set (a_cursors a) \<and> c + ncap r \<le> a_tail a)"
    unfolding claimed_eq [OF assms] R(4) using small
    by (auto simp only: unat_of_nat_small image_iff mem_Collect_eq Bex_def) 
  also have "\<dots> \<longleftrightarrow> a_full (ncap r) a"
    by (simp only: a_full_iff)
  finally show ?thesis .
qed

subsection \<open>The simulation, operation by operation\<close>

lemma cursor_rel_grow: "cursor_rel a w c \<Longrightarrow> cursor_rel (a\<lparr>a_msgs := a_msgs a @ [d]\<rparr>) w c"
  by (auto simp: cursor_rel_def a_tail_def split: option.splits)

lemma cursor_rel_cursors [simp]: "cursor_rel (a\<lparr>a_cursors := cs\<rparr>) w c = cursor_rel a w c"
  by (auto simp: cursor_rel_def a_tail_def split: option.splits)

lemma publish_refines:
  assumes R: "ring_refines r m a" and len: "length d \<le> unat (slot_payload_size r)"
    and room: "a_tail a + 1 < 2 ^ 63"
  shows "\<exists>m'. write_slot r m (current_tail m) d = Some m'
    \<and> ring_refines r (set_tail m' (current_tail m + 1)) (a\<lparr>a_msgs := a_msgs a @ [d]\<rparr>)"
proof -
  note D = ring_refinesD [OF R]
  let ?m' = "apply_stores m (write_slot_stores r (current_tail m) d)"
  have "log_view r (set_tail ?m' (current_tail m + 1)) (a_base a) (a_msgs a @ [d])"
    using D(1) len room by (intro log_view_append) (simp_all add: a_tail_def)
  moreover have "cursor_at (set_tail ?m' (current_tail m + 1)) i = cursor_at m i"
    if "i < unat (max_subscribers r)" for i
    using write_slot_frame(1,5) [OF D(2) len, where tail = "current_tail m"] that
    by (simp add: frame_simps)
  ultimately have "ring_refines r (set_tail ?m' (current_tail m + 1)) (a\<lparr>a_msgs := a_msgs a @ [d]\<rparr>)"
    using D(7,8) by (simp add: ring_refines_def cursor_rel_grow)
  then show ?thesis
    using write_slot_ok [OF D(2) len] by blast
qed

lemma set_cursor_refines:
  assumes R: "ring_refines r m a" and i: "i < unat (max_subscribers r)"
    and c: "cursor_rel a w c"
  shows "ring_refines r (set_cursor m i w) (a\<lparr>a_cursors := (a_cursors a)[i := c]\<rparr>)"
proof -
  note D = ring_refinesD [OF R]
  have "log_view r (set_cursor m i w) (a_base a) (a_msgs a)"
    using i D(2) by (intro log_view_cong [OF D(1)]) (simp_all add: frame_simps)
  then show ?thesis
    using D c i by (simp add: ring_refines_def frame_simps nth_list_update)
qed

lemma wakeflag_refines:
  assumes R: "ring_refines r m a" and i: "i < unat (max_subscribers r)"
  shows "ring_refines r (wr64 m (wakeflag_addr r i) v) a"
proof -
  note D = ring_refinesD [OF R]
  have "log_view r (wr64 m (wakeflag_addr r i) v) (a_base a) (a_msgs a)"
    using i D(2) by (intro log_view_cong [OF D(1)]) (simp_all add: frame_simps)
  then show ?thesis
    using D i by (simp add: ring_refines_def frame_simps)
qed

lemma first_free_Some:
  "first_free cs = Some i \<longleftrightarrow> i < length cs \<and> cs ! i = None \<and> (\<forall>j < i. cs ! j \<noteq> None)"
proof (induction cs arbitrary: i)
  case Nil
  show ?case by simp
next
  case (Cons c cs)
  show ?case
    by (cases i) (auto simp: Cons less_Suc_eq_0_disj)
qed

lemma first_free_None: "first_free cs = None \<longleftrightarrow> (\<forall>j < length cs. cs ! j \<noteq> None)"
  by (induction cs) (auto simp: less_Suc_eq_0_disj)

lemma claim_from_None:
  "(\<forall>j. i \<le> j \<and> j < i + n \<longrightarrow> cursor_at m j \<noteq> CURSOR_UNCLAIMED)
    \<Longrightarrow> claim_from r i n m w = (None, m)"
  by (induction n arbitrary: i) auto

lemma claim_from_Some:
  "i \<le> k \<Longrightarrow> k < i + n \<Longrightarrow> cursor_at m k = CURSOR_UNCLAIMED
    \<Longrightarrow> (\<forall>j. i \<le> j \<and> j < k \<longrightarrow> cursor_at m j \<noteq> CURSOR_UNCLAIMED)
    \<Longrightarrow> claim_from r i n m w = (Some k, clear_wakeflag r (set_cursor m k w) k)"
proof (induction n arbitrary: i)
  case 0
  then show ?case by simp
next
  case (Suc n)
  show ?case
  proof (cases "i = k")
    case False
    then show ?thesis
      using Suc.IH [of "Suc i"] Suc.prems by auto
  qed (use Suc.prems in simp)
qed

lemma claim_refines:
  assumes R: "ring_refines r m a"
  shows "fst (claim_cursor r m w) = first_free (a_cursors a)"
    and "first_free (a_cursors a) = None \<Longrightarrow> snd (claim_cursor r m w) = m"
    and "first_free (a_cursors a) = Some i
      \<Longrightarrow> snd (claim_cursor r m w) = clear_wakeflag r (set_cursor m i w) i"
proof -
  note D = ring_refinesD [OF R]
  have *: "cursor_at m i = CURSOR_UNCLAIMED \<longleftrightarrow> a_cursors a ! i = None"
    if "i < unat (max_subscribers r)" for i
    using cursor_rel_claimed [OF D(8) [OF that] D(5)] by auto
  have none: "claim_cursor r m w = (None, m)" if "first_free (a_cursors a) = None"
    using that * D(7) by (auto simp: claim_cursor_def first_free_None intro!: claim_from_None)
  have some: "claim_cursor r m w = (Some i, clear_wakeflag r (set_cursor m i w) i)"
    if "first_free (a_cursors a) = Some i" for i
    using that * D(7) by (auto simp: claim_cursor_def first_free_Some intro!: claim_from_Some)
  show "fst (claim_cursor r m w) = first_free (a_cursors a)"
    using none some by (cases "first_free (a_cursors a)") auto
  show "first_free (a_cursors a) = None \<Longrightarrow> snd (claim_cursor r m w) = m"
    using none by simp
  show "first_free (a_cursors a) = Some i
      \<Longrightarrow> snd (claim_cursor r m w) = clear_wakeflag r (set_cursor m i w) i"
    using some by simp
qed

lemma receive_refines:
  assumes R: "ring_refines r m a" and i: "i < unat (max_subscribers r)"
  shows "\<exists>m'. ring_step r (Receive i) m = Some (fst (a_step (ncap r) (Receive i) a), m')
    \<and> ring_refines r m' (snd (a_step (ncap r) (Receive i) a))"
proof -
  note D = ring_refinesD [OF R]
  show ?thesis
  proof (cases "a_cursors a ! i")
    case None
    then have "rd64 m OFF_TAIL \<le> cursor_at m i"
      using D(8) [OF i] by (simp add: cursor_rel_def CURSOR_UNCLAIMED_def)
    then show ?thesis
      using None R by (simp add: try_receive_def try_receive_at_def)
  next
    case (Some c)
    then have c: "cursor_at m i = of_nat c" "a_base a \<le> c" "c \<le> a_tail a"
      using D(8) [OF i] by (simp_all add: cursor_rel_def)
    then have small: "unat (cursor_at m i) = c"
      using D(5) by (simp only: unat_of_nat_small le_less_trans)
    note recv = try_receive_seq [OF D(1), of "cursor_at m i" i "[]", unfolded small, OF c(2),
        folded a_tail_def]
    show ?thesis
    proof (cases "c < a_tail a")
      case True
      let ?k = "skip_to (ncap r) (a_tail a) c"
      have k: "c \<le> ?k" "?k < a_tail a"
        using skip_to_bounds(1,2) [OF True D(3)] .
      then have "cursor_rel a (of_nat (?k + 1)) (Some (?k + 1))"
        using c(2) by (simp add: cursor_rel_def)
      from set_cursor_refines [OF R i this] show ?thesis
        using recv True Some by (simp add: Let_def a_get_def)
    next
      case False
      then show ?thesis
        using recv Some R by simp
    qed
  qed
qed

lemma try_publish_full_iff: "try_publish r m d =
    (if length d > unat (slot_payload_size r) then None
     else if is_full r m then Some (False, m)
     else case write_slot r m (current_tail m) d of None \<Rightarrow> None
          | Some m' \<Rightarrow> Some (True, set_tail m' (current_tail m + 1)))"
  by (simp add: try_publish_def is_full_def Let_def)

lemma ring_step_sim:
  assumes R: "ring_refines r m a" and ok: "a_ok r op a"
  shows "\<exists>m'. ring_step r op m = Some (fst (a_step (ncap r) op a), m')
    \<and> ring_refines r m' (snd (a_step (ncap r) op a))"
proof (cases op)
  case (Publish d)
  show ?thesis
  proof (cases "a_full (ncap r) a")
    case True
    then show ?thesis
      using ok R by (simp add: Publish try_publish_full_iff is_full_refines [OF R])
  next
    case False
    obtain m' where "write_slot r m (current_tail m) d = Some m'"
        "ring_refines r (set_tail m' (current_tail m + 1)) (a\<lparr>a_msgs := a_msgs a @ [d]\<rparr>)"
      using publish_refines [OF R, of d] ok Publish by auto
    then show ?thesis
      using False ok by (simp add: Publish try_publish_full_iff is_full_refines [OF R])
  qed
next
  case (PublishDropOldest d)
  obtain m' where "write_slot r m (current_tail m) d = Some m'"
      "ring_refines r (set_tail m' (current_tail m + 1)) (a\<lparr>a_msgs := a_msgs a @ [d]\<rparr>)"
    using publish_refines [OF R, of d] ok PublishDropOldest by auto
  then show ?thesis
    by (simp add: PublishDropOldest publish_drop_oldest_def Let_def)
next
  case (Receive i)
  then show ?thesis
    using receive_refines [OF R] ok by simp
next
  case Claim
  note D = ring_refinesD [OF R] and C = claim_refines [OF R, where w = "current_tail m"]
  show ?thesis
  proof (cases "first_free (a_cursors a)")
    case None
    then show ?thesis
      using C R by (simp add: Claim split_beta Let_def)
  next
    case (Some i)
    then have i: "i < unat (max_subscribers r)"
      using D(7) by (simp add: first_free_Some)
    have "cursor_rel a (current_tail m) (Some (a_tail a))"
      using D(6) by (simp add: cursor_rel_def a_tail_def)
    then have "ring_refines r (clear_wakeflag r (set_cursor m i (current_tail m)) i)
        (a\<lparr>a_cursors := (a_cursors a)[i := Some (a_tail a)]\<rparr>)"
      unfolding clear_wakeflag_def by (intro wakeflag_refines set_cursor_refines R i)
    then show ?thesis
      using C Some by (simp add: Claim split_beta Let_def)
  qed
next
  case (Release i)
  then show ?thesis
    using set_cursor_refines [OF R, of i CURSOR_UNCLAIMED None] ok
    by (simp add: release_cursor_def cursor_rel_def)
qed

interpretation ring_sim: step_refinement "ring_refines r" "ring_step r" "a_step (ncap r)" "a_ok r"
  by unfold_locales (rule ring_step_sim)

end
