(* ===== verification/Ring_Properties.thy ===== *)
theory Ring_Properties
  imports Ring_Refine
begin

text \<open>
  Creating, opening and reusing a ring file, and the delivery guarantees of runs of ring
  operations under the two backpressure policies.
\<close>

subsection \<open>A fresh ring\<close>

lemma init_cursors_props:
  assumes "mapped r m" "n \<le> unat (max_subscribers r)"
  shows "mapped r (init_cursors n m)"
    and "length (init_cursors n m) = length m"
    and "cursor_at (init_cursors n m) j = (if j < n then CURSOR_UNCLAIMED else cursor_at m j)"
    and "current_tail (init_cursors n m) = current_tail m"
    and "generation (init_cursors n m) = generation m"
    and "wakeflag_at r (init_cursors n m) j = wakeflag_at r m j"
    and "off + k \<le> 64 \<Longrightarrow> sub (init_cursors n m) off k = sub m off k"
  using assms(2)
proof (induction n)
  case 0
  {
    case 1 show ?case using assms(1) by simp
  next
    case 2 show ?case by simp
  next
    case 3 show ?case by simp
  next
    case 4 show ?case by simp
  next
    case 5 show ?case by simp
  next
    case 6 show ?case by simp
  next
    case 7 show ?case by simp
  }
next
  case (Suc n)
  have room: "cursor_addr n + 8 \<le> length (init_cursors n m)" if "Suc n \<le> unat (max_subscribers r)"
    using mapped_cursor_room [OF assms(1), of n] Suc.IH(2) that by simp
  {
    case 1 then show ?case using Suc.IH by (simp add: frame_simps)
  next
    case 2 then show ?case using Suc.IH length_low_writes(2) [of r "init_cursors n m" n] by simp
  next
    case 3 then show ?case using Suc.IH by (simp add: frame_simps less_Suc_eq)
  next
    case 4 then show ?case using Suc.IH by (simp add: frame_simps)
  next
    case 5 then show ?case using Suc.IH by (simp add: frame_simps)
  next
    case 6 then show ?case using Suc.IH by (simp add: frame_simps)
  next
    case 7
    then have "sub (set_cursor (init_cursors n m) n CURSOR_UNCLAIMED) off k
        = sub (init_cursors n m) off k"
      unfolding set_cursor_def wr64_def using room
      by (intro sub_poke_other) (auto simp: disjoint_ranges_def cursor_addr_eq)
    then show ?case using Suc.IH 7 by simp
  }
qed

definition fresh_log :: "ring \<Rightarrow> alog" where
  "fresh_log r = \<lparr>a_base = 0, a_msgs = [], a_cursors = replicate (unat (max_subscribers r)) None\<rparr>"

lemma sub_replicate: "off + n \<le> k \<Longrightarrow> sub (replicate k x) off n = replicate n x"
  by (simp add: sub_def min_def)

lemma zero_read: "off + 8 \<le> k \<Longrightarrow> rd64 (replicate k 0) off = 0"
  by (simp add: rd64_def sub_replicate le_u64_def numeral_eq_Suc)

definition ring_handle :: "u32 \<Rightarrow> u32 \<Rightarrow> u32 \<Rightarrow> ring" where
  "ring_handle cap sps msubs = \<lparr>capacity = cap, slot_payload_size = sps, max_subscribers = msubs,
     slots_off = slots_offset msubs\<rparr>"

lemma ring_handle_sel [simp]:
  "capacity (ring_handle cap sps msubs) = cap"
  "slot_payload_size (ring_handle cap sps msubs) = sps"
  "max_subscribers (ring_handle cap sps msubs) = msubs"
  by (simp_all add: ring_handle_def)

lemma ring_wf_handle: "ring_wf r \<Longrightarrow> r = ring_handle (capacity r) (slot_payload_size r) (max_subscribers r)"
  by (cases r) (simp add: ring_wf_def ring_handle_def)

lemma fst_ring_create: "fst (ring_create cap sps msubs) = ring_handle cap sps msubs"
  by (simp add: ring_create_def Let_def ring_handle_def)

lemma ring_create_props:
  assumes wf: "ring_wf (ring_handle cap sps msubs)"
  defines "m \<equiv> snd (ring_create cap sps msubs)" and "r \<equiv> ring_handle cap sps msubs"
  shows "mapped r m" and "length m = ring_bytes r"
    and "rd64 m OFF_MAGIC = MAGIC" and "rd32 m OFF_VERSION = 5"
    and "rd32 m OFF_CAPACITY = cap" and "rd32 m OFF_SLOT_SIZE = sps"
    and "rd32 m OFF_MAX_SUBS = msubs"
    and "generation m = 1" and "current_tail m = 0"
    and "i < unat msubs \<Longrightarrow> cursor_at m i = CURSOR_UNCLAIMED"
    and "i < unat msubs \<Longrightarrow> wakeflag_at r m i = 0"
proof -
  have size: "unat (mmap_size cap sps msubs) = ring_bytes r"
    using wf mmap_size_ring_bytes [of r] by (simp add: ring_wf_def r_def)
  define z :: bytes where "z = replicate (ring_bytes r) 0"
  define h where "h = wr64 (wr32 (wr32 (wr32 (wr32 (wr64 z OFF_MAGIC MAGIC) OFF_VERSION 5)
    OFF_CAPACITY cap) OFF_SLOT_SIZE sps) OFF_MAX_SUBS msubs) OFF_GENERATION 1"
  have m: "m = init_cursors (unat msubs) h"
    by (simp add: m_def ring_create_def Let_def size h_def z_def)
  have mz: "mapped r z"
    using wf by (simp add: mapped_def z_def r_def)
  have lz: "64 \<le> length z"
    using mapped_tail_room [OF mz] .
  have lh: "length h = length z"
    using lz by (simp add: h_def)
  have mh: "mapped r h"
    using mz lh by (rule mapped_length)
  note I = init_cursors_props [OF mh, of "unat msubs", folded m]
  show "mapped r m" "length m = ring_bytes r"
    using I(1,2) lh by (simp_all add: z_def r_def)
  show "rd64 m OFF_MAGIC = MAGIC" "rd32 m OFF_VERSION = 5" "rd32 m OFF_CAPACITY = cap"
    "rd32 m OFF_SLOT_SIZE = sps" "rd32 m OFF_MAX_SUBS = msubs"
    using lz I(7) [of 0 8] I(7) [of 8 4] I(7) [of 12 4] I(7) [of 16 4] I(7) [of 20 4]
    unfolding rd64_def rd32_def
    by (simp_all add: r_def h_def flip: rd64_def rd32_def)
       (simp_all add: buf_simps disjoint_ranges_def)
  show "generation m = 1" "current_tail m = 0"
    using lz I(4,5) by (simp_all add: r_def h_def generation_def current_tail_def buf_simps
        disjoint_ranges_def z_def zero_read)
  have zero: "rd64 h off = 0" if "64 \<le> off" "off + 8 \<le> length z" for off
    using that lz by (simp add: h_def buf_simps disjoint_ranges_def z_def zero_read)
  show "cursor_at m i = CURSOR_UNCLAIMED" if "i < unat msubs"
    using I(3) [of i] that by (simp add: r_def)
  show "wakeflag_at r m i = 0" if "i < unat msubs"
    using I(6) [of i] zero [of "wakeflag_addr r i"] mapped_wakeflag_room [OF mz, of i] that
    by (simp add: r_def wakeflag_at_def wakeflag_addr_eq)
qed

lemma fresh_refines:
  assumes "mapped r m" "current_tail m = 0"
    and "\<And>i. i < unat (max_subscribers r) \<Longrightarrow> cursor_at m i = CURSOR_UNCLAIMED"
  shows "ring_refines r m (fresh_log r)"
  using assms by (simp add: ring_refines_def fresh_log_def log_view_def cursor_rel_def)

lemma ring_create_refines:
  assumes "ring_wf (ring_handle cap sps msubs)"
  shows "ring_refines (ring_handle cap sps msubs) (snd (ring_create cap sps msubs))
    (fresh_log (ring_handle cap sps msubs))"
  using ring_create_props [OF assms] by (intro fresh_refines) simp_all

subsection \<open>What a run delivers\<close>

fun delivered_by :: "nat \<Rightarrow> ring_op \<Rightarrow> ring_obs \<Rightarrow> bytes list" where
  "delivered_by i (Receive j) (Delivered d) = (if j = i then [d] else [])"
| "delivered_by i _ _ = []"

fun accepted_by :: "ring_op \<Rightarrow> ring_obs \<Rightarrow> bytes list" where
  "accepted_by (Publish d) (Published True) = [d]"
| "accepted_by (PublishDropOldest d) (Published True) = [d]"
| "accepted_by _ _ = []"

definition delivered :: "nat \<Rightarrow> ring_op list \<Rightarrow> ring_obs list \<Rightarrow> bytes list" where
  "delivered i ops obs = concat (map2 (delivered_by i) ops obs)"

definition accepted :: "ring_op list \<Rightarrow> ring_obs list \<Rightarrow> bytes list" where
  "accepted ops obs = concat (map2 accepted_by ops obs)"

lemma delivered_simps [simp]:
  "delivered i [] obs = []"
  "delivered i (op # ops) (ob # obs) = delivered_by i op ob @ delivered i ops obs"
  by (simp_all add: delivered_def)

lemma accepted_simps [simp]:
  "accepted [] obs = []"
  "accepted (op # ops) (ob # obs) = accepted_by op ob @ accepted ops obs"
  by (simp_all add: accepted_def)

text \<open>The SPMC invariant of the module header: no subscriber is more than \<open>capacity\<close> messages
  behind the tail, and none is ahead of it.\<close>

definition spmc :: "nat \<Rightarrow> alog \<Rightarrow> bool" where
  "spmc n a \<longleftrightarrow> (\<forall>c. Some c \<in> set (a_cursors a) \<longrightarrow>
     a_base a \<le> c \<and> c \<le> a_tail a \<and> a_tail a \<le> c + n)"

definition a_inv :: "alog \<Rightarrow> bool" where
  "a_inv a \<longleftrightarrow> (\<forall>c. Some c \<in> set (a_cursors a) \<longrightarrow> a_base a \<le> c \<and> c \<le> a_tail a)"

lemma spmc_a_inv: "spmc n a \<Longrightarrow> a_inv a"
  by (auto simp: spmc_def a_inv_def)

lemma set_list_update_Some:
  "Some c \<in> set (cs[i := x]) \<Longrightarrow> Some c \<in> set cs \<or> x = Some c"
  using set_update_subset_insert [of cs i x] by auto

fun is_drop :: "ring_op \<Rightarrow> bool" where
  "is_drop (PublishDropOldest d) = True"
| "is_drop _ = False"

lemma a_step_inv:
  assumes "0 < n" "a_inv a" "\<forall>i. op = Receive i \<longrightarrow> i < length (a_cursors a)"
  shows "a_inv (snd (a_step n op a))"
proof (cases op)
  case (Receive i)
  show ?thesis
  proof (cases "\<exists>c. a_cursors a ! i = Some c \<and> c < a_tail a")
    case True
    then obtain c where c: "a_cursors a ! i = Some c" "c < a_tail a"
      by blast
    have "Some c \<in> set (a_cursors a)"
      using c(1) assms(3) Receive by (metis nth_mem)
    then have "a_base a \<le> c"
      using assms(2) by (simp add: a_inv_def)
    then show ?thesis
      using skip_to_bounds(1,2) [OF c(2) assms(1)] assms(2) c
      by (auto simp: Receive a_inv_def a_tail_def Let_def dest!: set_list_update_Some)
  next
    case False
    then have "snd (a_step n op a) = a"
      by (cases "a_cursors a ! i") (auto simp: Receive)
    then show ?thesis
      using assms(2) by simp
  qed
qed (use assms in \<open>auto simp: a_inv_def a_tail_def le_Suc_eq split: option.splits
       dest!: set_list_update_Some\<close>)

lemma a_step_spmc:
  assumes "0 < n" "spmc n a" "\<not> is_drop op" "\<forall>i. op = Receive i \<longrightarrow> i < length (a_cursors a)"
  shows "spmc n (snd (a_step n op a))"
proof (cases op)
  case (Publish d)
  show ?thesis
  proof (cases "a_full n a")
    case False
    then have "a_tail a < c + n" if "Some c \<in> set (a_cursors a)" for c
      using that by (auto simp: a_full_iff not_le)
    then show ?thesis
      using False assms(2) by (auto simp: Publish spmc_def a_tail_def le_Suc_eq Suc_le_eq)
  qed (use assms(2) Publish in simp)
next
  case (Receive i)
  show ?thesis
  proof (cases "\<exists>c. a_cursors a ! i = Some c \<and> c < a_tail a")
    case True
    then obtain c where c: "a_cursors a ! i = Some c" "c < a_tail a"
      by blast
    have "Some c \<in> set (a_cursors a)"
      using c(1) assms(4) Receive by (metis nth_mem)
    then have "a_base a \<le> c"
      using assms(2) by (simp add: spmc_def)
    then show ?thesis
      using skip_to_bounds(1-3) [OF c(2) assms(1)] assms(2) c
      by (auto simp: Receive spmc_def a_tail_def Let_def dest!: set_list_update_Some)
  next
    case False
    then have "snd (a_step n op a) = a"
      by (cases "a_cursors a ! i") (auto simp: Receive)
    then show ?thesis
      using assms(2) by simp
  qed
qed (use assms in \<open>auto simp: spmc_def a_tail_def split: option.splits
       dest!: set_list_update_Some\<close>)

text \<open>One step seen by one subscriber: what is accepted is appended to the log, and what is
  delivered is the stretch of the log its cursor moves over.\<close>

lemma a_step_log:
  "a_base (snd (a_step n op a)) = a_base a"
  "a_msgs (snd (a_step n op a)) = a_msgs a @ accepted_by op (fst (a_step n op a))"
  "length (a_cursors (snd (a_step n op a))) = length (a_cursors a)"
  by (cases op; auto split: option.splits simp: Let_def)+

lemma a_step_cursor:
  assumes "a_cursors a ! i = Some c" "i < length (a_cursors a)" "op \<noteq> Release i"
  shows "if op = Receive i \<and> c < a_tail a
    then a_cursors (snd (a_step n op a)) ! i = Some (skip_to n (a_tail a) c + 1)
      \<and> delivered_by i op (fst (a_step n op a)) = [a_get a (skip_to n (a_tail a) c)]
    else a_cursors (snd (a_step n op a)) ! i = Some c
      \<and> delivered_by i op (fst (a_step n op a)) = []"
  using assms
  by (cases op) (auto split: option.splits simp: Let_def first_free_Some nth_list_update)

definition stretch :: "alog \<Rightarrow> nat \<Rightarrow> nat \<Rightarrow> bytes list" where
  "stretch a c c' = take (c' - c) (drop (c - a_base a) (a_msgs a))"

lemma a_run_log:
  "a_base (snd (run_abs (a_step n) ops a)) = a_base a
   \<and> a_msgs (snd (run_abs (a_step n) ops a)) = a_msgs a @ accepted ops (fst (run_abs (a_step n) ops a))
   \<and> length (a_cursors (snd (run_abs (a_step n) ops a))) = length (a_cursors a)"
  by (induction ops arbitrary: a)
     (simp_all add: run_abs_Cons_fst run_abs_Cons_snd a_step_log del: run_abs.simps(2) a_step.simps)

lemma stretch_Cons:
  assumes "a_base a \<le> c" "c < c'" "c < a_tail a"
    and "a_base b = a_base a" "a_msgs b = a_msgs a @ xs"
  shows "stretch b c c' = a_get a c # stretch b (Suc c) c'"
proof -
  have "drop (c - a_base a) (a_msgs b) = a_msgs b ! (c - a_base a) # drop (Suc c - a_base a) (a_msgs b)"
    using assms Cons_nth_drop_Suc [of "c - a_base a" "a_msgs b"] by (simp add: a_tail_def Suc_diff_le)
  then show ?thesis
    using assms by (simp add: stretch_def a_get_def nth_append a_tail_def less_diff_conv2 Suc_diff_Suc
        take_Cons' add.commute)
qed

lemma a_run_delivery:
  assumes "0 < n" "spmc n a" "a_cursors a ! i = Some c" "i < length (a_cursors a)"
    and "\<forall>op \<in> set ops. \<not> is_drop op \<and> op \<noteq> Release i"
    and "\<forall>j. Receive j \<in> set ops \<longrightarrow> j < length (a_cursors a)"
  shows "\<exists>c'. a_cursors (snd (run_abs (a_step n) ops a)) ! i = Some c' \<and> c \<le> c'
    \<and> delivered i ops (fst (run_abs (a_step n) ops a)) = stretch (snd (run_abs (a_step n) ops a)) c c'
    \<and> spmc n (snd (run_abs (a_step n) ops a))"
  using assms(2-)
proof (induction ops arbitrary: a c)
  case Nil
  then show ?case by (simp add: stretch_def)
next
  case (Cons op ops)
  let ?b = "snd (a_step n op a)" and ?r = "run_abs (a_step n) (op # ops) a"
  have inv: "spmc n ?b"
    using Cons.prems assms(1) by (intro a_step_spmc) auto
  have base: "a_base a \<le> c" "a_tail a \<le> c + n"
    using Cons.prems(1,2,3) unfolding spmc_def by (metis nth_mem)+
  have step: "if op = Receive i \<and> c < a_tail a
    then a_cursors ?b ! i = Some (c + 1) \<and> delivered_by i op (fst (a_step n op a)) = [a_get a c]
    else a_cursors ?b ! i = Some c \<and> delivered_by i op (fst (a_step n op a)) = []"
    using a_step_cursor [OF Cons.prems(2,3), of op n] Cons.prems(4) skip_to_here [OF _ base(2)]
    by (auto split: if_splits)
  have log: "a_base (snd ?r) = a_base a" "\<exists>xs. a_msgs (snd ?r) = a_msgs a @ xs"
    using a_run_log [of n "op # ops" a] by auto
  have next_c: "\<exists>d. a_cursors ?b ! i = Some d \<and> (d = c \<or> d = Suc c \<and> c < a_tail a)
      \<and> delivered_by i op (fst (a_step n op a)) = (if d = c then [] else [a_get a c])"
  proof (cases "op = Receive i \<and> c < a_tail a")
    case True
    with step show ?thesis
      by (intro exI [of _ "Suc c"]) (simp del: a_step.simps)
  next
    case False
    with step show ?thesis
      by (intro exI [of _ c]) (simp only: if_False refl if_True simp_thms)
  qed
  then obtain d where d: "a_cursors ?b ! i = Some d" "d = c \<or> d = Suc c \<and> c < a_tail a"
      "delivered_by i op (fst (a_step n op a)) = (if d = c then [] else [a_get a c])"
    by blast
  obtain c' where c': "a_cursors (snd (run_abs (a_step n) ops ?b)) ! i = Some c'" "d \<le> c'"
      "delivered i ops (fst (run_abs (a_step n) ops ?b)) = stretch (snd (run_abs (a_step n) ops ?b)) d c'"
      "spmc n (snd (run_abs (a_step n) ops ?b))"
    using Cons.IH [OF inv d(1)] Cons.prems(3-5) by (auto simp: a_step_log)
  have "stretch (snd ?r) c c' = delivered_by i op (fst (a_step n op a)) @ stretch (snd ?r) d c'"
    using d(2,3) c'(2) log stretch_Cons [OF base(1), of c' "snd ?r"] by auto
  then show ?case
    using c' d(2) by (auto simp: run_abs_Cons_fst run_abs_Cons_snd simp del: run_abs.simps a_step.simps)
qed

lemma a_run_increasing:
  assumes "0 < n" "a_inv a" "a_cursors a ! i = Some c" "i < length (a_cursors a)"
    and "Release i \<notin> set ops"
    and "\<forall>j. Receive j \<in> set ops \<longrightarrow> j < length (a_cursors a)"
  shows "\<exists>c' ks. a_cursors (snd (run_abs (a_step n) ops a)) ! i = Some c' \<and> c \<le> c'
    \<and> delivered i ops (fst (run_abs (a_step n) ops a)) = map (a_get (snd (run_abs (a_step n) ops a))) ks
    \<and> sorted_wrt (<) ks \<and> (\<forall>k \<in> set ks. c \<le> k \<and> k < c')"
  using assms(2-)
proof (induction ops arbitrary: a c)
  case Nil
  then show ?case by auto
next
  case (Cons op ops)
  let ?b = "snd (a_step n op a)" and ?r = "run_abs (a_step n) (op # ops) a"
  have inv: "a_inv ?b"
    using Cons.prems assms(1) by (intro a_step_inv) auto
  have base: "a_base a \<le> c"
    using Cons.prems(1,2,3) unfolding a_inv_def by (metis nth_mem)
  note step = a_step_cursor [OF Cons.prems(2,3), of op n]
  have ne: "op \<noteq> Release i"
    using Cons.prems(4) by auto
  have prems: "Release i \<notin> set ops" "\<forall>j. Receive j \<in> set ops \<longrightarrow> j < length (a_cursors ?b)"
      "i < length (a_cursors ?b)"
    using Cons.prems(3-5) by (auto simp: a_step_log)
  have eq: "snd ?r = snd (run_abs (a_step n) ops ?b)"
      "delivered i (op # ops) (fst ?r) =
        delivered_by i op (fst (a_step n op a)) @ delivered i ops (fst (run_abs (a_step n) ops ?b))"
    by (simp_all only: run_abs_Cons_fst run_abs_Cons_snd delivered_simps)
  show ?case
  proof (cases "op = Receive i \<and> c < a_tail a")
    case True
    let ?k = "skip_to n (a_tail a) c"
    have k: "c \<le> ?k" "?k < a_tail a"
      using skip_to_bounds(1,2) True assms(1) by auto
    obtain c' ks where IH: "a_cursors (snd ?r) ! i = Some c'" "?k + 1 \<le> c'"
        "delivered i ops (fst (run_abs (a_step n) ops ?b)) = map (a_get (snd ?r)) ks"
        "sorted_wrt (<) ks" "\<forall>k \<in> set ks. ?k + 1 \<le> k \<and> k < c'"
      using Cons.IH [OF inv _ prems(3,1,2), of "?k + 1"] step [OF ne] True unfolding eq(1) by auto
    have "a_get (snd ?r) ?k = a_get a ?k"
      using k base a_run_log [of n "op # ops" a] unfolding a_get_def
      by (auto simp: nth_append a_tail_def less_diff_conv2 simp del: run_abs.simps a_step.simps)
    then have "delivered i (op # ops) (fst ?r) = map (a_get (snd ?r)) (?k # ks)"
      using step [OF ne] True IH(3) unfolding eq(2) by simp
    moreover have "sorted_wrt (<) (?k # ks)" "\<forall>x \<in> set (?k # ks). c \<le> x \<and> x < c'"
      using IH(2,4,5) k by auto
    ultimately show ?thesis
      using IH(1,2) k(1) by (meson le_add1 order_trans)
  next
    case False
    then have "a_cursors ?b ! i = Some c" "delivered_by i op (fst (a_step n op a)) = []"
      using step [OF ne] by (simp_all only: if_False simp_thms)
    then show ?thesis
      using Cons.IH [OF inv _ prems(3,1,2), of c] unfolding eq by simp
  qed
qed

subsection \<open>The two receive routines agree\<close>

lemma length_poke_copy:
  "n \<le> length out \<Longrightarrow> length (poke out 0 (copy_from E t a n)) = length out"
  by (simp add: copy_from_def)

definition recv_agree ::
    "nat \<Rightarrow> (u64 \<times> nat option) option \<times> bytes \<times> nat \<Rightarrow> u64 option \<times> bytes \<times> nat \<Rightarrow> bool" where
  "recv_agree n p q = (case p of (res, buf', t1) \<Rightarrow> case q of (res', out', t2) \<Rightarrow>
     t1 = t2 \<and> length buf' = n
     \<and> (case res of None \<Rightarrow> res' = None
         | Some (e, len) \<Rightarrow>
             res' = Some e \<and> len = Some (length out') \<and> take (length out') buf' = out'))"

lemma recv_slice_loop_agrees:
  assumes "unat (slot_payload_size r) \<le> length buf"
  shows "recv_agree (length buf) (recv_slice_loop E n r eff buf t) (recv_loop E n r eff out t)"
  using assms
proof (induction n arbitrary: eff buf out t)
  case 0
  then show ?case by (simp add: recv_agree_def)
next
  case (Suc n)
  define slot where "slot = slot_addr r eff"
  define len where "len = unat (rd32 (E (t + 1)) (slot + 8))"
  define copy where "copy = copy_from E (t + 2) (slot + 12) len"
  define sb where "sb = rd64 (E t) slot"
  define sa where "sa = rd64 (E (t + 2 + len)) slot"
  define eff' where "eff' = (if sa AND NOT SEQ_WRITING_BIT > eff then sa AND NOT SEQ_WRITING_BIT else eff)"
  have slice: "recv_slice_loop E (Suc n) r eff buf t =
     (if sb AND SEQ_WRITING_BIT \<noteq> 0 then recv_slice_loop E n r eff buf (t + 1)
      else if sb > eff then recv_slice_loop E n r sb buf (t + 1)
      else if sb < eff then (None, buf, t + 1)
      else if len > unat (slot_payload_size r) then recv_slice_loop E n r eff buf (t + 2)
      else if len > length buf then (Some (eff, None), buf, t + 2)
      else if sa \<noteq> sb then recv_slice_loop E n r eff' (poke buf 0 copy) (t + 3 + len)
      else (Some (eff, Some len), poke buf 0 copy, t + 3 + len))"
    by (simp only: recv_slice_loop.simps Let_def flip: slot_def)
       (simp only: eff'_def flip: sb_def len_def, simp only: flip: copy_def sa_def)
  have vec: "recv_loop E (Suc n) r eff out t =
     (if sb AND SEQ_WRITING_BIT \<noteq> 0 then recv_loop E n r eff out (t + 1)
      else if sb > eff then recv_loop E n r sb out (t + 1)
      else if sb < eff then (None, out, t + 1)
      else if len > unat (slot_payload_size r) then recv_loop E n r eff out (t + 2)
      else if sa \<noteq> sb then recv_loop E n r eff' copy (t + 3 + len)
      else (Some eff, copy, t + 3 + len))"
    by (simp only: recv_loop.simps Let_def flip: slot_def)
       (simp only: eff'_def flip: sb_def len_def, simp only: flip: copy_def sa_def)
  have copy: "length copy = len" "take len (poke buf 0 copy) = copy"
    by (simp_all add: copy_def copy_from_def poke_def)
  show ?case
  proof (cases "len > unat (slot_payload_size r)")
    case True
    then show ?thesis
      unfolding slice vec using Suc by (simp add: recv_agree_def [of _ "(None, _)"])
  next
    case False
    then have fit: "len \<le> length buf"
      using Suc.prems by simp
    then have lb: "length (poke buf 0 copy) = length buf"
      by (simp add: copy(1))
    have "recv_agree (length buf) (recv_slice_loop E n r eff' (poke buf 0 copy) (t + 3 + len))
        (recv_loop E n r eff' copy (t + 3 + len))"
      using Suc.IH [where buf = "poke buf 0 copy"] Suc.prems lb by simp
    then show ?thesis
      unfolding slice vec using Suc False fit copy lb
      by (simp add: recv_agree_def [of _ "(None, _)"] recv_agree_def [of _ "(Some _, _)"])
  qed
qed

subsection \<open>Monitoring\<close>

lemma set_lags_with_idx:
  "set (lags_with_idx r m) = {(i, saturating_sub (current_tail m) (cursor_at m i)) | i.
     i < unat (max_subscribers r) \<and> cursor_at m i \<noteq> CURSOR_UNCLAIMED}"
  by (auto simp: lags_with_idx_def List.map_filter_def Let_def split: if_splits)

lemma stats_lags:
  "foldl (\<lambda>lags i. if cursor_at m i \<noteq> CURSOR_UNCLAIMED
                    then lags @ [saturating_sub t (cursor_at m i)] else lags) acc is
   = acc @ map (\<lambda>i. saturating_sub t (cursor_at m i)) (filter (\<lambda>i. cursor_at m i \<noteq> CURSOR_UNCLAIMED) is)"
  by (induction "is" arbitrary: acc) auto

subsection \<open>Properties\<close>

lemma demo_ring_wf: "ring_wf (ring_handle 4 16 2)"
  by (simp add: ring_wf_def ring_handle_def ring_bytes_def nslots_off_def nstride_def ncap_def)

definition demo_map :: bytes where
  "demo_map = snd (ring_create 4 16 2)"

lemma demo_map_refines: "ring_refines (ring_handle 4 16 2) demo_map (fresh_log (ring_handle 4 16 2))"
  unfolding demo_map_def by (rule ring_create_refines [OF demo_ring_wf])

lemma demo_fresh:
  "fresh_log (ring_handle 4 16 2) = \<lparr>a_base = 0, a_msgs = [], a_cursors = [None, None]\<rparr>"
  by (simp add: fresh_log_def) (simp add: numeral_eq_Suc)



text \<open>\<open>create\<close> followed by \<open>open\<close> gives the same handle, and the created map is an empty
  ring: generation 1, no message, every cursor unclaimed, every wakeup flag clear.\<close>

theorem ring_create_open:
  assumes "ring_wf (ring_handle cap sps msubs)"
  shows "case ring_create cap sps msubs of (r, m) \<Rightarrow>
      ring_open (Some m) = Some (Inr r)
      \<and> length m = unat (mmap_size cap sps msubs)
      \<and> generation m = 1
      \<and> ring_refines r m (fresh_log r)
      \<and> (\<forall>i < unat msubs. cursor_is_unclaimed m i \<and> wakeflag_at r m i = 0)"
proof -
  note P = ring_create_props [OF assms]
  have "64 \<le> length (snd (ring_create cap sps msubs))"
    by (rule mapped_tail_room [OF P(1)])
  moreover have "unat (mmap_size cap sps msubs) = ring_bytes (ring_handle cap sps msubs)"
    using assms mmap_size_ring_bytes [of "ring_handle cap sps msubs"] by (simp add: ring_wf_def)
  ultimately have "ring_open (Some (snd (ring_create cap sps msubs))) = Some (Inr (fst (ring_create cap sps msubs)))"
    using P(3,5,6,7) by (simp add: ring_open_def fst_ring_create ring_handle_def)
  then show ?thesis
    using P ring_create_refines [OF assms] mmap_size_ring_bytes [of "ring_handle cap sps msubs"] assms
    by (simp add: split_beta fst_ring_create cursor_is_unclaimed_def ring_wf_def)
qed

theorem ring_create_open_witness:
  "ring_open (Some demo_map) = Some (Inr (ring_handle 4 16 2))"
  using ring_create_open [OF demo_ring_wf] by (simp add: split_beta demo_map_def fst_ring_create)

text \<open>A publisher restart that finds a ring of the same shape keeps the file: the generation
  goes up by one, the log is empty again, and cursors and wakeup flags are left as they are. A
  file of another shape, an unknown format or a missing file gives a fresh ring.\<close>

theorem ring_reuse:
  assumes "mapped r m" "rd64 m OFF_MAGIC = MAGIC" "rd32 m OFF_CAPACITY = capacity r"
    "rd32 m OFF_SLOT_SIZE = slot_payload_size r" "rd32 m OFF_MAX_SUBS = max_subscribers r"
  shows "(\<exists>m'. ring_create_or_reuse (Some m) (capacity r) (slot_payload_size r) (max_subscribers r)
        = Some (r, m')
      \<and> generation m' = generation m + 1 \<and> log_view r m' 0 []
      \<and> (\<forall>i < unat (max_subscribers r). cursor_at m' i = cursor_at m i
           \<and> wakeflag_at r m' i = wakeflag_at r m i))
    \<and> ((cap, sps, msubs) \<noteq> (capacity r, slot_payload_size r, max_subscribers r) \<longrightarrow>
        ring_create_or_reuse (Some m) cap sps msubs = Some (ring_create cap sps msubs))
    \<and> ring_create_or_reuse None cap sps msubs = Some (ring_create cap sps msubs)"
proof (intro conjI impI)
  let ?m = "set_tail (wr64 m OFF_GENERATION (generation m + 1)) 0"
  have len: "64 \<le> length m"
    by (rule mapped_tail_room [OF assms(1)])
  have "slots_off r = slots_offset (max_subscribers r)"
    using assms(1) by (simp add: mapped_def ring_wf_def)
  then have op: "ring_open (Some m) = Some (Inr r)"
    using assms len by (cases r) (simp add: ring_open_def)
  have "ring_create_or_reuse (Some m) (capacity r) (slot_payload_size r) (max_subscribers r)
      = Some (r, ?m)"
    using op len by (simp add: ring_create_or_reuse_def)
  moreover have "generation ?m = generation m + 1" "log_view r ?m 0 []"
    "\<forall>i < unat (max_subscribers r). cursor_at ?m i = cursor_at m i \<and> wakeflag_at r ?m i = wakeflag_at r m i"
    using mapped_low_writes(4) [OF assms(1), of "generation m + 1"]
      header_generation [OF assms(1), where v = "generation m + 1"]
      header_set_tail [OF mapped_low_writes(4) [OF assms(1), of "generation m + 1"], where v = 0]
    by (simp_all add: mapped_low_writes log_view_def)
  ultimately show "\<exists>m'. ring_create_or_reuse (Some m) (capacity r) (slot_payload_size r) (max_subscribers r)
        = Some (r, m')
      \<and> generation m' = generation m + 1 \<and> log_view r m' 0 []
      \<and> (\<forall>i < unat (max_subscribers r). cursor_at m' i = cursor_at m i
           \<and> wakeflag_at r m' i = wakeflag_at r m i)"
    by blast
  show "ring_create_or_reuse (Some m) cap sps msubs = Some (ring_create cap sps msubs)"
    if "(cap, sps, msubs) \<noteq> (capacity r, slot_payload_size r, max_subscribers r)"
    using op that by (auto simp: ring_create_or_reuse_def)
  show "ring_create_or_reuse None cap sps msubs = Some (ring_create cap sps msubs)"
    by (simp add: ring_create_or_reuse_def ring_open_def)
qed

theorem ring_reuse_witness:
  "\<exists>m'. ring_create_or_reuse (Some demo_map) 4 16 2 = Some (ring_handle 4 16 2, m')
     \<and> generation m' = 2 \<and> log_view (ring_handle 4 16 2) m' 0 []"
  using ring_reuse [of "ring_handle 4 16 2" demo_map] ring_create_props [OF demo_ring_wf]
  by (fastforce simp: demo_map_def)

text \<open>C1: any run of publishes (both policies), receives, claims and releases on the bytes of the
  map returns exactly what the abstract ring returns, and ends in a map that represents the
  abstract ring's state. In particular no such run panics or leaves the map.\<close>

theorem ring_runs_refine_log:
  assumes "ring_refines r m a" "run_ok (a_ok r) (a_step (ncap r)) ops a"
  shows "\<exists>m'. run_steps (ring_step r) ops m = Some (fst (run_abs (a_step (ncap r)) ops a), m')
    \<and> ring_refines r m' (snd (run_abs (a_step (ncap r)) ops a))"
  using assms by (rule ring_sim.run_sim)

theorem ring_runs_refine_log_witness:
  "\<exists>m'. run_steps (ring_step (ring_handle 4 16 2))
      [Claim, Publish [7], Receive 0, Receive 0, PublishDropOldest [8, 9], Receive 0, Release 0] demo_map
    = Some ([Claimed (Some 0), Published True, Delivered [7], Empty, Published True, Delivered [8, 9],
             Released], m')"
proof -
  let ?ops = "[Claim, Publish [7], Receive 0, Receive 0, PublishDropOldest [8, 9], Receive 0, Release 0]"
  let ?r = "ring_handle 4 16 2"
  have "run_ok (a_ok ?r) (a_step (ncap ?r)) ?ops (fresh_log ?r)"
    unfolding demo_fresh by (simp add: a_tail_def a_full_def skip_to_def ncap_def)
  moreover have "fst (run_abs (a_step (ncap ?r)) ?ops (fresh_log ?r)) =
      [Claimed (Some 0), Published True, Delivered [7], Empty, Published True, Delivered [8, 9], Released]"
    unfolding demo_fresh by (simp add: a_tail_def a_full_def skip_to_def a_get_def ncap_def)
  ultimately show ?thesis
    using ring_runs_refine_log [OF demo_map_refines, of ?ops] by auto
qed

lemma run_ok_receive:
  assumes "run_ok (a_ok r) (a_step n) ops a" "Receive j \<in> set ops"
  shows "j < unat (max_subscribers r)"
  using assms by (induction ops arbitrary: a) auto

text \<open>C3: under \<open>BackpressurePolicy::Error\<close> a subscriber sees every accepted message exactly
  once and in order: what a run delivers to the subscriber in slot \<open>i\<close> is the stretch of the
  log, extended by the messages accepted during the run, that its cursor moves over. Other
  subscribers may come and go meanwhile.\<close>

theorem error_policy_exactly_once:
  assumes "ring_refines r m a" "run_ok (a_ok r) (a_step (ncap r)) ops a"
    and "spmc (ncap r) a" "i < unat (max_subscribers r)" "a_cursors a ! i = Some c"
    and "\<forall>op \<in> set ops. \<not> is_drop op \<and> op \<noteq> Release i"
  shows "\<exists>obs m' c'. run_steps (ring_step r) ops m = Some (obs, m')
    \<and> cursor_at m' i = of_nat c' \<and> c \<le> c' \<and> c' \<le> a_tail a + length (accepted ops obs)
    \<and> current_tail m' = of_nat (a_tail a + length (accepted ops obs))
    \<and> a_tail a + length (accepted ops obs) \<le> c' + ncap r
    \<and> delivered i ops obs
        = take (c' - c) (drop (c - a_base a) (a_msgs a @ accepted ops obs))"
proof -
  let ?run = "run_abs (a_step (ncap r)) ops a"
  note D = ring_refinesD [OF assms(1)]
  obtain m' where run: "run_steps (ring_step r) ops m = Some (fst ?run, m')"
      "ring_refines r m' (snd ?run)"
    using ring_sim.run_sim [OF assms(1,2)] by blast
  have log: "a_base (snd ?run) = a_base a" "a_msgs (snd ?run) = a_msgs a @ accepted ops (fst ?run)"
      "length (a_cursors (snd ?run)) = length (a_cursors a)"
    using a_run_log [of "ncap r" ops a] by auto
  obtain c' where c': "a_cursors (snd ?run) ! i = Some c'" "c \<le> c'"
      "delivered i ops (fst ?run) = stretch (snd ?run) c c'" "spmc (ncap r) (snd ?run)"
    using a_run_delivery [OF D(3) assms(3,5), where ops = ops] assms(4,6) D(7) run_ok_receive [OF assms(2)] by auto
  have tail: "a_tail (snd ?run) = a_tail a + length (accepted ops (fst ?run))"
    by (simp add: a_tail_def log)
  have "cursor_at m' i = of_nat c'"
    using ring_refinesD(8) [OF run(2) assms(4)] c'(1) by (simp add: cursor_rel_def)
  moreover have "c' \<le> a_tail (snd ?run)" "a_tail (snd ?run) \<le> c' + ncap r"
    using c'(1,4) assms(4) D(7) log(3) unfolding spmc_def by (metis nth_mem)+
  ultimately show ?thesis
    using run(1) c'(2,3) ring_refinesD(6) [OF run(2)]
    by (intro exI [of _ "fst ?run"] exI [of _ m'] exI [of _ c'])
       (simp add: stretch_def log tail)
qed

definition demo_log :: alog where
  "demo_log = \<lparr>a_base = 0, a_msgs = [], a_cursors = [Some 0, None]\<rparr>"

definition demo_joined :: bytes where
  "demo_joined = snd (claim_cursor (ring_handle 4 16 2) demo_map 0)"

lemma demo_joined_refines: "ring_refines (ring_handle 4 16 2) demo_joined demo_log"
proof -
  have "run_ok (a_ok (ring_handle 4 16 2)) (a_step (ncap (ring_handle 4 16 2))) [Claim]
      (fresh_log (ring_handle 4 16 2))"
    by simp
  moreover have "current_tail demo_map = 0"
    using ring_create_props(9) [OF demo_ring_wf] by (simp add: demo_map_def)
  ultimately show ?thesis
    using ring_sim.run_sim [OF demo_map_refines, of "[Claim]"]
    unfolding demo_fresh by (auto simp: demo_joined_def demo_log_def a_tail_def split_beta)
qed

theorem error_policy_exactly_once_witness:
  "\<exists>obs m' c'. run_steps (ring_step (ring_handle 4 16 2))
      [Publish [1], Publish [2], Receive 0, Claim, Publish [3], Receive 0] demo_joined = Some (obs, m')
    \<and> cursor_at m' 0 = of_nat c'
    \<and> delivered 0 [Publish [1], Publish [2], Receive 0, Claim, Publish [3], Receive 0] obs
      = take c' (accepted [Publish [1], Publish [2], Receive 0, Claim, Publish [3], Receive 0] obs)"
proof -
  let ?r = "ring_handle 4 16 2"
  let ?ops = "[Publish [1], Publish [2], Receive 0, Claim, Publish [3], Receive 0]"
  have "run_ok (a_ok ?r) (a_step (ncap ?r)) ?ops demo_log"
    by (simp add: demo_log_def a_tail_def a_full_def skip_to_def ncap_def)
  moreover have "spmc (ncap ?r) demo_log"
    by (auto simp: spmc_def demo_log_def a_tail_def)
  moreover have "a_cursors demo_log ! 0 = Some 0" "a_base demo_log = 0" "a_msgs demo_log = []"
    by (simp_all add: demo_log_def)
  ultimately show ?thesis
    using error_policy_exactly_once [OF demo_joined_refines, of ?ops 0 0] by fastforce
qed

text \<open>C6: under any mix of policies, what a subscriber receives are accepted messages in
  increasing position, each at most once, all between the old and the new value of its cursor:
  \<open>DropOldest\<close> can skip messages, never repeat, reorder or invent one.\<close>

theorem drop_oldest_in_order:
  assumes "ring_refines r m a" "run_ok (a_ok r) (a_step (ncap r)) ops a"
    and "i < unat (max_subscribers r)" "a_cursors a ! i = Some c" "Release i \<notin> set ops"
  shows "\<exists>obs m' c' ks. run_steps (ring_step r) ops m = Some (obs, m')
    \<and> cursor_at m' i = of_nat c'
    \<and> sorted_wrt (<) ks \<and> (\<forall>k \<in> set ks. c \<le> k \<and> k < c')
    \<and> delivered i ops obs = map (\<lambda>k. (a_msgs a @ accepted ops obs) ! (k - a_base a)) ks"
proof -
  let ?run = "run_abs (a_step (ncap r)) ops a"
  note D = ring_refinesD [OF assms(1)]
  obtain m' where run: "run_steps (ring_step r) ops m = Some (fst ?run, m')"
      "ring_refines r m' (snd ?run)"
    using ring_sim.run_sim [OF assms(1,2)] by blast
  have log: "a_base (snd ?run) = a_base a" "a_msgs (snd ?run) = a_msgs a @ accepted ops (fst ?run)"
    using a_run_log [of "ncap r" ops a] by auto
  have "a_inv a"
    unfolding a_inv_def
  proof (intro allI impI)
    fix c assume "Some c \<in> set (a_cursors a)"
    then obtain j where "j < unat (max_subscribers r)" "a_cursors a ! j = Some c"
      using D(7) by (metis in_set_conv_nth)
    then show "a_base a \<le> c \<and> c \<le> a_tail a"
      using D(8) [of j] by (simp add: cursor_rel_def)
  qed
  then obtain c' ks where c': "a_cursors (snd ?run) ! i = Some c'"
      "delivered i ops (fst ?run) = map (a_get (snd ?run)) ks"
      "sorted_wrt (<) ks" "\<forall>k \<in> set ks. c \<le> k \<and> k < c'"
    using a_run_increasing [OF D(3) _ assms(4) _ assms(5)] assms(3) D(7) run_ok_receive [OF assms(2)]
    by auto
  moreover have "cursor_at m' i = of_nat c'"
    using ring_refinesD(8) [OF run(2) assms(3)] c'(1) by (simp add: cursor_rel_def)
  moreover have "a_get (snd ?run) = (\<lambda>k. (a_msgs a @ accepted ops (fst ?run)) ! (k - a_base a))"
    by (simp add: a_get_def log fun_eq_iff)
  ultimately show ?thesis
    using run(1) by auto
qed

theorem drop_oldest_in_order_witness:
  "\<exists>obs m' c' ks. run_steps (ring_step (ring_handle 4 16 2))
      [PublishDropOldest [1], Receive 0, Publish [2], Receive 0] demo_joined = Some (obs, m')
    \<and> cursor_at m' 0 = of_nat c' \<and> sorted_wrt (<) ks
    \<and> delivered 0 [PublishDropOldest [1], Receive 0, Publish [2], Receive 0] obs
      = map ((!) (accepted [PublishDropOldest [1], Receive 0, Publish [2], Receive 0] obs)) ks"
proof -
  let ?r = "ring_handle 4 16 2"
  let ?ops = "[PublishDropOldest [1], Receive 0, Publish [2], Receive 0]"
  have "run_ok (a_ok ?r) (a_step (ncap ?r)) ?ops demo_log"
    by (simp add: demo_log_def a_tail_def a_full_def skip_to_def ncap_def)
  moreover have "a_cursors demo_log ! 0 = Some 0" "a_base demo_log = 0" "a_msgs demo_log = []"
    by (simp_all add: demo_log_def)
  ultimately show ?thesis
    using drop_oldest_in_order [OF demo_joined_refines, of ?ops 0 0] by fastforce
qed

text \<open>On a map no one else changes, \<open>try_receive\<close> returns the message at the cursor when
  it is still in its slot, and otherwise the newest message that was written over it; it stores
  the following position in the cursor slot. With nothing to read it changes nothing.\<close>

theorem try_receive_functional:
  assumes "log_view r m base msgs" "base \<le> unat c"
  shows "try_receive r m idx c out =
    (if unat c < base + length msgs
     then let k = skip_to (ncap r) (base + length msgs) (unat c)
          in Some (Some (of_nat (k + 1)), msgs ! (k - base), set_cursor m idx (of_nat (k + 1)))
     else Some (None, out, m))"
  using assms by (rule try_receive_seq)

theorem try_receive_functional_witness:
  "try_receive (ring_handle 4 16 2) demo_map 0 0 [9] = Some (None, [9], demo_map)"
proof -
  have "log_view (ring_handle 4 16 2) demo_map 0 []"
    using ring_refinesD(1) [OF demo_map_refines] by (simp add: demo_fresh)
  then show ?thesis
    using try_receive_functional [of "ring_handle 4 16 2" demo_map 0 "[]" 0 0 "[9]"] by simp
qed

text \<open>A subscriber that is one message too late under \<open>DropOldest\<close> does not lose one
  message: it continues at the newest message, past \<open>capacity - 1\<close> messages that are still intact
  in their slots.\<close>

theorem overtaken_reader_skips_retained:
  assumes "log_view r m base msgs" "base \<le> unat c" "1 < ncap r"
    and "base + length msgs = unat c + ncap r + 1"
  shows "\<exists>m'. try_receive r m idx c out
      = Some (Some (c + of_nat (ncap r) + 1), last msgs, m')
    \<and> (\<forall>k. unat c < k \<and> k < unat c + ncap r \<longrightarrow> slot_data r m (k mod ncap r) = msgs ! (k - base))"
proof -
  have skip: "skip_to (ncap r) (base + length msgs) (unat c) = unat c + ncap r"
    using assms(3,4) by (simp add: skip_to_def)
  have "msgs ! (unat c + ncap r - base) = last msgs"
    using assms(2,3,4) by (subst last_conv_nth) (auto intro!: arg_cong [of _ _ "(!) msgs"])
  then have "try_receive r m idx c out = Some (Some (c + of_nat (ncap r) + 1), last msgs,
      set_cursor m idx (c + of_nat (ncap r) + 1))"
    using try_receive_seq [OF assms(1,2), of idx out] assms(4) unfolding skip
    by (simp add: Let_def ac_simps)
  moreover have "slot_data r m (k mod ncap r) = msgs ! (k - base)"
    if "unat c < k" "k < unat c + ncap r" for k
    using that assms(2,4) by (intro log_view_slot(3) [OF assms(1)]) simp_all
  ultimately show ?thesis
    by blast
qed

definition demo_overtaken_ops :: "ring_op list" where
  "demo_overtaken_ops = map (\<lambda>b. PublishDropOldest [b]) [1, 2, 3, 4, 5]"

definition demo_overtaken :: bytes where
  "demo_overtaken = snd (the (run_steps (ring_step (ring_handle 4 16 2)) demo_overtaken_ops demo_map))"

lemma demo_overtaken_view:
  "log_view (ring_handle 4 16 2) demo_overtaken 0 [[1], [2], [3], [4], [5]]"
proof -
  let ?r = "ring_handle 4 16 2"
  have "run_ok (a_ok ?r) (a_step (ncap ?r)) demo_overtaken_ops (fresh_log ?r)"
    unfolding demo_fresh by (simp add: demo_overtaken_ops_def a_tail_def)
  moreover have "a_msgs (snd (run_abs (a_step (ncap ?r)) demo_overtaken_ops (fresh_log ?r)))
      = [[1], [2], [3], [4], [5]]" "a_base (snd (run_abs (a_step (ncap ?r)) demo_overtaken_ops (fresh_log ?r))) = 0"
    unfolding demo_fresh by (simp_all add: demo_overtaken_ops_def)
  ultimately show ?thesis
    using ring_sim.run_sim [OF demo_map_refines] ring_refinesD(1) unfolding demo_overtaken_def by fastforce
qed

theorem overtaken_reader_skips_retained_witness:
  "\<exists>m'. try_receive (ring_handle 4 16 2) demo_overtaken 0 0 [] = Some (Some 5, [5], m')"
  using overtaken_reader_skips_retained [OF demo_overtaken_view, of 0 0 "[]"] by (auto simp: ncap_def)

text \<open>The slice variant of receive agrees with the vector variant for every buffer of at least
  \<open>slot_payload_size\<close> bytes, under every interference by other processes: same outcome, same
  store to the cursor table, and the first \<open>len\<close> bytes of the buffer are the payload.\<close>

theorem receive_into_slice_agrees:
  assumes "unat (slot_payload_size r) \<le> length buf"
  shows "case (try_receive_into_slice_at E t r idx c buf, try_receive_at E t r idx c out) of
      (Some (res, buf', stores), Some (res', out', stores')) \<Rightarrow>
        stores = stores' \<and> length buf' = length buf
        \<and> (case res of None \<Rightarrow> res' = None
            | Some (cur, len) \<Rightarrow> res' = Some cur \<and> len = Some (length out')
                \<and> take (length out') buf' = out')
    | (None, None) \<Rightarrow> True
    | _ \<Rightarrow> False"
  using recv_slice_loop_agrees [OF assms, of E 16 c "t + 1" out]
  by (auto simp: try_receive_into_slice_at_def try_receive_at_def Let_def recv_agree_def
      simp del: recv_loop.simps recv_slice_loop.simps split: prod.splits option.splits)

theorem receive_into_slice_agrees_witness:
  "try_receive_into_slice_at (\<lambda>_. demo_map) 0 (ring_handle 4 16 2) 0 0 (replicate 16 0) \<noteq> None
    \<longleftrightarrow> try_receive_at (\<lambda>_. demo_map) 0 (ring_handle 4 16 2) 0 0 [] \<noteq> None"
  using receive_into_slice_agrees [of "ring_handle 4 16 2" "replicate 16 0" "\<lambda>_. demo_map" 0 0 0 "[]"]
  by (auto split: option.splits)

text \<open>A publish under the \<open>Error\<close> policy is rejected exactly when \<open>lags_with_idx\<close> reports
  a subscriber whose lag has reached \<open>capacity\<close>, and \<open>stats\<close> reports the same lags in index
  order.\<close>

theorem rejected_iff_lagging:
  assumes "ring_refines r m a" "length d \<le> unat (slot_payload_size r)"
  shows "((\<exists>m'. try_publish r m d = Some (False, m'))
      \<longleftrightarrow> (\<exists>(i, lag) \<in> set (lags_with_idx r m). ncap r \<le> unat lag))
    \<and> rs_lags (stats r m) = map snd (lags_with_idx r m)
    \<and> rs_active_subscribers (stats r m) = length (lags_with_idx r m)"
proof -
  note D = ring_refinesD [OF assms(1)]
  have lags: "lags_with_idx r m = map (\<lambda>i. (i, saturating_sub (current_tail m) (cursor_at m i)))
      (filter (\<lambda>i. cursor_at m i \<noteq> CURSOR_UNCLAIMED) [0..<unat (max_subscribers r)])"
    by (simp add: lags_with_idx_def List.map_filter_def Let_def comp_def cong: if_cong)
  have le: "\<forall>c \<in> claimed r m. c \<le> current_tail m"
  proof
    fix w assume "w \<in> claimed r m"
    then obtain i where i: "i < unat (max_subscribers r)" "w = cursor_at m i" "w \<noteq> CURSOR_UNCLAIMED"
      unfolding claimed_def by blast
    then obtain c where "a_cursors a ! i = Some c"
      using cursor_rel_claimed [OF D(8) [OF i(1)] D(5)] by auto
    then have "w = of_nat c" "c \<le> a_tail a"
      using D(8) [OF i(1)] i(2) by (simp_all add: cursor_rel_def)
    then show "w \<le> current_tail m"
      using D(4,5) by (simp only: word_le_nat_alt unat_of_nat_small le_less_trans)
  qed
  have "(\<exists>m'. try_publish r m d = Some (False, m')) \<longleftrightarrow> is_full r m"
    using assms(2) by (auto simp: try_publish_full_iff split: option.splits)
  also have "\<dots> \<longleftrightarrow> (\<exists>c \<in> claimed r m. ncap r \<le> unat (current_tail m) - unat c)"
  proof -
    have "x + ncap r \<le> t \<longleftrightarrow> ncap r \<le> t - x" for x t
      using D(3) by linarith
    then show ?thesis
      using is_full_iff [OF D(3) le] by simp
  qed
  also have "\<dots> \<longleftrightarrow> (\<exists>(i, lag) \<in> set (lags_with_idx r m). ncap r \<le> unat lag)"
    unfolding set_lags_with_idx claimed_def by (auto simp: unat_saturating_sub)
  finally show ?thesis
    by (simp add: stats_def Let_def stats_lags lags comp_def)
qed

theorem rejected_iff_lagging_witness:
  "(\<exists>m'. try_publish (ring_handle 4 16 2) demo_joined [1] = Some (False, m'))
    \<longleftrightarrow> (\<exists>(i, lag) \<in> set (lags_with_idx (ring_handle 4 16 2) demo_joined). 4 \<le> unat lag)"
  using rejected_iff_lagging [OF demo_joined_refines, of "[1]"] by (simp add: ncap_def)

lemma slot_view_init_cursors:
  assumes "mapped r m" "n \<le> unat (max_subscribers r)"
  shows "slot_view r (init_cursors n m) i = slot_view r m i"
  using assms(2)
  by (induction n) (simp_all add: frame_simps init_cursors_props(1) [OF assms(1)])

lemma created_slot_seq:
  assumes wf: "ring_wf (ring_handle cap sps msubs)" and i: "i < ncap (ring_handle cap sps msubs)"
  shows "slot_seq (ring_handle cap sps msubs) (snd (ring_create cap sps msubs)) i = 0"
proof -
  let ?r = "ring_handle cap sps msubs"
  have size: "unat (mmap_size cap sps msubs) = ring_bytes ?r"
    using wf mmap_size_ring_bytes [of ?r] by (simp add: ring_wf_def)
  define z :: bytes where "z = replicate (ring_bytes ?r) 0"
  define h where "h = wr64 (wr32 (wr32 (wr32 (wr32 (wr64 z OFF_MAGIC MAGIC) OFF_VERSION 5)
    OFF_CAPACITY cap) OFF_SLOT_SIZE sps) OFF_MAX_SUBS msubs) OFF_GENERATION 1"
  have m: "snd (ring_create cap sps msubs) = init_cursors (unat msubs) h"
    by (simp add: ring_create_def Let_def size h_def z_def)
  have mz: "mapped ?r z"
    using wf by (simp add: mapped_def z_def)
  have lz: "64 \<le> length z"
    by (rule mapped_tail_room [OF mz])
  have mh: "mapped ?r h"
    using mz by (rule mapped_length) (use lz in \<open>simp add: h_def\<close>)
  have end': "slot_base ?r i + nstride ?r \<le> length z" and low: "64 \<le> slot_base ?r i"
    using slot_base_end [OF i] mapped_bounds(3) [OF mz, of i] by (simp_all add: z_def)
  then have "slot_base ?r i + 8 \<le> length z"
    using nstride_bounds [of ?r] by linarith
  then have "rd64 h (slot_base ?r i) = 0"
    using lz low by (simp add: h_def buf_simps disjoint_ranges_def z_def zero_read)
  then show ?thesis
    using slot_view_cong(1) [OF slot_view_init_cursors [OF mh, of "unat msubs" i]]
    by (simp add: m slot_seq_def)
qed

text \<open>After WAL recovery has moved the tail of a fresh ring to \<open>T0\<close>, a subscriber that starts
  \<open>capacity\<close> messages back (0 \<open><\<close> c) finds no message, although its cursor is behind the tail, and
  the publisher is rejected: neither side can ever move again without the other.\<close>

theorem recovered_ring_stuck:
  assumes wf: "ring_wf (ring_handle cap sps msubs)" and "0 < unat msubs"
    and "0 < unat c" "unat c + unat cap < 2 ^ 63" "length d \<le> unat sps"
  shows "case claim_cursor (ring_handle cap sps msubs)
        (set_tail (snd (ring_create cap sps msubs)) (c + ucast cap)) c of
      (slot, m) \<Rightarrow> slot = Some 0
        \<and> unat c < unat (current_tail m)
        \<and> try_receive (ring_handle cap sps msubs) m 0 c out = Some (None, out, m)
        \<and> try_publish (ring_handle cap sps msubs) m d = Some (False, m)"
proof -
  let ?r = "ring_handle cap sps msubs" and ?T = "c + ucast cap"
  define m0 where "m0 = snd (ring_create cap sps msubs)"
  note P = ring_create_props [OF wf, folded m0_def]
  have cap: "0 < unat cap" "cap \<noteq> 0"
    using wf by (auto simp: ring_wf_def unat_gt_0)
  have T: "unat ?T = unat c + unat cap"
    using assms(4) by (subst unat_add_small) simp_all
  have mp1: "mapped ?r (set_tail m0 ?T)"
    using P(1) by (simp add: frame_simps)
  have i0: "0 < unat (max_subscribers ?r)"
    using assms(2) by simp
  let ?m1 = "set_cursor (set_tail m0 ?T) 0 c"
  have mp2: "mapped ?r ?m1"
    using mp1 i0 by (rule mapped_low_writes(2))
  have "cursor_at (set_tail m0 ?T) 0 = CURSOR_UNCLAIMED"
    using header_set_tail(3) [OF P(1), where v = ?T and j = 0] P(10) [OF assms(2)] by simp
  then have cl: "claim_cursor ?r (set_tail m0 ?T) c = (Some 0, clear_wakeflag ?r ?m1 0)"
    using assms(2) by (cases "unat msubs") (simp_all add: claim_cursor_def)
  let ?m = "clear_wakeflag ?r ?m1 0"
  have tail: "current_tail ?m = ?T"
    unfolding clear_wakeflag_def
    using header_wakeflag(1) [OF mp2 i0] header_set_cursor(1) [OF mp1 i0] header_set_tail(1) [OF P(1)]
    by simp
  have cur: "cursor_at ?m j = (if j = 0 then c else CURSOR_UNCLAIMED)" if "j < unat msubs" for j
    unfolding clear_wakeflag_def
    using header_wakeflag(3) [OF mp2 i0, of j] header_set_cursor(3) [OF mp1 i0, of c j]
      header_set_tail(3) [OF P(1), of ?T j] P(10) [of j] that by simp
  have view: "slot_view ?r ?m i = slot_view ?r m0 i" for i
    unfolding clear_wakeflag_def
    by (simp add: slot_view_wakeflag [OF mp2 i0] slot_view_set_cursor [OF mp1 i0]
        slot_view_set_tail [OF P(1)])
  have idx: "unat c mod ncap ?r < ncap ?r"
    using cap by (simp add: ncap_def)
  have "slot_seq ?r ?m (unat c mod ncap ?r) = 0"
    using slot_view_cong(1) [OF view] created_slot_seq [OF wf idx] by (simp add: m0_def)
  then have seq: "rd64 ?m (slot_addr ?r c) = 0"
    by (simp add: slot_seq_def slot_addr_base [OF wf])
  have retries: "(16::nat) = Suc 15"
    by simp
  have "recv_loop (\<lambda>_. ?m) 16 ?r c out 1 = (None, out, 2)"
    by (subst retries, simp only: recv_loop.simps Let_def seq)
       (use assms(3) in \<open>simp add: word_less_nat_alt unat_gt_0\<close>)
  moreover have "\<not> rd64 ?m OFF_TAIL \<le> c"
    using tail T cap(1) by (simp add: current_tail_def word_le_nat_alt)
  ultimately have recv: "try_receive ?r ?m 0 c out = Some (None, out, ?m)"
    using cap(2) by (simp add: try_receive_def try_receive_at_def Let_def del: recv_loop.simps)
  have c_ne: "c \<noteq> CURSOR_UNCLAIMED"
    using assms(4) by (auto simp: CURSOR_UNCLAIMED_def unsigned_minus_1_eq_mask mask_eq_exp_minus_1)
  have claimed: "claimed ?r ?m = {c}"
    using cur c_ne assms(2) by (auto simp: claimed_def split: if_splits intro!: exI [of _ "0 :: nat"])
  then have "is_full ?r ?m"
    by (simp add: is_full_def min_active_cursor_eq tail)
  then have pub: "try_publish ?r ?m d = Some (False, ?m)"
    using assms(5) by (simp add: try_publish_full_iff)
  show ?thesis
    unfolding m0_def [symmetric] cl using recv pub tail T cap(1) by simp
qed

theorem recovered_ring_stuck_witness:
  "case claim_cursor (ring_handle 4 16 2) (set_tail (snd (ring_create 4 16 2)) (6 + ucast (4 :: u32))) 6 of
    (slot, m) \<Rightarrow> slot = Some 0 \<and> unat (6 :: u64) < unat (current_tail m)
      \<and> try_receive (ring_handle 4 16 2) m 0 6 [] = Some (None, [], m)
      \<and> try_publish (ring_handle 4 16 2) m [1] = Some (False, m)"
  by (rule recovered_ring_stuck [OF demo_ring_wf]) simp_all

end
