(* ===== verification/Seqlock.thy ===== *)
theory Seqlock
  imports Ring_Properties
begin

text \<open>
  The seqlock of the ring under concurrency. The publisher is the list of stores that
  \<open>write_slot\<close> and the tail update perform for each message, byte by byte; a run of it is a
  monotone position in that list as a function of time, and a reader's loads see the memory at
  the position of their time (interleaving semantics: the acquire/release pairs of the source are
  what the hardware needs to make loads and stores take effect in these orders). Other processes
  may store to the cursor and wakeup-flag tables at any time.

  The result: what \<open>try_receive\<close> accepts is a message of the log, complete and unmixed, for every
  interleaving of its loads with the publisher's stores.
\<close>

subsection \<open>Memory along a list of stores\<close>

fun along :: "(bytes \<Rightarrow> bool) \<Rightarrow> (bytes \<Rightarrow> bytes \<Rightarrow> bool) \<Rightarrow> bytes \<Rightarrow> store list \<Rightarrow> bool" where
  "along P Q m [] \<longleftrightarrow> P m"
| "along P Q m (s # ss) \<longleftrightarrow> P m \<and> Q m (apply_store m s) \<and> along P Q (apply_store m s) ss"

lemma along_append:
  "along P Q m (ss @ ts) \<longleftrightarrow> along P Q m ss \<and> along P Q (apply_stores m ss) ts"
  by (induction ss arbitrary: m) (auto elim: along.elims)

lemma along_state: "along P Q m ss \<Longrightarrow> n \<le> length ss \<Longrightarrow> P (apply_stores m (take n ss))"
proof (induction ss arbitrary: m n)
  case Nil
  then show ?case by simp
next
  case (Cons s ss)
  then show ?case by (cases n) auto
qed

lemma along_step:
  "along P Q m ss \<Longrightarrow> n < length ss
    \<Longrightarrow> Q (apply_stores m (take n ss)) (apply_stores m (take (Suc n) ss))"
proof (induction ss arbitrary: m n)
  case Nil
  then show ?case by simp
next
  case (Cons s ss)
  then show ?case by (cases n) auto
qed

subsection \<open>The publisher's stores\<close>

definition publish_stores :: "ring \<Rightarrow> u64 \<Rightarrow> bytes \<Rightarrow> store list" where
  "publish_stores r tail data = write_slot_stores r tail data @ [(OFF_TAIL, u64_le (tail + 1))]"

fun publish_program :: "ring \<Rightarrow> u64 \<Rightarrow> bytes list \<Rightarrow> store list" where
  "publish_program r tail [] = []"
| "publish_program r tail (d # ds) = publish_stores r tail d @ publish_program r (tail + 1) ds"

lemma apply_publish_stores:
  "apply_stores m (publish_stores r tail d)
    = set_tail (apply_stores m (write_slot_stores r tail d)) (tail + 1)"
  by (simp add: publish_stores_def set_tail_def wr64_def apply_store_def)

lemma publish_drop_oldest_stores:
  assumes "mapped r m" "length d \<le> unat (slot_payload_size r)"
  shows "publish_drop_oldest r m d
    = Some (True, apply_stores m (publish_stores r (current_tail m) d))"
  by (simp add: publish_drop_oldest_def Let_def write_slot_ok [OF assms] apply_publish_stores)

subsection \<open>One slot while messages are written\<close>

definition marked :: "ring \<Rightarrow> nat \<Rightarrow> bytes \<Rightarrow> bool" where
  "marked r i m \<longleftrightarrow> slot_seq r m i AND SEQ_WRITING_BIT \<noteq> 0"

text \<open>The value of \<open>seq\<close> as a number that only grows: odd when a message is complete.\<close>

definition seq_key :: "ring \<Rightarrow> nat \<Rightarrow> bytes \<Rightarrow> nat" where
  "seq_key r i m = 2 * unat (slot_seq r m i AND NOT SEQ_WRITING_BIT)
     + (if marked r i m then 0 else 1)"

definition slot_step :: "ring \<Rightarrow> nat \<Rightarrow> bytes \<Rightarrow> bytes \<Rightarrow> bool" where
  "slot_step r i m m' \<longleftrightarrow> seq_key r i m \<le> seq_key r i m'
     \<and> (slot_view r m' i \<noteq> slot_view r m i \<longrightarrow> marked r i m \<or> seq_key r i m < seq_key r i m')"

text \<open>The slot holds message \<open>k\<close> of the log, or is being overwritten with one of its messages.\<close>

definition holds_message :: "ring \<Rightarrow> nat \<Rightarrow> bytes list \<Rightarrow> nat \<Rightarrow> bytes \<Rightarrow> bool" where
  "holds_message r base msgs i m \<longleftrightarrow> (\<exists>k. base \<le> k \<and> k < base + length msgs \<and> k < 2 ^ 63
     \<and> k mod ncap r = i
     \<and> (slot_seq r m i = of_nat k OR SEQ_WRITING_BIT
        \<or> slot_seq r m i = of_nat k
          \<and> length (msgs ! (k - base)) \<le> unat (slot_payload_size r)
          \<and> slot_len r m i = of_nat (length (msgs ! (k - base)))
          \<and> slot_data r m i = msgs ! (k - base)))"

definition written :: "ring \<Rightarrow> nat \<Rightarrow> nat \<Rightarrow> nat \<Rightarrow> bool" where
  "written r base T i \<longleftrightarrow> (\<exists>k. base \<le> k \<and> k < T \<and> T \<le> k + ncap r \<and> k mod ncap r = i)"

lemma written_Suc:
  assumes "written r base T i" "0 < ncap r"
  shows "written r base (Suc T) i"
proof -
  obtain k where k: "base \<le> k" "k < T" "T \<le> k + ncap r" "k mod ncap r = i"
    using assms(1) by (auto simp: written_def)
  show ?thesis
  proof (cases "T = k + ncap r")
    case True
    with k assms(2) show ?thesis
      unfolding written_def by (intro exI [of _ T]) auto
  next
    case False
    with k show ?thesis
      unfolding written_def by (intro exI [of _ k]) auto
  qed
qed

lemma written_grow: "written r base T i \<Longrightarrow> 0 < ncap r \<Longrightarrow> T \<le> T' \<Longrightarrow> written r base T' i"
  by (induction T') (auto intro: written_Suc simp: le_Suc_eq)

lemma written_cursor:
  assumes "0 < ncap r" "base \<le> c" "c < T"
  shows "written r base T (c mod ncap r)"
  unfolding written_def
  using skip_to_bounds [OF assms(3,1)] assms(2) by (intro exI [of _ "skip_to (ncap r) T c"]) auto

lemma marked_seq: "slot_seq r m i = s OR SEQ_WRITING_BIT \<Longrightarrow> marked r i m"
  by (simp only: marked_def marked_not_clean not_False_eq_True)

lemma clean_of_nat: "k < 2 ^ 63 \<Longrightarrow> of_nat k AND SEQ_WRITING_BIT = 0"
  by (simp only: clean_iff unat_of_nat_small)

lemma not_marked_seq: "k < 2 ^ 63 \<Longrightarrow> slot_seq r m i = of_nat k \<Longrightarrow> \<not> marked r i m"
  by (simp only: marked_def clean_of_nat simp_thms)

lemma seq_key_marked:
  assumes "k < 2 ^ 63" "slot_seq r m i = of_nat k OR SEQ_WRITING_BIT"
  shows "seq_key r i m = 2 * k"
  using marked_seq [OF assms(2)]
  by (simp only: seq_key_def assms(2) unmark [OF clean_of_nat [OF assms(1)]]
      unat_of_nat_small [OF assms(1)] if_True add_0_right)

lemma seq_key_clean:
  assumes "k < 2 ^ 63" "slot_seq r m i = of_nat k"
  shows "seq_key r i m = 2 * k + 1"
  using not_marked_seq [OF assms]
  by (simp only: seq_key_def assms(2) clean_and_not [OF clean_of_nat [OF assms(1)]]
      unat_of_nat_small [OF assms(1)] if_False)

lemma slot_step_same: "slot_view r m' i = slot_view r m i \<Longrightarrow> slot_step r i m m'"
  using slot_view_cong(1) [of r m i m'] by (simp add: slot_step_def seq_key_def marked_def)

lemma holds_message_cong:
  assumes "slot_view r m' i = slot_view r m i" "holds_message r base msgs i m"
  shows "holds_message r base msgs i m'"
proof -
  obtain k where k: "base \<le> k" "k < base + length msgs" "k < 2 ^ 63" "k mod ncap r = i"
      "slot_seq r m i = of_nat k OR SEQ_WRITING_BIT
        \<or> slot_seq r m i = of_nat k
          \<and> length (msgs ! (k - base)) \<le> unat (slot_payload_size r)
          \<and> slot_len r m i = of_nat (length (msgs ! (k - base)))
          \<and> slot_data r m i = msgs ! (k - base)"
    using assms(2) by (auto simp: holds_message_def)
  have small: "unat (slot_len r m i) \<le> unat (slot_payload_size r)"
    if "length (msgs ! (k - base)) \<le> unat (slot_payload_size r)"
      "slot_len r m i = of_nat (length (msgs ! (k - base)))"
    using that unat_u32_less [of "slot_payload_size r"] by (simp add: unat_of_nat_u32)
  show ?thesis
    unfolding holds_message_def
    using k small slot_view_cong [OF assms(1)] by (intro exI [of _ k]) auto
qed

lemma holds_message_append:
  "holds_message r base msgs i m \<Longrightarrow> holds_message r base (msgs @ ds) i m"
  unfolding holds_message_def by (elim exE, rule_tac x = k in exI) (auto simp: nth_append)

text \<open>Stores elsewhere leave the slot alone.\<close>

lemma along_frame:
  assumes "holds_message r base msgs i m" "hi \<le> length m"
    and "\<forall>s \<in> set ss. store_within lo hi s"
    and "disjoint_ranges lo (hi - lo) (slot_base r i) (nstride r)"
  shows "along (holds_message r base msgs i) (slot_step r i) m ss"
  using assms(1-3)
proof (induction ss arbitrary: m)
  case Nil
  then show ?case by simp
next
  case (Cons s ss)
  have v: "slot_view r (apply_store m s) i = slot_view r m i"
    unfolding slot_view_def using Cons.prems assms(4) by (intro apply_store_within(2)) auto
  have "hi \<le> length (apply_store m s)"
    using Cons.prems by (subst apply_store_within(1)) auto
  then show ?case
    using Cons v by (simp add: holds_message_cong [OF v] slot_step_same)
qed

text \<open>While the bit is set, stores to the rest of the slot change neither it nor the key.\<close>

lemma along_marked:
  assumes "slot_base r i + nstride r \<le> length m"
    and "slot_seq r m i = of_nat k OR SEQ_WRITING_BIT"
    and "base \<le> k" "k < base + length msgs" "k < 2 ^ 63" "k mod ncap r = i"
    and "\<forall>s \<in> set ss. store_within (slot_base r i + 8) (slot_base r i + nstride r) s"
  shows "along (holds_message r base msgs i) (slot_step r i) m ss
    \<and> slot_seq r (apply_stores m ss) i = of_nat k OR SEQ_WRITING_BIT"
  using assms(1,2,7)
proof (induction ss arbitrary: m)
  case Nil
  then show ?case
    using assms(3-6) by (auto simp: holds_message_def)
next
  case (Cons s ss)
  have s: "store_within (slot_base r i + 8) (slot_base r i + nstride r) s"
    using Cons.prems by simp
  have len: "length (apply_store m s) = length m"
    by (rule apply_store_within(1) [OF s Cons.prems(1)])
  have seq: "slot_seq r (apply_store m s) i = of_nat k OR SEQ_WRITING_BIT"
    using apply_store_within(2) [OF s Cons.prems(1), of "slot_base r i" 8] Cons.prems(2)
    by (simp add: slot_seq_def rd64_def disjoint_ranges_def)
  have "holds_message r base msgs i m"
    unfolding holds_message_def using Cons.prems(2) assms(3-6) by blast
  moreover have "slot_step r i m (apply_store m s)"
    unfolding slot_step_def seq_key_marked [OF assms(5) Cons.prems(2)]
      seq_key_marked [OF assms(5) seq] using marked_seq [OF Cons.prems(2)] by simp
  ultimately show ?case
    using Cons.IH [OF _ seq] Cons.prems(1,3) len by simp
qed

lemma log_view_holds:
  assumes "log_view r m base msgs" "written r base (base + length msgs) i"
  shows "\<exists>k. base \<le> k \<and> k < base + length msgs \<and> base + length msgs \<le> k + ncap r
    \<and> k mod ncap r = i \<and> slot_seq r m i = of_nat k"
    and "holds_message r base msgs i m"
proof -
  obtain k where k: "base \<le> k" "k < base + length msgs" "base + length msgs \<le> k + ncap r"
      "k mod ncap r = i"
    using assms(2) by (auto simp: written_def)
  note slot = log_view_slot [OF assms(1) k(1-3), unfolded k(4)]
  show "\<exists>k. base \<le> k \<and> k < base + length msgs \<and> base + length msgs \<le> k + ncap r
    \<and> k mod ncap r = i \<and> slot_seq r m i = of_nat k"
    using k slot(1) by blast
  have "k < 2 ^ 63"
    using log_viewD(3) [OF assms(1)] k(2) by linarith
  then show "holds_message r base msgs i m"
    unfolding holds_message_def using k slot log_view_payload [OF assms(1) k(1,2)] by blast
qed

lemma publish_along:
  assumes view: "log_view r m base msgs" and len: "length d \<le> unat (slot_payload_size r)"
    and room: "base + length msgs + 1 < 2 ^ 63"
    and wr: "written r base (base + length msgs) i"
  shows "along (holds_message r base (msgs @ [d]) i) (slot_step r i) m
    (publish_stores r (current_tail m) d)"
proof -
  let ?T = "base + length msgs"
  let ?i = "?T mod ncap r" and ?msgs = "msgs @ [d]"
  let ?P = "along (holds_message r base ?msgs i) (slot_step r i)"
  note mp = log_viewD(1) [OF view] and tail = log_viewD(2,4) [OF view]
  have wf: "ring_wf r" and n: "0 < ncap r"
    using mp ring_wf_ncap by (auto simp: mapped_def)
  have i: "i < ncap r"
    using wr n by (auto simp: written_def)
  have room_i: "slot_base r j + nstride r \<le> length m" if "j < ncap r" for j
    using mp that by (rule mapped_bounds(2))
  have ws: "\<forall>s \<in> set (write_slot_stores r (current_tail m) d).
      store_within (slot_base r ?i) (slot_base r ?i + nstride r) s"
    using write_slot_stores_within [OF wf len, of "current_tail m"] by (simp only: tail(1))
  have i0: "?i < ncap r"
    using n by simp
  let ?m' = "apply_stores m (write_slot_stores r (current_tail m) d)"
  have lm': "length ?m' = length m"
    using apply_stores_within(1) [OF ws room_i [OF i0]] .
  have start: "holds_message r base ?msgs i m"
    by (rule holds_message_append [OF log_view_holds(2) [OF view wr]])
  have tail_part: "?P ?m' [(OFF_TAIL, u64_le (current_tail m + 1))]"
    if "holds_message r base ?msgs i ?m'"
  proof (rule along_frame [where lo = 0 and hi = 64])
    show "disjoint_ranges 0 (64 - 0) (slot_base r i) (nstride r)"
      using mapped_bounds(3) [OF mp, of i] by (simp add: disjoint_ranges_def)
    show "64 \<le> length ?m'"
      using mapped_tail_room [OF mp] lm' by simp
  qed (use that in \<open>simp_all add: store_within_def\<close>)
  have slot_part: "?P m (write_slot_stores r (current_tail m) d)"
  proof (cases "i = ?i")
    case False
    then have "disjoint_ranges (slot_base r ?i) (slot_base r ?i + nstride r - slot_base r ?i)
        (slot_base r i) (nstride r)"
      using slot_base_disjoint [of ?i i r] by (simp add: disjoint_ranges_def)
    then show ?thesis
      by (rule along_frame [OF start room_i [OF i0] ws])
  next
    case True
    obtain k where k: "k < ?T" "slot_seq r m i = of_nat k"
      using log_view_holds(1) [OF view wr] by blast
    have small: "k < 2 ^ 63" "?T < 2 ^ 63"
      using k(1) room by linarith+
    have T: "base \<le> ?T" "?T < base + length ?msgs" "?T mod ncap r = i"
      using True by simp_all
    let ?b = "slot_base r i" and ?W = "of_nat ?T OR SEQ_WRITING_BIT :: u64"
    let ?D = "(?b + 8, u32_le (of_nat (length d))) # map (\<lambda>k. (?b + 12 + k, [d ! k])) [0..<length d]"
    have addr: "slot_addr r (current_tail m) = ?b"
      by (simp add: slot_addr_base [OF wf] tail(1) True)
    have split: "write_slot_stores r (current_tail m) d
        = [(?b, u64_le ?W)] @ ?D @ [(?b, u64_le (of_nat ?T))]"
      by (simp only: write_slot_stores_def Let_def addr) (simp add: tail(2))
    let ?m1 = "apply_store m (?b, u64_le ?W)"
    have b: "?b + nstride r \<le> length m" "?b + 12 + length d \<le> ?b + nstride r"
      using room_i [OF i] nstride_bounds [of r] len by simp_all
    then have b8: "?b + 8 \<le> length m"
      by linarith
    have seq1: "slot_seq r ?m1 i = ?W"
      using b8 by (simp add: slot_seq_def rd64_def apply_store_def sub_poke_same)
    have l1: "length ?m1 = length m"
      using b8 by (simp add: apply_store_def)
    have "\<forall>s \<in> set ?D. store_within (?b + 8) (?b + nstride r) s"
      using b(2) by (auto simp: store_within_def)
    note D = along_marked [OF _ seq1 T(1,2) small(2) T(3) this, unfolded l1, OF b(1)]
    let ?m2 = "apply_stores ?m1 ?D"
    have m': "apply_store ?m2 (?b, u64_le (of_nat ?T)) = ?m'"
      unfolding split by simp
    note eff = write_slot_effect [OF mp len, where tail = "current_tail m", unfolded tail(1), folded True]
    have seq': "slot_seq r ?m' i = of_nat ?T"
      using eff(2) tail(2) by simp
    have step1: "slot_step r i m ?m1"
      unfolding slot_step_def seq_key_clean [OF small(1) k(2)] seq_key_marked [OF small(2) seq1]
      using k(1) by simp
    have step3: "slot_step r i ?m2 ?m'"
      unfolding slot_step_def seq_key_clean [OF small(2) seq']
        seq_key_marked [OF small(2) conjunct2 [OF D]] by simp
    have fin: "holds_message r base ?msgs i ?m'"
      unfolding holds_message_def using T small(2) seq' eff(3,4) len
      by (intro exI [of _ ?T]) simp
    have D1: "along (holds_message r base ?msgs i) (slot_step r i) ?m1 ?D"
      by (rule conjunct1 [OF D])
    have p2: "holds_message r base ?msgs i ?m2"
      using along_state [OF D1, of "length ?D"] by simp
    have "along (holds_message r base ?msgs i) (slot_step r i) m ([(?b, u64_le ?W)] @ ?D)"
      using start step1 D1 by (simp only: along_append along.simps append.simps simp_thms)
    moreover have "along (holds_message r base ?msgs i) (slot_step r i) ?m2 [(?b, u64_le (of_nat ?T))]"
      unfolding along.simps m' using p2 step3 fin by blast
    ultimately show ?thesis
      unfolding split append_assoc [symmetric] along_append [of _ _ m "[(?b, u64_le ?W)] @ ?D"] by simp
  qed
  have "holds_message r base ?msgs i ?m'"
    using along_state [OF slot_part, of "length (write_slot_stores r (current_tail m) d)"] by simp
  then show ?thesis
    unfolding publish_stores_def along_append using slot_part tail_part by blast
qed

lemma along_mono:
  "along P Q m ss \<Longrightarrow> (\<And>m. P m \<Longrightarrow> P' m) \<Longrightarrow> along P' Q m ss"
  by (induction ss arbitrary: m) auto

lemma log_view_publish:
  assumes "log_view r m base msgs" "length d \<le> unat (slot_payload_size r)"
    "base + length msgs + 1 < 2 ^ 63"
  shows "log_view r (apply_stores m (publish_stores r (current_tail m) d)) base (msgs @ [d])"
    and "current_tail (apply_stores m (publish_stores r (current_tail m) d)) = current_tail m + 1"
proof -
  show *: "log_view r (apply_stores m (publish_stores r (current_tail m) d)) base (msgs @ [d])"
    unfolding apply_publish_stores using assms by (rule log_view_append)
  show "current_tail (apply_stores m (publish_stores r (current_tail m) d)) = current_tail m + 1"
    using log_viewD(4) [OF *] log_viewD(4) [OF assms(1)] by simp
qed

lemma program_along:
  assumes "log_view r m base msgs" "\<forall>d \<in> set ds. length d \<le> unat (slot_payload_size r)"
    and "base + length msgs + length ds < 2 ^ 63" "written r base (base + length msgs) i"
  shows "along (holds_message r base (msgs @ ds) i) (slot_step r i) m
    (publish_program r (current_tail m) ds)"
  using assms
proof (induction ds arbitrary: m msgs)
  case Nil
  then show ?case
    by (simp add: log_view_holds(2))
next
  case (Cons d ds)
  have d: "length d \<le> unat (slot_payload_size r)" "base + length msgs + 1 < 2 ^ 63"
    using Cons.prems by simp_all
  have n: "0 < ncap r"
    using log_viewD(1) [OF Cons.prems(1)] by (simp add: mapped_def ring_wf_ncap)
  note nxt = log_view_publish [OF Cons.prems(1) d]
  have "along (holds_message r base (msgs @ [d]) i) (slot_step r i) m
      (publish_stores r (current_tail m) d)"
    by (rule publish_along [OF Cons.prems(1) d Cons.prems(4)])
  then have "along (holds_message r base ((msgs @ [d]) @ ds) i) (slot_step r i) m
      (publish_stores r (current_tail m) d)"
    by (rule along_mono) (rule holds_message_append)
  moreover have "written r base (base + length (msgs @ [d])) i"
    using written_Suc [OF Cons.prems(4) n] by simp
  then have "along (holds_message r base ((msgs @ [d]) @ ds) i) (slot_step r i)
      (apply_stores m (publish_stores r (current_tail m) d))
      (publish_program r (current_tail m + 1) ds)"
    using Cons.IH [OF nxt(1)] Cons.prems(2,3) nxt(2) by simp
  ultimately show ?case
    by (simp add: along_append)
qed

text \<open>At any point of the program, the last completed message: its tail is what a reader sees.\<close>

lemma tail_during_publish:
  assumes "log_view r m base msgs" "length d \<le> unat (slot_payload_size r)"
    and "n < length (publish_stores r (current_tail m) d)"
  shows "current_tail (apply_stores m (take n (publish_stores r (current_tail m) d))) = current_tail m"
proof -
  note mp = log_viewD(1) [OF assms(1)]
  let ?ss = "take n (write_slot_stores r (current_tail m) d)"
  have wf: "ring_wf r"
    using mp by (simp add: mapped_def)
  have take: "take n (publish_stores r (current_tail m) d) = ?ss"
    using assms(3) by (simp add: publish_stores_def)
  have i: "unat (current_tail m) mod ncap r < ncap r"
    using ring_wf_ncap [OF wf] by simp
  have "\<forall>s \<in> set ?ss. store_within (slot_base r (unat (current_tail m) mod ncap r))
      (slot_base r (unat (current_tail m) mod ncap r) + nstride r) s"
    using write_slot_stores_within [OF wf assms(2), of "current_tail m"] by (meson in_set_takeD)
  from apply_stores_within(2) [OF this mapped_bounds(2) [OF mp i], of 32 8]
  show ?thesis
    using mapped_bounds(3) [OF mp, of "unat (current_tail m) mod ncap r"]
    unfolding take by (simp add: current_tail_def rd64_def disjoint_ranges_def)
qed

lemma program_split:
  assumes "log_view r m base msgs" "\<forall>d \<in> set ds. length d \<le> unat (slot_payload_size r)"
    and "base + length msgs + length ds < 2 ^ 63"
    and "n \<le> length (publish_program r (current_tail m) ds)"
  shows "\<exists>j p. j \<le> length ds \<and> p \<le> n
    \<and> log_view r (apply_stores m (take p (publish_program r (current_tail m) ds))) base (msgs @ take j ds)
    \<and> drop p (publish_program r (current_tail m) ds)
        = publish_program r (current_tail (apply_stores m (take p (publish_program r (current_tail m) ds)))) (drop j ds)
    \<and> unat (current_tail (apply_stores m (take n (publish_program r (current_tail m) ds))))
        = base + length msgs + j"
  using assms
proof (induction ds arbitrary: m msgs n)
  case Nil
  then show ?case
    by (auto simp: log_viewD(2) intro!: exI [of _ 0])
next
  case (Cons d ds)
  let ?S = "publish_stores r (current_tail m) d"
  let ?m1 = "apply_stores m ?S"
  have d: "length d \<le> unat (slot_payload_size r)" "base + length msgs + 1 < 2 ^ 63"
    using Cons.prems by simp_all
  note nxt = log_view_publish [OF Cons.prems(1) d]
  show ?case
  proof (cases "n < length ?S")
    case True
    have "unat (current_tail (apply_stores m (take n (publish_program r (current_tail m) (d # ds)))))
        = base + length msgs"
      using tail_during_publish [OF Cons.prems(1) d(1) True] True log_viewD(2) [OF Cons.prems(1)] by simp
    then show ?thesis
      using Cons.prems(1) by (intro exI [of _ 0]) simp
  next
    case False
    have prog: "publish_program r (current_tail m) (d # ds) = ?S @ publish_program r (current_tail ?m1) ds"
      by (simp add: nxt(2))
    have ds: "\<forall>d \<in> set ds. length d \<le> unat (slot_payload_size r)"
        "base + length (msgs @ [d]) + length ds < 2 ^ 63"
        "n - length ?S \<le> length (publish_program r (current_tail ?m1) ds)"
      using Cons.prems(2-4) unfolding prog by simp_all
    obtain j p where j: "j \<le> length ds" "p \<le> n - length ?S"
        "log_view r (apply_stores ?m1 (take p (publish_program r (current_tail ?m1) ds))) base
          ((msgs @ [d]) @ take j ds)"
        "drop p (publish_program r (current_tail ?m1) ds)
          = publish_program r (current_tail (apply_stores ?m1 (take p (publish_program r (current_tail ?m1) ds)))) (drop j ds)"
        "unat (current_tail (apply_stores ?m1 (take (n - length ?S) (publish_program r (current_tail ?m1) ds))))
          = base + length (msgs @ [d]) + j"
      using Cons.IH [OF nxt(1) ds(1,2) ds(3)] by blast
    have "length ?S + p \<le> n"
      using j(2) False by linarith
    then show ?thesis
      using j False unfolding prog
      by (intro exI [of _ "Suc j"] exI [of _ "length ?S + p"]) simp
  qed
qed

subsection \<open>What a reader can rely on\<close>

definition slot_history :: "ring \<Rightarrow> nat \<Rightarrow> bytes list \<Rightarrow> nat \<Rightarrow> (nat \<Rightarrow> bytes) \<Rightarrow> nat \<Rightarrow> bool" where
  "slot_history r base msgs i E t0 \<longleftrightarrow>
     (\<forall>t \<ge> t0. mapped r (E t) \<and> holds_message r base msgs i (E t))
     \<and> (\<forall>t t'. t0 \<le> t \<and> t \<le> t' \<longrightarrow> seq_key r i (E t) \<le> seq_key r i (E t'))
     \<and> (\<forall>t q t'. t0 \<le> t \<and> t \<le> q \<and> q \<le> t' \<and> \<not> marked r i (E t)
          \<and> seq_key r i (E t) = seq_key r i (E t') \<longrightarrow> slot_view r (E q) i = slot_view r (E t) i)"

text \<open>A run of the publisher: at time \<open>t\<close> the first \<open>pos t\<close> stores of its program have taken
  effect; what other processes store to the cursor and wakeup-flag tables is left open.\<close>

definition publisher_run ::
    "ring \<Rightarrow> bytes \<Rightarrow> bytes list \<Rightarrow> (nat \<Rightarrow> bytes) \<Rightarrow> (nat \<Rightarrow> nat) \<Rightarrow> bool" where
  "publisher_run r m ds E pos \<longleftrightarrow> mono pos
     \<and> (\<forall>t. pos t \<le> length (publish_program r (current_tail m) ds)
          \<and> mapped r (E t)
          \<and> current_tail (E t)
              = current_tail (apply_stores m (take (pos t) (publish_program r (current_tail m) ds)))
          \<and> (\<forall>i < ncap r. slot_view r (E t) i
              = slot_view r (apply_stores m (take (pos t) (publish_program r (current_tail m) ds))) i))"

lemma slot_step_view:
  "slot_view r a i = slot_view r b i \<Longrightarrow> seq_key r i a = seq_key r i b \<and> marked r i a = marked r i b"
  using slot_view_cong(1) [of r a i b] by (simp add: seq_key_def marked_def)

lemma along_key_mono:
  assumes "along P (slot_step r i) m ss" "n \<le> n'" "n' \<le> length ss"
  shows "seq_key r i (apply_stores m (take n ss)) \<le> seq_key r i (apply_stores m (take n' ss))"
  using assms(2,3)
proof (induction n' rule: dec_induct)
  case base
  show ?case by simp
next
  case (step k)
  then have "slot_step r i (apply_stores m (take k ss)) (apply_stores m (take (Suc k) ss))"
    using along_step [OF assms(1), of k] by simp
  then show ?case
    using step by (simp add: slot_step_def)
qed

lemma along_stable:
  assumes al: "along P (slot_step r i) m ss" and n: "n \<le> q" "q \<le> n'" "n' \<le> length ss"
    and clean: "\<not> marked r i (apply_stores m (take n ss))"
    and eq: "seq_key r i (apply_stores m (take n ss)) = seq_key r i (apply_stores m (take n' ss))"
  shows "slot_view r (apply_stores m (take q ss)) i = slot_view r (apply_stores m (take n ss)) i"
  using n(1,2)
proof (induction q rule: dec_induct)
  case base
  show ?case by simp
next
  case (step k)
  let ?M = "\<lambda>k. apply_stores m (take k ss)"
  have IH: "slot_view r (?M k) i = slot_view r (?M n) i"
    using step by simp
  have st: "slot_step r i (?M k) (?M (Suc k))"
    using along_step [OF al, of k] step n(3) by simp
  have "seq_key r i (?M n) \<le> seq_key r i (?M k)" "seq_key r i (?M (Suc k)) \<le> seq_key r i (?M n')"
    using along_key_mono [OF al] step n(3) by auto
  then have "\<not> seq_key r i (?M k) < seq_key r i (?M (Suc k))"
    using eq slot_step_view [OF IH] by simp
  moreover have "\<not> marked r i (?M k)"
    using clean slot_step_view [OF IH] by simp
  ultimately show ?case
    using st IH by (auto simp: slot_step_def)
qed

lemma publisher_run_history:
  assumes view: "log_view r m base msgs"
    and ds: "\<forall>d \<in> set ds. length d \<le> unat (slot_payload_size r)"
      "base + length msgs + length ds < 2 ^ 63"
    and run: "publisher_run r m ds E pos"
    and c: "base \<le> c" "c < unat (current_tail (E t0))"
  shows "slot_history r base (msgs @ ds) (c mod ncap r) E t0"
proof -
  let ?prog = "publish_program r (current_tail m) ds" and ?i = "c mod ncap r"
  have n: "0 < ncap r"
    using log_viewD(1) [OF view] by (simp add: mapped_def ring_wf_ncap)
  have i: "?i < ncap r"
    using n by simp
  have posn: "pos t \<le> length ?prog" for t
    using run by (simp add: publisher_run_def)
  have E: "mapped r (E t)" "current_tail (E t) = current_tail (apply_stores m (take (pos t) ?prog))"
      "slot_view r (E t) ?i = slot_view r (apply_stores m (take (pos t) ?prog)) ?i" for t
    using run i by (simp_all add: publisher_run_def)
  obtain j p where j: "j \<le> length ds" "p \<le> pos t0"
      "log_view r (apply_stores m (take p ?prog)) base (msgs @ take j ds)"
      "drop p ?prog = publish_program r (current_tail (apply_stores m (take p ?prog))) (drop j ds)"
      "unat (current_tail (apply_stores m (take (pos t0) ?prog))) = base + length msgs + j"
    using program_split [OF view ds posn] by blast
  let ?m = "apply_stores m (take p ?prog)" and ?rest = "drop p ?prog"
  have "written r base (base + length (msgs @ take j ds)) ?i"
    using j(1,5) c by (intro written_cursor n) (simp_all add: E(2))
  moreover have "\<forall>d \<in> set (drop j ds). length d \<le> unat (slot_payload_size r)"
    using ds(1) by (meson in_set_dropD)
  moreover have "base + length (msgs @ take j ds) + length (drop j ds) < 2 ^ 63"
    using ds(2) j(1) by simp
  ultimately have al: "along (holds_message r base (msgs @ ds) ?i) (slot_step r ?i) ?m ?rest"
    using program_along [OF j(3), of "drop j ds" ?i] unfolding j(4) by simp
  define N where "N t = pos t - p" for t
  have mono: "pos t \<le> pos t'" if "t \<le> t'" for t t'
    using run that by (simp add: publisher_run_def monoD)
  have state: "apply_stores m (take (pos t) ?prog) = apply_stores ?m (take (N t) ?rest)" if "t0 \<le> t" for t
  proof -
    have "p \<le> pos t"
      using mono [OF that] j(2) by simp
    then have "take (pos t) ?prog = take p ?prog @ take (N t) ?rest"
      by (metis N_def le_add_diff_inverse take_add)
    then show ?thesis
      by simp
  qed
  have view_t: "slot_view r (E t) ?i = slot_view r (apply_stores ?m (take (N t) ?rest)) ?i" if "t0 \<le> t" for t
    using E(3) state [OF that] by simp
  have len: "N t \<le> length ?rest" for t
    using posn [of t] by (simp add: N_def)
  have Nm: "N t \<le> N t'" if "t \<le> t'" for t t'
    using mono [OF that] by (simp add: N_def)
  have key: "seq_key r ?i (E t) = seq_key r ?i (apply_stores ?m (take (N t) ?rest))"
    "marked r ?i (E t) = marked r ?i (apply_stores ?m (take (N t) ?rest))" if "t0 \<le> t" for t
    using slot_step_view [OF view_t [OF that]] by simp_all
  show ?thesis
    unfolding slot_history_def
  proof (intro conjI allI impI)
    fix t assume t: "t0 \<le> t"
    show "mapped r (E t)"
      by (rule E(1))
    show "holds_message r base (msgs @ ds) ?i (E t)"
      by (rule holds_message_cong [OF view_t [OF t] along_state [OF al len]])
  next
    fix t t' assume t: "t0 \<le> t \<and> t \<le> t'"
    then show "seq_key r ?i (E t) \<le> seq_key r ?i (E t')"
      using key(1) [of t] key(1) [of t'] along_key_mono [OF al Nm len, of t t'] by simp
  next
    fix t q t'
    assume t: "t0 \<le> t \<and> t \<le> q \<and> q \<le> t' \<and> \<not> marked r ?i (E t) \<and> seq_key r ?i (E t) = seq_key r ?i (E t')"
    then have le: "t0 \<le> t" "t0 \<le> q" "t0 \<le> t'"
      by auto
    show "slot_view r (E q) ?i = slot_view r (E t) ?i"
      using along_stable [OF al Nm Nm len, of t q t'] t
      unfolding view_t [OF le(1)] view_t [OF le(2)] key [OF le(1)] key [OF le(3)] by blast
  qed
qed

subsection \<open>The reader\<close>

lemma slot_byte:
  assumes "mapped r m" "i < ncap r" "k < nstride r"
  shows "m ! (slot_base r i + k) = slot_view r m i ! k"
  using mapped_bounds(2) [OF assms(1,2)] assms(3) by (simp add: slot_view_def sub_def)

lemma copy_stable:
  assumes "i < ncap r" "n \<le> unat (slot_payload_size r)"
    and "\<forall>k < n. mapped r (E (t + k)) \<and> slot_view r (E (t + k)) i = v"
    and "length v = nstride r"
  shows "copy_from E t (slot_base r i + 12) n = sub v 12 n"
proof (rule nth_equalityI)
  show len: "length (copy_from E t (slot_base r i + 12) n) = length (sub v 12 n)"
    using assms(2,4) nstride_bounds [of r] by (simp add: copy_from_def sub_def)
  fix k assume "k < length (copy_from E t (slot_base r i + 12) n)"
  then have k: "k < n"
    by (simp add: copy_from_def)
  then have "E (t + k) ! (slot_base r i + (12 + k)) = v ! (12 + k)"
    using assms nstride_bounds [of r] slot_byte [of r "E (t + k)" i "12 + k"] by simp
  then show "copy_from E t (slot_base r i + 12) n ! k = sub v 12 n ! k"
    using k assms(2,4) nstride_bounds [of r] by (simp add: copy_from_def sub_def add.assoc)
qed

lemma length_slot_view: "mapped r m \<Longrightarrow> i < ncap r \<Longrightarrow> length (slot_view r m i) = nstride r"
  using mapped_bounds(2) [of r m i] by (simp add: slot_view_def sub_def)

text \<open>One accepted pass of the loop.\<close>

lemma accepted_pass:
  assumes H: "slot_history r base msgs i E t0" and i: "i < ncap r" and t: "t0 \<le> t"
    and sb: "slot_seq r (E t) i = eff" "eff AND SEQ_WRITING_BIT = 0"
    and len: "unat (slot_len r (E (t + 1)) i) = len" "len \<le> unat (slot_payload_size r)"
    and sa: "slot_seq r (E (t + 2 + len)) i = eff"
  shows "base \<le> unat eff \<and> unat eff < base + length msgs
    \<and> copy_from E (t + 2) (slot_base r i + 12) len = msgs ! (unat eff - base)"
proof -
  have mp: "mapped r (E q)" if "t0 \<le> q" for q
    using H that by (simp add: slot_history_def)
  have "\<not> marked r i (E t)" "seq_key r i (E t) = seq_key r i (E (t + 2 + len))"
    using sb sa by (simp_all add: marked_def seq_key_def)
  then have v: "slot_view r (E q) i = slot_view r (E t) i" if "t \<le> q" "q \<le> t + 2 + len" for q
    using H t that unfolding slot_history_def by blast
  have "holds_message r base msgs i (E t)"
    using H t by (simp add: slot_history_def)
  then obtain k where k: "base \<le> k" "k < base + length msgs" "k < 2 ^ 63"
      "slot_seq r (E t) i = of_nat k OR SEQ_WRITING_BIT
        \<or> slot_seq r (E t) i = of_nat k
          \<and> length (msgs ! (k - base)) \<le> unat (slot_payload_size r)
          \<and> slot_len r (E t) i = of_nat (length (msgs ! (k - base)))
          \<and> slot_data r (E t) i = msgs ! (k - base)"
    unfolding holds_message_def by blast
  then have ok: "eff = of_nat k" "slot_data r (E t) i = msgs ! (k - base)"
    using sb marked_not_clean [of "of_nat k"] by auto
  have l: "unat (slot_len r (E t) i) = len"
    using slot_view_cong(2) [OF v [of "t + 1"]] len(1) by simp
  have "copy_from E (t + 2) (slot_base r i + 12) len = sub (slot_view r (E t) i) 12 len"
  proof (rule copy_stable [OF i len(2)])
    show "\<forall>k < len. mapped r (E (t + 2 + k)) \<and> slot_view r (E (t + 2 + k)) i = slot_view r (E t) i"
      using t by (intro allI impI conjI mp v) simp_all
    show "length (slot_view r (E t) i) = nstride r"
      by (rule length_slot_view [OF mp [OF t] i])
  qed
  also have "\<dots> = slot_data r (E t) i"
    using slot_view_data [of r "E t" i] l len(2) by simp
  finally show ?thesis
    using k(1,2) ok unat_of_nat_small [OF k(3)] by simp
qed

lemma recv_loop_sound:
  assumes H: "slot_history r base msgs i E t0" and wf: "ring_wf r"
  shows "recv_loop E n r eff out t = (Some e, out', t') \<Longrightarrow> t0 \<le> t \<Longrightarrow> unat eff mod ncap r = i
    \<Longrightarrow> unat eff \<le> unat e \<and> base \<le> unat e \<and> unat e < base + length msgs
      \<and> unat e mod ncap r = i \<and> out' = msgs ! (unat e - base)"
proof (induction n arbitrary: eff out t)
  case 0
  then show ?case by simp
next
  case (Suc n)
  have i: "i < ncap r"
    using Suc.prems(3) ring_wf_ncap [OF wf] by auto
  have clean_idx: "unat (slot_seq r (E q) i AND NOT SEQ_WRITING_BIT) mod ncap r = i" if q: "t0 \<le> q" for q
  proof -
    obtain k where "k < 2 ^ 63" "k mod ncap r = i"
        "slot_seq r (E q) i = of_nat k OR SEQ_WRITING_BIT \<or> slot_seq r (E q) i = of_nat k"
      using H q unfolding slot_history_def holds_message_def by blast
    then show ?thesis
      using unmark [OF clean_of_nat] clean_and_not [OF clean_of_nat] unat_of_nat_small by metis
  qed
  define sb where "sb = slot_seq r (E t) i"
  define len where "len = unat (slot_len r (E (t + 1)) i)"
  define sa where "sa = slot_seq r (E (t + 2 + len)) i"
  define copy where "copy = copy_from E (t + 2) (slot_base r i + 12) len"
  define nxt where "nxt = (if sa AND NOT SEQ_WRITING_BIT > eff then sa AND NOT SEQ_WRITING_BIT else eff)"
  have addr: "slot_addr r eff = slot_base r i"
    by (simp add: slot_addr_base [OF wf] Suc.prems(3))
  have loop: "recv_loop E (Suc n) r eff out t =
     (if sb AND SEQ_WRITING_BIT \<noteq> 0 then recv_loop E n r eff out (t + 1)
      else if sb > eff then recv_loop E n r sb out (t + 1)
      else if sb < eff then (None, out, t + 1)
      else if len > unat (slot_payload_size r) then recv_loop E n r eff out (t + 2)
      else if sa \<noteq> sb then recv_loop E n r nxt copy (t + 3 + len)
      else (Some eff, copy, t + 3 + len))"
    unfolding recv_loop.simps Let_def addr slot_seq_def [symmetric] slot_len_def [symmetric]
      sb_def [symmetric] len_def [symmetric]
    by (simp only: nxt_def copy_def sa_def)
  have sb_idx: "unat sb mod ncap r = i" if "sb AND SEQ_WRITING_BIT = 0"
    using clean_idx [OF Suc.prems(2)] clean_and_not [OF that] by (simp add: sb_def)
  have nxt: "unat nxt mod ncap r = i" "unat eff \<le> unat nxt"
    using clean_idx [of "t + 2 + len"] Suc.prems(2,3)
    by (auto simp: nxt_def sa_def word_less_nat_alt)
  show ?case
  proof (cases "sb AND SEQ_WRITING_BIT = 0")
    case False
    then have "recv_loop E n r eff out (t + 1) = (Some e, out', t')"
      using Suc.prems(1) unfolding loop by simp
    then show ?thesis
      using Suc.IH Suc.prems(2,3) by simp
  next
    case clean: True
    show ?thesis
    proof (cases sb eff rule: linorder_cases)
      case less
      then show ?thesis
        using Suc.prems(1) clean unfolding loop by (simp add: less_not_sym)
    next
      case greater
      then have "recv_loop E n r sb out (t + 1) = (Some e, out', t')"
        using Suc.prems(1) clean unfolding loop by simp
      then show ?thesis
        using Suc.IH [of sb out "t + 1"] Suc.prems(2) sb_idx [OF clean] greater
        by (auto simp: word_less_nat_alt)
    next
      case equal
      show ?thesis
      proof (cases "len > unat (slot_payload_size r)")
        case True
        then have "recv_loop E n r eff out (t + 2) = (Some e, out', t')"
          using Suc.prems(1) clean equal unfolding loop by simp
        then show ?thesis
          using Suc.IH Suc.prems(2,3) by simp
      next
        case fits: False
        show ?thesis
        proof (cases "sa = sb")
          case False
          then have "recv_loop E n r nxt copy (t + 3 + len) = (Some e, out', t')"
            using Suc.prems(1) clean equal fits unfolding loop by simp
          then show ?thesis
            using Suc.IH [of nxt copy "t + 3 + len"] Suc.prems(2) nxt by auto
        next
          case True
          then have "e = eff" "out' = copy"
            using Suc.prems(1) clean equal fits unfolding loop by simp_all
          then show ?thesis
            using accepted_pass [OF H i Suc.prems(2), of eff len] True clean equal fits Suc.prems(3)
            by (simp add: sb_def len_def sa_def copy_def)
        qed
      qed
    qed
  qed
qed

subsection \<open>Properties\<close>

text \<open>C2: no torn read. Whatever the interleaving of a reader's loads with the stores of a
  publisher that is publishing \<open>ds\<close>, if \<open>try_receive\<close> accepts a payload it is one message \<open>k\<close> of
  the log, whole, at or after the reader's cursor and in the cursor's slot, and the new cursor is
  \<open>k + 1\<close>.\<close>

theorem seqlock_no_torn_read:
  assumes "log_view r m base msgs" "\<forall>d \<in> set ds. length d \<le> unat (slot_payload_size r)"
    and "base + length msgs + length ds < 2 ^ 63" "publisher_run r m ds E pos"
    and "base \<le> unat c" "try_receive_at E t0 r idx c out = Some (Some new_cursor, out', stores)"
  shows "\<exists>k. unat c \<le> k \<and> k < base + length (msgs @ ds)
    \<and> k mod ncap r = unat c mod ncap r
    \<and> out' = (msgs @ ds) ! (k - base) \<and> new_cursor = of_nat (k + 1)
    \<and> stores = [(cursor_addr idx, u64_le new_cursor)]"
proof -
  have wf: "ring_wf r"
    using log_viewD(1) [OF assms(1)] by (simp add: mapped_def)
  have lt: "\<not> rd64 (E t0) OFF_TAIL \<le> c"
    using assms(6) by (auto simp: try_receive_at_def Let_def split: if_splits)
  obtain e t' where e: "recv_loop E 16 r c out (t0 + 1) = (Some e, out', t')"
      "new_cursor = e + 1" "stores = [(cursor_addr idx, u64_le new_cursor)]"
    using assms(6) lt
    by (auto simp: try_receive_at_def Let_def simp del: recv_loop.simps
        split: if_splits prod.splits option.splits)
  have "unat c < unat (current_tail (E t0))"
    using lt by (simp add: current_tail_def word_le_nat_alt)
  from publisher_run_history [OF assms(1-4,5) this]
  have "slot_history r base (msgs @ ds) (unat c mod ncap r) E t0" .
  from recv_loop_sound [OF this wf e(1)] show ?thesis
    using e(2,3) by (intro exI [of _ "unat e"]) simp
qed

lemma publisher_run_idle:
  assumes "log_view r m base msgs"
  shows "publisher_run r m ds (\<lambda>_. m) (\<lambda>_. 0)"
  using log_viewD(1) [OF assms] by (simp add: publisher_run_def mono_def)

lemma demo_receive:
  "\<exists>stores. try_receive_at (\<lambda>_. demo_overtaken) 0 (ring_handle 4 16 2) 0 0 [] = Some (Some 5, [5], stores)"
proof -
  have "try_receive (ring_handle 4 16 2) demo_overtaken 0 0 []
      = Some (Some 5, [5], set_cursor demo_overtaken 0 5)"
    using try_receive_seq [OF demo_overtaken_view, of 0 0 "[]"] by (simp add: ncap_def skip_to_def)
  then show ?thesis
    by (auto simp: try_receive_def)
qed

theorem seqlock_no_torn_read_witness:
  "\<exists>k. k < length ([[1], [2], [3], [4], [5], [6]] :: bytes list)
    \<and> [5] = ([[1], [2], [3], [4], [5], [6]] :: bytes list) ! k \<and> (5 :: u64) = of_nat (k + 1)"
proof -
  let ?r = "ring_handle 4 16 2" and ?L = "[[1], [2], [3], [4], [5]] :: bytes list"
  obtain stores where *: "try_receive_at (\<lambda>_. demo_overtaken) 0 ?r 0 0 [] = Some (Some 5, [5], stores)"
    using demo_receive by blast
  have "\<forall>d \<in> set [[6] :: bytes]. length d \<le> unat (slot_payload_size ?r)"
    "0 + length ?L + length [[6] :: bytes] < 2 ^ 63"
    by simp_all
  from seqlock_no_torn_read [OF demo_overtaken_view this publisher_run_idle [OF demo_overtaken_view] _ *]
  obtain k where "k < 0 + length (?L @ [[6]])" "[5] = (?L @ [[6]]) ! (k - 0)" "(5 :: u64) = of_nat (k + 1)"
    by fastforce
  then show ?thesis
    by (intro exI [of _ k]) simp
qed

end
