(* ===== verification/Stream_Codec.thy ===== *)
theory Stream_Codec
  imports Mmbus_Prelude "HOL-Library.Sublist"
begin

text \<open>
  Decoding a byte stream record by record. A decoder looks at the buffered bytes and answers with
  a record and the bytes it used, asks for more bytes, or reports malformed input. The locale
  states the contract between an encoder and such a decoder; its lemmas say that the records of a
  stream do not depend on how the stream is cut into reads. Bridge frames and WAL records are its
  two interpretations.
\<close>

datatype 'a parse = Parsed 'a nat | More | Malformed

function drain :: "(bytes \<Rightarrow> 'a parse) \<Rightarrow> bytes \<Rightarrow> 'a list \<times> bytes \<times> bool" where
  "drain dec buf = (case dec buf of
      Parsed x n \<Rightarrow>
        if n = 0 \<or> length buf < n then ([], buf, True)
        else (let (xs, rest, bad) = drain dec (drop n buf) in (x # xs, rest, bad))
    | More \<Rightarrow> ([], buf, False)
    | Malformed \<Rightarrow> ([], buf, True))"
  by pat_completeness auto
termination
  by (relation "measure (\<lambda>(dec, buf). length buf)") auto

declare drain.simps [simp del]

text \<open>A connection buffer fed with one read after the other: the records so far, the bytes not yet
  decoded, and whether the stream was found malformed.\<close>

fun feed :: "(bytes \<Rightarrow> 'a parse) \<Rightarrow> 'a list \<times> bytes \<times> bool \<Rightarrow> bytes \<Rightarrow> 'a list \<times> bytes \<times> bool" where
  "feed dec (xs, buf, bad) chunk =
    (if bad then (xs, buf @ chunk, bad)
     else let (ys, rest, bad') = drain dec (buf @ chunk) in (xs @ ys, rest, bad'))"

locale stream_codec =
  fixes enc :: "'a \<Rightarrow> bytes"
    and dec :: "bytes \<Rightarrow> 'a parse"
    and wf :: "'a \<Rightarrow> bool"
  assumes dec_enc: "wf x \<Longrightarrow> dec (enc x @ rest) = Parsed x (length (enc x))"
    and dec_prefix: "wf x \<Longrightarrow> strict_prefix p (enc x) \<Longrightarrow> dec p = More"
    and dec_extend: "dec b = Parsed x n \<Longrightarrow> dec (b @ c) = Parsed x n"
    and dec_malformed: "dec b = Malformed \<Longrightarrow> dec (b @ c) = Malformed"
    and dec_bounds: "dec b = Parsed x n \<Longrightarrow> 0 < n \<and> n \<le> length b"
    and enc_pos: "0 < length (enc x)"
begin

lemma drain_step:
  "dec buf = Parsed x n \<Longrightarrow> drain dec buf =
    (let (xs, rest, bad) = drain dec (drop n buf) in (x # xs, rest, bad))"
  using dec_bounds [of buf x n] by (subst drain.simps) auto

lemma drain_encoded:
  assumes "\<forall>x \<in> set xs. wf x" "p = [] \<and> dec [] = More \<or> (\<exists>y. wf y \<and> strict_prefix p (enc y))"
  shows "drain dec (concat (map enc xs) @ p) = (xs, p, False)"
  using assms(1)
proof (induction xs)
  case Nil
  have "dec p = More"
    using assms(2) dec_prefix by auto
  then show ?case
    by (subst drain.simps) simp
next
  case (Cons x xs)
  have "dec (concat (map enc (x # xs)) @ p) = Parsed x (length (enc x))"
    using dec_enc [of x "concat (map enc xs) @ p"] Cons.prems by simp
  from drain_step [OF this] show ?case
    using Cons by simp
qed

text \<open>Draining what is buffered and later draining the rest is draining everything at once.\<close>

lemma drain_append:
  "drain dec (b @ c) =
    (case drain dec b of (xs, rest, bad) \<Rightarrow>
       if bad then (xs, rest @ c, True)
       else (case drain dec (rest @ c) of (ys, rest', bad') \<Rightarrow> (xs @ ys, rest', bad')))"
proof (induction "length b" arbitrary: b rule: less_induct)
  case less
  show ?case
  proof (cases "dec b")
    case (Parsed x n)
    have n: "0 < n" "n \<le> length b"
      using dec_bounds [OF Parsed] by auto
    have d: "drop n (b @ c) = drop n b @ c"
      using n by simp
    show ?thesis
      using less [of "drop n b"] n
      unfolding drain_step [OF Parsed] drain_step [OF dec_extend [OF Parsed, of c]] d
      by (auto split: prod.splits if_splits)
  next
    case More
    then have "drain dec b = ([], b, False)"
      by (subst drain.simps) simp
    then show ?thesis
      by simp
  next
    case Malformed
    then show ?thesis
      using dec_malformed [OF Malformed, of c] by (simp add: drain.simps)
  qed
qed

lemma feed_chunks:
  "foldl (feed dec) (xs, buf, False) chunks =
    (case drain dec (buf @ concat chunks) of (ys, rest, bad) \<Rightarrow> (xs @ ys, rest, bad))"
  if "drain dec buf = ([], buf, False)"
  using that
proof (induction chunks arbitrary: xs buf)
  case Nil
  then show ?case by simp
next
  case (Cons c cs)
  obtain ys rest bad where d: "drain dec (buf @ c) = (ys, rest, bad)"
    by (metis prod_cases3)
  have all: "drain dec (buf @ concat (c # cs)) =
      (if bad then (ys, rest @ concat cs, True)
       else (case drain dec (rest @ concat cs) of (zs, rest', bad') \<Rightarrow> (ys @ zs, rest', bad')))"
    using drain_append [of "buf @ c" "concat cs"] d by simp
  show ?case
  proof (cases bad)
    case True
    have "foldl (feed dec) (zs, r, True) cs = (zs, r @ concat cs, True)" for zs :: "'a list" and r
      by (induction cs arbitrary: r) simp_all
    then show ?thesis
      using True d all by simp
  next
    case False
    have "drain dec rest = ([], rest, False)"
    proof -
      have "drain dec (buf @ c @ []) = (ys, rest, False)"
        using d False by simp
      then have "(case drain dec rest of (zs, rest', bad') \<Rightarrow> (ys @ zs, rest', bad')) = (ys, rest, False)"
        using drain_append [of "buf @ c" "[]"] d False by simp
      then show ?thesis
        by (auto split: prod.splits)
    qed
    from Cons.IH [OF this, of "xs @ ys"] show ?thesis
      using False d all by (simp split: prod.split)
  qed
qed

end

end
