(* ===== verification/Frame.thy ===== *)
theory Frame
  imports Stream_Codec
begin

text \<open>
  The wire frames of the bridge, \<open>crates/mmbus-bridge/src/frame.rs\<close>: the frame record, its
  constructors, the encoder, the incremental decoder with its errors, and the \<open>PeerHello\<close> payload
  that carries the preshared key. The encoder and decoder are an interpretation of
  \<open>stream_codec\<close>.
\<close>

subsection \<open>Types and constants (lines 23--122, 161--217)\<close>

definition FRAME_VERSION :: u32 where "FRAME_VERSION = 1"
definition HEADER_LEN :: nat where "HEADER_LEN = 4 + 4 + 8 + 8"
definition MAX_FRAME_LEN :: nat where "MAX_FRAME_LEN = 16 * 1024 * 1024"

datatype frame_type = Msg | Ping | TopicSubscribe | PeerHello

datatype decode_error =
    Incomplete (have_bytes: nat) (needed: nat)
  | UnsupportedVersion u32
  | UnknownFrameType u32
  | TooLarge nat
  | ShortPeerHello nat

fun frame_type_u32 :: "frame_type \<Rightarrow> u32" where
  "frame_type_u32 Msg = 0"
| "frame_type_u32 Ping = 1"
| "frame_type_u32 TopicSubscribe = 2"
| "frame_type_u32 PeerHello = 3"

definition frame_type_from_u32 :: "u32 \<Rightarrow> decode_error + frame_type" where
  "frame_type_from_u32 n =
    (if n = 0 then Inr Msg else if n = 1 then Inr Ping else if n = 2 then Inr TopicSubscribe
     else if n = 3 then Inr PeerHello else Inl (UnknownFrameType n))"

record frame =
  f_type :: frame_type
  f_origin_id :: u64
  f_origin_seq :: u64
  f_topic :: bytes
  f_payload :: bytes

definition frame_msg :: "u64 \<Rightarrow> u64 \<Rightarrow> bytes \<Rightarrow> bytes \<Rightarrow> frame" where
  "frame_msg origin_id origin_seq topic payload =
    \<lparr>f_type = Msg, f_origin_id = origin_id, f_origin_seq = origin_seq, f_topic = topic,
     f_payload = payload\<rparr>"

definition peer_hello_with_psk :: "u64 \<Rightarrow> bytes \<Rightarrow> frame" where
  "peer_hello_with_psk origin_id psk =
    \<lparr>f_type = PeerHello, f_origin_id = origin_id, f_origin_seq = 0, f_topic = [],
     f_payload = u64_le origin_id @ u16_le (of_nat (length psk)) @ psk\<rparr>"

definition peer_hello :: "u64 \<Rightarrow> frame" where
  "peer_hello origin_id = peer_hello_with_psk origin_id []"

definition frame_ping :: "u64 \<Rightarrow> frame" where
  "frame_ping origin_id =
    \<lparr>f_type = Ping, f_origin_id = origin_id, f_origin_seq = 0, f_topic = [], f_payload = []\<rparr>"

subsection \<open>Encoder and decoder (lines 143--187, 219--280)\<close>

definition encoded_len :: "frame \<Rightarrow> nat" where
  "encoded_len f = HEADER_LEN + 4 + length (f_topic f) + 4 + length (f_payload f)"

definition encode :: "frame \<Rightarrow> bytes" where
  "encode f = u32_le FRAME_VERSION @ u32_le (frame_type_u32 (f_type f))
     @ u64_le (f_origin_id f) @ u64_le (f_origin_seq f)
     @ u32_le (of_nat (length (f_topic f))) @ f_topic f
     @ u32_le (of_nat (length (f_payload f))) @ f_payload f"

record peer_hello_parts =
  ph_origin_id :: u64
  ph_psk :: bytes

definition parse_peer_hello :: "bytes \<Rightarrow> decode_error + peer_hello_parts" where
  "parse_peer_hello payload =
    (if length payload < 10 then Inl (ShortPeerHello (length payload))
     else
       let origin_id = rd64 payload 0;
           psk_len = unat (rd16 payload 8)
       in if length payload < 10 + psk_len then Inl (ShortPeerHello (length payload))
          else Inr \<lparr>ph_origin_id = origin_id, ph_psk = sub payload 10 psk_len\<rparr>)"

definition decode :: "bytes \<Rightarrow> decode_error + (frame \<times> nat)" where
  "decode buf =
    (if length buf < HEADER_LEN + 4 then Inl (Incomplete (length buf) (HEADER_LEN + 4))
     else if rd32 buf 0 \<noteq> FRAME_VERSION then Inl (UnsupportedVersion (rd32 buf 0))
     else case frame_type_from_u32 (rd32 buf 4) of
       Inl e \<Rightarrow> Inl e
     | Inr frame_type \<Rightarrow>
       let origin_id = rd64 buf 8;
           origin_seq = rd64 buf 16;
           topic_len = unat (rd32 buf 24);
           after_topic = HEADER_LEN + 4 + topic_len;
           needed_for_payload_len = after_topic + 4
       in if topic_len > MAX_FRAME_LEN then Inl (TooLarge topic_len)
          else if length buf < needed_for_payload_len
          then Inl (Incomplete (length buf) needed_for_payload_len)
          else
            let payload_len = unat (rd32 buf after_topic);
                total_len = after_topic + 4 + payload_len
            in if payload_len > MAX_FRAME_LEN then Inl (TooLarge payload_len)
               else if total_len > MAX_FRAME_LEN then Inl (TooLarge total_len)
               else if length buf < total_len then Inl (Incomplete (length buf) total_len)
               else Inr (\<lparr>f_type = frame_type, f_origin_id = origin_id, f_origin_seq = origin_seq,
                          f_topic = sub buf (HEADER_LEN + 4) topic_len,
                          f_payload = sub buf (after_topic + 4) payload_len\<rparr>, total_len))"

subsection \<open>Reading an encoded frame\<close>

lemma frame_type_round: "frame_type_from_u32 (frame_type_u32 t) = Inr t"
  by (cases t) (simp_all add: frame_type_from_u32_def)

lemma frame_type_inv: "frame_type_from_u32 n = Inr t \<Longrightarrow> frame_type_u32 t = n"
  by (auto simp: frame_type_from_u32_def split: if_splits)

lemma length_encode: "length (encode f) = encoded_len f"
  by (simp add: encode_def encoded_len_def HEADER_LEN_def)

definition frame_fits :: "frame \<Rightarrow> bool" where
  "frame_fits f \<longleftrightarrow> encoded_len f \<le> MAX_FRAME_LEN"

text \<open>The fields of the header as they are found in any buffer that starts with the first \<open>n\<close>
  bytes of an encoded frame.\<close>

lemma header_fields:
  shows "sub (encode f @ rest) 0 4 = u32_le FRAME_VERSION"
    and "sub (encode f @ rest) 4 4 = u32_le (frame_type_u32 (f_type f))"
    and "sub (encode f @ rest) 8 8 = u64_le (f_origin_id f)"
    and "sub (encode f @ rest) 16 8 = u64_le (f_origin_seq f)"
    and "sub (encode f @ rest) 24 4 = u32_le (of_nat (length (f_topic f)))"
    and "sub (encode f @ rest) 28 (length (f_topic f)) = f_topic f"
    and "sub (encode f @ rest) (28 + length (f_topic f)) 4 = u32_le (of_nat (length (f_payload f)))"
    and "sub (encode f @ rest) (32 + length (f_topic f)) (length (f_payload f)) = f_payload f"
  by (simp_all add: encode_def sub_def drop_append take_append)

lemma fits_lengths:
  assumes "frame_fits f"
  shows "unat (of_nat (length (f_topic f)) :: u32) = length (f_topic f)"
    and "unat (of_nat (length (f_payload f)) :: u32) = length (f_payload f)"
  using assms
  by (auto simp: frame_fits_def encoded_len_def HEADER_LEN_def MAX_FRAME_LEN_def
      intro!: unat_of_nat_u32)

text \<open>What \<open>decode\<close> does on a buffer that agrees with an encoded frame as far as it goes.\<close>

lemma decode_agreeing:
  assumes fits: "frame_fits f" and buf: "buf = take n (encode f @ rest)" "n \<le> length (encode f @ rest)"
  shows "decode buf =
    (if n < 28 then Inl (Incomplete n 28)
     else if n < 32 + length (f_topic f) then Inl (Incomplete n (32 + length (f_topic f)))
     else if n < encoded_len f then Inl (Incomplete n (encoded_len f))
     else Inr (f, encoded_len f))"
proof -
  have len: "length buf = n"
    using buf by simp
  have "length (f_topic f) \<le> MAX_FRAME_LEN" "length (f_payload f) \<le> MAX_FRAME_LEN"
    using fits by (simp_all add: frame_fits_def encoded_len_def)
  moreover have enc: "encoded_len f = 32 + length (f_topic f) + length (f_payload f)"
    by (simp add: encoded_len_def HEADER_LEN_def)
  moreover have "32 + length (f_topic f) + length (f_payload f) \<le> MAX_FRAME_LEN"
    using fits by (simp add: frame_fits_def enc)
  moreover have r: "rd32 buf 0 = FRAME_VERSION" "rd32 buf 4 = frame_type_u32 (f_type f)"
      "rd64 buf 8 = f_origin_id f" "rd64 buf 16 = f_origin_seq f"
      "rd32 buf 24 = of_nat (length (f_topic f))" if "28 \<le> n"
    using that unfolding rd32_def rd64_def buf(1) by (simp_all add: sub_take header_fields del: take_append)
  moreover have "rd32 buf (28 + length (f_topic f)) = of_nat (length (f_payload f))"
    if "32 + length (f_topic f) \<le> n"
    using that unfolding rd32_def buf(1) by (simp add: sub_take header_fields del: take_append)
  moreover have "sub buf 28 (length (f_topic f)) = f_topic f"
      "sub buf (32 + length (f_topic f)) (length (f_payload f)) = f_payload f" if "encoded_len f \<le> n"
    using that unfolding buf(1) enc by (simp_all add: sub_take header_fields del: take_append)
  ultimately show ?thesis
    unfolding decode_def len
    by (simp add: HEADER_LEN_def frame_type_round Let_def fits_lengths [OF fits])
qed

lemma decode_encode: "frame_fits f \<Longrightarrow> decode (encode f @ rest) = Inr (f, encoded_len f)"
  using decode_agreeing [of f "encode f @ rest" "length (encode f @ rest)" rest]
  by (simp add: length_encode encoded_len_def HEADER_LEN_def)

lemma decode_strict_prefix:
  assumes "frame_fits f" "strict_prefix p (encode f)"
  shows "\<exists>needed. decode p = Inl (Incomplete (length p) needed)
    \<and> length p < needed \<and> needed \<le> encoded_len f"
proof -
  have "p = take (length p) (encode f @ [])" "length p < encoded_len f"
    using assms(2) prefix_length_less [OF assms(2)]
    by (auto simp: strict_prefix_def prefix_def length_encode)
  then show ?thesis
    using decode_agreeing [OF assms(1), of p "length p" "[]"]
    by (auto simp: length_encode encoded_len_def HEADER_LEN_def)
qed

lemma decode_InrD:
  assumes "decode b = Inr (f, n)"
  shows "n \<le> length b" and "n = encoded_len f" and "frame_fits f" and "take n b = encode f"
proof -
  let ?tl = "unat (rd32 b 24)"
  let ?pl = "unat (rd32 b (28 + ?tl))"
  have d: "28 \<le> length b" "rd32 b 0 = FRAME_VERSION" "frame_type_from_u32 (rd32 b 4) = Inr (f_type f)"
      "32 + ?tl + ?pl \<le> length b" "32 + ?tl + ?pl \<le> MAX_FRAME_LEN"
      "n = 32 + ?tl + ?pl" "f_origin_id f = rd64 b 8" "f_origin_seq f = rd64 b 16"
      "f_topic f = sub b 28 ?tl" "f_payload f = sub b (32 + ?tl) ?pl"
    using assms unfolding decode_def HEADER_LEN_def Let_def
    by (auto split: if_splits sum.splits)
  then have l: "length (f_topic f) = ?tl" "length (f_payload f) = ?pl"
    by (simp_all add: sub_def)
  show "n \<le> length b" "n = encoded_len f" "frame_fits f"
    using d l by (simp_all add: encoded_len_def HEADER_LEN_def frame_fits_def)
  have lens: "u32_le (of_nat ?tl) = sub b 24 4" "u32_le (of_nat ?pl) = sub b (28 + ?tl) 4"
    using d(1,4) by (simp_all add: rd32_def u32_le_le_u32 length_sub fits_def)
  have "encode f = sub b 0 4 @ sub b 4 4 @ sub b 8 8 @ sub b 16 8 @ sub b 24 4
      @ sub b 28 ?tl @ sub b (28 + ?tl) 4 @ sub b (32 + ?tl) ?pl"
    unfolding encode_def l lens
    unfolding frame_type_inv [OF d(3)] d(7-10) d(2) [symmetric]
    using d(1) by (simp add: rd32_def rd64_def u32_le_le_u32 u64_le_le_u64 length_sub fits_def)
  also have "\<dots> = sub b 0 (4 + (4 + (8 + (8 + (4 + (?tl + (4 + ?pl)))))))"
    unfolding sub_split by (simp add: add.commute)
  also have "\<dots> = take n b"
    unfolding d(6) by (simp add: sub_def add.assoc)
  finally show "take n b = encode f" ..
qed

subsection \<open>The stream of frames\<close>

definition frame_parse :: "bytes \<Rightarrow> frame parse" where
  "frame_parse buf = (case decode buf of
      Inr (f, n) \<Rightarrow> Parsed f n
    | Inl (Incomplete h n) \<Rightarrow> More
    | Inl _ \<Rightarrow> Malformed)"

lemma decode_InrD_append:
  assumes "decode b = Inr (f, n)"
  shows "decode (b @ c) = Inr (f, n)"
proof -
  note D = decode_InrD [OF assms]
  have bc: "b @ c = encode f @ (drop n b @ c)"
    by (metis D(4) append.assoc append_take_drop_id)
  show ?thesis
    unfolding bc decode_encode [OF D(3)] D(2) ..
qed

lemma frame_parse_Parsed: "frame_parse b = Parsed f n \<longleftrightarrow> decode b = Inr (f, n)"
  by (auto simp: frame_parse_def split: sum.splits decode_error.splits)

lemma frame_parse_Malformed:
  assumes "frame_parse b = Malformed"
  shows "frame_parse (b @ c) = Malformed"
proof -
  obtain e where e: "decode b = Inl e" "\<And>h n. e \<noteq> Incomplete h n"
    using assms by (auto simp: frame_parse_def split: sum.splits decode_error.splits)
  have 28: "28 \<le> length b"
    using e by (auto simp: decode_def HEADER_LEN_def split: if_splits)
  then have r: "rd32 (b @ c) 0 = rd32 b 0" "rd32 (b @ c) 4 = rd32 b 4" "rd32 (b @ c) 24 = rd32 b 24"
    by (simp_all add: rd32_def sub_append_left)
  have "rd32 (b @ c) (28 + k) = rd32 b (28 + k)" if "32 + k \<le> length b" for k
    using that by (simp add: rd32_def sub_append_left)
  then have "\<exists>e'. decode (b @ c) = Inl e' \<and> (\<forall>h n. e' \<noteq> Incomplete h n)"
    using e 28 unfolding decode_def r HEADER_LEN_def Let_def
    by (auto split: if_splits sum.splits)
  then show ?thesis
    by (auto simp: frame_parse_def split: decode_error.splits)
qed

interpretation frames: stream_codec encode frame_parse frame_fits
proof
  show "frame_parse (encode x @ rest) = Parsed x (length (encode x))" if "frame_fits x" for x rest
    using decode_encode [OF that] by (simp add: frame_parse_Parsed length_encode)
  show "frame_parse p = More" if "frame_fits x" "strict_prefix p (encode x)" for x p
    using decode_strict_prefix [OF that] by (auto simp: frame_parse_def)
  show "frame_parse (b @ c) = Parsed x n" if "frame_parse b = Parsed x n" for b x n c
    using that decode_InrD_append by (simp add: frame_parse_Parsed)
  show "frame_parse (b @ c) = Malformed" if "frame_parse b = Malformed" for b c
    using that by (rule frame_parse_Malformed)
  show "0 < n \<and> n \<le> length b" if "frame_parse b = Parsed x n" for b x n
    using decode_InrD(1,2) [of b x n] that
    by (simp add: frame_parse_Parsed encoded_len_def HEADER_LEN_def)
  show "0 < length (encode x)" for x
    by (simp add: length_encode encoded_len_def HEADER_LEN_def)
qed

lemma peer_hello_payload:
  "parse_peer_hello (f_payload (peer_hello_with_psk origin psk))
    = Inr \<lparr>ph_origin_id = origin, ph_psk = take (length psk mod 65536) psk\<rparr>"
proof -
  have l: "unat (of_nat (length psk) :: u16) = length psk mod 65536"
    by (simp add: unat_of_nat)
  have s: "sub (u64_le origin @ u16_le (of_nat (length psk)) @ psk) 0 8 = u64_le origin"
    "sub (u64_le origin @ u16_le (of_nat (length psk)) @ psk) 8 2 = u16_le (of_nat (length psk))"
    "sub (u64_le origin @ u16_le (of_nat (length psk)) @ psk) 10 k = take k psk" for k
    by (simp_all add: sub_def)
  show ?thesis
    by (simp add: parse_peer_hello_def peer_hello_with_psk_def rd64_def rd16_def s l Let_def)
qed

subsection \<open>Properties\<close>

text \<open>C27: decoding an encoded frame, whatever bytes follow, gives the frame and exactly the bytes
  it was encoded to, as long as the frame is not larger than \<open>MAX_FRAME_LEN\<close>.\<close>

theorem frame_roundtrip:
  assumes "encoded_len f \<le> MAX_FRAME_LEN"
  shows "decode (encode f @ rest) = Inr (f, encoded_len f) \<and> length (encode f) = encoded_len f"
  using assms decode_encode length_encode by (simp add: frame_fits_def)

theorem frame_roundtrip_witness:
  "decode (encode (frame_msg 7 1 [101] [1, 2]) @ [0]) = Inr (frame_msg 7 1 [101] [1, 2], 35)"
  using frame_roundtrip [of "frame_msg 7 1 [101] [1, 2]" "[0]"]
  by (simp add: frame_msg_def encoded_len_def HEADER_LEN_def MAX_FRAME_LEN_def)

text \<open>A proper prefix of an encoded frame is never a protocol error: the decoder asks for more,
  and the total it asks for is more than it has and never more than the frame.\<close>

theorem frame_prefix_incomplete:
  assumes "encoded_len f \<le> MAX_FRAME_LEN" "strict_prefix p (encode f)"
  shows "\<exists>n. decode p = Inl (Incomplete (length p) n) \<and> length p < n \<and> n \<le> encoded_len f"
  using assms by (intro decode_strict_prefix) (simp_all add: frame_fits_def)

theorem frame_prefix_incomplete_witness:
  "\<exists>n. decode [] = Inl (Incomplete 0 n) \<and> 0 < n \<and> n \<le> encoded_len (frame_ping 9)"
proof -
  have "strict_prefix [] (encode (frame_ping 9))"
    using frames.enc_pos [of "frame_ping 9"] by (auto simp: strict_prefix_def)
  then show ?thesis
    using frame_prefix_incomplete [of "frame_ping 9" "[]"]
    by (simp add: encoded_len_def HEADER_LEN_def frame_ping_def MAX_FRAME_LEN_def)
qed

text \<open>The decoder accepts nothing but encodings. Whatever it returns is bounded by the buffer
  and by \<open>MAX_FRAME_LEN\<close>, and the bytes it consumed are the encoding of what it returned.\<close>

theorem frame_decode_canonical:
  assumes "decode b = Inr (f, n)"
  shows "n \<le> length b \<and> n \<le> MAX_FRAME_LEN \<and> take n b = encode f \<and> n = length (encode f)"
  using decode_InrD [OF assms] by (simp add: frame_fits_def length_encode)

theorem frame_decode_canonical_witness:
  "take 32 (encode (frame_ping 9) @ [1]) = encode (frame_ping 9)"
proof -
  have "decode (encode (frame_ping 9) @ [1]) = Inr (frame_ping 9, 32)"
    using decode_encode [of "frame_ping 9" "[1]"]
    by (simp add: frame_fits_def encoded_len_def HEADER_LEN_def frame_ping_def MAX_FRAME_LEN_def)
  from frame_decode_canonical [OF this] show ?thesis
    by simp
qed

text \<open>The preshared key survives the \<open>PeerHello\<close> payload up to 65535 bytes; a longer key is
  silently cut to its length modulo 65536.\<close>

theorem peer_hello_psk:
  "parse_peer_hello (f_payload (peer_hello_with_psk origin psk))
    = Inr \<lparr>ph_origin_id = origin, ph_psk = take (length psk mod 65536) psk\<rparr>"
  by (rule peer_hello_payload)

end
