(* ===== verification/Bridge_Queue.thy ===== *)
theory Bridge_Queue
  imports Mmbus_Prelude "HOL-Library.Sublist"
begin

text \<open>
  The bounded drop-oldest queue between the bridge's subscriber threads and a peer's forwarder,
  \<open>crates/mmbus-bridge/src/queue.rs\<close>. Each operation runs under the queue's mutex, so it is one
  step on the protected state; a wait on the condition variable gives the mutex up, and what the
  other threads did meanwhile is an argument. The locale states what a drop-oldest queue promises;
  it is interpreted on the model's operations.
\<close>

subsection \<open>State and operations (lines 21--66, 80--105, 107--142)\<close>

record 'a inner =
  q_items :: "'a list"
  q_closed :: bool

record 'a shared =
  q_inner :: "'a inner"
  q_capacity :: nat
  q_strong :: nat

text \<open>\<open>channel\<close> panics on capacity 0. \<open>q_strong\<close> is the reference count of the shared block: the
  receiver and one sender at first.\<close>

definition channel :: "nat \<Rightarrow> 'a shared option" where
  "channel cap =
    (if cap = 0 then None
     else Some \<lparr>q_inner = \<lparr>q_items = [], q_closed = False\<rparr>, q_capacity = cap, q_strong = 2\<rparr>)"

definition sender_clone :: "'a shared \<Rightarrow> 'a shared" where
  "sender_clone q = q\<lparr>q_strong := q_strong q + 1\<rparr>"

definition send :: "'a \<Rightarrow> 'a shared \<Rightarrow> nat \<times> 'a shared" where
  "send item q =
    (let inner = q_inner q in
     if q_closed inner then (0, q)
     else
       let (dropped, items) =
             (if length (q_items inner) \<ge> q_capacity q then (1, tl (q_items inner))
              else (0, q_items inner))
       in (dropped, q\<lparr>q_inner := inner\<lparr>q_items := items @ [item]\<rparr>\<rparr>))"

text \<open>Dropping a sender reads the reference count first and takes the mutex afterwards; the count
  goes down when the handle is gone.\<close>

definition sender_drop_observed :: "nat \<Rightarrow> 'a shared \<Rightarrow> 'a shared" where
  "sender_drop_observed count q =
    (if count \<le> 2 then q\<lparr>q_inner := (q_inner q)\<lparr>q_closed := True\<rparr>\<rparr> else q)"

definition sender_released :: "'a shared \<Rightarrow> 'a shared" where
  "sender_released q = q\<lparr>q_strong := q_strong q - 1\<rparr>"

definition sender_drop :: "'a shared \<Rightarrow> 'a shared" where
  "sender_drop q = sender_released (sender_drop_observed (q_strong q) q)"

text \<open>One wait on the condition variable: whether the deadline has passed before it, the state the
  mutex protects after it, and whether it timed out. The call has not returned (\<open>None\<close>) when the
  given waits are used up.\<close>

fun recv_timeout :: "'a inner \<Rightarrow> (bool \<times> 'a inner \<times> bool) list \<Rightarrow> ('a option \<times> 'a inner) option" where
  "recv_timeout inner waits =
    (case q_items inner of
       item # rest \<Rightarrow> Some (Some item, inner\<lparr>q_items := rest\<rparr>)
     | [] \<Rightarrow>
         if q_closed inner then Some (None, inner)
         else (case waits of
             [] \<Rightarrow> None
           | (expired, inner', timed_out) # ws \<Rightarrow>
               if expired then Some (None, inner)
               else if timed_out \<and> q_items inner' = [] then Some (None, inner')
               else recv_timeout inner' ws))"

declare recv_timeout.simps [simp del]

subsection \<open>The contract of a drop-oldest queue\<close>

datatype 'a queue_op = Push 'a | Pop

fun queue_run ::
    "('a \<Rightarrow> 'q \<Rightarrow> nat \<times> 'q) \<Rightarrow> ('q \<Rightarrow> 'a option \<times> 'q) \<Rightarrow> 'a queue_op list \<Rightarrow> 'q \<Rightarrow> 'a list \<times> 'q" where
  "queue_run push pop [] q = ([], q)"
| "queue_run push pop (Push x # ops) q = queue_run push pop ops (snd (push x q))"
| "queue_run push pop (Pop # ops) q =
    (case pop q of (out, q') \<Rightarrow> (case queue_run push pop ops q' of (outs, q'') \<Rightarrow>
      (case_option [] (\<lambda>x. [x]) out @ outs, q'')))"

fun pushed :: "'a queue_op list \<Rightarrow> 'a list" where
  "pushed [] = []"
| "pushed (Push x # ops) = x # pushed ops"
| "pushed (Pop # ops) = pushed ops"

locale drop_oldest =
  fixes items :: "'q \<Rightarrow> 'a list"
    and ok :: "'q \<Rightarrow> bool"
    and limit :: "'q \<Rightarrow> nat"
    and push :: "'a \<Rightarrow> 'q \<Rightarrow> nat \<times> 'q"
    and pop :: "'q \<Rightarrow> 'a option \<times> 'q"
  assumes bounded: "ok q \<Longrightarrow> 0 < limit q \<and> length (items q) \<le> limit q"
    and push_ok: "ok q \<Longrightarrow> ok (snd (push x q)) \<and> limit (snd (push x q)) = limit q"
    and push_items: "ok q \<Longrightarrow> items (snd (push x q)) =
      (if length (items q) < limit q then items q @ [x] else tl (items q) @ [x])"
    and push_count: "ok q \<Longrightarrow> fst (push x q) = (if length (items q) < limit q then 0 else 1)"
    and pop_ok: "ok q \<Longrightarrow> ok (snd (pop q)) \<and> limit (snd (pop q)) = limit q"
    and pop_items: "ok q \<Longrightarrow> pop q = (case items q of [] \<Rightarrow> (None, q) | x # xs \<Rightarrow> (Some x, snd (pop q)))
      \<and> items (snd (pop q)) = tl (items q)"
begin

text \<open>After any number of pushes the queue holds the newest \<open>limit\<close> items, in order, and the
  reported drops are exactly the items that are gone.\<close>

lemma push_all:
  assumes "ok q"
  shows "ok (foldl (\<lambda>q x. snd (push x q)) q xs)
    \<and> limit (foldl (\<lambda>q x. snd (push x q)) q xs) = limit q
    \<and> items (foldl (\<lambda>q x. snd (push x q)) q xs)
        = drop (length (items q @ xs) - limit q) (items q @ xs)"
  using assms
proof (induction xs arbitrary: q)
  case Nil
  then show ?case using bounded [of q] by simp
next
  case (Cons x xs)
  have b: "0 < limit q" "length (items q) \<le> limit q"
    using bounded [OF Cons.prems] by auto
  show ?case
  proof (cases "length (items q) < limit q")
    case True
    then show ?thesis
      using Cons.IH [of "snd (push x q)"] push_ok [OF Cons.prems, of x] push_items [OF Cons.prems, of x]
      by simp
  next
    case False
    then have "length (items q) = limit q" "items q \<noteq> []"
      using b by auto
    then obtain y ys where "items q = y # ys"
      by (cases "items q") auto
    then show ?thesis
      using False \<open>length (items q) = limit q\<close>
        Cons.IH [of "snd (push x q)"] push_ok [OF Cons.prems, of x] push_items [OF Cons.prems, of x]
      by (simp add: Suc_diff_le)
  qed
qed

text \<open>Interleaved with the consumer, what comes out and what is left is a subsequence of what went
  in: the queue drops, but never reorders or duplicates.\<close>

lemma run_subseq:
  assumes "ok q"
  shows "subseq (fst (queue_run push pop ops q) @ items (snd (queue_run push pop ops q))) (items q @ pushed ops)"
  using assms
proof (induction ops arbitrary: q rule: pushed.induct)
  case 1
  then show ?case by simp
next
  case (2 x ops)
  have "subseq (fst (queue_run push pop ops (snd (push x q))) @ items (snd (queue_run push pop ops (snd (push x q)))))
      (items (snd (push x q)) @ pushed ops)"
    using 2 push_ok by blast
  moreover have "subseq (items (snd (push x q))) (items q @ [x])"
    using push_items [OF 2(2), of x] by (cases "items q") (auto intro: subseq_Cons')
  then have "subseq (items (snd (push x q)) @ pushed ops) (items q @ x # pushed ops)"
    using list_emb_append_mono [of "(=)" "items (snd (push x q))" "items q @ [x]" "pushed ops" "pushed ops"]
    by simp
  ultimately show ?case
    using subseq_order.order_trans by auto
next
  case (3 ops)
  have IH: "subseq (fst (queue_run push pop ops (snd (pop q))) @ items (snd (queue_run push pop ops (snd (pop q)))))
      (items (snd (pop q)) @ pushed ops)"
    using 3 pop_ok by blast
  show ?case
  proof (cases "items q")
    case Nil
    then have "pop q = (None, q)"
      using pop_items [OF 3(2)] by simp
    then show ?thesis
      using IH Nil by (auto split: prod.splits)
  next
    case (Cons x xs)
    then have "pop q = (Some x, snd (pop q))" "items (snd (pop q)) = xs"
      using pop_items [OF 3(2)] by simp_all
    then have "fst (pop q) = Some x" "items (snd (pop q)) = xs"
      by (metis fst_conv) fact
    then show ?thesis
      using IH Cons by (auto split: prod.splits)
  qed
qed

end

subsection \<open>The queue of the code\<close>

text \<open>\<open>pop_now\<close> is a receive whose deadline passes at once.\<close>

definition pop_now :: "'a shared \<Rightarrow> 'a option \<times> 'a shared" where
  "pop_now q = (case recv_timeout (q_inner q) [(True, q_inner q, True)] of
      None \<Rightarrow> (None, q)
    | Some (out, inner) \<Rightarrow> (out, q\<lparr>q_inner := inner\<rparr>))"

definition queue_ok :: "'a shared \<Rightarrow> bool" where
  "queue_ok q \<longleftrightarrow> \<not> q_closed (q_inner q) \<and> 0 < q_capacity q
     \<and> length (q_items (q_inner q)) \<le> q_capacity q"

lemma pop_now_eq: "pop_now q = (case q_items (q_inner q) of
    [] \<Rightarrow> (None, q) | x # xs \<Rightarrow> (Some x, q\<lparr>q_inner := (q_inner q)\<lparr>q_items := xs\<rparr>\<rparr>))"
  by (simp add: pop_now_def recv_timeout.simps [of "q_inner q"] split: list.splits)

interpretation dq: drop_oldest "\<lambda>q. q_items (q_inner q)" queue_ok q_capacity send pop_now
proof
  fix q :: "'a shared" and x :: 'a
  assume ok: "queue_ok q"
  show "0 < q_capacity q \<and> length (q_items (q_inner q)) \<le> q_capacity q"
    using ok by (simp add: queue_ok_def)
  show "queue_ok (snd (send x q)) \<and> q_capacity (snd (send x q)) = q_capacity q"
    using ok by (auto simp: queue_ok_def send_def Let_def)
  show "q_items (q_inner (snd (send x q))) =
      (if length (q_items (q_inner q)) < q_capacity q then q_items (q_inner q) @ [x]
       else tl (q_items (q_inner q)) @ [x])"
    using ok by (auto simp: queue_ok_def send_def Let_def)
  show "fst (send x q) = (if length (q_items (q_inner q)) < q_capacity q then 0 else 1)"
    using ok by (auto simp: queue_ok_def send_def Let_def)
  show "queue_ok (snd (pop_now q)) \<and> q_capacity (snd (pop_now q)) = q_capacity q"
    using ok by (auto simp: queue_ok_def pop_now_eq split: list.splits)
  show "pop_now q = (case q_items (q_inner q) of [] \<Rightarrow> (None, q) | x # xs \<Rightarrow> (Some x, snd (pop_now q)))
      \<and> q_items (q_inner (snd (pop_now q))) = tl (q_items (q_inner q))"
    by (auto simp: pop_now_eq split: list.splits)
qed

lemma channel_ok: "channel cap = Some q \<Longrightarrow> queue_ok q \<and> q_items (q_inner q) = [] \<and> q_capacity q = cap"
  by (auto simp: channel_def queue_ok_def split: if_splits)

subsection \<open>Properties\<close>

text \<open>A peer that does not read keeps the newest \<open>capacity\<close> frames, in the order they were
  sent; the sender never waits.\<close>

theorem queue_keeps_newest:
  assumes "channel cap = Some q"
  shows "q_items (q_inner (foldl (\<lambda>q x. snd (send x q)) q xs)) = drop (length xs - cap) xs"
  using dq.push_all [of q xs] channel_ok [OF assms] by simp

theorem queue_keeps_newest_witness:
  "q_items (q_inner (foldl (\<lambda>q x. snd (send x q)) (the (channel 2)) [1 :: nat, 2, 3])) = [2, 3]"
  using queue_keeps_newest [of 2 "the (channel 2)" "[1 :: nat, 2, 3]"] by (simp add: channel_def)

text \<open>For any interleaving of sends and receives, what the forwarder has taken out followed by
  what is still queued is a subsequence of what was sent: nothing is reordered, duplicated or
  invented.\<close>

theorem queue_never_reorders:
  assumes "channel cap = Some q"
  shows "subseq (fst (queue_run send pop_now ops q) @ q_items (q_inner (snd (queue_run send pop_now ops q))))
    (pushed ops)"
  using dq.run_subseq [of q ops] channel_ok [OF assms] by simp

theorem queue_never_reorders_witness:
  "subseq (fst (queue_run send pop_now [Push 1, Push 2, Pop] (the (channel 1)))
      @ q_items (q_inner (snd (queue_run send pop_now [Push 1, Push 2, Pop] (the (channel 1))))))
    [1 :: nat, 2]"
  using queue_never_reorders [of 1 "the (channel 1)" "[Push (1 :: nat), Push 2, Pop]"]
  by (simp add: channel_def)

text \<open>A receive that gives up leaves an empty queue behind: a frame that arrived while it
  waited is not left for later. A receive that returns a frame returns the head of the queue it
  last saw under the mutex.\<close>

theorem recv_timeout_none_means_empty:
  "case recv_timeout inner waits of
     None \<Rightarrow> True
   | Some (out, inner') \<Rightarrow>
       (\<exists>seen \<in> insert inner ((\<lambda>(_, i, _). i) ` set waits).
          case out of None \<Rightarrow> q_items seen = [] \<and> inner' = seen
          | Some x \<Rightarrow> q_items seen = x # q_items inner' \<and> q_closed inner' = q_closed seen)"
proof (induction waits arbitrary: inner)
  case Nil
  show ?case
    by (subst recv_timeout.simps) (auto split: list.splits)
next
  case (Cons w ws)
  obtain expired inner' timed_out where w: "w = (expired, inner', timed_out)"
    by (cases w)
  show ?case
  proof (cases "q_items inner = [] \<and> \<not> q_closed inner \<and> \<not> expired \<and> \<not> (timed_out \<and> q_items inner' = [])")
    case True
    then have "recv_timeout inner (w # ws) = recv_timeout inner' ws"
      by (subst recv_timeout.simps) (auto simp: w)
    then show ?thesis
      using Cons.IH [of inner'] by (auto simp: w split: option.splits)
  next
    case False
    then show ?thesis
      by (subst recv_timeout.simps) (auto simp: w split: list.splits)
  qed
qed

text \<open>Dropping the last sender closes the queue when drops happen one after the other; when
  the last two senders are dropped concurrently, both can read a reference count of 3, and the
  queue is never closed although no sender is left.\<close>

theorem last_sender_close:
  assumes "q_strong q = 3" "\<not> q_closed (q_inner q)"
  shows "q_closed (q_inner (sender_drop (sender_drop q))) \<and> q_strong (sender_drop (sender_drop q)) = 1
    \<and> (let q' = sender_released (sender_released
                  (sender_drop_observed (q_strong q) (sender_drop_observed (q_strong q) q)))
       in q_strong q' = 1 \<and> \<not> q_closed (q_inner q'))"
  using assms by (simp add: sender_drop_def sender_released_def sender_drop_observed_def Let_def)

theorem last_sender_close_witness:
  "q_closed (q_inner (sender_drop (sender_drop (sender_clone (the (channel 4 :: nat shared option))))))"
  using last_sender_close [of "sender_clone (the (channel 4 :: nat shared option))"]
  by (simp add: channel_def sender_clone_def)

end
