(* ===== verification/Bridge_Config.thy ===== *)
theory Bridge_Config
  imports Mmbus_Prelude
begin

text \<open>
  The bridge's configuration, \<open>crates/mmbus-bridge/src/config.rs\<close>: the records the TOML text is
  parsed into, the defaults, and the semantic validation pass with its errors. A Rust string is
  its UTF-8 bytes. Parsing TOML is a crate outside the repository and a parameter of
  \<open>config_from_str\<close>.
\<close>

subsection \<open>Records and defaults (lines 23--164)\<close>

datatype transport_kind = Tcp | Quic

record topic_config =
  tc_name :: bytes
  tc_forward :: bool
  tc_receive :: bool

record peer_config =
  pc_name :: bytes
  pc_endpoint :: bytes
  pc_preshared_key :: bytes
  pc_transport :: transport_kind
  pc_fingerprint :: "bytes option"

record bridge_config =
  bc_bus :: bytes
  bc_base_dir :: "bytes option"
  bc_origin_id :: "u64 option"
  bc_listen :: "bytes option"
  bc_peer_buffer_max :: nat
  bc_listen_quic :: "bytes option"
  bc_quic_cert_path :: "bytes option"
  bc_quic_key_path :: "bytes option"
  bc_quic_worker_threads :: nat
  bc_topics :: "topic_config list"
  bc_peers :: "peer_config list"

definition is_quic :: "transport_kind \<Rightarrow> bool" where
  "is_quic t \<longleftrightarrow> (case t of Tcp \<Rightarrow> False | Quic \<Rightarrow> True)"

definition default_peer_buffer_max :: nat where "default_peer_buffer_max = 4096"
definition default_quic_worker_threads :: nat where "default_quic_worker_threads = 2"

datatype 'e config_error =
    ConfigIo
  | ConfigToml 'e
  | EmptyBus
  | BadEndpoint bytes
  | DuplicatePeerName bytes
  | QuicPeerMissingFingerprint bytes
  | BadCertFingerprint bytes bytes
  | QuicWorkerThreadsZero

subsection \<open>String tests\<close>

text \<open>\<open>str::trim().is_empty()\<close>: every character has the Unicode property \<open>White_Space\<close>.\<close>

fun all_whitespace :: "bytes \<Rightarrow> bool" where
  "all_whitespace [] = True"
| "all_whitespace (b # bs) =
    (if (9 \<le> b \<and> b \<le> 13) \<or> b = 32 then all_whitespace bs
     else case bs of
       [] \<Rightarrow> False
     | c # cs \<Rightarrow>
         if b = 0xC2 \<and> (c = 0x85 \<or> c = 0xA0) then all_whitespace cs
         else (case cs of
             [] \<Rightarrow> False
           | d # ds \<Rightarrow>
               if (b = 0xE1 \<and> c = 0x9A \<and> d = 0x80)
                 \<or> (b = 0xE2 \<and> c = 0x80 \<and> ((0x80 \<le> d \<and> d \<le> 0x8A) \<or> d = 0xA8 \<or> d = 0xA9 \<or> d = 0xAF))
                 \<or> (b = 0xE2 \<and> c = 0x81 \<and> d = 0x9F)
                 \<or> (b = 0xE3 \<and> c = 0x80 \<and> d = 0x80)
               then all_whitespace ds else False))"

definition is_ascii_hexdigit :: "u8 \<Rightarrow> bool" where
  "is_ascii_hexdigit c \<longleftrightarrow> (48 \<le> c \<and> c \<le> 57) \<or> (65 \<le> c \<and> c \<le> 70) \<or> (97 \<le> c \<and> c \<le> 102)"

definition sha256_prefix :: bytes where
  "sha256_prefix = [115, 104, 97, 50, 53, 54, 58]"

definition strip_prefix :: "bytes \<Rightarrow> bytes \<Rightarrow> bytes option" where
  "strip_prefix p s = (if take (length p) s = p then Some (drop (length p) s) else None)"

subsection \<open>Validation (lines 195--271)\<close>

definition validate_cert_fingerprint :: "bytes \<Rightarrow> bytes \<Rightarrow> 'e config_error + unit" where
  "validate_cert_fingerprint peer fp = (case strip_prefix sha256_prefix fp of
      None \<Rightarrow> Inl (BadCertFingerprint peer fp)
    | Some rest \<Rightarrow>
        if rest = [] \<or> \<not> list_all is_ascii_hexdigit rest then Inl (BadCertFingerprint peer fp)
        else Inr ())"

definition validate_peer :: "peer_config \<Rightarrow> 'e config_error + unit" where
  "validate_peer p =
    (if 58 \<notin> set (pc_endpoint p) then Inl (BadEndpoint (pc_endpoint p))
     else if is_quic (pc_transport p) then
       (case pc_fingerprint p of
          None \<Rightarrow> Inl (QuicPeerMissingFingerprint (pc_name p))
        | Some fp \<Rightarrow> validate_cert_fingerprint (pc_name p) fp)
     else Inr ())"

fun validate_peers :: "peer_config list \<Rightarrow> 'e config_error + unit" where
  "validate_peers [] = Inr ()"
| "validate_peers (p # ps) = (case validate_peer p of Inl e \<Rightarrow> Inl e | Inr _ \<Rightarrow> validate_peers ps)"

fun check_names :: "bytes list \<Rightarrow> peer_config list \<Rightarrow> 'e config_error + unit" where
  "check_names seen [] = Inr ()"
| "check_names seen (p # ps) =
    (if pc_name p \<in> set seen then Inl (DuplicatePeerName (pc_name p))
     else check_names (pc_name p # seen) ps)"

definition validate :: "bridge_config \<Rightarrow> 'e config_error + unit" where
  "validate cfg =
    (if all_whitespace (bc_bus cfg) then Inl EmptyBus
     else case validate_peers (bc_peers cfg) of
       Inl e \<Rightarrow> Inl e
     | Inr _ \<Rightarrow>
        (case check_names [] (bc_peers cfg) of
           Inl e \<Rightarrow> Inl e
         | Inr _ \<Rightarrow> if bc_quic_worker_threads cfg = 0 then Inl QuicWorkerThreadsZero else Inr ()))"

definition config_from_str ::
    "(bytes \<Rightarrow> 'e + bridge_config) \<Rightarrow> bytes \<Rightarrow> 'e config_error + bridge_config" where
  "config_from_str toml text = (case toml text of
      Inl e \<Rightarrow> Inl (ConfigToml e)
    | Inr cfg \<Rightarrow> (case validate cfg of Inl e \<Rightarrow> Inl e | Inr _ \<Rightarrow> Inr cfg))"

definition config_from_path ::
    "(bytes \<Rightarrow> 'e + bridge_config) \<Rightarrow> bytes option \<Rightarrow> 'e config_error + bridge_config" where
  "config_from_path toml contents = (case contents of
      None \<Rightarrow> Inl ConfigIo
    | Some text \<Rightarrow> config_from_str toml text)"

subsection \<open>What validation establishes\<close>

definition peer_ok :: "peer_config \<Rightarrow> bool" where
  "peer_ok p \<longleftrightarrow> 58 \<in> set (pc_endpoint p)
     \<and> (pc_transport p = Quic \<longrightarrow>
          (\<exists>hex. pc_fingerprint p = Some (sha256_prefix @ hex) \<and> hex \<noteq> [] \<and> list_all is_ascii_hexdigit hex))"

lemma strip_prefix_Some: "strip_prefix p s = Some r \<longleftrightarrow> s = p @ r"
  by (auto simp: strip_prefix_def) (metis append_take_drop_id)

lemma strip_prefix_None: "strip_prefix p s = None \<longleftrightarrow> (\<forall>r. s \<noteq> p @ r)"
  using strip_prefix_Some [of p s] by (cases "strip_prefix p s") auto

lemma validate_cert_iff:
  "(validate_cert_fingerprint peer fp :: 'e config_error + unit) = Inr ()
    \<longleftrightarrow> (\<exists>hex. fp = sha256_prefix @ hex \<and> hex \<noteq> [] \<and> list_all is_ascii_hexdigit hex)"
  by (auto simp: validate_cert_fingerprint_def strip_prefix_Some strip_prefix_None split: option.splits)

lemma validate_peer_iff: "(validate_peer p :: 'e config_error + unit) = Inr () \<longleftrightarrow> peer_ok p"
  by (auto simp: validate_peer_def peer_ok_def is_quic_def validate_cert_iff
      split: transport_kind.splits option.splits)

lemma validate_peers_iff:
  "(validate_peers ps :: 'e config_error + unit) = Inr () \<longleftrightarrow> list_all peer_ok ps"
proof (induction ps)
  case Nil
  show ?case by simp
next
  case (Cons p ps)
  show ?case
    using validate_peer_iff [of p] Cons
    by (cases "validate_peer p :: 'e config_error + unit") auto
qed

lemma check_names_iff:
  "(check_names seen ps :: 'e config_error + unit) = Inr ()
    \<longleftrightarrow> distinct (map pc_name ps) \<and> set (map pc_name ps) \<inter> set seen = {}"
  by (induction ps arbitrary: seen) auto

text \<open>Validation accepts exactly the configurations whose bus name is not blank, whose peers
  have a \<open>host:port\<close> endpoint and distinct names, whose QUIC peers pin a \<open>sha256:HEX\<close> fingerprint,
  and that ask for at least one QUIC worker thread.\<close>

theorem validate_iff:
  "(validate cfg :: 'e config_error + unit) = Inr ()
    \<longleftrightarrow> \<not> all_whitespace (bc_bus cfg) \<and> list_all peer_ok (bc_peers cfg)
      \<and> distinct (map pc_name (bc_peers cfg)) \<and> 0 < bc_quic_worker_threads cfg"
  using validate_peers_iff [of "bc_peers cfg", where 'e = 'e]
    check_names_iff [of "[]" "bc_peers cfg", where 'e = 'e]
  by (auto simp: validate_def split: sum.splits)

end
