(* ===== verification/Bridge.thy ===== *)
theory Bridge
  imports Frame Bridge_Queue Bridge_Config
begin

text \<open>
  The bridge runtime, \<open>crates/mmbus-bridge/src/bridge.rs\<close>: the reader of an accepted connection
  (authentication, loop prevention, topic filter), the subscriber thread's fan-out, the
  forwarder's session and back-off, the publisher thread, and what \<open>Bridge::start\<close> sets up from
  the configuration. A thread is a function of the events it meets (bytes read, messages
  received, write results, the shutdown flag); channels are lists.
\<close>

subsection \<open>UTF-8 (\<open>std::str::from_utf8\<close>)\<close>

definition cont :: "u8 \<Rightarrow> bool" where
  "cont c \<longleftrightarrow> 0x80 \<le> c \<and> c \<le> 0xBF"

fun utf8_valid :: "bytes \<Rightarrow> bool" where
  "utf8_valid [] = True"
| "utf8_valid (a # xs) =
    (if a \<le> 0x7F then utf8_valid xs
     else case xs of
       [] \<Rightarrow> False
     | b # ys \<Rightarrow>
         if 0xC2 \<le> a \<and> a \<le> 0xDF then cont b \<and> utf8_valid ys
         else (case ys of
             [] \<Rightarrow> False
           | c # zs \<Rightarrow>
               if 0xE0 \<le> a \<and> a \<le> 0xEF then
                 (if a = 0xE0 then 0xA0 \<le> b \<and> b \<le> 0xBF
                  else if a = 0xED then 0x80 \<le> b \<and> b \<le> 0x9F else cont b)
                 \<and> cont c \<and> utf8_valid zs
               else (case zs of
                   [] \<Rightarrow> False
                 | d # ws \<Rightarrow>
                     0xF0 \<le> a \<and> a \<le> 0xF4
                     \<and> (if a = 0xF0 then 0x90 \<le> b \<and> b \<le> 0xBF
                        else if a = 0xF4 then 0x80 \<le> b \<and> b \<le> 0x8F else cont b)
                     \<and> cont c \<and> cont d \<and> utf8_valid ws)))"

subsection \<open>The receive side (lines 690--819)\<close>

text \<open>\<open>handle_frame\<close> sends at most one \<open>(topic, payload)\<close> to the publisher thread.\<close>

definition handle_frame :: "u64 \<Rightarrow> bytes set \<Rightarrow> frame \<Rightarrow> (bytes \<times> bytes) list" where
  "handle_frame our_origin_id receive_topics f =
    (if f_origin_id f = our_origin_id then []
     else case f_type f of
       Msg \<Rightarrow>
         if \<not> utf8_valid (f_topic f) then []
         else if f_topic f \<in> receive_topics then [(f_topic f, f_payload f)] else []
     | PeerHello \<Rightarrow> []
     | Ping \<Rightarrow> []
     | TopicSubscribe \<Rightarrow> [])"

definition hello_accepted :: "bytes set \<Rightarrow> frame \<Rightarrow> bool" where
  "hello_accepted accepted_psks f \<longleftrightarrow>
    f_type f = PeerHello
    \<and> (case parse_peer_hello (f_payload f) of Inl _ \<Rightarrow> False | Inr h \<Rightarrow> ph_psk h \<in> accepted_psks)"

record reader =
  rd_buf :: bytes
  rd_authenticated :: bool
  rd_open :: bool
  rd_published :: "(bytes \<times> bytes) list"

lemma decode_shrinks: "decode b = Inr (f, n) \<Longrightarrow> length (drop n b) < length b"
  using decode_InrD(1,2) [of b f n] by (simp add: encoded_len_def HEADER_LEN_def)

text \<open>The inner loop of \<open>reader_main\<close>: decode every complete frame in the buffer.\<close>

function reader_drain :: "u64 \<Rightarrow> bytes set \<Rightarrow> bytes set \<Rightarrow> reader \<Rightarrow> reader" where
  "reader_drain our topics psks s = (case decode (rd_buf s) of
      Inr (f, n) \<Rightarrow>
        if \<not> rd_authenticated s then
          if hello_accepted psks f
          then reader_drain our topics psks (s\<lparr>rd_authenticated := True, rd_buf := drop n (rd_buf s)\<rparr>)
          else s\<lparr>rd_open := False\<rparr>
        else reader_drain our topics psks
               (s\<lparr>rd_published := rd_published s @ handle_frame our topics f,
                  rd_buf := drop n (rd_buf s)\<rparr>)
    | Inl (Incomplete h n) \<Rightarrow> s
    | Inl _ \<Rightarrow> s\<lparr>rd_open := False\<rparr>)"
  by pat_completeness auto

termination
  by (relation "measure (\<lambda>(our, topics, psks, s). length (rd_buf s))") (auto dest: decode_shrinks)

declare reader_drain.simps [simp del]

text \<open>What one turn of the outer loop meets: the shutdown flag is set, or what \<open>read\<close> returns.\<close>

datatype read_result = ReadBytes bytes | ReadEof | ReadTimeout | ReadError | ReadShutdown

fun reader_step :: "u64 \<Rightarrow> bytes set \<Rightarrow> bytes set \<Rightarrow> reader \<Rightarrow> read_result \<Rightarrow> reader" where
  "reader_step our topics psks s r =
    (if \<not> rd_open s then s
     else case r of
       ReadBytes [] \<Rightarrow> s\<lparr>rd_open := False\<rparr>
     | ReadBytes bs \<Rightarrow> reader_drain our topics psks (s\<lparr>rd_buf := rd_buf s @ bs\<rparr>)
     | ReadEof \<Rightarrow> s\<lparr>rd_open := False\<rparr>
     | ReadTimeout \<Rightarrow> s
     | ReadError \<Rightarrow> s\<lparr>rd_open := False\<rparr>
     | ReadShutdown \<Rightarrow> s\<lparr>rd_open := False\<rparr>)"

definition reader_start :: reader where
  "reader_start = \<lparr>rd_buf = [], rd_authenticated = False, rd_open = True, rd_published = []\<rparr>"

definition reader_main :: "u64 \<Rightarrow> bytes set \<Rightarrow> bytes set \<Rightarrow> read_result list \<Rightarrow> reader" where
  "reader_main our topics psks reads = foldl (reader_step our topics psks) reader_start reads"

subsection \<open>The forward side (lines 487--636)\<close>

text \<open>One message received by the subscriber thread of a topic: one frame, one queue entry per
  peer.\<close>

definition forward_message ::
    "u64 \<Rightarrow> bytes \<Rightarrow> u64 \<times> bytes shared list \<Rightarrow> bytes \<Rightarrow> u64 \<times> bytes shared list" where
  "forward_message origin_id topic st payload =
    (case st of (seq, peers) \<Rightarrow>
       let buf = encode (frame_msg origin_id seq topic payload)
       in (seq + 1, map (\<lambda>q. snd (send buf q)) peers))"

datatype sub_event = Received bytes | RecvTimedOut | RecvFailed | SubShutdown

text \<open>The inner loop of \<open>subscriber_main\<close>; it ends when the subscription fails or, for good, when the
  shutdown flag is seen (the first component).\<close>

fun subscriber_loop ::
    "u64 \<Rightarrow> bytes \<Rightarrow> sub_event list \<Rightarrow> u64 \<times> bytes shared list \<Rightarrow> bool \<times> u64 \<times> bytes shared list" where
  "subscriber_loop origin topic [] st = (True, st)"
| "subscriber_loop origin topic (Received p # es) st =
    subscriber_loop origin topic es (forward_message origin topic st p)"
| "subscriber_loop origin topic (RecvTimedOut # es) st = subscriber_loop origin topic es st"
| "subscriber_loop origin topic (RecvFailed # es) st = (False, st)"
| "subscriber_loop origin topic (SubShutdown # es) st = (True, st)"

text \<open>The outer loop subscribes again, with the same sequence counter.\<close>

datatype sub_session = SubscribeFailed | Subscribed "sub_event list"

fun subscriber_main ::
    "u64 \<Rightarrow> bytes \<Rightarrow> sub_session list \<Rightarrow> u64 \<times> bytes shared list \<Rightarrow> u64 \<times> bytes shared list" where
  "subscriber_main origin topic [] st = st"
| "subscriber_main origin topic (SubscribeFailed # ss) st = subscriber_main origin topic ss st"
| "subscriber_main origin topic (Subscribed es # ss) st =
    (case subscriber_loop origin topic es st of (stop, st') \<Rightarrow>
       if stop then st' else subscriber_main origin topic ss st')"

text \<open>A forwarder's session: \<open>write_all\<close> of the hello, then of every frame taken from the queue.
  A write that fails may have put any part of its bytes on the wire.\<close>

datatype write_result = Written | WriteFailed nat

datatype pump_event = ShutdownSeen | Dequeued bytes write_result | DequeueTimeout bool

fun pump :: "pump_event list \<Rightarrow> bytes \<Rightarrow> bytes \<times> bool" where
  "pump [] wire = (wire, True)"
| "pump (ShutdownSeen # es) wire = (wire, True)"
| "pump (Dequeued b Written # es) wire = pump es (wire @ b)"
| "pump (Dequeued b (WriteFailed n) # es) wire = (wire @ take n b, False)"
| "pump (DequeueTimeout shutdown # es) wire = (if shutdown then (wire, True) else pump es wire)"

definition run_connection :: "bytes \<Rightarrow> write_result \<Rightarrow> pump_event list \<Rightarrow> bytes \<times> bool" where
  "run_connection hello w es =
    (case w of WriteFailed n \<Rightarrow> (take n hello, False) | Written \<Rightarrow> pump es hello)"

text \<open>\<open>forwarder_main\<close>: the outcome of each connection attempt, what every session has written, and
  the milliseconds slept after each failed attempt; a successful one resets the back-off. An
  endpoint that does not parse ends the thread.\<close>

datatype attempt = ConnectFailed | Connected write_result "pump_event list"

fun forwarder_main ::
    "bytes \<Rightarrow> nat \<Rightarrow> attempt list \<Rightarrow> bytes list \<times> nat list" where
  "forwarder_main hello backoff [] = ([], [])"
| "forwarder_main hello backoff (ConnectFailed # as) =
    (case forwarder_main hello (min (backoff * 2) 1000) as of (wires, sleeps) \<Rightarrow>
       (wires, backoff # sleeps))"
| "forwarder_main hello backoff (Connected w es # as) =
    (case forwarder_main hello 50 as of (wires, sleeps) \<Rightarrow>
       (fst (run_connection hello w es) # wires, sleeps))"

definition forwarder ::
    "bool \<Rightarrow> bytes \<Rightarrow> attempt list \<Rightarrow> bytes list \<times> nat list" where
  "forwarder endpoint_parses hello as = (if endpoint_parses then forwarder_main hello 50 as else ([], []))"

function sleep_steps :: "nat \<Rightarrow> bool list \<Rightarrow> nat list" where
  "sleep_steps left flags =
    (if left = 0 then []
     else case flags of
       [] \<Rightarrow> []
     | shutdown # fs \<Rightarrow>
         if shutdown then [] else (let chunk = min left 50 in chunk # sleep_steps (left - chunk) fs))"
  by pat_completeness auto
termination
  by (relation "measure fst") auto

declare sleep_steps.simps [simp del]

subsection \<open>The publisher thread (lines 821--860)\<close>

text \<open>\<open>publish\<close> is the bus of crate \<open>mmbus\<close> as the bridge uses it: a state and whether the publish
  succeeded.\<close>

datatype chan_event = Job bytes bytes | ChanTimeout | ChanClosed | ChanShutdown

fun publisher_loop ::
    "('b \<Rightarrow> bytes \<Rightarrow> bytes \<Rightarrow> bool \<times> 'b) \<Rightarrow> chan_event list \<Rightarrow> 'b \<Rightarrow> 'b" where
  "publisher_loop publish [] bus = bus"
| "publisher_loop publish (Job topic payload # es) bus =
    publisher_loop publish es (snd (publish bus topic payload))"
| "publisher_loop publish (ChanTimeout # es) bus = publisher_loop publish es bus"
| "publisher_loop publish (ChanClosed # es) bus = bus"
| "publisher_loop publish (ChanShutdown # es) bus = bus"

text \<open>Before the loop the producer of every receive topic is created; a failure is only reported.\<close>

definition publisher_main ::
    "('b \<Rightarrow> bytes \<Rightarrow> bool \<times> 'b) \<Rightarrow> ('b \<Rightarrow> bytes \<Rightarrow> bytes \<Rightarrow> bool \<times> 'b) \<Rightarrow> bytes list
      \<Rightarrow> chan_event list \<Rightarrow> 'b \<Rightarrow> 'b" where
  "publisher_main ensure publish receive_topics es bus =
    publisher_loop publish es (foldl (\<lambda>b t. snd (ensure b t)) bus receive_topics)"

subsection \<open>Starting (lines 110--394, 907--921)\<close>

definition random_origin_id :: "u64 \<Rightarrow> u32 \<Rightarrow> u64" where
  "random_origin_id nanos pid =
    (let z = nanos XOR word_rotl 32 (ucast pid);
         z = (z XOR drop_bit 30 z) * 0xbf58476d1ce4e5b9;
         z = (z XOR drop_bit 27 z) * 0x94d049bb133111eb
     in z XOR drop_bit 31 z)"

datatype start_error = QuicNotCompiledListen | QuicNotCompiledPeer | QuicRuntime | Listen | QuicSetup

text \<open>What starting asks of the system: the build's \<open>quic\<close> feature, clock and process id, whether the
  QUIC runtime and identity come up, whether the TCP listener binds, and whether the address and the
  certificate of the QUIC listener can be used.\<close>

record start_env =
  se_quic_feature :: bool
  se_nanos :: u64
  se_pid :: u32
  se_quic_ready :: bool
  se_bind :: "bytes \<Rightarrow> bool"
  se_bind_quic :: "bytes \<Rightarrow> bool"

record peer_link =
  pl_endpoint :: bytes
  pl_transport :: transport_kind
  pl_hello :: bytes
  pl_queue :: "bytes shared"

definition start_peer :: "u64 \<Rightarrow> nat \<Rightarrow> peer_config \<Rightarrow> peer_link option" where
  "start_peer origin_id buffer_max p = (case channel buffer_max of
      None \<Rightarrow> None
    | Some q \<Rightarrow>
        if pc_transport p = Quic \<and> pc_fingerprint p = None then None
        else Some \<lparr>pl_endpoint = pc_endpoint p, pl_transport = pc_transport p,
                   pl_hello = encode (peer_hello_with_psk origin_id (pc_preshared_key p)),
                   pl_queue = q\<rparr>)"

fun start_peers :: "u64 \<Rightarrow> nat \<Rightarrow> peer_config list \<Rightarrow> peer_link list option" where
  "start_peers origin_id buffer_max [] = Some []"
| "start_peers origin_id buffer_max (p # ps) = (case start_peer origin_id buffer_max p of
      None \<Rightarrow> None
    | Some l \<Rightarrow> (case start_peers origin_id buffer_max ps of None \<Rightarrow> None | Some ls \<Rightarrow> Some (l # ls)))"

record bridge =
  br_origin_id :: u64
  br_peers :: "peer_link list"
  br_forward_topics :: "bytes list"
  br_receive :: "(bytes set \<times> bytes set) option"

text \<open>The receive side: the topics republished and the keys accepted, when a listener is wanted.\<close>

definition start_receive :: "start_env \<Rightarrow> bridge_config \<Rightarrow> start_error + (bytes set \<times> bytes set) option" where
  "start_receive env cfg =
    (let want_tcp_listen = (bc_listen cfg \<noteq> None);
         want_quic_listen = (se_quic_feature env \<and> bc_listen_quic cfg \<noteq> None)
     in if want_tcp_listen \<or> want_quic_listen then
          let receive_topics = set (map tc_name (filter tc_receive (bc_topics cfg)));
              accepted_psks = set (map pc_preshared_key (bc_peers cfg))
          in if want_tcp_listen \<and> \<not> se_bind env (the (bc_listen cfg)) then Inl Listen
             else if want_quic_listen \<and> \<not> se_bind_quic env (the (bc_listen_quic cfg)) then Inl QuicSetup
             else Inr (Some (receive_topics, accepted_psks))
        else Inr None)"

text \<open>\<open>Bridge::start\<close>: \<open>None\<close> is a panic.\<close>

definition bridge_start :: "start_env \<Rightarrow> bridge_config \<Rightarrow> (start_error + bridge) option" where
  "bridge_start env cfg =
    (let quic = se_quic_feature env;
         quic_peer = list_ex (\<lambda>p. is_quic (pc_transport p)) (bc_peers cfg);
         quic_listen = (bc_listen_quic cfg \<noteq> None)
     in if \<not> quic \<and> quic_listen then Some (Inl QuicNotCompiledListen)
        else if \<not> quic \<and> quic_peer then Some (Inl QuicNotCompiledPeer)
        else
          let origin_id = (case bc_origin_id cfg of
                None \<Rightarrow> random_origin_id (se_nanos env) (se_pid env) | Some o' \<Rightarrow> o')
          in if quic \<and> (quic_peer \<or> quic_listen) \<and> \<not> se_quic_ready env then Some (Inl QuicRuntime)
             else (case start_peers origin_id (bc_peer_buffer_max cfg) (bc_peers cfg) of
               None \<Rightarrow> None
             | Some links \<Rightarrow> (case start_receive env cfg of
                   Inl e \<Rightarrow> Some (Inl e)
                 | Inr receive \<Rightarrow> Some (Inr
                     \<lparr>br_origin_id = origin_id, br_peers = links,
                      br_forward_topics = map tc_name (filter tc_forward (bc_topics cfg)),
                      br_receive = receive\<rparr>))))"

text \<open>\<open>shutdown_inner\<close> drops the senders the bridge holds itself.\<close>

definition bridge_shutdown :: "bridge \<Rightarrow> bridge" where
  "bridge_shutdown b = b\<lparr>br_peers := map (\<lambda>l. l\<lparr>pl_queue := sender_drop (pl_queue l)\<rparr>) (br_peers b),
     br_receive := None\<rparr>"

end
