(* ===== verification/Bridge_Properties.thy ===== *)
theory Bridge_Properties
  imports Bridge
begin

text \<open>
  What the bridge promises: the reader's output is a function of the byte stream, not of how it
  was cut into reads; nothing is published before authentication; what one bridge forwards the
  other publishes. The stream facts come from the interpretation \<open>frames\<close> of \<open>stream_codec\<close>,
  the queue facts from \<open>dq\<close> of \<open>drop_oldest\<close>.
\<close>

subsection \<open>The reader as a function of the frames\<close>

text \<open>The protocol states of a connection: authenticated or not, open or not, and the output.\<close>

fun session_step ::
    "u64 \<Rightarrow> bytes set \<Rightarrow> bytes set \<Rightarrow> bool \<times> bool \<times> (bytes \<times> bytes) list \<Rightarrow> frame
      \<Rightarrow> bool \<times> bool \<times> (bytes \<times> bytes) list" where
  "session_step our topics psks (auth, opn, pub) f =
    (if \<not> opn then (auth, opn, pub)
     else if \<not> auth then (if hello_accepted psks f then (True, True, pub) else (False, False, pub))
     else (True, True, pub @ handle_frame our topics f))"

definition session ::
    "u64 \<Rightarrow> bytes set \<Rightarrow> bytes set \<Rightarrow> frame list \<Rightarrow> bool \<times> bool \<times> (bytes \<times> bytes) list \<Rightarrow> bool \<times> bool \<times> (bytes \<times> bytes) list" where
  "session our topics psks fs st = foldl (session_step our topics psks) st fs"

definition session_output ::
    "u64 \<Rightarrow> bytes set \<Rightarrow> bytes set \<Rightarrow> frame list \<Rightarrow> (bytes \<times> bytes) list" where
  "session_output our topics psks fs = (case fs of
      [] \<Rightarrow> []
    | h # ms \<Rightarrow> if hello_accepted psks h then concat (map (handle_frame our topics) ms) else [])"

lemma session_closed: "session our topics psks fs (a, False, p) = (a, False, p)"
  by (induction fs) (simp_all add: session_def)

lemma session_auth:
  "session our topics psks fs (True, True, p) = (True, True, p @ concat (map (handle_frame our topics) fs))"
  by (induction fs arbitrary: p) (simp_all add: session_def)

lemma session_start: "snd (snd (session our topics psks fs (False, True, []))) = session_output our topics psks fs"
proof (cases fs)
  case (Cons h ms)
  then show ?thesis
    using session_auth [of our topics psks ms "[]"] session_closed [of our topics psks ms False "[]"]
    by (simp add: session_output_def session_def)
qed (simp add: session_output_def session_def)

definition view :: "reader \<Rightarrow> bool \<times> bool \<times> (bytes \<times> bytes) list" where
  "view s = (rd_authenticated s, rd_open s, rd_published s)"

lemma reader_drain_session:
  assumes "rd_open s"
  shows "case drain frame_parse (rd_buf s) of (fs, rest, bad) \<Rightarrow>
    case session our topics psks fs (view s) of (auth, opn, pub) \<Rightarrow>
      view (reader_drain our topics psks s) = (auth, opn \<and> \<not> bad, pub)
      \<and> (opn \<and> \<not> bad \<longrightarrow> rd_buf (reader_drain our topics psks s) = rest)"
  using assms
proof (induction our topics psks s rule: reader_drain.induct)
  case (1 our topics psks s)
  show ?case
  proof (cases "decode (rd_buf s)")
    case (Inl e)
    then have "reader_drain our topics psks s =
        (case e of Incomplete h n \<Rightarrow> s | _ \<Rightarrow> s\<lparr>rd_open := False\<rparr>)"
      by (subst reader_drain.simps) (simp split: decode_error.splits)
    moreover have "drain frame_parse (rd_buf s) =
        ([], rd_buf s, case e of Incomplete h n \<Rightarrow> False | _ \<Rightarrow> True)"
      using Inl by (subst drain.simps) (simp add: frame_parse_def split: decode_error.splits)
    ultimately show ?thesis
      using "1.prems" by (auto simp: session_def view_def split: decode_error.splits)
  next
    case (Inr fn)
    obtain f n where fn: "fn = (f, n)"
      by (cases fn)
    have dec: "decode (rd_buf s) = Inr (f, n)"
      using Inr fn by simp
    have drain: "drain frame_parse (rd_buf s) =
        (let (xs, rest, bad) = drain frame_parse (drop n (rd_buf s)) in (f # xs, rest, bad))"
      by (rule frames.drain_step) (simp add: frame_parse_Parsed dec)
    have step: "reader_drain our topics psks s =
      (if \<not> rd_authenticated s then
          if hello_accepted psks f
          then reader_drain our topics psks (s\<lparr>rd_authenticated := True, rd_buf := drop n (rd_buf s)\<rparr>)
          else s\<lparr>rd_open := False\<rparr>
        else reader_drain our topics psks
               (s\<lparr>rd_published := rd_published s @ handle_frame our topics f,
                  rd_buf := drop n (rd_buf s)\<rparr>))"
      by (subst reader_drain.simps) (simp add: dec)
    consider (reject) "\<not> rd_authenticated s" "\<not> hello_accepted psks f"
      | (hello) "\<not> rd_authenticated s" "hello_accepted psks f"
      | (body) "rd_authenticated s"
      by blast
    then show ?thesis
    proof cases
      case reject
      then show ?thesis
        using "1.prems" session_closed unfolding drain step
        by (auto simp: view_def session_def Let_def split: prod.splits)
    next
      case hello
      have "view (s\<lparr>rd_authenticated := True, rd_buf := drop n (rd_buf s)\<rparr>) =
          session_step our topics psks (view s) f"
        using hello "1.prems" by (simp add: view_def)
      then show ?thesis
        using "1.IH"(1) [OF dec refl] hello "1.prems" unfolding drain step
        by (auto simp: session_def Let_def split: prod.splits)
    next
      case body
      have "view (s\<lparr>rd_published := rd_published s @ handle_frame our topics f, rd_buf := drop n (rd_buf s)\<rparr>) =
          session_step our topics psks (view s) f"
        using body "1.prems" by (simp add: view_def)
      then show ?thesis
        using "1.IH"(2) [OF dec refl] body "1.prems" unfolding drain step
        by (auto simp: session_def Let_def split: prod.splits)
    qed
  qed
qed

lemma session_append:
  "session our topics psks (fs @ gs) st = session our topics psks gs (session our topics psks fs st)"
  by (simp add: session_def)

fun read_bytes :: "read_result list \<Rightarrow> bytes" where
  "read_bytes [] = []"
| "read_bytes (ReadBytes bs # rs) = bs @ read_bytes rs"
| "read_bytes (_ # rs) = read_bytes rs"

lemma read_bytes_append: "read_bytes (rs @ qs) = read_bytes rs @ read_bytes qs"
  by (induction rs rule: read_bytes.induct) auto

definition live_read :: "read_result \<Rightarrow> bool" where
  "live_read r \<longleftrightarrow> r = ReadTimeout \<or> (\<exists>bs. r = ReadBytes bs \<and> bs \<noteq> [])"

lemma reader_main_session:
  assumes "list_all live_read reads"
  shows "case drain frame_parse (read_bytes reads) of (fs, rest, bad) \<Rightarrow>
    case session our topics psks fs (False, True, []) of (auth, opn, pub) \<Rightarrow>
      view (reader_main our topics psks reads) = (auth, opn \<and> \<not> bad, pub)
      \<and> (opn \<and> \<not> bad \<longrightarrow> rd_buf (reader_main our topics psks reads) = rest)"
  using assms
proof (induction reads rule: rev_induct)
  case Nil
  have "drain frame_parse [] = ([], [], False)"
    by (subst drain.simps) (simp add: frame_parse_def decode_def HEADER_LEN_def)
  then show ?case
    by (simp add: reader_main_def session_def view_def reader_start_def)
next
  case (snoc r rs)
  let ?s = "reader_main our topics psks rs" and ?B = "read_bytes rs"
  have live: "list_all live_read rs" "live_read r"
    using snoc.prems by simp_all
  have main: "reader_main our topics psks (rs @ [r]) = reader_step our topics psks ?s r"
    by (simp add: reader_main_def)
  obtain fs rest bad where d: "drain frame_parse ?B = (fs, rest, bad)"
    by (cases "drain frame_parse ?B") auto
  obtain auth opn pub where st: "session our topics psks fs (False, True, []) = (auth, opn, pub)"
    by (cases "session our topics psks fs (False, True, [])") auto
  have IH: "view ?s = (auth, opn \<and> \<not> bad, pub)" "opn \<and> \<not> bad \<longrightarrow> rd_buf ?s = rest"
    using snoc.IH [OF live(1)] d st by simp_all
  show ?case
  proof (cases "r = ReadTimeout")
    case True
    then show ?thesis
      using IH d st unfolding main by (simp add: read_bytes_append)
  next
    case False
    then obtain c where c: "r = ReadBytes c" "c \<noteq> []"
      using live(2) by (auto simp: live_read_def)
    have bytes: "read_bytes (rs @ [r]) = ?B @ c"
      by (simp add: read_bytes_append c)
    show ?thesis
    proof (cases "opn \<and> \<not> bad")
      case False
      then have "reader_step our topics psks ?s r = ?s"
        using IH by (simp add: view_def)
      moreover have "drain frame_parse (?B @ c) = (if bad then (fs, rest @ c, True)
          else (case drain frame_parse (rest @ c) of (ys, r', bad') \<Rightarrow> (fs @ ys, r', bad')))"
        using frames.drain_append [of ?B c] d by simp
      ultimately show ?thesis
        using False IH st session_closed unfolding main bytes
        by (auto simp: session_append split: prod.splits)
    next
      case True
      define s' where "s' = ?s\<lparr>rd_buf := rd_buf ?s @ c\<rparr>"
      have open': "rd_open s'" and buf: "rd_buf s' = rest @ c"
        and v: "view s' = session our topics psks fs (False, True, [])"
        using IH True st by (simp_all add: view_def s'_def)
      have step: "reader_step our topics psks ?s r = reader_drain our topics psks s'"
        using IH True c by (cases c) (simp_all add: view_def s'_def)
      have "drain frame_parse (?B @ c) =
          (case drain frame_parse (rest @ c) of (ys, r', bad') \<Rightarrow> (fs @ ys, r', bad'))"
        using frames.drain_append [of ?B c] d True by simp
      then show ?thesis
        using reader_drain_session [OF open', of our topics psks] unfolding main bytes step buf v
        by (auto simp: session_append split: prod.splits)
    qed
  qed
qed

subsection \<open>Properties of the receive side\<close>

lemma reader_chunks:
  assumes "list_all live_read reads"
  shows "rd_published (reader_main our topics psks reads)
    = session_output our topics psks (fst (drain frame_parse (read_bytes reads)))"
proof -
  obtain fs rest bad where d: "drain frame_parse (read_bytes reads) = (fs, rest, bad)"
    by (cases "drain frame_parse (read_bytes reads)") auto
  obtain auth opn pub where st: "session our topics psks fs (False, True, []) = (auth, opn, pub)"
    by (cases "session our topics psks fs (False, True, [])") auto
  have "rd_published (reader_main our topics psks reads) = pub"
    using reader_main_session [OF assms, of our topics psks] d st by (simp add: view_def)
  then show ?thesis
    using session_start [of our topics psks fs] d st by simp
qed

text \<open>C26: what a connection publishes depends on the bytes received, not on how the socket cut them
  into reads nor on time-outs in between: it is the session output of the frames decoded from the
  whole stream.\<close>

theorem reader_chunk_independent:
  assumes "list_all live_read reads"
  shows "rd_published (reader_main our topics psks reads)
    = session_output our topics psks (fst (drain frame_parse (read_bytes reads)))"
  using assms by (rule reader_chunks)

definition demo_stream :: bytes where
  "demo_stream = encode (peer_hello_with_psk 5 [107]) @ encode (frame_msg 5 0 [116] [42])"

theorem reader_chunk_independent_witness:
  "rd_published (reader_main 1 {[116]} {[107]} (map (\<lambda>b. ReadBytes [b]) demo_stream))
    = session_output 1 {[116]} {[107]} (fst (drain frame_parse demo_stream))"
proof -
  have "list_all live_read (map (\<lambda>b. ReadBytes [b]) demo_stream)"
    by (simp add: list_all_iff live_read_def)
  moreover have "read_bytes (map (\<lambda>b. ReadBytes [b]) bs) = bs" for bs
    by (induction bs) simp_all
  ultimately show ?thesis
    using reader_chunk_independent [of "map (\<lambda>b. ReadBytes [b]) demo_stream"] by simp
qed

text \<open>C25: authentication and loop prevention. Anything a connection publishes comes from a \<open>Msg\<close>
  frame after a first frame that was a \<open>PeerHello\<close> whose payload holds one of the accepted keys, does not
  carry our own origin, and is on a UTF-8 topic of the receive set.\<close>

theorem reader_only_authenticated:
  assumes "list_all live_read reads" "(t, p) \<in> set (rd_published (reader_main our topics psks reads))"
  shows "\<exists>h hello ms f. fst (drain frame_parse (read_bytes reads)) = h # ms
    \<and> f_type h = PeerHello \<and> parse_peer_hello (f_payload h) = Inr hello \<and> ph_psk hello \<in> psks \<and> f \<in> set ms \<and> f_type f = Msg \<and> f_origin_id f \<noteq> our
    \<and> f_topic f = t \<and> f_payload f = p \<and> t \<in> topics \<and> utf8_valid t"
proof -
  define fs where "fs = fst (drain frame_parse (read_bytes reads))"
  have out: "(t, p) \<in> set (session_output our topics psks fs)"
    using assms reader_chunks [OF assms(1)] by (simp add: fs_def)
  show ?thesis
  proof (cases fs)
    case Nil
    then show ?thesis
      using out by (simp add: session_output_def)
  next
    case (Cons h ms)
    then obtain f where f: "hello_accepted psks h" "f \<in> set ms" "(t, p) \<in> set (handle_frame our topics f)"
      using out by (auto simp: session_output_def split: if_splits)
    then obtain hello where "f_type h = PeerHello" "parse_peer_hello (f_payload h) = Inr hello" "ph_psk hello \<in> psks"
      by (auto simp: hello_accepted_def split: sum.splits)
    then show ?thesis
      using f(2,3) unfolding fs_def [symmetric] Cons
      by (intro exI [of _ h] exI [of _ hello] exI [of _ ms] exI [of _ f])
         (auto simp: handle_frame_def split: if_splits frame_type.splits)
  qed
qed

text \<open>C24: end to end over one connection. A peer that sends its hello with an accepted key of at
  most 65535 bytes and then message frames, in any chunks, gets exactly those messages published
  whose origin is not ours and whose topic we receive, in order.\<close>

theorem bridge_link_delivers:
  assumes "list_all live_read reads"
    and "read_bytes reads = encode (peer_hello_with_psk origin psk) @ concat (map encode ms)"
    and "psk \<in> psks" "length psk < 65536" "list_all frame_fits ms"
  shows "rd_published (reader_main our topics psks reads) = concat (map (handle_frame our topics) ms)
    \<and> rd_open (reader_main our topics psks reads)"
proof -
  let ?h = "peer_hello_with_psk origin psk"
  have fits: "frame_fits ?h"
    using assms(4) by (simp add: frame_fits_def encoded_len_def peer_hello_with_psk_def
        HEADER_LEN_def MAX_FRAME_LEN_def)
  have more: "frame_parse [] = More"
    by (simp add: frame_parse_def decode_def HEADER_LEN_def)
  have bytes: "read_bytes reads = concat (map encode (?h # ms)) @ []"
    using assms(2) by simp
  have drained: "drain frame_parse (read_bytes reads) = (?h # ms, [], False)"
    unfolding bytes by (rule frames.drain_encoded) (use fits assms(5) more in \<open>auto simp: list_all_iff\<close>)
  have "parse_peer_hello (f_payload ?h) = Inr \<lparr>ph_origin_id = origin, ph_psk = psk\<rparr>"
    using peer_hello_payload [of origin psk] assms(4) by simp
  then have "hello_accepted psks ?h"
    using assms(3) by (simp add: hello_accepted_def peer_hello_with_psk_def)
  then have "session our topics psks (?h # ms) (False, True, [])
      = (True, True, concat (map (handle_frame our topics) ms))"
    using session_auth [of our topics psks ms "[]"] by (simp add: session_def)
  then show ?thesis
    using reader_main_session [OF assms(1), of our topics psks] drained by (simp add: view_def)
qed

theorem bridge_link_delivers_witness:
  "rd_published (reader_main 1 {[116]} {[107]} [ReadBytes demo_stream]) = [([116], [42])]"
proof -
  have "demo_stream \<noteq> []"
    using frames.enc_pos [of "peer_hello_with_psk 5 [107]"] by (auto simp: demo_stream_def)
  then have "list_all live_read [ReadBytes demo_stream]"
    by (simp add: live_read_def)
  from bridge_link_delivers [OF this, of 5 "[107]" "[frame_msg 5 0 [116] [42]]" "{[107]}" 1 "{[116]}"]
  show ?thesis
    by (simp add: demo_stream_def frame_fits_def encoded_len_def HEADER_LEN_def MAX_FRAME_LEN_def
        frame_msg_def handle_frame_def)
qed

theorem reader_only_authenticated_witness:
  "\<exists>h ms f. fst (drain frame_parse demo_stream) = h # ms \<and> f \<in> set ms \<and> f_payload f = [42]"
proof -
  have ne: "demo_stream \<noteq> []"
    using frames.enc_pos [of "peer_hello_with_psk 5 [107]"] by (auto simp: demo_stream_def)
  then have live: "list_all live_read [ReadBytes demo_stream]"
    by (simp add: live_read_def)
  have "frame_fits (frame_msg 5 0 [116] [42])" "frame_fits (peer_hello_with_psk 5 [107])"
    by (simp_all add: frame_fits_def encoded_len_def HEADER_LEN_def MAX_FRAME_LEN_def frame_msg_def
        peer_hello_with_psk_def)
  moreover have "frame_parse [] = More"
    by (simp add: frame_parse_def decode_def HEADER_LEN_def)
  ultimately have "drain frame_parse demo_stream
      = ([peer_hello_with_psk 5 [107], frame_msg 5 0 [116] [42]], [], False)"
    using frames.drain_encoded [of "[peer_hello_with_psk 5 [107], frame_msg 5 0 [116] [42]]" "[]"]
    by (simp add: demo_stream_def)
  moreover have "hello_accepted {[107]} (peer_hello_with_psk 5 [107])"
    using peer_hello_payload [of 5 "[107]"] by (simp add: hello_accepted_def) (simp add: peer_hello_with_psk_def)
  ultimately have "([116], [42]) \<in> set (rd_published (reader_main 1 {[116]} {[107]} [ReadBytes demo_stream]))"
    using reader_chunks [OF live, of 1 "{[116]}" "{[107]}"]
    by (simp add: session_output_def handle_frame_def frame_msg_def)
  from reader_only_authenticated [OF live this] show ?thesis
    by auto
qed

subsection \<open>Properties of the forward side\<close>

lemma forward_message_queues:
  "snd (forward_message origin topic (seq, qs) p) =
    map (\<lambda>q. snd (send (encode (frame_msg origin seq topic p)) q)) qs"
  "fst (forward_message origin topic (seq, qs) p) = seq + 1"
  by (simp_all add: forward_message_def Let_def)

fun encoded_run :: "u64 \<Rightarrow> bytes \<Rightarrow> u64 \<Rightarrow> bytes list \<Rightarrow> bytes list" where
  "encoded_run origin topic seq [] = []"
| "encoded_run origin topic seq (p # ps) =
    encode (frame_msg origin seq topic p) # encoded_run origin topic (seq + 1) ps"

fun received :: "sub_event list \<Rightarrow> bytes list" where
  "received [] = []"
| "received (Received p # es) = p # received es"
| "received (RecvTimedOut # es) = received es"
| "received (_ # es) = []"

fun stopped :: "sub_event list \<Rightarrow> bool" where
  "stopped [] = True"
| "stopped (Received p # es) = stopped es"
| "stopped (RecvTimedOut # es) = stopped es"
| "stopped (RecvFailed # es) = False"
| "stopped (SubShutdown # es) = True"

fun all_received :: "sub_session list \<Rightarrow> bytes list" where
  "all_received [] = []"
| "all_received (SubscribeFailed # ss) = all_received ss"
| "all_received (Subscribed es # ss) =
    received es @ (if stopped es then [] else all_received ss)"

lemma length_encoded_run: "length (encoded_run origin topic seq ps) = length ps"
  by (induction ps arbitrary: seq) simp_all

lemma encoded_run_append:
  "encoded_run origin topic seq (ps @ qs) =
    encoded_run origin topic seq ps @ encoded_run origin topic (seq + of_nat (length ps)) qs"
  by (induction ps arbitrary: seq) (simp_all add: algebra_simps)

lemma subscriber_loop_queues:
  "subscriber_loop origin topic es (seq, qs) = (stopped es, seq + of_nat (length (received es)),
     map (\<lambda>q. foldl (\<lambda>q x. snd (send x q)) q (encoded_run origin topic seq (received es))) qs)"
  by (induction es arbitrary: seq qs rule: stopped.induct)
     (simp_all add: forward_message_def Let_def comp_def algebra_simps)

lemma subscriber_main_queues:
  "snd (subscriber_main origin topic ss (seq, qs)) =
    map (\<lambda>q. foldl (\<lambda>q x. snd (send x q)) q (encoded_run origin topic seq (all_received ss))) qs"
proof (induction ss arbitrary: seq qs rule: all_received.induct)
  case (3 es ss)
  then show ?case
    using subscriber_loop_queues [of origin topic es seq qs] by (simp add: encoded_run_append comp_def)
qed simp_all

text \<open>Fan-out. After any number of subscriptions to a topic every peer's queue holds the newest
  \<open>peer_buffer_max\<close> of the frames of all messages received, encoded with consecutive
  \<open>origin_seq\<close> that go on over a reconnect; no peer's queue depends on another's.\<close>

theorem fan_out:
  assumes "channel cap = Some q"
  shows "\<forall>q' \<in> set (snd (subscriber_main origin topic sessions (0, replicate n q))).
    q_items (q_inner q') =
      drop (length (all_received sessions) - cap) (encoded_run origin topic 0 (all_received sessions))"
proof -
  have "queue_ok q" "q_items (q_inner q) = []" "q_capacity q = cap"
    using channel_ok [OF assms] by auto
  then show ?thesis
    using dq.push_all [of q "encoded_run origin topic 0 (all_received sessions)"]
    by (simp add: subscriber_main_queues length_encoded_run)
qed

theorem fan_out_witness:
  "q_items (q_inner (hd (snd (subscriber_main 3 [116]
      [Subscribed [Received [1], RecvFailed], SubscribeFailed, Subscribed [RecvTimedOut, Received [2]]]
      (0, replicate 2 (the (channel 1))))))) = [encode (frame_msg 3 1 [116] [2])]"
proof -
  let ?ss = "[Subscribed [Received [1], RecvFailed], SubscribeFailed, Subscribed [RecvTimedOut, Received [2]]]"
  let ?qs = "snd (subscriber_main 3 [116] ?ss (0, replicate 2 (the (channel 1))))"
  have "channel 1 = Some (the (channel 1))"
    by (simp add: channel_def)
  note fan_out [OF this, of 3 "[116]" ?ss 2]
  moreover have "hd ?qs \<in> set ?qs"
    unfolding subscriber_main_queues by (rule hd_in_set) simp
  ultimately show ?thesis
    by (simp add: frame_msg_def)
qed

fun dequeued :: "pump_event list \<Rightarrow> bytes list" where
  "dequeued [] = []"
| "dequeued (Dequeued b w # es) = b # dequeued es"
| "dequeued (_ # es) = dequeued es"

fun session_frames :: "bytes \<Rightarrow> attempt list \<Rightarrow> bytes list" where
  "session_frames hello [] = []"
| "session_frames hello (ConnectFailed # as) = session_frames hello as"
| "session_frames hello (Connected w es # as) = (hello @ concat (dequeued es)) # session_frames hello as"

lemma run_connection_prefix: "prefix (fst (run_connection hello w es)) (hello @ concat (dequeued es))"
proof -
  have "prefix (fst (pump es wire)) (wire @ concat (dequeued es))" for wire
  proof (induction es wire rule: pump.induct)
    case (4 b n es wire)
    have "prefix (take n b) (b @ concat (dequeued es))"
      by (metis prefix_prefix take_is_prefix)
    then show ?case
      by simp
  qed auto
  moreover have "prefix (take n hello) (hello @ concat (dequeued es))" for n
    by (metis prefix_prefix take_is_prefix)
  ultimately show ?thesis
    by (auto simp: run_connection_def split: write_result.splits)
qed

lemma forwarder_main_prefix:
  "list_all2 prefix (fst (forwarder_main hello b as)) (session_frames hello as)"
  by (induction hello b as rule: forwarder_main.induct) (auto simp: run_connection_prefix split: prod.splits)

lemma sleep_steps_sum: "sum_list (sleep_steps d (replicate (d div 50 + 1) False)) = d"
proof (induction d rule: less_induct)
  case (less d)
  show ?case
  proof (cases "d \<le> 50")
    case True
    then show ?thesis
      by (cases "d = 0") (simp_all add: sleep_steps.simps)
  next
    case False
    then have "d div 50 = Suc ((d - 50) div 50)"
      by (simp add: le_div_geq)
    then show ?thesis
      using less [of "d - 50"] False
      by (subst sleep_steps.simps) (simp add: Let_def)
  qed
qed

text \<open>What a forwarder puts on the wire of each connection is the hello followed by the dequeued
  frames in order, except that a failed write ends the session inside one frame; so every
  receiver's stream is a prefix of a well-formed stream that starts with a hello.\<close>

theorem forwarder_wire_prefix:
  "list_all2 prefix (fst (forwarder ok hello as)) (if ok then session_frames hello as else [])"
  by (simp add: forwarder_def forwarder_main_prefix)

text \<open>The reconnect delay of a forwarder stays between 50 ms and 1 s whatever the sequence of
  failures and successes; sleeping it in steps of 50 ms sleeps exactly that long unless shutdown
  is seen.\<close>

theorem backoff_bounded:
  "list_all (\<lambda>d. 50 \<le> d \<and> d \<le> 1000) (snd (forwarder ok hello as))
    \<and> (\<forall>d. sum_list (sleep_steps d (replicate (d div 50 + 1) False)) = d)"
proof -
  have "\<forall>d \<in> set (snd (forwarder_main hello b as)). 50 \<le> d \<and> d \<le> 1000" if "50 \<le> b" "b \<le> 1000" for b
    using that by (induction hello b as rule: forwarder_main.induct) (auto split: prod.splits)
  from this [of 50] show ?thesis
    unfolding forwarder_def list_all_iff using sleep_steps_sum by (intro conjI allI) auto
qed

subsection \<open>Several bridges\<close>

text \<open>What becomes of a frame at a bridge that both receives and forwards: the reader publishes it
  locally, the subscriber thread of the topic receives it from the bus and encodes it again.\<close>

definition bridge_hop :: "u64 \<Rightarrow> bytes set \<Rightarrow> bytes set \<Rightarrow> u64 \<Rightarrow> frame \<Rightarrow> frame option" where
  "bridge_hop our receive_topics forward_topics seq f =
    (case handle_frame our receive_topics f of
       (t, p) # _ \<Rightarrow> if t \<in> forward_topics then Some (frame_msg our seq t p) else None
     | [] \<Rightarrow> None)"

fun hops :: "(u64 \<times> bytes set \<times> bytes set) list \<Rightarrow> u64 \<Rightarrow> frame \<Rightarrow> frame option" where
  "hops [] seq f = Some f"
| "hops ((our, rs, fs) # bs) seq f = (case bridge_hop our rs fs seq f of
      None \<Rightarrow> None | Some g \<Rightarrow> hops bs (seq + 1) g)"

text \<open>The loop check does not stop a loop. Each bridge stamps its own \<open>origin_id\<close> on what it
  forwards, so a message survives any walk through bridges that receive and forward its topic, as
  long as no bridge sends to itself; two such bridges echo it for ever.\<close>

theorem origin_check_does_not_stop_loops:
  assumes "f_type f = Msg" "utf8_valid (f_topic f)"
    and "\<forall>(our, rs, fs) \<in> set bs. f_topic f \<in> rs \<and> f_topic f \<in> fs"
    and "successively (\<noteq>) (f_origin_id f # map fst bs)"
  shows "\<exists>g. hops bs seq f = Some g \<and> f_type g = Msg \<and> f_topic g = f_topic f \<and> f_payload g = f_payload f"
  using assms
proof (induction bs arbitrary: f seq)
  case Nil
  then show ?case by simp
next
  case (Cons b bs)
  obtain our rs fs where b: "b = (our, rs, fs)"
    by (cases b) auto
  let ?g = "frame_msg our seq (f_topic f) (f_payload f)"
  have "bridge_hop our rs fs seq f = Some ?g"
    using Cons.prems by (simp add: bridge_hop_def handle_frame_def b)
  moreover have "successively (\<noteq>) (f_origin_id ?g # map fst bs)"
    using Cons.prems(4) by (cases bs) (auto simp: b frame_msg_def)
  then obtain h where "hops bs (seq + 1) ?g = Some h" "f_type h = Msg" "f_topic h = f_topic f"
      "f_payload h = f_payload f"
    using Cons.IH [of ?g "seq + 1"] Cons.prems by (auto simp: b frame_msg_def)
  ultimately show ?case
    by (simp add: b)
qed

theorem origin_check_does_not_stop_loops_witness:
  "\<exists>g. hops [(2, {[116]}, {[116]}), (1, {[116]}, {[116]}), (2, {[116]}, {[116]}), (1, {[116]}, {[116]})] 0
      (frame_msg 1 0 [116] [9]) = Some g \<and> f_payload g = [9]"
proof -
  let ?bs = "[(2, {[116]}, {[116]}), (1, {[116]}, {[116]}), (2, {[116]}, {[116]}), (1, {[116]}, {[116]})]
    :: (u64 \<times> bytes set \<times> bytes set) list"
  let ?f = "frame_msg 1 0 [116] [9]"
  have f: "f_type ?f = Msg" "f_topic ?f = [116]" "f_payload ?f = [9]" "f_origin_id ?f = 1"
    by (simp_all add: frame_msg_def)
  have "utf8_valid (f_topic ?f)" "\<forall>(our, rs, fs) \<in> set ?bs. f_topic ?f \<in> rs \<and> f_topic ?f \<in> fs"
    "successively (\<noteq>) (f_origin_id ?f # map fst ?bs)"
    by (simp_all add: f)
  from origin_check_does_not_stop_loops [OF f(1) this, of 0] show ?thesis
    unfolding f by blast
qed

subsection \<open>Starting\<close>

lemma start_peer_None:
  "peer_ok p \<Longrightarrow> start_peer o' cap p = None \<longleftrightarrow> cap = 0"
  by (auto simp: start_peer_def peer_ok_def channel_def)

lemma start_peers_None:
  "list_all peer_ok ps \<Longrightarrow> start_peers o' cap ps = None \<longleftrightarrow> ps \<noteq> [] \<and> cap = 0"
proof (induction ps)
  case Nil
  then show ?case by simp
next
  case (Cons p ps)
  then show ?case
    using start_peer_None [of p o' cap] by (cases "start_peer o' cap p") (auto split: option.splits)
qed

text \<open>Starting a bridge from a validated configuration panics exactly when there is a peer and
  \<open>peer_buffer_max\<close> is 0, a value that validation lets through.\<close>

theorem start_panics_iff:
  assumes "(validate cfg :: 'e config_error + unit) = Inr ()" "se_quic_feature env" "se_quic_ready env"
  shows "bridge_start env cfg = None \<longleftrightarrow> bc_peers cfg \<noteq> [] \<and> bc_peer_buffer_max cfg = 0"
proof -
  define o' where "o' = (case bc_origin_id cfg of
    None \<Rightarrow> random_origin_id (se_nanos env) (se_pid env) | Some o' \<Rightarrow> o')"
  have ok: "list_all peer_ok (bc_peers cfg)"
    using assms(1) validate_peers_iff [of "bc_peers cfg", where 'e = 'e]
    by (auto simp: validate_def split: sum.splits if_splits)
  have "bridge_start env cfg = None
      \<longleftrightarrow> start_peers o' (bc_peer_buffer_max cfg) (bc_peers cfg) = None"
    using assms(2,3)
    by (cases "start_peers o' (bc_peer_buffer_max cfg) (bc_peers cfg)")
       (simp_all add: bridge_start_def Let_def o'_def split: sum.splits)
  then show ?thesis
    using start_peers_None [OF ok] by simp
qed

definition demo_config :: bridge_config where
  "demo_config = \<lparr>bc_bus = [98], bc_base_dir = None, bc_origin_id = Some 1, bc_listen = None,
     bc_peer_buffer_max = 0, bc_listen_quic = None, bc_quic_cert_path = None,
     bc_quic_key_path = None, bc_quic_worker_threads = 2, bc_topics = [],
     bc_peers = [\<lparr>pc_name = [97], pc_endpoint = [97, 58, 49], pc_preshared_key = [107],
                  pc_transport = Tcp, pc_fingerprint = None\<rparr>]\<rparr>"

definition demo_env :: start_env where
  "demo_env = \<lparr>se_quic_feature = True, se_nanos = 0, se_pid = 0, se_quic_ready = True,
     se_bind = (\<lambda>_. True), se_bind_quic = (\<lambda>_. True)\<rparr>"

theorem start_panics_iff_witness: "bridge_start demo_env demo_config = None"
proof -
  have "(validate demo_config :: unit config_error + unit) = Inr ()"
    by (simp add: validate_def demo_config_def validate_peer_def is_quic_def)
  from start_panics_iff [OF this, of demo_env] show ?thesis
    by (simp add: demo_config_def demo_env_def)
qed

end
