(* ===== verification/Wal_Record.thy ===== *)
theory Wal_Record
  imports Stream_Codec
begin

text \<open>
  The on-disk records and segment header of the write-ahead log,
  \<open>crates/mmbus/src/wal/record.rs\<close>, and the reader of one record in
  \<open>crates/mmbus/src/wal/segment_reader.rs\<close>. The checksum is the function of the crate
  \<open>crc32c\<close>, a parameter \<open>crc\<close> of every definition that uses it; none of the results depends on
  which function it is. Records are an interpretation of \<open>stream_codec\<close>.
\<close>

subsection \<open>Records (record.rs, lines 8--83)\<close>

definition SEGMENT_MAGIC :: u64 where "SEGMENT_MAGIC = 0x6D6D62757357414C"
definition SEGMENT_VERSION :: u32 where "SEGMENT_VERSION = 1"
definition SEGMENT_HEADER_LEN :: nat where "SEGMENT_HEADER_LEN = 32"
definition RECORD_FRAMING :: nat where "RECORD_FRAMING = 28"
definition MAX_RECORD_LEN :: nat where "MAX_RECORD_LEN = 16 * 1024 * 1024"
definition MAX_PAYLOAD_LEN :: nat where "MAX_PAYLOAD_LEN = MAX_RECORD_LEN - RECORD_FRAMING"

lemmas wal_consts = SEGMENT_HEADER_LEN_def RECORD_FRAMING_def MAX_RECORD_LEN_def MAX_PAYLOAD_LEN_def

record wal_record =
  r_cursor :: u64
  r_ts :: u64
  r_payload :: bytes

definition record_encoded_len :: "wal_record \<Rightarrow> nat" where
  "record_encoded_len r = RECORD_FRAMING + length (r_payload r)"

definition encode_record_into :: "(bytes \<Rightarrow> u32) \<Rightarrow> bytes \<Rightarrow> u64 \<Rightarrow> u64 \<Rightarrow> bytes \<Rightarrow> bytes" where
  "encode_record_into crc out cursor ts payload =
    (let record_len = of_nat (RECORD_FRAMING + length payload) :: u32;
         body = u64_le cursor @ u64_le ts @ u32_le (of_nat (length payload)) @ payload
     in out @ u32_le record_len @ body @ u32_le (crc body))"

definition encode_record :: "(bytes \<Rightarrow> u32) \<Rightarrow> wal_record \<Rightarrow> bytes" where
  "encode_record crc r = encode_record_into crc [] (r_cursor r) (r_ts r) (r_payload r)"

subsection \<open>Segment header (record.rs, lines 85--141)\<close>

definition encode_segment_header :: "u64 \<Rightarrow> u64 \<Rightarrow> bytes" where
  "encode_segment_header created first_cursor =
    u64_le SEGMENT_MAGIC @ u32_le SEGMENT_VERSION @ [0, 0, 0, 0] @ u64_le first_cursor @ u64_le created"

record segment_header =
  h_first_cursor :: u64
  h_created :: u64

datatype header_error = BadMagic u64 | HeaderVersion u32 | HeaderTruncated nat

definition parse_header :: "bytes \<Rightarrow> header_error + segment_header" where
  "parse_header b =
    (if length b < SEGMENT_HEADER_LEN then Inl (HeaderTruncated (length b))
     else if rd64 b 0 \<noteq> SEGMENT_MAGIC then Inl (BadMagic (rd64 b 0))
     else if rd32 b 8 \<noteq> SEGMENT_VERSION then Inl (HeaderVersion (rd32 b 8))
     else Inr \<lparr>h_first_cursor = rd64 b 16, h_created = rd64 b 24\<rparr>)"

lemma length_header [simp]: "length (encode_segment_header created c) = 32"
  by (simp add: encode_segment_header_def)

lemma parse_encode_header:
  "parse_header (encode_segment_header created c @ rest) = Inr \<lparr>h_first_cursor = c, h_created = created\<rparr>"
  by (simp add: parse_header_def wal_consts encode_segment_header_def rd64_def rd32_def sub_def)

subsection \<open>Reading one record (segment\_reader.rs, lines 25--55, 165--241)\<close>

datatype io_error = IoNotFound | IoAlreadyExists | IoUnexpectedEof | IoDevice
  | IoWouldBlock | IoTimedOut | IoConnectionReset | IoInvalidData

datatype reader_error =
    ReaderIo io_error
  | ReaderHeader header_error
  | OversizeRecord nat
  | CrcMismatch nat u32 u32
  | ShortRead nat nat

text \<open>\<open>content\<close> is the file as it is now, \<open>file_len\<close> its length when it was opened; \<open>read_exact\<close>
  past the end of the file is an I/O error.\<close>

definition read_one_record ::
    "(bytes \<Rightarrow> u32) \<Rightarrow> bytes \<Rightarrow> nat \<Rightarrow> nat \<Rightarrow> reader_error + (wal_record \<times> nat) option" where
  "read_one_record crc content pos file_len =
    (let remaining = file_len - pos in
     if remaining = 0 then Inr None
     else if remaining < 4 then Inl (ShortRead pos (4 - remaining))
     else if length content < pos + 4 then Inl (ReaderIo IoUnexpectedEof)
     else
       let record_len = unat (rd32 content pos) in
       if record_len > MAX_RECORD_LEN then Inl (OversizeRecord record_len)
       else if record_len < RECORD_FRAMING then Inl (OversizeRecord record_len)
       else
         let total_after_len = record_len - 4;
             remaining_after_len = remaining - 4
         in if remaining_after_len < total_after_len
            then Inl (ShortRead pos (total_after_len - remaining_after_len))
            else if length content < pos + 4 + total_after_len then Inl (ReaderIo IoUnexpectedEof)
            else
              let body_and_crc = sub content (pos + 4) total_after_len;
                  body_len = total_after_len - 4;
                  body = take body_len body_and_crc;
                  stored_crc = le_u32 (drop body_len body_and_crc);
                  computed_crc = crc body
              in if stored_crc \<noteq> computed_crc then Inl (CrcMismatch pos stored_crc computed_crc)
                 else
                   let cursor = rd64 body 0;
                       ts = rd64 body 8;
                       payload_len = unat (rd32 body 16)
                   in if payload_len + RECORD_FRAMING \<noteq> record_len
                      then Inl (OversizeRecord record_len)
                      else Inr (Some (\<lparr>r_cursor = cursor, r_ts = ts,
                                       r_payload = sub body 20 payload_len\<rparr>, record_len)))"

subsection \<open>Records as a stream\<close>

definition record_ok :: "wal_record \<Rightarrow> bool" where
  "record_ok r \<longleftrightarrow> length (r_payload r) \<le> MAX_PAYLOAD_LEN"

definition record_body :: "wal_record \<Rightarrow> bytes" where
  "record_body r = u64_le (r_cursor r) @ u64_le (r_ts r) @ u32_le (of_nat (length (r_payload r))) @ r_payload r"

lemma encode_record_eq:
  "encode_record crc r =
    u32_le (of_nat (28 + length (r_payload r))) @ record_body r @ u32_le (crc (record_body r))"
  by (simp add: encode_record_def encode_record_into_def record_body_def Let_def wal_consts)

lemma length_body: "length (record_body r) = 20 + length (r_payload r)"
  by (simp add: record_body_def)

lemma length_encode_record: "length (encode_record crc r) = 28 + length (r_payload r)"
  by (simp add: encode_record_eq length_body)

lemma body_fields:
  "rd64 (record_body r) 0 = r_cursor r" "rd64 (record_body r) 8 = r_ts r"
  "rd32 (record_body r) 16 = of_nat (length (r_payload r))"
  "sub (record_body r) 20 (length (r_payload r)) = r_payload r"
  by (simp_all add: record_body_def rd64_def rd32_def sub_def)

lemma record_ok_lengths:
  assumes "record_ok r"
  shows "unat (of_nat (28 + length (r_payload r)) :: u32) = 28 + length (r_payload r)"
    and "unat (of_nat (length (r_payload r)) :: u32) = length (r_payload r)"
    and "28 + length (r_payload r) \<le> MAX_RECORD_LEN"
proof -
  have *: "length (r_payload r) \<le> 16777188"
    using assms by (simp add: record_ok_def wal_consts)
  show "unat (of_nat (28 + length (r_payload r)) :: u32) = 28 + length (r_payload r)"
    "unat (of_nat (length (r_payload r)) :: u32) = length (r_payload r)"
    by (rule unat_of_nat_u32, use * in simp)+
  show "28 + length (r_payload r) \<le> MAX_RECORD_LEN"
    using * by (simp add: wal_consts)
qed

text \<open>The decoder of the stream: a short read asks for more, any other failure is malformed.\<close>

definition record_view :: "reader_error + (wal_record \<times> nat) option \<Rightarrow> wal_record parse" where
  "record_view res = (case res of
      Inr None \<Rightarrow> More
    | Inr (Some (r, n)) \<Rightarrow> Parsed r n
    | Inl (ShortRead _ _) \<Rightarrow> More
    | Inl _ \<Rightarrow> Malformed)"

definition record_parse :: "(bytes \<Rightarrow> u32) \<Rightarrow> bytes \<Rightarrow> wal_record parse" where
  "record_parse crc b = record_view (read_one_record crc b 0 (length b))"

lemma record_parse_full:
  assumes "4 \<le> length b" "unat (rd32 b 0) \<le> MAX_RECORD_LEN" "28 \<le> unat (rd32 b 0)"
    "unat (rd32 b 0) \<le> length b"
  shows "record_parse crc b =
    (if length b < 4 then More
     else let rl = unat (rd32 b 0) in
       if rl > MAX_RECORD_LEN \<or> rl < 28 then Malformed
       else if length b < rl then More
       else if le_u32 (sub b (rl - 4) 4) \<noteq> crc (sub b 4 (rl - 8)) then Malformed
       else if unat (rd32 b 20) + 28 \<noteq> rl then Malformed
       else Parsed \<lparr>r_cursor = rd64 b 4, r_ts = rd64 b 12, r_payload = sub b 24 (rl - 28)\<rparr> rl)"
proof -
  define rl where "rl = unat (rd32 b 0)"
  have rl: "28 \<le> rl" "rl \<le> length b" "rl \<le> MAX_RECORD_LEN" "4 \<le> length b"
    using assms by (auto simp: rl_def)
  define bc where "bc = sub b 4 (rl - 4)"
  have s: "take (rl - 8) bc = sub b 4 (rl - 8)" "drop (rl - 8) bc = sub b (rl - 4) 4"
    using rl by (auto simp: bc_def sub_def min_def drop_take add.commute)
  have f: "rd64 (sub b 4 (rl - 8)) 0 = rd64 b 4" "rd64 (sub b 4 (rl - 8)) 8 = rd64 b 12"
    "rd32 (sub b 4 (rl - 8)) 16 = rd32 b 20"
    "sub (sub b 4 (rl - 8)) 20 (rl - 28) = sub b 24 (rl - 28)"
    using rl by (auto simp: rd64_def rd32_def sub_def drop_take min_def add.commute)
  have m: "rl - 4 - 4 = rl - 8"
    by simp
  show ?thesis
    using rl unfolding record_parse_def read_one_record_def Let_def rl_def [symmetric]
      RECORD_FRAMING_def add_0 bc_def [symmetric] m s f
    by (auto simp: record_view_def sub_sub)
qed

lemma record_parse_cases:
  "record_parse crc b =
    (if length b < 4 then More
     else let rl = unat (rd32 b 0) in
       if rl > MAX_RECORD_LEN \<or> rl < 28 then Malformed
       else if length b < rl then More
       else if le_u32 (sub b (rl - 4) 4) \<noteq> crc (sub b 4 (rl - 8)) then Malformed
       else if unat (rd32 b 20) + 28 \<noteq> rl then Malformed
       else Parsed \<lparr>r_cursor = rd64 b 4, r_ts = rd64 b 12, r_payload = sub b 24 (rl - 28)\<rparr> rl)"
proof -
  define rl where "rl = unat (rd32 b 0)"
  consider (short) "length b < 4" | (big) "4 \<le> length b" "rl > MAX_RECORD_LEN"
    | (small) "4 \<le> length b" "rl \<le> MAX_RECORD_LEN" "rl < 28"
    | (partial) "4 \<le> length b" "rl \<le> MAX_RECORD_LEN" "28 \<le> rl" "length b < rl"
    | (full) "4 \<le> length b" "rl \<le> MAX_RECORD_LEN" "28 \<le> rl" "rl \<le> length b"
    by linarith
  then show ?thesis
  proof cases
    case short
    then show ?thesis
      by (cases "b = []") (simp_all add: record_parse_def read_one_record_def record_view_def)
  next
    case big
    then show ?thesis
      unfolding record_parse_def read_one_record_def Let_def rl_def [symmetric]
      by (auto simp: record_view_def)
  next
    case small
    then show ?thesis
      unfolding record_parse_def read_one_record_def Let_def rl_def [symmetric] RECORD_FRAMING_def
      by (auto simp: record_view_def)
  next
    case partial
    then show ?thesis
      unfolding record_parse_def read_one_record_def Let_def rl_def [symmetric] RECORD_FRAMING_def
      by (auto simp: record_view_def)
  next
    case full
    then show ?thesis
      unfolding rl_def by (rule record_parse_full)
  qed
qed

lemma record_view_shift:
  assumes "pos \<le> length content"
  shows "record_view (read_one_record crc content pos (length content)) = record_parse crc (drop pos content)"
proof -
  have r: "rd32 content pos = rd32 (drop pos content) 0"
    by (simp add: rd32_def sub_def)
  have s: "sub content (pos + 4) n = sub (drop pos content) 4 n" for n
    by (simp add: sub_def add.commute)
  have c: "length content < pos + k \<longleftrightarrow> length (drop pos content) < k" for k
    using assms by auto
  show ?thesis
    unfolding record_parse_def read_one_record_def Let_def r s c add.assoc
    by (simp add: record_view_def split: if_splits)
qed

lemma record_parse_encode:
  assumes "record_ok r"
  shows "record_parse crc (encode_record crc r @ rest) = Parsed r (length (encode_record crc r))"
proof -
  let ?b = "encode_record crc r @ rest" and ?n = "length (r_payload r)"
  note L = record_ok_lengths [OF assms]
  have rl: "rd32 ?b 0 = of_nat (28 + ?n)"
    by (simp only: encode_record_eq rd32_def) (simp add: sub_def del: of_nat_add)
  have body: "sub ?b 4 (20 + ?n) = record_body r" "sub ?b (24 + ?n) 4 = u32_le (crc (record_body r))"
    by (simp_all add: encode_record_eq sub_def length_body drop_append)
  have f: "rd64 ?b 4 = r_cursor r" "rd64 ?b 12 = r_ts r" "rd32 ?b 20 = of_nat ?n" "sub ?b 24 ?n = r_payload r"
    by (simp_all add: encode_record_eq rd64_def rd32_def record_body_def sub_def)
  have len: "length ?b = 28 + ?n + length rest"
    by (simp add: length_encode_record)
  show ?thesis
    unfolding record_parse_cases Let_def rl L(1) len f L(2)
    using L(3) body f(4) by (simp add: length_encode_record)
qed

lemma record_parse_prefix:
  assumes "record_ok r" "strict_prefix p (encode_record crc r)"
  shows "record_parse crc p = More"
proof -
  have len: "length p < 28 + length (r_payload r)"
    using prefix_length_less [OF assms(2)] by (simp add: length_encode_record)
  have "rd32 p 0 = of_nat (28 + length (r_payload r))" if "4 \<le> length p"
  proof -
    obtain q where "encode_record crc r = p @ q"
      using assms(2) by (auto simp: strict_prefix_def prefix_def)
    then have "sub p 0 4 = sub (encode_record crc r) 0 4"
      using that by (simp add: sub_append_left)
    then show ?thesis
      by (simp add: rd32_def encode_record_eq sub_def del: of_nat_add)
  qed
  then show ?thesis
    using len record_ok_lengths [OF assms(1)]
    by (auto simp: record_parse_cases Let_def)
qed

lemma record_parse_ParsedD:
  assumes "record_parse crc b = Parsed r n"
  shows "0 < n" and "n \<le> length b" and "record_ok r" and "take n b = encode_record crc r"
    and "n = length (encode_record crc r)"
proof -
  let ?rl = "unat (rd32 b 0)"
  have d: "4 \<le> length b" "?rl \<le> MAX_RECORD_LEN" "28 \<le> ?rl" "?rl \<le> length b"
      "le_u32 (sub b (?rl - 4) 4) = crc (sub b 4 (?rl - 8))" "unat (rd32 b 20) + 28 = ?rl"
      "r = \<lparr>r_cursor = rd64 b 4, r_ts = rd64 b 12, r_payload = sub b 24 (?rl - 28)\<rparr>" "n = ?rl"
    using assms by (auto simp: record_parse_cases Let_def split: if_splits)
  have pl: "length (r_payload r) = ?rl - 28"
    using d(3,4) by (simp add: d(7) length_sub fits_def)
  show "0 < n" "n \<le> length b" "record_ok r" "n = length (encode_record crc r)"
    using d pl by (simp_all add: record_ok_def wal_consts length_encode_record)
  have w: "u32_le (of_nat ?rl) = sub b 0 4" "u64_le (rd64 b 4) = sub b 4 8" "u64_le (rd64 b 12) = sub b 12 8"
    using d(1,3,4) by (simp_all add: rd32_def rd64_def u32_le_le_u32 u64_le_le_u64 length_sub fits_def)
  have "of_nat (?rl - 28) = rd32 b 20"
    using d(6) by (metis add_diff_cancel_right' of_nat_unat ucast_id unsigned_of_nat word_unat_eq_iff unat_of_nat_eq unat_lt2p)
  then have pw: "u32_le (of_nat (?rl - 28)) = sub b 20 4"
    using d(3,4) by (simp add: rd32_def u32_le_le_u32 length_sub fits_def)
  have "record_body r = sub b 4 8 @ sub b (4 + 8) 8 @ sub b (4 + 8 + 8) 4 @ sub b (4 + 8 + 8 + 4) (?rl - 28)"
    unfolding record_body_def pl pw using w by (simp add: d(7))
  also have "\<dots> = sub b 4 (8 + (8 + (4 + (?rl - 28))))"
    unfolding sub_split ..
  finally have body: "record_body r = sub b 4 (?rl - 8)"
    using d(3) by simp
  have crc: "u32_le (crc (record_body r)) = sub b (?rl - 4) 4"
    using d(3,4,5) by (simp add: body u32_le_le_u32 length_sub fits_def flip: d(5))
  have "encode_record crc r = sub b 0 4 @ sub b (0 + 4) (?rl - 8) @ sub b (0 + 4 + (?rl - 8)) 4"
    unfolding encode_record_eq crc pl using d(3) by (simp add: body w(1) flip: w(1))
  also have "\<dots> = sub b 0 (4 + ((?rl - 8) + 4))"
    unfolding sub_split ..
  finally show "take n b = encode_record crc r"
    using d(3,8) by (simp add: sub_def)
qed

lemma record_parse_Malformed:
  assumes "record_parse crc b = Malformed"
  shows "record_parse crc (b @ c) = Malformed"
proof -
  let ?rl = "unat (rd32 b 0)"
  have 4: "4 \<le> length b"
    using assms by (auto simp: record_parse_cases split: if_splits)
  then have r0: "rd32 (b @ c) 0 = rd32 b 0"
    by (simp add: rd32_def sub_append_left)
  show ?thesis
  proof (cases "?rl > MAX_RECORD_LEN \<or> ?rl < 28")
    case True
    then show ?thesis
      using 4 r0 by (simp add: record_parse_cases Let_def)
  next
    case False
    then have rl: "28 \<le> ?rl" "?rl \<le> length b"
      using assms 4 by (auto simp: record_parse_cases Let_def split: if_splits)
    have s: "sub (b @ c) (?rl - 4) 4 = sub b (?rl - 4) 4" "sub (b @ c) 4 (?rl - 8) = sub b 4 (?rl - 8)"
      "rd32 (b @ c) 20 = rd32 b 20"
      using rl by (simp_all add: rd32_def sub_append_left)
    show ?thesis
      using assms 4 rl False by (auto simp: record_parse_cases Let_def r0 s split: if_splits)
  qed
qed

interpretation wal_records: stream_codec "encode_record crc" "record_parse crc" record_ok for crc
proof
  show "record_parse crc (encode_record crc x @ rest) = Parsed x (length (encode_record crc x))"
    if "record_ok x" for x rest
    using that by (rule record_parse_encode)
  show "record_parse crc p = More" if "record_ok x" "strict_prefix p (encode_record crc x)" for x p
    using that by (rule record_parse_prefix)
  show "record_parse crc (b @ c) = Parsed x n" if p: "record_parse crc b = Parsed x n" for b x n c
  proof -
    note D = record_parse_ParsedD [OF p]
    have "b @ c = encode_record crc x @ (drop n b @ c)"
      by (metis D(4) append.assoc append_take_drop_id)
    then show ?thesis
      using record_parse_encode [OF D(3)] D(5) by metis
  qed
  show "record_parse crc (b @ c) = Malformed" if "record_parse crc b = Malformed" for b c
    using that by (rule record_parse_Malformed)
  show "0 < n \<and> n \<le> length b" if "record_parse crc b = Parsed x n" for b x n
    using record_parse_ParsedD(1,2) [OF that] by simp
  show "0 < length (encode_record crc x)" for x
    by (simp add: length_encode_record)
qed

text \<open>The records found at the start of a body, and what is left after them.\<close>

definition body_records :: "(bytes \<Rightarrow> u32) \<Rightarrow> bytes \<Rightarrow> wal_record list" where
  "body_records crc b = fst (drain (record_parse crc) b)"

definition body_rest :: "(bytes \<Rightarrow> u32) \<Rightarrow> bytes \<Rightarrow> bytes" where
  "body_rest crc b = fst (snd (drain (record_parse crc) b))"

lemma body_split: "b = concat (map (encode_record crc) (body_records crc b)) @ body_rest crc b"
proof (induction "length b" arbitrary: b rule: less_induct)
  case less
  show ?case
  proof (cases "record_parse crc b")
    case (Parsed r n)
    note D = record_parse_ParsedD [OF Parsed]
    have eq: "body_records crc b = r # body_records crc (drop n b)"
      "body_rest crc b = body_rest crc (drop n b)"
      by (simp_all add: body_records_def body_rest_def wal_records.drain_step [OF Parsed] split_beta Let_def)
    have "b = encode_record crc r @ drop n b"
      using D(4) by (metis append_take_drop_id)
    also have "drop n b = concat (map (encode_record crc) (body_records crc (drop n b))) @ body_rest crc (drop n b)"
      using D(1,2) by (intro less) simp
    finally show ?thesis
      by (simp add: eq)
  next
    case More
    then show ?thesis
      by (simp add: body_records_def body_rest_def drain.simps)
  next
    case Malformed
    then show ?thesis
      by (simp add: body_records_def body_rest_def drain.simps)
  qed
qed

lemma body_records_ok: "r \<in> set (body_records crc b) \<Longrightarrow> record_ok r"
proof (induction "length b" arbitrary: b rule: less_induct)
  case less
  show ?case
  proof (cases "record_parse crc b")
    case (Parsed s n)
    note D = record_parse_ParsedD [OF Parsed]
    have "body_records crc b = s # body_records crc (drop n b)"
      by (simp add: body_records_def wal_records.drain_step [OF Parsed] split_beta Let_def)
    then show ?thesis
      using less.hyps [of "drop n b"] less.prems D(1,2,3) by auto
  qed (use less.prems in \<open>simp_all add: body_records_def drain.simps\<close>)
qed

lemma record_parse_nil: "record_parse crc [] = More"
  by (simp add: record_parse_cases)

lemma body_encoded:
  assumes "\<forall>r \<in> set rs. record_ok r" "p = [] \<or> (\<exists>r. record_ok r \<and> strict_prefix p (encode_record crc r))"
  shows "body_records crc (concat (map (encode_record crc) rs) @ p) = rs"
    and "body_rest crc (concat (map (encode_record crc) rs) @ p) = p"
  using wal_records.drain_encoded [of rs p crc] assms record_parse_nil [of crc]
  by (auto simp: body_records_def body_rest_def)

end
