(* ===== verification/Wal_Segment.thy ===== *)
theory Wal_Segment
  imports Wal_Record "HOL-Library.AList"
begin

text \<open>
  One segment file of the write-ahead log: the writer of
  \<open>crates/mmbus/src/wal/segment_writer.rs\<close> and the reader and recovery scan of
  \<open>crates/mmbus/src/wal/segment_reader.rs\<close>, over a model of the directory that holds the segments.
  A file is its content and the length of the prefix that has been synced; a crash keeps at least
  the synced prefix. \<open>std::io::BufWriter\<close> is modelled with its capacity of 8 KiB.
\<close>

subsection \<open>The directory\<close>

record disk_file =
  f_content :: bytes
  f_synced :: nat

text \<open>\<open>d_up\<close>: whether writes and syncs succeed. Failed ones change nothing.\<close>

record disk =
  d_up :: bool
  d_files :: "(string \<times> disk_file) list"

abbreviation lookup :: "disk \<Rightarrow> string \<Rightarrow> disk_file option" where
  "lookup d \<equiv> map_of (d_files d)"

definition put_file :: "string \<Rightarrow> disk_file \<Rightarrow> disk \<Rightarrow> disk" where
  "put_file name f d = d\<lparr>d_files := AList.update name f (d_files d)\<rparr>"

definition remove_file :: "string \<Rightarrow> disk \<Rightarrow> disk" where
  "remove_file name d = (if d_up d then d\<lparr>d_files := AList.delete name (d_files d)\<rparr> else d)"

definition create_new :: "string \<Rightarrow> disk \<Rightarrow> (io_error + unit) \<times> disk" where
  "create_new name d =
    (if lookup d name \<noteq> None then (Inl IoAlreadyExists, d)
     else if \<not> d_up d then (Inl IoDevice, d)
     else (Inr (), put_file name \<lparr>f_content = [], f_synced = 0\<rparr> d))"

text \<open>Writing and syncing through a handle; the inode of an unlinked file is out of sight.\<close>

definition write_file :: "string \<Rightarrow> bytes \<Rightarrow> disk \<Rightarrow> (io_error + unit) \<times> disk" where
  "write_file name bs d =
    (if \<not> d_up d then (Inl IoDevice, d)
     else (Inr (), case lookup d name of
         None \<Rightarrow> d | Some f \<Rightarrow> put_file name (f\<lparr>f_content := f_content f @ bs\<rparr>) d))"

definition sync_file :: "string \<Rightarrow> disk \<Rightarrow> (io_error + unit) \<times> disk" where
  "sync_file name d =
    (if \<not> d_up d then (Inl IoDevice, d)
     else (Inr (), case lookup d name of
         None \<Rightarrow> d | Some f \<Rightarrow> put_file name (f\<lparr>f_synced := length (f_content f)\<rparr>) d))"

definition set_len :: "string \<Rightarrow> nat \<Rightarrow> disk \<Rightarrow> (io_error + unit) \<times> disk" where
  "set_len name n d = (case lookup d name of
      None \<Rightarrow> (Inl IoNotFound, d)
    | Some f \<Rightarrow>
        if \<not> d_up d then (Inl IoDevice, d)
        else (Inr (), put_file name
          (f\<lparr>f_content := take n (f_content f) @ replicate (n - length (f_content f)) 0,
             f_synced := min n (f_synced f)\<rparr>) d))"

lemma lookup_put [simp]: "lookup (put_file name f d) n = (if n = name then Some f else lookup d n)"
  by (simp add: put_file_def update_conv')

lemma up_put [simp]: "d_up (put_file name f d) = d_up d"
  by (simp add: put_file_def)

lemma lookup_remove [simp]:
  "d_up d \<Longrightarrow> lookup (remove_file name d) n = (if n = name then None else lookup d n)"
  by (simp add: remove_file_def delete_conv')

lemma up_remove [simp]: "d_up (remove_file name d) = d_up d"
  by (simp add: remove_file_def)

text \<open>A directory lists a name once.\<close>

definition dir_ok :: "disk \<Rightarrow> bool" where
  "dir_ok d \<longleftrightarrow> d_up d \<and> distinct (map fst (d_files d))"

lemma dir_ok_up: "dir_ok d \<Longrightarrow> d_up d"
  by (simp add: dir_ok_def)

lemma dir_ok_put [simp]: "dir_ok d \<Longrightarrow> dir_ok (put_file name f d)"
  by (simp add: dir_ok_def put_file_def distinct_update)

lemma dir_ok_remove [simp]: "dir_ok d \<Longrightarrow> dir_ok (remove_file name d)"
  by (simp add: dir_ok_def remove_file_def distinct_delete)

subsection \<open>Segment writer (segment\_writer.rs)\<close>

definition BUF_CAPACITY :: nat where "BUF_CAPACITY = 8192"

record seg_writer =
  sw_name :: string
  sw_buf :: bytes
  sw_first :: u64
  sw_pending :: u64
  sw_durable :: u64
  sw_bytes :: nat

datatype writer_error = PayloadTooLarge nat | CursorRegressed u64 u64 | WriterIo io_error

definition buf_flush :: "seg_writer \<Rightarrow> disk \<Rightarrow> (io_error + unit) \<times> seg_writer \<times> disk" where
  "buf_flush w d =
    (if sw_buf w = [] then (Inr (), w, d)
     else case write_file (sw_name w) (sw_buf w) d of
       (Inl e, d') \<Rightarrow> (Inl e, w, d')
     | (Inr _, d') \<Rightarrow> (Inr (), w\<lparr>sw_buf := []\<rparr>, d'))"

definition buf_write_cold :: "bytes \<Rightarrow> seg_writer \<Rightarrow> disk \<Rightarrow> (io_error + unit) \<times> seg_writer \<times> disk" where
  "buf_write_cold bs w d =
    (if length bs \<ge> BUF_CAPACITY then
       (case write_file (sw_name w) bs d of (res, d') \<Rightarrow> (res, w, d'))
     else (Inr (), w\<lparr>sw_buf := sw_buf w @ bs\<rparr>, d))"

definition buf_write_all :: "bytes \<Rightarrow> seg_writer \<Rightarrow> disk \<Rightarrow> (io_error + unit) \<times> seg_writer \<times> disk" where
  "buf_write_all bs w d =
    (let spare = BUF_CAPACITY - length (sw_buf w) in
     if length bs < spare then (Inr (), w\<lparr>sw_buf := sw_buf w @ bs\<rparr>, d)
     else if length bs > spare then
       (case buf_flush w d of
          (Inl e, w', d') \<Rightarrow> (Inl e, w', d')
        | (Inr _, w', d') \<Rightarrow> buf_write_cold bs w' d')
     else buf_write_cold bs w d)"

text \<open>\<open>created\<close> is the clock, stamped into the header.\<close>

definition seg_create :: "u64 \<Rightarrow> string \<Rightarrow> u64 \<Rightarrow> disk \<Rightarrow> (writer_error + seg_writer) \<times> disk" where
  "seg_create created name first_cursor d =
    (case create_new name d of
       (Inl e, d1) \<Rightarrow> (Inl (WriterIo e), d1)
     | (Inr _, d1) \<Rightarrow>
        let w = \<lparr>sw_name = name, sw_buf = [], sw_first = first_cursor, sw_pending = first_cursor,
                 sw_durable = first_cursor, sw_bytes = SEGMENT_HEADER_LEN\<rparr>
        in (case buf_write_all (encode_segment_header created first_cursor) w d1 of
              (Inl e, w2, d2) \<Rightarrow> (Inl (WriterIo e), d2)
            | (Inr _, w2, d2) \<Rightarrow>
               (case buf_flush w2 d2 of
                  (Inl e, w3, d3) \<Rightarrow> (Inl (WriterIo e), d3)
                | (Inr _, w3, d3) \<Rightarrow>
                   (case sync_file name d3 of
                      (Inl e, d4) \<Rightarrow> (Inl (WriterIo e), d4)
                    | (Inr _, d4) \<Rightarrow> (Inr w3, d4)))))"

definition seg_append ::
    "(bytes \<Rightarrow> u32) \<Rightarrow> seg_writer \<Rightarrow> u64 \<Rightarrow> u64 \<Rightarrow> bytes \<Rightarrow> disk
      \<Rightarrow> (writer_error + unit) \<times> seg_writer \<times> disk" where
  "seg_append crc w cursor ts payload d =
    (if length payload > MAX_PAYLOAD_LEN then (Inl (PayloadTooLarge (length payload)), w, d)
     else if cursor \<noteq> sw_pending w then (Inl (CursorRegressed cursor (sw_pending w)), w, d)
     else
       let scratch = encode_record_into crc [] cursor ts payload in
       (case buf_write_all scratch w d of
          (Inl e, w', d') \<Rightarrow> (Inl (WriterIo e), w', d')
        | (Inr _, w', d') \<Rightarrow>
            (Inr (), w'\<lparr>sw_bytes := sw_bytes w' + length scratch, sw_pending := cursor + 1\<rparr>, d')))"

definition seg_fsync :: "seg_writer \<Rightarrow> disk \<Rightarrow> (writer_error + u64) \<times> seg_writer \<times> disk" where
  "seg_fsync w d =
    (case buf_flush w d of
       (Inl e, w', d') \<Rightarrow> (Inl (WriterIo e), w', d')
     | (Inr _, w', d') \<Rightarrow>
        (case sync_file (sw_name w') d' of
           (Inl e, d'') \<Rightarrow> (Inl (WriterIo e), w', d'')
         | (Inr _, d'') \<Rightarrow> (Inr (sw_pending w'), w'\<lparr>sw_durable := sw_pending w'\<rparr>, d'')))"

text \<open>The cloned descriptor is the name of the file.\<close>

definition flush_for_external_fsync ::
    "seg_writer \<Rightarrow> disk \<Rightarrow> (writer_error + string \<times> u64) \<times> seg_writer \<times> disk" where
  "flush_for_external_fsync w d =
    (case buf_flush w d of
       (Inl e, w', d') \<Rightarrow> (Inl (WriterIo e), w', d')
     | (Inr _, w', d') \<Rightarrow> (Inr (sw_name w', sw_pending w'), w', d'))"

definition record_durable_at :: "u64 \<Rightarrow> seg_writer \<Rightarrow> seg_writer" where
  "record_durable_at durable w = (if durable > sw_durable w then w\<lparr>sw_durable := durable\<rparr> else w)"

definition seg_close :: "seg_writer \<Rightarrow> disk \<Rightarrow> (writer_error + unit) \<times> disk" where
  "seg_close w d = (case seg_fsync w d of
      (Inl e, w', d') \<Rightarrow> (Inl e, d') | (Inr _, w', d') \<Rightarrow> (Inr (), d'))"

subsection \<open>Segment reader (segment\_reader.rs, lines 57--163)\<close>

text \<open>Segments only grow, so the bytes below the length at open are the ones read later.\<close>

record seg_reader =
  sr_header :: segment_header
  sr_content :: bytes
  sr_file_len :: nat
  sr_pos :: nat
  sr_halted :: bool

definition seg_open :: "string \<Rightarrow> disk \<Rightarrow> reader_error + seg_reader" where
  "seg_open name d = (case lookup d name of
      None \<Rightarrow> Inl (ReaderIo IoNotFound)
    | Some f \<Rightarrow>
        let file_len = length (f_content f) in
        if file_len < SEGMENT_HEADER_LEN then Inl (ReaderHeader (HeaderTruncated file_len))
        else (case parse_header (f_content f) of
            Inl e \<Rightarrow> Inl (ReaderHeader e)
          | Inr h \<Rightarrow> Inr \<lparr>sr_header = h, sr_content = f_content f, sr_file_len = file_len,
                         sr_pos = SEGMENT_HEADER_LEN, sr_halted = False\<rparr>))"

definition next_record ::
    "(bytes \<Rightarrow> u32) \<Rightarrow> seg_reader \<Rightarrow> (reader_error + wal_record) option \<times> seg_reader" where
  "next_record crc r =
    (if sr_halted r then (None, r)
     else case read_one_record crc (sr_content r) (sr_pos r) (sr_file_len r) of
       Inr (Some (record, advance)) \<Rightarrow> (Some (Inr record), r\<lparr>sr_pos := sr_pos r + advance\<rparr>)
     | Inr None \<Rightarrow> (None, r)
     | Inl e \<Rightarrow> (Some (Inl e), r\<lparr>sr_halted := True\<rparr>))"

lemma read_one_record_advances:
  assumes "read_one_record crc content pos len = Inr (Some (r, n))"
  shows "pos < len" and "28 \<le> n" and "pos + n \<le> len"
proof -
  have "len - pos \<noteq> 0"
    using assms by (auto simp: read_one_record_def Let_def)
  moreover have "28 \<le> n" "n - 4 \<le> len - pos - 4"
    using assms by (auto simp: read_one_record_def Let_def wal_consts split: if_splits)
  ultimately show "pos < len" "28 \<le> n" "pos + n \<le> len"
    by auto
qed

lemma read_one_record_left:
  "read_one_record crc content pos len = Inr (Some (r, n)) \<Longrightarrow> len - (pos + n) < len - pos"
  using read_one_record_advances [of crc content pos len r n] by simp

definition reader_left :: "seg_reader \<Rightarrow> nat" where
  "reader_left r = (if sr_halted r then 0 else 1) + (sr_file_len r - sr_pos r)"

lemma next_record_left: "next_record crc r = (Some res, r') \<Longrightarrow> reader_left r' < reader_left r"
  by (auto simp: next_record_def reader_left_def dest!: read_one_record_left
      split: if_splits sum.splits option.splits)

text \<open>\<open>reader.iter().flatten()\<close>: the records before the first error.\<close>

function iter_records :: "(bytes \<Rightarrow> u32) \<Rightarrow> seg_reader \<Rightarrow> wal_record list" where
  "iter_records crc r = (case next_record crc r of
      (None, r') \<Rightarrow> []
    | (Some (Inl e), r') \<Rightarrow> iter_records crc r'
    | (Some (Inr x), r') \<Rightarrow> x # iter_records crc r')"
  by pat_completeness auto
termination
  by (relation "measure (\<lambda>(crc, r). reader_left r)") (auto dest: next_record_left [OF sym])

declare iter_records.simps [simp del]

subsection \<open>Recovery (segment\_reader.rs, lines 243--321)\<close>

record recovery_report =
  rr_final_len :: nat
  rr_bytes_dropped :: nat
  rr_last_cursor :: "u64 option"

text \<open>The scan: where the last good record ends, its cursor, and whether a bad one follows.\<close>

function recover_scan ::
    "(bytes \<Rightarrow> u32) \<Rightarrow> bytes \<Rightarrow> nat \<Rightarrow> nat \<Rightarrow> u64 option \<Rightarrow> reader_error + nat \<times> u64 option \<times> bool" where
  "recover_scan crc content file_len pos last_cursor =
    (case read_one_record crc content pos file_len of
       Inr None \<Rightarrow> Inr (pos, last_cursor, False)
     | Inr (Some (record, advance)) \<Rightarrow>
         recover_scan crc content file_len (pos + advance) (Some (r_cursor record))
     | Inl (CrcMismatch _ _ _) \<Rightarrow> Inr (pos, last_cursor, True)
     | Inl (OversizeRecord _) \<Rightarrow> Inr (pos, last_cursor, True)
     | Inl (ShortRead _ _) \<Rightarrow> Inr (pos, last_cursor, True)
     | Inl e \<Rightarrow> Inl e)"
  by pat_completeness auto
termination
  by (relation "measure (\<lambda>(crc, content, len, pos, lc). len - pos)") (auto dest!: read_one_record_left)

declare recover_scan.simps [simp del]

definition recover_truncate ::
    "(bytes \<Rightarrow> u32) \<Rightarrow> string \<Rightarrow> disk \<Rightarrow> (reader_error + recovery_report) \<times> disk" where
  "recover_truncate crc name d = (case seg_open name d of
      Inl e \<Rightarrow> (Inl e, d)
    | Inr reader \<Rightarrow>
        let original_len = sr_file_len reader in
        (case recover_scan crc (sr_content reader) original_len SEGMENT_HEADER_LEN None of
           Inl e \<Rightarrow> (Inl e, d)
         | Inr (last_good_end, last_cursor, hit_bad_record) \<Rightarrow>
             if hit_bad_record then
               (case set_len name last_good_end d of
                  (Inl e, d1) \<Rightarrow> (Inl (ReaderIo e), d1)
                | (Inr _, d1) \<Rightarrow>
                   (case sync_file name d1 of
                      (Inl e, d2) \<Rightarrow> (Inl (ReaderIo e), d2)
                    | (Inr _, d2) \<Rightarrow>
                        (Inr \<lparr>rr_final_len = last_good_end,
                              rr_bytes_dropped = original_len - last_good_end,
                              rr_last_cursor = last_cursor\<rparr>, d2)))
             else (Inr \<lparr>rr_final_len = original_len, rr_bytes_dropped = 0,
                        rr_last_cursor = last_cursor\<rparr>, d)))"

end
