(* ===== verification/Wal_Recovery.thy ===== *)
theory Wal_Recovery
  imports Wal_Segment
begin

text \<open>
  What the recovery scan and the reader of a segment compute, in terms of the records found at the
  start of the segment's body (\<open>body_records\<close>) and the bytes after them (\<open>body_rest\<close>).
\<close>

subsection \<open>The scan\<close>

lemma body_parsed:
  assumes "record_parse crc b = Parsed r n"
  shows "body_records crc b = r # body_records crc (drop n b)"
    and "body_rest crc b = body_rest crc (drop n b)"
    and "n = length (encode_record crc r)"
  using record_parse_ParsedD(5) [OF assms]
  by (simp_all add: body_records_def body_rest_def wal_records.drain_step [OF assms] split_beta Let_def)

lemma body_stuck:
  assumes "record_parse crc b = More \<or> record_parse crc b = Malformed"
  shows "body_records crc b = []" and "body_rest crc b = b"
  using assms by (auto simp: body_records_def body_rest_def drain.simps)

lemma body_append:
  assumes "\<forall>r \<in> set rs. record_ok r"
  shows "body_records crc (concat (map (encode_record crc) rs) @ b) = rs @ body_records crc b"
    and "body_rest crc (concat (map (encode_record crc) rs) @ b) = body_rest crc b"
proof -
  have "body_records crc (concat (map (encode_record crc) rs) @ b) = rs @ body_records crc b
      \<and> body_rest crc (concat (map (encode_record crc) rs) @ b) = body_rest crc b"
    using assms
  proof (induction rs)
    case (Cons r rs)
    have "record_parse crc (concat (map (encode_record crc) (r # rs)) @ b)
        = Parsed r (length (encode_record crc r))"
      using record_parse_encode [of r crc "concat (map (encode_record crc) rs) @ b"] Cons.prems by simp
    from body_parsed(1,2) [OF this] show ?case
      using Cons by simp
  qed simp
  then show "body_records crc (concat (map (encode_record crc) rs) @ b) = rs @ body_records crc b"
    "body_rest crc (concat (map (encode_record crc) rs) @ b) = body_rest crc b"
    by simp_all
qed

lemma body_nil [simp]: "body_records crc [] = []" "body_rest crc [] = []"
  using body_stuck [of crc "[]"] record_parse_nil [of crc] by auto

lemma read_one_record_cases:
  assumes "pos \<le> length content"
  obtains (eof) "pos = length content" "read_one_record crc content pos (length content) = Inr None"
    | (got) r n where "read_one_record crc content pos (length content) = Inr (Some (r, n))"
        "record_parse crc (drop pos content) = Parsed r n"
    | (crc) a b c where "read_one_record crc content pos (length content) = Inl (CrcMismatch a b c)"
        "record_parse crc (drop pos content) = Malformed" "pos < length content"
    | (big) a where "read_one_record crc content pos (length content) = Inl (OversizeRecord a)"
        "record_parse crc (drop pos content) = Malformed" "pos < length content"
    | (short) a b where "read_one_record crc content pos (length content) = Inl (ShortRead a b)"
        "record_parse crc (drop pos content) = More" "pos < length content"
proof -
  have shift: "record_view (read_one_record crc content pos (length content)) = record_parse crc (drop pos content)"
    by (rule record_view_shift [OF assms])
  have io: "read_one_record crc content pos (length content) \<noteq> Inl (ReaderIo e)"
    "read_one_record crc content pos (length content) \<noteq> Inl (ReaderHeader h)" for e h
    by (auto simp: read_one_record_def Let_def split: if_splits)
  have none: "read_one_record crc content pos (length content) = Inr None \<longleftrightarrow> pos = length content"
    using assms by (auto simp: read_one_record_def Let_def split: if_splits)
  show ?thesis
  proof (cases "read_one_record crc content pos (length content)")
    case (Inr res)
    then show ?thesis
      using none shift got eof by (cases res) (auto simp: record_view_def split: prod.splits)
  next
    case (Inl e)
    have lt: "pos < length content"
      using Inl none assms by (cases "pos = length content") auto
    show ?thesis
      using Inl lt shift io crc big short by (cases e) (simp_all add: record_view_def)
  qed
qed

lemma recover_scan_spec:
  assumes "pos \<le> length content"
  shows "recover_scan crc content (length content) pos lc =
    Inr (pos + length (concat (map (encode_record crc) (body_records crc (drop pos content)))),
         (if body_records crc (drop pos content) = [] then lc
          else Some (r_cursor (last (body_records crc (drop pos content))))),
         body_rest crc (drop pos content) \<noteq> [])"
  using assms
proof (induction "length content - pos" arbitrary: pos lc rule: less_induct)
  case less
  from less.prems show ?case
  proof (cases rule: read_one_record_cases [where crc = crc])
    case eof
    then show ?thesis
      by (simp add: recover_scan.simps)
  next
    case (got r n)
    note adv = read_one_record_advances [OF got(1)]
    note b = body_parsed [OF got(2)]
    have d: "drop n (drop pos content) = drop (pos + n) content"
      by (simp add: add.commute)
    have IH: "recover_scan crc content (length content) (pos + n) (Some (r_cursor r)) =
      Inr (pos + n + length (concat (map (encode_record crc) (body_records crc (drop (pos + n) content)))),
         (if body_records crc (drop (pos + n) content) = [] then Some (r_cursor r)
          else Some (r_cursor (last (body_records crc (drop (pos + n) content))))),
         body_rest crc (drop (pos + n) content) \<noteq> [])"
      using adv by (intro less.hyps) auto
    have "recover_scan crc content (length content) pos lc =
        recover_scan crc content (length content) (pos + n) (Some (r_cursor r))"
      by (subst recover_scan.simps) (simp add: got(1))
    then show ?thesis
      unfolding b(1,2) d IH using b(3) by simp
  next
    case crc
    then show ?thesis
      using body_stuck [of crc "drop pos content"] by (simp add: recover_scan.simps)
  next
    case big
    then show ?thesis
      using body_stuck [of crc "drop pos content"] by (simp add: recover_scan.simps)
  next
    case short
    then show ?thesis
      using body_stuck [of crc "drop pos content"] by (simp add: recover_scan.simps)
  qed
qed

lemma iter_records_spec:
  assumes "sr_file_len r = length (sr_content r)" "\<not> sr_halted r" "sr_pos r \<le> length (sr_content r)"
  shows "iter_records crc r = body_records crc (drop (sr_pos r) (sr_content r))"
  using assms
proof (induction "reader_left r" arbitrary: r rule: less_induct)
  case less
  from less.prems(3) show ?case
  proof (cases rule: read_one_record_cases [where crc = crc])
    case eof
    then show ?thesis
      using less.prems by (subst iter_records.simps) (simp add: next_record_def)
  next
    case (got x n)
    let ?r = "r\<lparr>sr_pos := sr_pos r + n\<rparr>"
    have nr: "next_record crc r = (Some (Inr x), ?r)"
      using got less.prems by (simp add: next_record_def)
    have "iter_records crc ?r = body_records crc (drop (sr_pos ?r) (sr_content ?r))"
      using read_one_record_advances(3) [OF got(1)] less.prems
      by (intro less.hyps next_record_left [OF nr]) auto
    then show ?thesis
      using nr body_parsed(1) [OF got(2)]
      by (subst iter_records.simps) (simp add: add.commute)
  next
    case crc
    then show ?thesis
      using less.prems body_stuck(1) [of crc "drop (sr_pos r) (sr_content r)"]
      by (subst iter_records.simps) (simp add: next_record_def iter_records.simps)
  next
    case big
    then show ?thesis
      using less.prems body_stuck(1) [of crc "drop (sr_pos r) (sr_content r)"]
      by (subst iter_records.simps) (simp add: next_record_def iter_records.simps)
  next
    case short
    then show ?thesis
      using less.prems body_stuck(1) [of crc "drop (sr_pos r) (sr_content r)"]
      by (subst iter_records.simps) (simp add: next_record_def iter_records.simps)
  qed
qed

subsection \<open>Segments\<close>

text \<open>A file that starts with a segment header, and its body.\<close>

definition has_header :: "disk_file \<Rightarrow> bool" where
  "has_header f \<longleftrightarrow> (\<exists>h. parse_header (f_content f) = Inr h)"

definition seg_body :: "disk_file \<Rightarrow> bytes" where
  "seg_body f = drop SEGMENT_HEADER_LEN (f_content f)"

definition file_records :: "(bytes \<Rightarrow> u32) \<Rightarrow> disk_file \<Rightarrow> wal_record list" where
  "file_records crc f = body_records crc (seg_body f)"

lemma has_header_length: "has_header f \<Longrightarrow> SEGMENT_HEADER_LEN \<le> length (f_content f)"
  by (auto simp: has_header_def parse_header_def split: if_splits)

lemma has_header_take:
  "has_header f \<Longrightarrow> f_content g = take SEGMENT_HEADER_LEN (f_content f) @ b \<Longrightarrow> has_header g"
  using has_header_length [of f]
  by (simp add: has_header_def parse_header_def rd64_def rd32_def sub_append_left sub_take wal_consts
      split: if_splits)

lemma seg_open_Some:
  assumes "lookup d name = Some f" "has_header f"
  obtains r where "seg_open name d = Inr r" "sr_content r = f_content f"
    "sr_file_len r = length (f_content f)" "sr_pos r = SEGMENT_HEADER_LEN" "\<not> sr_halted r"
  using assms has_header_length [OF assms(2)] by (auto simp: seg_open_def has_header_def)

lemma seg_records:
  assumes "lookup d name = Some f" "has_header f" "seg_open name d = Inr r"
  shows "iter_records crc r = file_records crc f"
proof -
  from assms(1,2) obtain r' where "seg_open name d = Inr r'" "sr_content r' = f_content f"
    "sr_file_len r' = length (f_content f)" "sr_pos r' = SEGMENT_HEADER_LEN" "\<not> sr_halted r'"
    by (rule seg_open_Some)
  with assms(3) show ?thesis
    using iter_records_spec [of r crc] has_header_length [OF assms(2)]
    by (simp add: file_records_def seg_body_def)
qed

text \<open>The file recovery leaves behind.\<close>

definition recovered :: "(bytes \<Rightarrow> u32) \<Rightarrow> disk_file \<Rightarrow> bytes" where
  "recovered crc f = take SEGMENT_HEADER_LEN (f_content f)
     @ concat (map (encode_record crc) (file_records crc f))"

lemma content_split:
  assumes "has_header f"
  shows "f_content f = recovered crc f @ body_rest crc (seg_body f)"
  using body_split [of "seg_body f" crc] append_take_drop_id [of SEGMENT_HEADER_LEN "f_content f"]
  by (simp add: recovered_def file_records_def seg_body_def)

lemma length_recovered:
  "has_header f \<Longrightarrow> length (recovered crc f)
    = SEGMENT_HEADER_LEN + length (concat (map (encode_record crc) (file_records crc f)))"
  using has_header_length [of f] by (simp add: recovered_def)

lemma recovered_body:
  assumes "has_header f" "f_content g = recovered crc f"
  shows "has_header g" "seg_body g = concat (map (encode_record crc) (file_records crc f))"
    "file_records crc g = file_records crc f" "body_rest crc (seg_body g) = []"
proof -
  show "has_header g"
    using has_header_take [OF assms(1)] assms(2) by (simp add: recovered_def)
  show body: "seg_body g = concat (map (encode_record crc) (file_records crc f))"
    using assms has_header_length [OF assms(1)] by (simp add: seg_body_def recovered_def)
  have ok: "\<forall>r \<in> set (file_records crc f). record_ok r"
    by (auto simp: file_records_def intro: body_records_ok)
  show "file_records crc g = file_records crc f" "body_rest crc (seg_body g) = []"
    using body_append [OF ok, of crc "[]"] by (simp_all add: file_records_def [of crc g] body)
qed

lemma recover_truncate_spec:
  assumes "lookup d name = Some f" "has_header f" "d_up d"
  shows "recover_truncate crc name d =
    (Inr \<lparr>rr_final_len = length (recovered crc f), rr_bytes_dropped = length (body_rest crc (seg_body f)),
          rr_last_cursor = (if file_records crc f = [] then None
                            else Some (r_cursor (last (file_records crc f))))\<rparr>,
     if body_rest crc (seg_body f) = [] then d
     else snd (sync_file name (snd (set_len name (length (recovered crc f)) d))))"
proof -
  obtain r where r: "seg_open name d = Inr r" "sr_content r = f_content f"
    "sr_file_len r = length (f_content f)" "sr_pos r = SEGMENT_HEADER_LEN" "\<not> sr_halted r"
    using seg_open_Some [OF assms(1,2)] by auto
  have len: "length (f_content f) = length (recovered crc f) + length (body_rest crc (seg_body f))"
    using content_split [OF assms(2), of crc] by (metis length_append)
  have scan: "recover_scan crc (f_content f) (length (f_content f)) SEGMENT_HEADER_LEN None =
    Inr (length (recovered crc f),
      (if file_records crc f = [] then None else Some (r_cursor (last (file_records crc f)))),
      body_rest crc (seg_body f) \<noteq> [])"
    using recover_scan_spec [OF has_header_length [OF assms(2)], of crc None]
      length_recovered [OF assms(2), of crc]
    by (simp add: file_records_def seg_body_def)
  have sl: "fst (set_len name n d) = Inr ()" "fst (sync_file name (snd (set_len name n d))) = Inr ()" for n
    using assms(1,3) by (simp_all add: set_len_def sync_file_def)
  show ?thesis
    using scan len sl [of "length (recovered crc f)"]
    by (cases "set_len name (length (recovered crc f)) d";
        cases "sync_file name (snd (set_len name (length (recovered crc f)) d))")
       (auto simp: recover_truncate_def r Let_def)
qed

lemma recover_truncate_lookup:
  assumes "lookup d name = Some f" "has_header f" "d_up d"
    "recover_truncate crc name d = (res, d')"
  shows "d_up d'"
    and "lookup d' n = (if n = name then Some (if body_rest crc (seg_body f) = [] then f
          else \<lparr>f_content = recovered crc f, f_synced = length (recovered crc f)\<rparr>) else lookup d n)"
proof -
  have t: "take (length (recovered crc f)) (f_content f) = recovered crc f"
    "length (recovered crc f) \<le> length (f_content f)"
    by (subst content_split [OF assms(2), of crc], simp)+
  have d': "d' = (if body_rest crc (seg_body f) = [] then d
     else snd (sync_file name (snd (set_len name (length (recovered crc f)) d))))"
    using assms(4) recover_truncate_spec [OF assms(1-3), of crc] by simp
  show "d_up d'"
    using assms(1,3) by (simp add: d' set_len_def sync_file_def)
  show "lookup d' n = (if n = name then Some (if body_rest crc (seg_body f) = [] then f
          else \<lparr>f_content = recovered crc f, f_synced = length (recovered crc f)\<rparr>) else lookup d n)"
    using assms(1,3) t by (simp add: d' set_len_def sync_file_def)
qed

subsection \<open>Properties\<close>

text \<open>Recovery of a segment succeeds, leaves a prefix of the file with exactly the records that can
  be read from it and nothing after them, touches no other file, reports what it dropped, and a
  second run changes nothing.\<close>

theorem recovery_keeps_intact_records:
  assumes "lookup d name = Some f" "has_header f" "d_up d"
    "recover_truncate crc name d = (res, d')"
  shows "\<exists>report f'. res = Inr report \<and> lookup d' name = Some f'
    \<and> prefix (f_content f') (f_content f)
    \<and> length (f_content f') + rr_bytes_dropped report = length (f_content f)
    \<and> file_records crc f' = file_records crc f \<and> body_rest crc (seg_body f') = []
    \<and> (\<forall>n. n \<noteq> name \<longrightarrow> lookup d' n = lookup d n)
    \<and> recover_truncate crc name d' = (Inr (report\<lparr>rr_bytes_dropped := 0\<rparr>), d')"
proof -
  define f' where "f' = (if body_rest crc (seg_body f) = [] then f
    else \<lparr>f_content = recovered crc f, f_synced = length (recovered crc f)\<rparr>)"
  note L = recover_truncate_lookup [OF assms]
  have f': "lookup d' name = Some f'"
    by (simp add: L(2) f'_def)
  have split: "f_content f = recovered crc f @ body_rest crc (seg_body f)"
    by (rule content_split [OF assms(2)])
  have c: "f_content f' = recovered crc f"
    using split by (simp add: f'_def)
  note R = recovered_body [OF assms(2) c]
  have "recovered crc f' = recovered crc f"
    using content_split [OF R(1), of crc] R(4) c by simp
  then have again: "recover_truncate crc name d' = (Inr \<lparr>rr_final_len = length (recovered crc f),
      rr_bytes_dropped = 0, rr_last_cursor = (if file_records crc f = [] then None
        else Some (r_cursor (last (file_records crc f))))\<rparr>, d')"
    using recover_truncate_spec [OF f' R(1) L(1), of crc] R(3,4) by simp
  have res: "res = Inr \<lparr>rr_final_len = length (recovered crc f),
      rr_bytes_dropped = length (body_rest crc (seg_body f)), rr_last_cursor = (if file_records crc f = []
        then None else Some (r_cursor (last (file_records crc f))))\<rparr>"
    using recover_truncate_spec [OF assms(1-3), of crc] assms(4) by simp
  have "prefix (f_content f') (f_content f)"
    "length (f_content f') + length (body_rest crc (seg_body f)) = length (f_content f)"
    by (metis c split prefixI, metis c split length_append)
  then show ?thesis
    unfolding res using f' R(3,4) again L(2)
    by (intro exI [of _ "\<lparr>rr_final_len = length (recovered crc f),
      rr_bytes_dropped = length (body_rest crc (seg_body f)), rr_last_cursor = (if file_records crc f = []
        then None else Some (r_cursor (last (file_records crc f))))\<rparr>"] exI [of _ f']) simp
qed

text \<open>A crash in the middle of an append. Whatever bytes follow the records that were written
  whole, recovery keeps those records; if what follows is the torn beginning of one record,
  recovery restores the file to the byte.\<close>

theorem torn_append_recovered:
  assumes "lookup d name = Some f" "d_up d" "\<forall>r \<in> set rs. record_ok r"
    and "f_content f = encode_segment_header created first @ concat (map (encode_record crc) rs) @ junk"
  shows "\<exists>f' more. lookup (snd (recover_truncate crc name d)) name = Some f'
    \<and> file_records crc f' = rs @ more
    \<and> (\<forall>r. record_ok r \<and> strict_prefix junk (encode_record crc r) \<longrightarrow>
         f_content f' = encode_segment_header created first @ concat (map (encode_record crc) rs))"
proof -
  have body: "seg_body f = concat (map (encode_record crc) rs) @ junk"
    by (simp add: seg_body_def assms(4) wal_consts)
  have "has_header f"
    using parse_encode_header by (auto simp: has_header_def assms(4))
  then obtain f' where f': "lookup (snd (recover_truncate crc name d)) name = Some f'"
      "file_records crc f' = file_records crc f"
      "f_content f' = recovered crc f"
    using recover_truncate_lookup [OF assms(1) \<open>has_header f\<close> assms(2), of crc]
      content_split [OF \<open>has_header f\<close>, of crc] recovered_body(3) [OF \<open>has_header f\<close>, of _ crc]
    by (cases "recover_truncate crc name d") (auto split: if_splits)
  have "file_records crc f = rs @ body_records crc junk"
    unfolding file_records_def body by (rule body_append(1) [OF assms(3)])
  then have "file_records crc f' = rs @ body_records crc junk"
    by (simp only: f'(2))
  moreover have "f_content f' = encode_segment_header created first @ concat (map (encode_record crc) rs)"
    if "record_ok r" "strict_prefix junk (encode_record crc r)" for r
  proof -
    have "body_records crc junk = []"
      using body_stuck(1) record_parse_prefix [OF that] by blast
    then have "file_records crc f = rs"
      using body_append(1) [OF assms(3), of crc junk] by (simp add: file_records_def body)
    moreover have "take SEGMENT_HEADER_LEN (f_content f) = encode_segment_header created first"
      by (simp add: assms(4) wal_consts)
    ultimately show ?thesis
      unfolding f'(3) recovered_def by simp
  qed
  ultimately show ?thesis
    using f'(1) by blast
qed

text \<open>A concrete segment for the witnesses: one record and the first five bytes of another.\<close>

definition demo_crc :: "bytes \<Rightarrow> u32" where
  "demo_crc b = of_nat (length b)"

definition demo_record :: "u64 \<Rightarrow> wal_record" where
  "demo_record c = \<lparr>r_cursor = c, r_ts = 7, r_payload = [1, 2]\<rparr>"

definition demo_torn :: disk where
  "demo_torn = \<lparr>d_up = True, d_files = [(''s'', \<lparr>f_content = encode_segment_header 9 0
     @ concat (map (encode_record demo_crc) [demo_record 0]) @ take 5 (encode_record demo_crc (demo_record 1)),
     f_synced = 32\<rparr>)]\<rparr>"

lemma demo_record_ok: "record_ok (demo_record c)"
  by (simp add: demo_record_def record_ok_def wal_consts)

lemma demo_torn_junk: "strict_prefix (take 5 (encode_record crc (demo_record 1))) (encode_record crc (demo_record 1))"
proof -
  have "length (take 5 (encode_record crc (demo_record 1))) < length (encode_record crc (demo_record 1))"
    by (simp add: length_encode_record)
  then show ?thesis
    using take_is_prefix [of 5 "encode_record crc (demo_record 1)"]
    by (auto simp: strict_prefix_def)
qed

theorem torn_append_recovered_witness:
  "\<exists>f'. lookup (snd (recover_truncate demo_crc ''s'' demo_torn)) ''s'' = Some f'
    \<and> f_content f' = encode_segment_header 9 0 @ encode_record demo_crc (demo_record 0)"
proof -
  have "lookup demo_torn ''s'' = Some \<lparr>f_content = encode_segment_header 9 0
     @ concat (map (encode_record demo_crc) [demo_record 0]) @ take 5 (encode_record demo_crc (demo_record 1)),
     f_synced = 32\<rparr>" "d_up demo_torn"
    by (simp_all add: demo_torn_def)
  from torn_append_recovered [OF this, of "[demo_record 0]"] show ?thesis
    using demo_record_ok demo_torn_junk [of demo_crc] by fastforce
qed

theorem recovery_keeps_intact_records_witness:
  "\<exists>report f'. fst (recover_truncate demo_crc ''s'' demo_torn) = Inr report
    \<and> lookup (snd (recover_truncate demo_crc ''s'' demo_torn)) ''s'' = Some f'
    \<and> file_records demo_crc f' = [demo_record 0]"
proof -
  define f where "f = \<lparr>f_content = encode_segment_header 9 0
     @ concat (map (encode_record demo_crc) [demo_record 0]) @ take 5 (encode_record demo_crc (demo_record 1)),
     f_synced = 32\<rparr>"
  have f: "lookup demo_torn ''s'' = Some f" "d_up demo_torn" "has_header f"
    using parse_encode_header by (auto simp: demo_torn_def f_def has_header_def)
  have "body_records demo_crc (take 5 (encode_record demo_crc (demo_record 1))) = []"
    using body_stuck(1) record_parse_prefix [OF demo_record_ok demo_torn_junk] by blast
  then have "file_records demo_crc f = [demo_record 0]"
    using body_append(1) [of "[demo_record 0]" demo_crc "take 5 (encode_record demo_crc (demo_record 1))"]
      demo_record_ok by (simp add: file_records_def seg_body_def f_def wal_consts)
  then show ?thesis
    using recovery_keeps_intact_records [OF f(1,3,2), of demo_crc
      "fst (recover_truncate demo_crc ''s'' demo_torn)" "snd (recover_truncate demo_crc ''s'' demo_torn)"]
    by auto
qed

end
