(* ===== verification/Wal.thy ===== *)
theory Wal
  imports Wal_Recovery
begin

text \<open>
  The write-ahead log over many segments: \<open>crates/mmbus/src/wal/wal.rs\<close> with its configuration
  (\<open>config.rs\<close>), its statistics (\<open>stats.rs\<close>) and the subscriber's read-only view (\<open>reader.rs\<close>).
  An operation that takes the mutex is one step on the state; the flusher's tick is two, because it
  gives the mutex up between flushing and syncing. An operation returns an error or a value, and
  the state and directory it leaves in both cases.
\<close>

subsection \<open>Segment file names\<close>

definition digit_char :: "nat \<Rightarrow> char" where
  "digit_char n = char_of (48 + n mod 10)"

fun pad_dec :: "nat \<Rightarrow> nat \<Rightarrow> string" where
  "pad_dec 0 n = []"
| "pad_dec (Suc w) n = pad_dec w (n div 10) @ [digit_char n]"

text \<open>\<open>format!("{first:020}.seg")\<close>; 20 digits are enough for every 64-bit number.\<close>

definition seg_name :: "u64 \<Rightarrow> string" where
  "seg_name c = pad_dec 20 (unat c) @ ''.seg''"

definition is_digit :: "char \<Rightarrow> bool" where
  "is_digit c \<longleftrightarrow> 48 \<le> (of_char c :: nat) \<and> (of_char c :: nat) \<le> 57"

definition dec_value :: "string \<Rightarrow> nat" where
  "dec_value s = foldl (\<lambda>a c. a * 10 + (of_char c - 48)) 0 s"

lemma dec_value_snoc: "dec_value (s @ [c]) = dec_value s * 10 + (of_char c - 48)"
  by (simp add: dec_value_def)

text \<open>\<open>str::parse::<u64>\<close>: an optional plus sign and at least one digit, without overflow.\<close>

definition parse_u64 :: "string \<Rightarrow> u64 option" where
  "parse_u64 s =
    (let ds = (case s of [] \<Rightarrow> [] | c # cs \<Rightarrow> if c = CHR ''+'' then cs else s) in
     if ds = [] \<or> \<not> list_all is_digit ds \<or> 2 ^ 64 \<le> dec_value ds then None
     else Some (of_nat (dec_value ds)))"

definition seg_stem :: "string \<Rightarrow> string option" where
  "seg_stem name =
    (let n = length name - 4 in
     if 4 \<le> length name \<and> drop n name = ''.seg'' then Some (take n name) else None)"

text \<open>The first cursor a directory entry stands for; other entries are ignored.\<close>

definition seg_key :: "string \<Rightarrow> u64 option" where
  "seg_key name = (case seg_stem name of None \<Rightarrow> None | Some stem \<Rightarrow> parse_u64 stem)"

subsection \<open>BTreeMap as a sorted association list\<close>

fun bt_insert :: "'k::linorder \<Rightarrow> 'v \<Rightarrow> ('k \<times> 'v) list \<Rightarrow> ('k \<times> 'v) list" where
  "bt_insert k v [] = [(k, v)]"
| "bt_insert k v ((k', v') # kvs) =
    (if k < k' then (k, v) # (k', v') # kvs
     else if k = k' then (k, v) # kvs
     else (k', v') # bt_insert k v kvs)"

definition bt_remove :: "'k \<Rightarrow> ('k \<times> 'v) list \<Rightarrow> ('k \<times> 'v) list" where
  "bt_remove k kvs = filter (\<lambda>kv. fst kv \<noteq> k) kvs"

subsection \<open>Configuration and state (config.rs; wal.rs, lines 29--116; stats.rs)\<close>

datatype fsync_policy = FsyncNone | Batched | Each

record wal_config =
  wc_enabled :: bool
  wc_fsync_policy :: fsync_policy
  wc_fsync_interval_ms :: nat
  wc_fsync_batch_bytes :: nat
  wc_segment_size_max :: nat
  wc_retention_bytes :: nat

definition wal_config_default :: wal_config where
  "wal_config_default = \<lparr>wc_enabled = True, wc_fsync_policy = Batched, wc_fsync_interval_ms = 5,
     wc_fsync_batch_bytes = 1024 * 1024, wc_segment_size_max = 64 * 1024 * 1024,
     wc_retention_bytes = 1024 * 1024 * 1024\<rparr>"

definition wal_config_disabled :: wal_config where
  "wal_config_disabled = wal_config_default\<lparr>wc_enabled := False\<rparr>"

datatype wal_error =
    WalIo io_error
  | WalWriter writer_error
  | WalReader reader_error
  | CursorTooOld u64 u64
  | Poisoned
  | WalPayloadTooLarge nat

record wal_inner =
  wi_segments :: "(u64 \<times> string) list"
  wi_sizes :: "(u64 \<times> nat) list"
  wi_active_bytes :: nat
  wi_retained_bytes :: nat
  wi_writer :: "seg_writer option"

record wal = wal_inner +
  w_cfg :: wal_config
  w_durable :: u64
  w_pending :: u64
  w_poisoned :: bool
  w_wall_base :: u64
  w_appends :: nat
  w_append_bytes :: nat
  w_flushes :: nat

record wal_stats =
  ws_pending :: u64
  ws_durable :: u64
  ws_oldest :: u64
  ws_active_bytes :: nat
  ws_total_bytes :: nat
  ws_segments :: nat
  ws_appends :: nat
  ws_append_bytes :: nat
  ws_flushes :: nat

text \<open>Sequencing: an error ends the operation with the state reached.\<close>

definition and_then ::
    "('e + 'a) \<times> 's \<times> disk \<Rightarrow> ('a \<Rightarrow> 's \<Rightarrow> disk \<Rightarrow> ('e + 'b) \<times> 's \<times> disk) \<Rightarrow> ('e + 'b) \<times> 's \<times> disk" where
  "and_then r k = (case r of (Inl e, s, d) \<Rightarrow> (Inl e, s, d) | (Inr x, s, d) \<Rightarrow> k x s d)"

lemma and_then_simps [simp]:
  "and_then (Inl e, s, d) k = (Inl e, s, d)" "and_then (Inr x, s, d) k = k x s d"
  by (simp_all add: and_then_def)

subsection \<open>Opening (wal.rs, lines 119--252)\<close>

text \<open>The scan over the directory entries: recover each segment and index it.\<close>

fun open_scan ::
    "(bytes \<Rightarrow> u32) \<Rightarrow> string list \<Rightarrow> (u64 \<times> string) list \<times> (u64 \<times> nat) list \<Rightarrow> disk
      \<Rightarrow> (wal_error + unit) \<times> ((u64 \<times> string) list \<times> (u64 \<times> nat) list) \<times> disk" where
  "open_scan crc [] idx d = (Inr (), idx, d)"
| "open_scan crc (name # names) (segments, sizes) d = (case seg_key name of
      None \<Rightarrow> open_scan crc names (segments, sizes) d
    | Some first \<Rightarrow> (case recover_truncate crc name d of
        (Inl e, d') \<Rightarrow> (Inl (WalReader e), (segments, sizes), d')
      | (Inr _, d') \<Rightarrow> (case lookup d' name of
          None \<Rightarrow> (Inl (WalIo IoNotFound), (segments, sizes), d')
        | Some f \<Rightarrow> open_scan crc names
            (bt_insert first name segments, bt_insert first (length (f_content f)) sizes) d')))"

text \<open>The active segment: a new one after the last record found, or none yet.\<close>

definition open_active ::
    "(bytes \<Rightarrow> u32) \<Rightarrow> u64 \<Rightarrow> (u64 \<times> string) list \<times> (u64 \<times> nat) list \<Rightarrow> disk
      \<Rightarrow> (wal_error + seg_writer option \<times> u64 \<times> nat) \<times> ((u64 \<times> string) list \<times> (u64 \<times> nat) list) \<times> disk" where
  "open_active crc created idx d = (case idx of (segments, sizes) \<Rightarrow>
     if segments = [] then (Inr (None, 0, 0), idx, d)
     else
       let last_first_cursor = fst (last segments) in
       (case seg_open (snd (last segments)) d of
          Inl e \<Rightarrow> (Inl (WalReader e), idx, d)
        | Inr reader \<Rightarrow>
            let rs = iter_records crc reader;
                next_cursor = (if rs = [] then last_first_cursor else r_cursor (last rs) + 1)
            in if next_cursor = last_first_cursor then (Inr (None, last_first_cursor, 0), idx, d)
               else (case seg_create created (seg_name next_cursor) next_cursor d of
                   (Inl e, d') \<Rightarrow> (Inl (WalWriter e), idx, d')
                 | (Inr w, d') \<Rightarrow>
                     (Inr (Some w, next_cursor, sw_bytes w),
                      (bt_insert next_cursor (seg_name next_cursor) segments,
                       bt_insert next_cursor (sw_bytes w) sizes), d'))))"

definition wal_open ::
    "(bytes \<Rightarrow> u32) \<Rightarrow> u64 \<Rightarrow> wal_config \<Rightarrow> disk \<Rightarrow> (wal_error + wal) \<times> disk" where
  "wal_open crc now cfg d =
    (case and_then (open_scan crc (map fst (d_files d)) ([], []) d) (\<lambda>_. open_active crc now) of
       (Inl e, _, d') \<Rightarrow> (Inl e, d')
     | (Inr (writer, pending, active_bytes), (segments, sizes), d') \<Rightarrow>
         let sizes = (if segments \<noteq> [] \<and> active_bytes > 0 then bt_remove (fst (last segments)) sizes
                      else sizes)
         in (Inr \<lparr>wi_segments = segments, wi_sizes = sizes, wi_active_bytes = active_bytes,
                  wi_retained_bytes = sum_list (map snd sizes), wi_writer = writer, w_cfg = cfg,
                  w_durable = pending, w_pending = pending, w_poisoned = False, w_wall_base = now,
                  w_appends = 0, w_append_bytes = 0, w_flushes = 0\<rparr>, d'))"

definition current_ts :: "wal \<Rightarrow> nat \<Rightarrow> u64" where
  "current_ts w elapsed_nanos =
    (let s = unat (w_wall_base w) + unat (of_nat elapsed_nanos :: u64) in
     if 2 ^ 64 \<le> s then - 1 else of_nat s)"

subsection \<open>Rotation and retention (wal.rs, lines 433--475)\<close>

definition retire_writer :: "wal \<Rightarrow> disk \<Rightarrow> (wal_error + unit) \<times> wal \<times> disk" where
  "retire_writer w d = (case wi_writer w of
      None \<Rightarrow> (Inr (), w, d)
    | Some sw \<Rightarrow> (case seg_close sw d of
        (Inl e, d') \<Rightarrow> (Inl (WalWriter e), w\<lparr>wi_writer := None\<rparr>, d')
      | (Inr _, d') \<Rightarrow>
          (Inr (), w\<lparr>wi_writer := None, wi_sizes := bt_insert (sw_first sw) (sw_bytes sw) (wi_sizes w),
                    wi_retained_bytes := wi_retained_bytes w + sw_bytes sw\<rparr>, d')))"

definition new_segment :: "u64 \<Rightarrow> u64 \<Rightarrow> wal \<Rightarrow> disk \<Rightarrow> (wal_error + unit) \<times> wal \<times> disk" where
  "new_segment created first w d = (case seg_create created (seg_name first) first d of
      (Inl e, d') \<Rightarrow> (Inl (WalWriter e), w, d')
    | (Inr sw, d') \<Rightarrow>
        (Inr (), w\<lparr>wi_segments := bt_insert first (seg_name first) (wi_segments w),
                  wi_active_bytes := sw_bytes sw, wi_writer := Some sw\<rparr>, d'))"

definition rotate_locked :: "u64 \<Rightarrow> u64 \<Rightarrow> wal \<Rightarrow> disk \<Rightarrow> (wal_error + unit) \<times> wal \<times> disk" where
  "rotate_locked created first w d = and_then (retire_writer w d) (\<lambda>_. new_segment created first)"

definition oldest_inactive :: "wal \<Rightarrow> u64 option" where
  "oldest_inactive w =
    (let active_first = (case wi_writer w of None \<Rightarrow> - 1 | Some sw \<Rightarrow> sw_first sw)
     in find (\<lambda>k. k \<noteq> active_first) (map fst (wi_segments w)))"

definition drop_segment :: "u64 \<Rightarrow> wal \<Rightarrow> disk \<Rightarrow> wal \<times> disk" where
  "drop_segment k w d =
    (let (w, d) = (case map_of (wi_segments w) k of
           None \<Rightarrow> (w, d)
         | Some path \<Rightarrow> (w\<lparr>wi_segments := bt_remove k (wi_segments w)\<rparr>, remove_file path d))
     in (case map_of (wi_sizes w) k of
           None \<Rightarrow> (w, d)
         | Some sz \<Rightarrow>
             (w\<lparr>wi_sizes := bt_remove k (wi_sizes w),
                wi_retained_bytes := wi_retained_bytes w - sz\<rparr>, d)))"

lemma drop_segment_shrinks:
  assumes "oldest_inactive w = Some k" "drop_segment k w d = (w', d')"
  shows "length (wi_segments w') < length (wi_segments w)"
proof -
  from assms(1) have "k \<in> set (map fst (wi_segments w))"
    unfolding oldest_inactive_def Let_def by (metis (mono_tags, lifting) find_Some_iff nth_mem)
  moreover from this obtain path where "map_of (wi_segments w) k = Some path"
    by (metis dom_map_of_conv_image_fst domD list.set_map)
  ultimately show ?thesis
    using assms(2) by (auto simp: drop_segment_def bt_remove_def intro!: length_filter_less split: option.splits)
qed

function enforce_retention :: "wal \<Rightarrow> disk \<Rightarrow> wal \<times> disk" where
  "enforce_retention w d =
    (if wi_retained_bytes w + wi_active_bytes w \<le> wc_retention_bytes (w_cfg w) then (w, d)
     else case oldest_inactive w of
       None \<Rightarrow> (w, d)
     | Some k \<Rightarrow> (case drop_segment k w d of (w', d') \<Rightarrow> enforce_retention w' d'))"
  by pat_completeness auto
termination
  by (relation "measure (\<lambda>(w, d). length (wi_segments w))") (auto dest: drop_segment_shrinks [OF _ sym] split: prod.splits)

declare enforce_retention.simps [simp del]

subsection \<open>Appending and syncing (wal.rs, lines 265--356, 478--489)\<close>

definition ensure_writer :: "u64 \<Rightarrow> u64 \<Rightarrow> wal \<Rightarrow> disk \<Rightarrow> (wal_error + unit) \<times> wal \<times> disk" where
  "ensure_writer created cursor w d =
    (if wi_writer w = None then new_segment created cursor w d else (Inr (), w, d))"

definition rotate_if_full :: "u64 \<Rightarrow> u64 \<Rightarrow> nat \<Rightarrow> wal \<Rightarrow> disk \<Rightarrow> (wal_error + unit) \<times> wal \<times> disk" where
  "rotate_if_full created cursor record_bytes w d =
    (if wi_active_bytes w + record_bytes > wc_segment_size_max (w_cfg w)
     then rotate_locked created cursor w d else (Inr (), w, d))"

definition append_active ::
    "(bytes \<Rightarrow> u32) \<Rightarrow> u64 \<Rightarrow> u64 \<Rightarrow> bytes \<Rightarrow> wal \<Rightarrow> disk \<Rightarrow> (wal_error + unit) \<times> wal \<times> disk" where
  "append_active crc cursor ts payload w d =
    (let sw = the (wi_writer w) in
     (case seg_append crc sw cursor ts payload d of
        (Inl e, sw', d') \<Rightarrow> (Inl (WalWriter e), w\<lparr>wi_writer := Some sw'\<rparr>, d')
      | (Inr _, sw', d') \<Rightarrow>
          (Inr (), w\<lparr>wi_writer := Some sw', wi_active_bytes := sw_bytes sw', w_pending := sw_pending sw',
                    w_appends := w_appends w + 1,
                    w_append_bytes := w_append_bytes w + length payload\<rparr>, d')))"

text \<open>Flush and sync the active segment, if there is one.\<close>

definition wal_fsync :: "wal \<Rightarrow> disk \<Rightarrow> (wal_error + unit) \<times> wal \<times> disk" where
  "wal_fsync w d = (case wi_writer w of
      None \<Rightarrow> (Inr (), w, d)
    | Some sw \<Rightarrow> (case seg_fsync sw d of
        (Inl e, sw', d') \<Rightarrow> (Inl (WalWriter e), w\<lparr>wi_writer := Some sw'\<rparr>, d')
      | (Inr durable, sw', d') \<Rightarrow>
          (Inr (), w\<lparr>wi_writer := Some sw', w_durable := durable, w_flushes := w_flushes w + 1\<rparr>, d')))"

definition sync_if_each :: "wal \<Rightarrow> disk \<Rightarrow> (wal_error + unit) \<times> wal \<times> disk" where
  "sync_if_each w d = (if wc_fsync_policy (w_cfg w) = Each then wal_fsync w d else (Inr (), w, d))"

definition retain :: "wal \<Rightarrow> disk \<Rightarrow> (wal_error + unit) \<times> wal \<times> disk" where
  "retain w d =
    (if wi_retained_bytes w + wi_active_bytes w > wc_retention_bytes (w_cfg w)
     then (case enforce_retention w d of (w', d') \<Rightarrow> (Inr (), w', d'))
     else (Inr (), w, d))"

definition wal_append ::
    "(bytes \<Rightarrow> u32) \<Rightarrow> u64 \<Rightarrow> u64 \<Rightarrow> u64 \<Rightarrow> bytes \<Rightarrow> wal \<Rightarrow> disk \<Rightarrow> (wal_error + unit) \<times> wal \<times> disk" where
  "wal_append crc created cursor ts payload w d =
    (if \<not> wc_enabled (w_cfg w) then (Inr (), w, d)
     else if length payload > MAX_PAYLOAD_LEN then (Inl (WalPayloadTooLarge (length payload)), w, d)
     else if w_poisoned w then (Inl Poisoned, w, d)
     else
       and_then (ensure_writer created cursor w d) (\<lambda>_ w d.
       and_then (rotate_if_full created cursor (RECORD_FRAMING + length payload) w d) (\<lambda>_ w d.
       and_then (append_active crc cursor ts payload w d) (\<lambda>_ w d.
       and_then (sync_if_each w d) (\<lambda>_ w d.
       retain w d)))))"

definition bump_generation :: "u64 \<Rightarrow> wal \<Rightarrow> disk \<Rightarrow> (wal_error + unit) \<times> wal \<times> disk" where
  "bump_generation created w d = (case wi_writer w of
      None \<Rightarrow> (Inr (), w, d)
    | Some sw \<Rightarrow> rotate_locked created (sw_pending sw) w d)"

definition wal_drop :: "wal \<Rightarrow> disk \<Rightarrow> disk" where
  "wal_drop w d = (if wc_enabled (w_cfg w) then snd (snd (wal_fsync w d)) else d)"

subsection \<open>The flusher (wal.rs, lines 547--599)\<close>

text \<open>Under the mutex: flush the buffer and clone the descriptor. \<open>None\<close>: nothing to do, or the
  thread has poisoned the log and ended.\<close>

definition flusher_begin :: "wal \<Rightarrow> disk \<Rightarrow> (string \<times> u64) option \<times> wal \<times> disk" where
  "flusher_begin w d = (case wi_writer w of
      None \<Rightarrow> (None, w, d)
    | Some sw \<Rightarrow> (case flush_for_external_fsync sw d of
        (Inl e, sw', d') \<Rightarrow> (None, w\<lparr>wi_writer := Some sw', w_poisoned := True\<rparr>, d')
      | (Inr tick, sw', d') \<Rightarrow> (Some tick, w\<lparr>wi_writer := Some sw'\<rparr>, d')))"

text \<open>After the mutex is released: sync the clone and publish the cursor taken before.\<close>

definition flusher_end :: "string \<times> u64 \<Rightarrow> wal \<Rightarrow> disk \<Rightarrow> wal \<times> disk" where
  "flusher_end tick w d = (case sync_file (fst tick) d of
      (Inl e, d') \<Rightarrow> (w\<lparr>w_poisoned := True\<rparr>, d')
    | (Inr _, d') \<Rightarrow> (w\<lparr>w_durable := snd tick, w_flushes := w_flushes w + 1\<rparr>, d'))"

subsection \<open>Reading (wal.rs, lines 373--431, 491--543; reader.rs)\<close>

record replayer =
  rp_segments :: "string list"
  rp_floor :: u64
  rp_current :: "seg_reader option"

definition replayer_new :: "string list \<Rightarrow> u64 \<Rightarrow> replayer" where
  "replayer_new segments floor = \<lparr>rp_segments = segments, rp_floor = floor, rp_current = None\<rparr>"

definition oldest_cursor :: "(u64 \<times> string) list \<Rightarrow> u64 option" where
  "oldest_cursor segments = (case segments of [] \<Rightarrow> None | (k, _) # _ \<Rightarrow> Some k)"

definition index_read_from :: "u64 \<Rightarrow> (u64 \<times> string) list \<Rightarrow> wal_error + replayer" where
  "index_read_from cursor segments = (case oldest_cursor segments of
      None \<Rightarrow> Inr (replayer_new [] cursor)
    | Some oldest \<Rightarrow>
        if cursor < oldest then Inl (CursorTooOld cursor oldest)
        else
          let below = filter (\<lambda>k. k \<le> cursor) (map fst segments);
              containing_first = (if below = [] then oldest else last below)
          in Inr (replayer_new (map snd (filter (\<lambda>kv. containing_first \<le> fst kv) segments)) cursor))"

definition wal_read_from :: "u64 \<Rightarrow> wal \<Rightarrow> wal_error + replayer" where
  "wal_read_from cursor w = index_read_from cursor (wi_segments w)"

definition wal_oldest_cursor :: "wal \<Rightarrow> u64" where
  "wal_oldest_cursor w = (case oldest_cursor (wi_segments w) of None \<Rightarrow> 0 | Some k \<Rightarrow> k)"

definition wal_get_stats :: "wal \<Rightarrow> wal_stats" where
  "wal_get_stats w = \<lparr>ws_pending = w_pending w, ws_durable = w_durable w, ws_oldest = wal_oldest_cursor w,
     ws_active_bytes = wi_active_bytes w, ws_total_bytes = wi_retained_bytes w + wi_active_bytes w,
     ws_segments = length (wi_segments w), ws_appends = w_appends w,
     ws_append_bytes = w_append_bytes w, ws_flushes = w_flushes w\<rparr>"

text \<open>The subscriber's view: the directory listing, without recovery. \<open>None\<close>: no directory.\<close>

fun index_names :: "string list \<Rightarrow> (u64 \<times> string) list \<Rightarrow> (u64 \<times> string) list" where
  "index_names [] segments = segments"
| "index_names (name # names) segments = (case seg_key name of
      None \<Rightarrow> index_names names segments
    | Some first \<Rightarrow> index_names names (bt_insert first name segments))"

definition wal_reader_open :: "disk option \<Rightarrow> (u64 \<times> string) list" where
  "wal_reader_open dir = (case dir of None \<Rightarrow> [] | Some d \<Rightarrow> index_names (map fst (d_files d)) [])"

definition wal_reader_read_from :: "u64 \<Rightarrow> (u64 \<times> string) list \<Rightarrow> wal_error + replayer" where
  "wal_reader_read_from cursor reader = index_read_from cursor reader"

text \<open>\<open>WalReplayer::next\<close>.\<close>

definition replayer_left :: "replayer \<Rightarrow> nat" where
  "replayer_left rp = (case rp_current rp of None \<Rightarrow> 0 | Some r \<Rightarrow> Suc (reader_left r))"

function replayer_next ::
    "(bytes \<Rightarrow> u32) \<Rightarrow> disk \<Rightarrow> replayer \<Rightarrow> (wal_error + wal_record) option \<times> replayer" where
  "replayer_next crc d rp = (case rp_current rp of
      None \<Rightarrow> (case rp_segments rp of
          [] \<Rightarrow> (None, rp)
        | path # paths \<Rightarrow> (case seg_open path d of
            Inl e \<Rightarrow> (Some (Inl (WalReader e)), rp\<lparr>rp_segments := paths\<rparr>)
          | Inr r \<Rightarrow> replayer_next crc d (rp\<lparr>rp_segments := paths, rp_current := Some r\<rparr>)))
    | Some r \<Rightarrow> (case next_record crc r of
        (Some (Inr x), r') \<Rightarrow>
          if r_cursor x < rp_floor rp then replayer_next crc d (rp\<lparr>rp_current := Some r'\<rparr>)
          else (Some (Inr x), rp\<lparr>rp_current := Some r'\<rparr>)
      | (Some (Inl e), r') \<Rightarrow> (Some (Inl (WalReader e)), rp\<lparr>rp_current := Some r'\<rparr>)
      | (None, r') \<Rightarrow> replayer_next crc d (rp\<lparr>rp_current := None\<rparr>)))"
  by pat_completeness auto
termination
  by (relation "measures [\<lambda>(crc, d, rp). length (rp_segments rp), \<lambda>(crc, d, rp). replayer_left rp]")
     (auto simp: replayer_left_def dest: next_record_left [OF sym])

declare replayer_next.simps [simp del]

end
