(* ===== verification/Publisher.thy ===== *)
theory Publisher
  imports Ring Wal
begin

text \<open>
  The producer handle of a topic: \<open>crates/mmbus/src/publisher.rs\<close>, with the errors of
  \<open>error.rs\<close>, the configuration of \<open>config.rs\<close> and the statistics of \<open>stats.rs\<close>. A topic is the
  publisher with the memory map of its ring and the directory of its log. What the operating system
  decides is an argument: the connections \<open>accept\<close> yields until it would block, whether the peer of
  a client still holds its end of the wakeup channel, and the clock. A wakeup is recorded by the
  identity of the channel it is sent on.
\<close>

subsection \<open>Errors and configuration (error.rs; config.rs)\<close>

datatype bus_error =
    BusIo io_error
  | Full
  | TooLarge nat nat
  | Timeout string
  | TooManySubscribers u32
  | AlreadyPublishing string
  | BusCursorTooOld u64 u64
  | BusWal wal_error

datatype backpressure = ErrorPolicy | DropOldest

record bus_config =
  cf_slot_size :: u32
  cf_capacity :: u32
  cf_base_dir :: string
  cf_max_subscribers :: u32
  cf_backpressure :: backpressure
  cf_wal :: wal_config

definition bus_config_default :: "string \<Rightarrow> bus_config" where
  "bus_config_default base_dir = \<lparr>cf_slot_size = 64 * 1024, cf_capacity = 256, cf_base_dir = base_dir,
     cf_max_subscribers = 16, cf_backpressure = ErrorPolicy, cf_wal = wal_config_default\<rparr>"

subsection \<open>State (lines 29--55, 85--130; stats.rs)\<close>

record client =
  cl_idx :: nat
  cl_chan :: nat

record publisher =
  pb_ring :: ring
  pb_clients :: "client list"
  pb_policy :: backpressure
  pb_wal :: "wal option"
  pb_published :: nat
  pb_full_rejected :: nat
  pb_dropped :: nat
  pb_wakeups :: nat

record topic = publisher +
  tp_map :: bytes
  tp_disk :: disk
  tp_signals :: "nat list"

record penv =
  en_accepts :: "(io_error + client) list"
  en_open :: "client \<Rightarrow> bool"
  en_created :: "nat \<Rightarrow> u64"
  en_elapsed :: "nat \<Rightarrow> nat"

record topic_stats =
  ts_ring :: ring_stats
  ts_connected_sockets :: nat
  ts_wal :: "wal_stats option"
  ts_published :: nat
  ts_full_rejected :: nat
  ts_dropped :: nat
  ts_wakeups :: nat

subsection \<open>Creating (lines 132--211)\<close>

text \<open>The producer lock and the signal socket are results of their own; the ring file is \<open>None\<close>
  while it does not exist.\<close>

definition publisher_create ::
    "(bytes \<Rightarrow> u32) \<Rightarrow> u64 \<Rightarrow> bus_config \<Rightarrow> bus_error + unit \<Rightarrow> io_error + unit \<Rightarrow> bytes option \<Rightarrow> disk
      \<Rightarrow> ((bus_error + topic) \<times> bytes option \<times> disk) option" where
  "publisher_create crc now cfg lock bound file d = (case lock of
      Inl e \<Rightarrow> Some (Inl e, file, d)
    | Inr _ \<Rightarrow> (case ring_create_or_reuse file (cf_capacity cfg) (cf_slot_size cfg) (cf_max_subscribers cfg) of
        None \<Rightarrow> None
      | Some (r, m) \<Rightarrow>
         (let (opened, d', m') =
            (if wc_enabled (cf_wal cfg) then (case wal_open crc now (cf_wal cfg) d of
                (Inl e, d') \<Rightarrow> (Inl (BusWal e), d', m)
              | (Inr w, d') \<Rightarrow> (Inr (Some w), d',
                  if w_pending w > current_tail m then set_tail m (w_pending w) else m))
             else (Inr None, d, m))
          in (case opened of
             Inl e \<Rightarrow> Some (Inl e, Some m', d')
           | Inr wal \<Rightarrow> (case bound of
               Inl e \<Rightarrow> Some (Inl (BusIo e), Some m', d')
             | Inr _ \<Rightarrow> Some (Inr \<lparr>pb_ring = r, pb_clients = [], pb_policy = cf_backpressure cfg,
                  pb_wal = wal, pb_published = 0, pb_full_rejected = 0, pb_dropped = 0, pb_wakeups = 0,
                  tp_map = m', tp_disk = d', tp_signals = []\<rparr>, Some m', d'))))))"

subsection \<open>Clients (lines 451--510, 346--407)\<close>

text \<open>An accepted connection becomes a client when its handshake is read; the first error ends the
  call.\<close>

fun accept_clients :: "(io_error + client) list \<Rightarrow> client list \<Rightarrow> (bus_error + unit) \<times> client list" where
  "accept_clients [] cs = (Inr (), cs)"
| "accept_clients (Inr c # pending) cs = accept_clients pending (cs @ [c])"
| "accept_clients (Inl e # pending) cs = (Inl (BusIo e), cs)"

definition swap_remove :: "nat \<Rightarrow> 'a list \<Rightarrow> 'a list" where
  "swap_remove i xs = butlast (xs[i := last xs])"

definition drop_client :: "nat \<Rightarrow> topic \<Rightarrow> topic" where
  "drop_client i t = t\<lparr>pb_clients := swap_remove i (pb_clients t), pb_dropped := pb_dropped t + 1\<rparr>"

definition send_wakeup :: "client \<Rightarrow> topic \<Rightarrow> topic" where
  "send_wakeup c t = t\<lparr>pb_wakeups := pb_wakeups t + 1, tp_signals := tp_signals t @ [cl_chan c]\<rparr>"

function broadcast_from :: "(client \<Rightarrow> bool) \<Rightarrow> nat \<Rightarrow> topic \<Rightarrow> topic" where
  "broadcast_from peer_open i t =
    (if length (pb_clients t) \<le> i then t
     else
       let c = pb_clients t ! i in
       if cursor_is_unclaimed (tp_map t) (cl_idx c) then broadcast_from peer_open i (drop_client i t)
       else (case take_wakeflag (pb_ring t) (tp_map t) (cl_idx c) of (waiting, m) \<Rightarrow>
         if \<not> waiting then broadcast_from peer_open (i + 1) (t\<lparr>tp_map := m\<rparr>)
         else if peer_open c then broadcast_from peer_open (i + 1) (send_wakeup c (t\<lparr>tp_map := m\<rparr>))
         else broadcast_from peer_open i (drop_client i (send_wakeup c (t\<lparr>tp_map := m\<rparr>)))))"
  by pat_completeness auto
termination
  by (relation "measure (\<lambda>(_, i, t). length (pb_clients t) - i)")
     (auto simp: drop_client_def swap_remove_def send_wakeup_def)

declare broadcast_from.simps [simp del]

definition broadcast_wakeup :: "(client \<Rightarrow> bool) \<Rightarrow> topic \<Rightarrow> topic" where
  "broadcast_wakeup peer_open t = (if pb_clients t = [] then t else broadcast_from peer_open 0 t)"

subsection \<open>Publishing (lines 213--344)\<close>

text \<open>The log first: a full ring is refused before anything is written. \<open>n\<close> numbers the record in
  the call, for the clock.\<close>

definition wal_stage :: "(bytes \<Rightarrow> u32) \<Rightarrow> penv \<Rightarrow> nat \<Rightarrow> bytes \<Rightarrow> topic \<Rightarrow> (bus_error + unit) \<times> topic" where
  "wal_stage crc env n data t = (case pb_wal t of
      None \<Rightarrow> (Inr (), t)
    | Some w \<Rightarrow>
        if pb_policy t = ErrorPolicy \<and> is_full (pb_ring t) (tp_map t) then (Inl Full, t)
        else (case wal_append crc (en_created env n) (current_tail (tp_map t)) (current_ts w (en_elapsed env n))
                     data w (tp_disk t) of
            (Inl e, w', d') \<Rightarrow> (Inl (BusWal e), t\<lparr>pb_wal := Some w', tp_disk := d'\<rparr>)
          | (Inr _, w', d') \<Rightarrow> (Inr (), t\<lparr>pb_wal := Some w', tp_disk := d'\<rparr>)))"

definition ring_stage :: "bytes \<Rightarrow> topic \<Rightarrow> (bool \<times> topic) option" where
  "ring_stage data t =
    map_option (\<lambda>(published, m). (published, t\<lparr>tp_map := m\<rparr>))
      (case pb_policy t of
         ErrorPolicy \<Rightarrow> try_publish (pb_ring t) (tp_map t) data
       | DropOldest \<Rightarrow> publish_drop_oldest (pb_ring t) (tp_map t) data)"

definition publish :: "(bytes \<Rightarrow> u32) \<Rightarrow> penv \<Rightarrow> bytes \<Rightarrow> topic \<Rightarrow> ((bus_error + unit) \<times> topic) option" where
  "publish crc env data t =
    (if length data > unat (slot_payload_size (pb_ring t))
     then Some (Inl (TooLarge (length data) (unat (slot_payload_size (pb_ring t)))), t)
     else case accept_clients (en_accepts env) (pb_clients t) of
       (Inl e, cs) \<Rightarrow> Some (Inl e, t\<lparr>pb_clients := cs\<rparr>)
     | (Inr _, cs) \<Rightarrow> (case wal_stage crc env 0 data (t\<lparr>pb_clients := cs\<rparr>) of
         (Inl e, t') \<Rightarrow> Some (Inl e, t')
       | (Inr _, t') \<Rightarrow> (case ring_stage data t' of
           None \<Rightarrow> None
         | Some (False, t'') \<Rightarrow> Some (Inl Full, t''\<lparr>pb_full_rejected := pb_full_rejected t'' + 1\<rparr>)
         | Some (True, t'') \<Rightarrow>
             Some (Inr (), broadcast_wakeup (en_open env) (t''\<lparr>pb_published := pb_published t'' + 1\<rparr>)))))"

text \<open>The loop over a batch: the error that ended it, if any, the number of records written, and
  the topic.\<close>

fun publish_loop ::
    "(bytes \<Rightarrow> u32) \<Rightarrow> penv \<Rightarrow> nat \<Rightarrow> bytes list \<Rightarrow> topic \<Rightarrow> (bus_error option \<times> nat \<times> topic) option" where
  "publish_loop crc env n [] t = Some (None, n, t)"
| "publish_loop crc env n (data # items) t =
    (if length data > unat (slot_payload_size (pb_ring t))
     then Some (Some (TooLarge (length data) (unat (slot_payload_size (pb_ring t)))), n, t)
     else case wal_stage crc env n data t of
       (Inl e, t') \<Rightarrow> Some (if e = Full then None else Some e, n, t')
     | (Inr _, t') \<Rightarrow> (case ring_stage data t' of
         None \<Rightarrow> None
       | Some (False, t'') \<Rightarrow> Some (None, n, t'')
       | Some (True, t'') \<Rightarrow> publish_loop crc env (n + 1) items t''))"

definition publish_many ::
    "(bytes \<Rightarrow> u32) \<Rightarrow> penv \<Rightarrow> bytes list \<Rightarrow> topic \<Rightarrow> ((bus_error + nat) \<times> topic) option" where
  "publish_many crc env items t = (case accept_clients (en_accepts env) (pb_clients t) of
      (Inl e, cs) \<Rightarrow> Some (Inl e, t\<lparr>pb_clients := cs\<rparr>)
    | (Inr _, cs) \<Rightarrow> (case publish_loop crc env 0 items (t\<lparr>pb_clients := cs\<rparr>) of
        None \<Rightarrow> None
      | Some (Some e, count, t') \<Rightarrow>
          Some (Inl e, if count > 0 then broadcast_wakeup (en_open env) t' else t')
      | Some (None, count, t') \<Rightarrow>
          Some (Inr count,
            if count > 0 then broadcast_wakeup (en_open env) (t'\<lparr>pb_published := pb_published t' + count\<rparr>)
            else t')))"

subsection \<open>Waiting and monitoring (lines 409--449)\<close>

text \<open>Each turn of the wait: what is accepted, and whether the deadline has passed after it. The
  call has not returned (\<open>None\<close>) when the given turns are used up.\<close>

fun wait_for_subscribers ::
    "nat \<Rightarrow> ((io_error + client) list \<times> bool) list \<Rightarrow> topic \<Rightarrow> ((bus_error + unit) \<times> topic) option" where
  "wait_for_subscribers min_count [] t = None"
| "wait_for_subscribers min_count ((accepts, late) # turns) t =
    (case accept_clients accepts (pb_clients t) of
       (Inl e, cs) \<Rightarrow> Some (Inl e, t\<lparr>pb_clients := cs\<rparr>)
     | (Inr _, cs) \<Rightarrow>
         let t' = t\<lparr>pb_clients := cs\<rparr> in
         if length cs \<ge> min_count then Some (Inr (), t')
         else if late then Some (Inl (Timeout ''waiting for subscribers''), t')
         else wait_for_subscribers min_count turns t')"

definition publisher_stats :: "topic \<Rightarrow> topic_stats" where
  "publisher_stats t = \<lparr>ts_ring = stats (pb_ring t) (tp_map t), ts_connected_sockets = length (pb_clients t),
     ts_wal = map_option wal_get_stats (pb_wal t), ts_published = pb_published t,
     ts_full_rejected = pb_full_rejected t, ts_dropped = pb_dropped t, ts_wakeups = pb_wakeups t\<rparr>"

definition slow_subscribers :: "topic \<Rightarrow> u64 \<Rightarrow> (nat \<times> u64) list" where
  "slow_subscribers t threshold = filter (\<lambda>(idx, lag). lag \<ge> threshold) (lags_with_idx (pb_ring t) (tp_map t))"

end
