(* ===== verification/Publisher_Wakeups.thy ===== *)
theory Publisher_Wakeups
  imports Publisher Ring_Refine "HOL-Library.Multiset"
begin

text \<open>
  The broadcast of wakeups after a publish: which clients are woken, which are dropped, and what is
  left alone. The loop removes clients by swapping the last one in, so the clients are compared as
  multisets.
\<close>

subsection \<open>Swap-remove\<close>

lemma swap_remove_split:
  assumes "i < length xs"
  shows "take i (swap_remove i xs) = take i xs" "mset (drop i (swap_remove i xs)) = mset (drop (Suc i) xs)"
proof -
  obtain ys z where xs: "xs = ys @ [z]"
    using assms by (metis append_butlast_last_id length_0_conv less_nat_zero_code)
  show "take i (swap_remove i xs) = take i xs"
    using assms by (simp add: swap_remove_def xs list_update_append take_butlast butlast_append
        split: nat.split if_splits)
  show "mset (drop i (swap_remove i xs)) = mset (drop (Suc i) xs)"
  proof (cases "i = length ys")
    case True
    then show ?thesis
      by (simp add: swap_remove_def xs list_update_append)
  next
    case False
    then have i: "i < length ys"
      using assms by (simp add: xs)
    then have "swap_remove i xs = ys[i := z]"
      by (simp add: swap_remove_def xs list_update_append butlast_append)
    moreover have "drop i (ys[i := z]) = z # drop (Suc i) ys"
      using i by (simp add: drop_update_swap Cons_nth_drop_Suc [symmetric])
    ultimately show ?thesis
      using i by (simp add: xs)
  qed
qed

subsection \<open>What the broadcast decides\<close>

definition gone :: "bytes \<Rightarrow> client \<Rightarrow> bool" where
  "gone m c \<longleftrightarrow> cursor_is_unclaimed m (cl_idx c)"

definition waits :: "ring \<Rightarrow> bytes \<Rightarrow> client \<Rightarrow> bool" where
  "waits r m c \<longleftrightarrow> \<not> gone m c \<and> wakeflag_at r m (cl_idx c) = WAKEFLAG_WAITING"

definition stays :: "ring \<Rightarrow> bytes \<Rightarrow> (client \<Rightarrow> bool) \<Rightarrow> client \<Rightarrow> bool" where
  "stays r m peer_open c \<longleftrightarrow> \<not> gone m c \<and> (waits r m c \<longrightarrow> peer_open c)"

definition in_table :: "topic \<Rightarrow> bool" where
  "in_table t \<longleftrightarrow> (\<forall>c \<in> set (pb_clients t). cl_idx c < unat (max_subscribers (pb_ring t)))"

text \<open>Everything but clients, wakeup flags and the counters of the broadcast.\<close>

definition same_but_wakeups :: "topic \<Rightarrow> topic \<Rightarrow> bool" where
  "same_but_wakeups t t' \<longleftrightarrow> pb_ring t' = pb_ring t \<and> pb_policy t' = pb_policy t \<and> pb_wal t' = pb_wal t
     \<and> pb_published t' = pb_published t \<and> pb_full_rejected t' = pb_full_rejected t \<and> tp_disk t' = tp_disk t
     \<and> set (pb_clients t') \<subseteq> set (pb_clients t)"

lemma same_but_wakeups_refl [simp]: "same_but_wakeups t t"
  by (simp add: same_but_wakeups_def)

lemma same_but_wakeups_trans:
  "same_but_wakeups t t' \<Longrightarrow> same_but_wakeups t' t'' \<Longrightarrow> same_but_wakeups t t''"
  by (auto simp: same_but_wakeups_def)

lemma set_swap_remove: "i < length xs \<Longrightarrow> set (swap_remove i xs) \<subseteq> set xs"
  unfolding swap_remove_def
  by (metis in_set_butlastD last_in_set length_0_conv less_nat_zero_code set_update_subsetI subset_eq order_refl)

lemma drop_client_simps [simp]:
  "pb_ring (drop_client i t) = pb_ring t" "tp_map (drop_client i t) = tp_map t"
  "pb_clients (drop_client i t) = swap_remove i (pb_clients t)" "tp_signals (drop_client i t) = tp_signals t"
  "pb_wakeups (drop_client i t) = pb_wakeups t" "pb_dropped (drop_client i t) = pb_dropped t + 1"
  "i < length (pb_clients t) \<Longrightarrow> same_but_wakeups t (drop_client i t)"
  by (simp_all add: drop_client_def same_but_wakeups_def set_swap_remove)

lemma send_wakeup_simps [simp]:
  "pb_ring (send_wakeup c t) = pb_ring t" "tp_map (send_wakeup c t) = tp_map t"
  "pb_clients (send_wakeup c t) = pb_clients t" "tp_signals (send_wakeup c t) = tp_signals t @ [cl_chan c]"
  "pb_wakeups (send_wakeup c t) = pb_wakeups t + 1" "pb_dropped (send_wakeup c t) = pb_dropped t"
  "same_but_wakeups t (send_wakeup c t)"
  by (simp_all add: send_wakeup_def same_but_wakeups_def)

lemma take_wakeflag_simps:
  "take_wakeflag r m i = (wakeflag_at r m i = WAKEFLAG_WAITING, wr64 m (wakeflag_addr r i) 0)"
  by (simp add: take_wakeflag_def)

text \<open>The four turns of the loop.\<close>

lemma broadcast_from_cases:
  fixes t :: topic and i :: nat
  defines "c \<equiv> pb_clients t ! i" and "t1 \<equiv> t\<lparr>tp_map := wr64 (tp_map t) (wakeflag_addr (pb_ring t) (cl_idx (pb_clients t ! i))) 0\<rparr>"
  shows "broadcast_from peer_open i t =
    (if length (pb_clients t) \<le> i then t
     else if gone (tp_map t) c then broadcast_from peer_open i (drop_client i t)
     else if \<not> waits (pb_ring t) (tp_map t) c then broadcast_from peer_open (i + 1) t1
     else if peer_open c then broadcast_from peer_open (i + 1) (send_wakeup c t1)
     else broadcast_from peer_open i (drop_client i (send_wakeup c t1)))"
  by (subst broadcast_from.simps)
     (simp add: c_def t1_def gone_def waits_def take_wakeflag_simps Let_def)

lemma broadcast_from_induct [case_names stop gone idle woken dead]:
  assumes "\<And>i t. length (pb_clients t) \<le> i \<Longrightarrow> P i t t"
    and "\<And>i t t'. i < length (pb_clients t) \<Longrightarrow> gone (tp_map t) (pb_clients t ! i) \<Longrightarrow> P i (drop_client i t) t' \<Longrightarrow> P i t t'"
    and "\<And>i t t1 t'. i < length (pb_clients t) \<Longrightarrow> \<not> gone (tp_map t) (pb_clients t ! i)
      \<Longrightarrow> \<not> waits (pb_ring t) (tp_map t) (pb_clients t ! i)
      \<Longrightarrow> t1 = t\<lparr>tp_map := wr64 (tp_map t) (wakeflag_addr (pb_ring t) (cl_idx (pb_clients t ! i))) 0\<rparr>
      \<Longrightarrow> P (i + 1) t1 t' \<Longrightarrow> P i t t'"
    and "\<And>i t t1 t'. i < length (pb_clients t) \<Longrightarrow> waits (pb_ring t) (tp_map t) (pb_clients t ! i)
      \<Longrightarrow> peer_open (pb_clients t ! i)
      \<Longrightarrow> t1 = t\<lparr>tp_map := wr64 (tp_map t) (wakeflag_addr (pb_ring t) (cl_idx (pb_clients t ! i))) 0\<rparr>
      \<Longrightarrow> P (i + 1) (send_wakeup (pb_clients t ! i) t1) t' \<Longrightarrow> P i t t'"
    and "\<And>i t t1 t'. i < length (pb_clients t) \<Longrightarrow> waits (pb_ring t) (tp_map t) (pb_clients t ! i)
      \<Longrightarrow> \<not> peer_open (pb_clients t ! i)
      \<Longrightarrow> t1 = t\<lparr>tp_map := wr64 (tp_map t) (wakeflag_addr (pb_ring t) (cl_idx (pb_clients t ! i))) 0\<rparr>
      \<Longrightarrow> P i (drop_client i (send_wakeup (pb_clients t ! i) t1)) t' \<Longrightarrow> P i t t'"
  shows "P i t (broadcast_from peer_open i t)"
proof (induction "length (pb_clients t) - i" arbitrary: i t rule: less_induct)
  case less
  let ?c = "pb_clients t ! i"
  let ?t1 = "t\<lparr>tp_map := wr64 (tp_map t) (wakeflag_addr (pb_ring t) (cl_idx ?c)) 0\<rparr>"
  have len: "length (swap_remove i (pb_clients t)) = length (pb_clients t) - 1"
    by (simp add: swap_remove_def)
  consider "length (pb_clients t) \<le> i" | "i < length (pb_clients t)" "gone (tp_map t) ?c"
    | "i < length (pb_clients t)" "\<not> gone (tp_map t) ?c" "\<not> waits (pb_ring t) (tp_map t) ?c"
    | "i < length (pb_clients t)" "waits (pb_ring t) (tp_map t) ?c" "peer_open ?c"
    | "i < length (pb_clients t)" "waits (pb_ring t) (tp_map t) ?c" "\<not> peer_open ?c"
    by linarith
  then show ?case
  proof cases
    case 1
    then show ?thesis
      using assms(1) by (simp add: broadcast_from_cases [of peer_open i t])
  next
    case 2
    then show ?thesis
      using less [of "drop_client i t" i] len assms(2)
      by (simp add: broadcast_from_cases [of peer_open i t])
  next
    case 3
    then show ?thesis
      using less [of ?t1 "i + 1"] assms(3) [OF 3 refl]
      by (simp add: broadcast_from_cases [of peer_open i t])
  next
    case 4
    then have "\<not> gone (tp_map t) ?c"
      by (simp add: waits_def)
    then show ?thesis
      using less [of "send_wakeup ?c ?t1" "i + 1"] 4 assms(4) [OF 4 refl]
      by (simp add: broadcast_from_cases [of peer_open i t])
  next
    case 5
    then have "\<not> gone (tp_map t) ?c"
      by (simp add: waits_def)
    then show ?thesis
      using less [of "drop_client i (send_wakeup ?c ?t1)" i] len 5 assms(5) [OF 5 refl]
      by (simp add: broadcast_from_cases [of peer_open i t])
  qed
qed

text \<open>The broadcast leaves the ring's log and cursors alone.\<close>

lemma in_table_nth: "in_table t \<Longrightarrow> i < length (pb_clients t) \<Longrightarrow> cl_idx (pb_clients t ! i) < unat (max_subscribers (pb_ring t))"
  by (simp add: in_table_def)

lemma in_table_same: "in_table t \<Longrightarrow> same_but_wakeups t t' \<Longrightarrow> in_table t'"
  by (auto simp: in_table_def same_but_wakeups_def)

lemma same_map_update [simp]: "same_but_wakeups t (t\<lparr>tp_map := m\<rparr>)"
  by (simp add: same_but_wakeups_def)

lemma broadcast_from_frame:
  "ring_refines (pb_ring t) (tp_map t) a \<longrightarrow> in_table t \<longrightarrow>
    ring_refines (pb_ring t) (tp_map (broadcast_from peer_open i t)) a
    \<and> same_but_wakeups t (broadcast_from peer_open i t)" (is "?P i t (broadcast_from peer_open i t)")
proof (rule broadcast_from_induct [where P = ?P])
  fix i :: nat and t t' :: topic
  assume *: "i < length (pb_clients t)" "?P i (drop_client i t) t'"
  then have "same_but_wakeups t (drop_client i t)"
    by simp
  then show "?P i t t'"
    using *(2) in_table_same same_but_wakeups_trans by (metis drop_client_simps(1,2))
next
  fix i :: nat and t t1 t' :: topic
  let ?c = "pb_clients t ! i"
  assume i: "i < length (pb_clients t)"
    and t1: "t1 = t\<lparr>tp_map := wr64 (tp_map t) (wakeflag_addr (pb_ring t) (cl_idx (pb_clients t ! i))) 0\<rparr>"
  have step: "?P i t t'" if u: "same_but_wakeups t1 u" "pb_ring u = pb_ring t1" "tp_map u = tp_map t1" "?P j u t'" for u j
  proof (intro impI)
    assume R: "ring_refines (pb_ring t) (tp_map t) a" "in_table t"
    have same: "same_but_wakeups t u"
      using u(1) t1 by (metis same_map_update same_but_wakeups_trans)
    have "ring_refines (pb_ring u) (tp_map u) a"
      using wakeflag_refines [OF R(1) in_table_nth [OF R(2) i]] u(2,3) by (simp add: t1)
    then have "ring_refines (pb_ring u) (tp_map t') a \<and> same_but_wakeups u t'"
      using u(4) in_table_same [OF R(2) same] by blast
    then show "ring_refines (pb_ring t) (tp_map t') a \<and> same_but_wakeups t t'"
      using same same_but_wakeups_trans u(2) by (simp add: t1)
  qed
  {
    assume "?P (i + 1) t1 t'"
    then show "?P i t t'"
      by (rule step [rotated -1]) simp_all
  next
    assume "?P (i + 1) (send_wakeup ?c t1) t'"
    then show "?P i t t'"
      by (rule step [rotated -1]) simp_all
  next
    assume "?P i (drop_client i (send_wakeup ?c t1)) t'"
    moreover have "i < length (pb_clients (send_wakeup ?c t1))"
      using i by (simp add: t1)
    then have "same_but_wakeups t1 (drop_client i (send_wakeup ?c t1))"
      using same_but_wakeups_trans [OF send_wakeup_simps(7) drop_client_simps(7)] by blast
    ultimately show "?P i t t'"
      by (intro step [of "drop_client i (send_wakeup ?c t1)"]) simp_all
  }
qed simp_all

text \<open>Clearing one flag does not change what is decided about clients in other slots.\<close>

lemma cleared_flag:
  assumes "mapped r m" "k < unat (max_subscribers r)"
    and "\<forall>c \<in># M. cl_idx c < unat (max_subscribers r) \<and> cl_idx c \<noteq> k"
  defines "m' \<equiv> wr64 m (wakeflag_addr r k) 0"
  shows "filter_mset (waits r m') M = filter_mset (waits r m) M"
    "filter_mset (stays r m' peer_open) M = filter_mset (stays r m peer_open) M"
proof -
  have "waits r m' c = waits r m c \<and> stays r m' peer_open c = stays r m peer_open c" if "c \<in># M" for c
    using assms(1-3) that by (simp add: m'_def waits_def stays_def gone_def cursor_is_unclaimed_def header_wakeflag)
  then show "filter_mset (waits r m') M = filter_mset (waits r m) M"
    "filter_mset (stays r m' peer_open) M = filter_mset (stays r m peer_open) M"
    by (auto intro: filter_mset_cong)
qed

definition apart :: "topic \<Rightarrow> nat \<Rightarrow> bool" where
  "apart t i \<longleftrightarrow> mapped (pb_ring t) (tp_map t) \<and> in_table t \<and> distinct (map cl_idx (drop i (pb_clients t)))"

definition decided :: "(client \<Rightarrow> bool) \<Rightarrow> nat \<Rightarrow> topic \<Rightarrow> topic \<Rightarrow> bool" where
  "decided peer_open i t t' \<longleftrightarrow>
    (let M = mset (drop i (pb_clients t)) in
     mset (tp_signals t') = mset (tp_signals t) + image_mset cl_chan (filter_mset (waits (pb_ring t) (tp_map t)) M)
     \<and> mset (pb_clients t') = mset (take i (pb_clients t)) + filter_mset (stays (pb_ring t) (tp_map t) peer_open) M
     \<and> pb_wakeups t' = pb_wakeups t + size (filter_mset (waits (pb_ring t) (tp_map t)) M)
     \<and> pb_dropped t' + size (filter_mset (stays (pb_ring t) (tp_map t) peer_open) M) = pb_dropped t + size M)"

lemma apart_rest:
  assumes "apart t i" "i < length (pb_clients t)"
  shows "\<forall>c \<in># mset (drop (Suc i) (pb_clients t)).
      cl_idx c < unat (max_subscribers (pb_ring t)) \<and> cl_idx c \<noteq> cl_idx (pb_clients t ! i)"
    "distinct (map cl_idx (drop (Suc i) (pb_clients t)))"
proof -
  have d: "drop i (pb_clients t) = pb_clients t ! i # drop (Suc i) (pb_clients t)"
    using assms(2) by (rule Cons_nth_drop_Suc [symmetric])
  show "\<forall>c \<in># mset (drop (Suc i) (pb_clients t)).
      cl_idx c < unat (max_subscribers (pb_ring t)) \<and> cl_idx c \<noteq> cl_idx (pb_clients t ! i)"
    using assms(1) unfolding apart_def in_table_def d by (auto dest: in_set_dropD) (metis imageI)
  show "distinct (map cl_idx (drop (Suc i) (pb_clients t)))"
    using assms(1) unfolding apart_def d by simp
qed

lemma broadcast_from_decides: "apart t i \<longrightarrow> decided peer_open i t (broadcast_from peer_open i t)"
  (is "?P i t (broadcast_from peer_open i t)")
proof (rule broadcast_from_induct [where P = ?P])
  fix i :: nat and t t' :: topic
  let ?cs = "pb_clients t" and ?c = "pb_clients t ! i"
  assume i: "i < length ?cs"
  note split = Cons_nth_drop_Suc [OF i, symmetric] and sw = swap_remove_split [OF i]
  have removed: "apart (drop_client i u) i"
    if "apart t i" "pb_ring u = pb_ring t" "mapped (pb_ring t) (tp_map u)" "pb_clients u = ?cs" for u
  proof -
    have "mset (map cl_idx (drop i (swap_remove i ?cs))) = mset (map cl_idx (drop (Suc i) ?cs))"
      using sw(2) by simp
    then have "distinct (map cl_idx (drop i (swap_remove i ?cs)))"
      using apart_rest(2) [OF that(1) i] mset_eq_imp_distinct_iff by blast
    moreover have "in_table (drop_client i u)"
      using that(1,2,4) set_swap_remove [OF i] by (auto simp: apart_def in_table_def)
    ultimately show ?thesis
      using that by (simp add: apart_def)
  qed
  {
    assume *: "gone (tp_map t) ?c" "?P i (drop_client i t) t'"
    show "?P i t t'"
    proof
      assume A: "apart t i"
      have "decided peer_open i (drop_client i t) t'"
        using *(2) removed [OF A] A by (simp add: apart_def)
      then show "decided peer_open i t t'"
        using *(1) sw by (simp add: decided_def Let_def split waits_def stays_def)
    qed
  }
  fix t1 :: topic
  assume t1: "t1 = t\<lparr>tp_map := wr64 (tp_map t) (wakeflag_addr (pb_ring t) (cl_idx (pb_clients t ! i))) 0\<rparr>"
  have m1: "mapped (pb_ring t) (tp_map t1)" if "apart t i"
    using that in_table_nth [OF _ i] by (simp add: t1 apart_def mapped_low_writes)
  note cleared = cleared_flag [of "pb_ring t" "tp_map t" "cl_idx ?c" "mset (drop (Suc i) ?cs)"]
  have flags: "filter_mset (waits (pb_ring t) (tp_map t1)) (mset (drop (Suc i) ?cs))
        = filter_mset (waits (pb_ring t) (tp_map t)) (mset (drop (Suc i) ?cs))"
      "filter_mset (stays (pb_ring t) (tp_map t1) peer_open) (mset (drop (Suc i) ?cs))
        = filter_mset (stays (pb_ring t) (tp_map t) peer_open) (mset (drop (Suc i) ?cs))"
    if "apart t i"
    using cleared [OF _ _ apart_rest(1) [OF that i]] that in_table_nth [OF _ i] by (auto simp: t1 apart_def)
  have on: "apart u (Suc i)" if "apart t i" "pb_ring u = pb_ring t" "tp_map u = tp_map t1" "pb_clients u = ?cs" for u
    using that m1 apart_rest(2) [OF that(1) i] by (simp add: apart_def in_table_def)
  have tk: "take (Suc i) ?cs = take i ?cs @ [?c]"
    using i by (simp add: take_Suc_conv_app_nth)
  {
    assume *: "\<not> gone (tp_map t) ?c" "\<not> waits (pb_ring t) (tp_map t) ?c" "?P (i + 1) t1 t'"
    show "?P i t t'"
    proof
      assume A: "apart t i"
      have "decided peer_open (Suc i) t1 t'"
        using *(3) on [OF A, of t1] by (simp add: t1)
      then show "decided peer_open i t t'"
        using *(1,2) flags [OF A] by (simp add: decided_def Let_def split stays_def tk t1)
    qed
  next
    assume *: "waits (pb_ring t) (tp_map t) ?c" "peer_open ?c" "?P (i + 1) (send_wakeup ?c t1) t'"
    show "?P i t t'"
    proof
      assume A: "apart t i"
      have "decided peer_open (Suc i) (send_wakeup ?c t1) t'"
        using *(3) on [OF A, of "send_wakeup ?c t1"] by (simp add: t1)
      moreover have "stays (pb_ring t) (tp_map t) peer_open ?c"
        using *(1,2) by (simp add: stays_def waits_def)
      ultimately show "decided peer_open i t t'"
        using *(1) flags [OF A] by (simp add: decided_def Let_def split tk t1)
    qed
  next
    assume *: "waits (pb_ring t) (tp_map t) ?c" "\<not> peer_open ?c" "?P i (drop_client i (send_wakeup ?c t1)) t'"
    show "?P i t t'"
    proof
      assume A: "apart t i"
      have "decided peer_open i (drop_client i (send_wakeup ?c t1)) t'"
        using *(3) removed [OF A, of "send_wakeup ?c t1"] m1 [OF A] by (simp add: t1)
      moreover have "\<not> stays (pb_ring t) (tp_map t) peer_open ?c"
        using *(1,2) by (simp add: stays_def)
      ultimately show "decided peer_open i t t'"
        using *(1) flags [OF A] sw by (simp add: decided_def Let_def split t1)
    qed
  }
qed (simp add: decided_def)

end
