(* ===== verification/Wal_Refine.thy ===== *)
theory Wal_Refine
  imports Wal
begin

text \<open>
  The write-ahead log refines a list of numbered segments: the abstract state is the list of
  segments with their records, appending adds a record at the end, and retention drops whole
  segments from the front. The relation also says what has reached the files: every retired segment
  is complete and synced; of the active one the first \<open>j\<close> records are in the file and the first
  \<open>i\<close> of them are synced.
\<close>

subsection \<open>File names\<close>

lemma digit_char_value: "is_digit (digit_char n)" "of_char (digit_char n) - (48::nat) = n mod 10"
proof -
  have "n mod 10 < 10"
    by simp
  then show "is_digit (digit_char n)" "of_char (digit_char n) - (48::nat) = n mod 10"
    by (simp_all add: is_digit_def digit_char_def)
qed

lemma length_pad_dec [simp]: "length (pad_dec w n) = w"
  by (induction w arbitrary: n) simp_all

lemma pad_dec_digits: "list_all is_digit (pad_dec w n)"
  by (induction w arbitrary: n) (simp_all add: digit_char_value)

lemma dec_value_pad: "dec_value (pad_dec w n) = n mod 10 ^ w"
proof (induction w arbitrary: n)
  case 0
  then show ?case by (simp add: dec_value_def)
next
  case (Suc w)
  have "n div 10 mod 10 ^ w * 10 + n mod 10 = n mod 10 ^ Suc w"
    using mod_mult2_eq [of n 10 "10 ^ w"] by simp
  then show ?case
    using Suc by (simp add: dec_value_snoc digit_char_value)
qed

lemma pad_dec_no_plus: "0 < w \<Longrightarrow> \<exists>c cs. pad_dec w n = c # cs \<and> c \<noteq> CHR ''+''"
proof -
  assume "0 < w"
  then obtain c cs where c: "pad_dec w n = c # cs"
    by (metis length_greater_0_conv length_pad_dec list.exhaust not_less_zero)
  moreover have "is_digit c"
    using pad_dec_digits [of w n] by (simp add: c)
  ultimately show ?thesis
    by (auto simp: is_digit_def)
qed

lemma seg_key_name: "seg_key (seg_name k) = Some k"
proof -
  have "unat k < 10 ^ 20"
    using unat_lt2p [of k] by simp
  then have v: "dec_value (pad_dec 20 (unat k)) = unat k"
    by (simp add: dec_value_pad)
  obtain c cs where c: "pad_dec 20 (unat k) = c # cs" "c \<noteq> CHR ''+''"
    using pad_dec_no_plus [of 20 "unat k"] by auto
  have "parse_u64 (pad_dec 20 (unat k)) = Some k"
    using v c pad_dec_digits [of 20 "unat k"] unat_lt2p [of k]
    by (simp add: parse_u64_def del: pad_dec.simps)
  then show ?thesis
    by (simp add: seg_key_def seg_stem_def seg_name_def Let_def del: pad_dec.simps)
qed

lemma seg_name_eq_iff [simp]: "seg_name a = seg_name b \<longleftrightarrow> a = b"
  by (metis option.inject seg_key_name)

subsection \<open>Sorted association lists\<close>

lemma bt_insert_last: "\<forall>k' \<in> set (map fst kvs). k' < k \<Longrightarrow> bt_insert k v kvs = kvs @ [(k, v)]"
  by (induction kvs) auto

lemma bt_remove_head: "k \<notin> set (map fst kvs) \<Longrightarrow> bt_remove k ((k, v) # kvs) = kvs"
  by (auto simp: bt_remove_def intro!: filter_True)

subsection \<open>One segment\<close>

definition seg_size :: "wal_record list \<Rightarrow> nat" where
  "seg_size rs = SEGMENT_HEADER_LEN + sum_list (map record_encoded_len rs)"

definition seg_image :: "(bytes \<Rightarrow> u32) \<Rightarrow> u64 \<Rightarrow> u64 \<Rightarrow> wal_record list \<Rightarrow> bytes" where
  "seg_image crc created k rs = encode_segment_header created k @ concat (map (encode_record crc) rs)"

lemma length_image: "length (seg_image crc created k rs) = seg_size rs"
  by (induction rs)
     (simp_all add: seg_image_def seg_size_def wal_consts length_encode_record record_encoded_len_def)

lemma seg_size_snoc: "seg_size (rs @ [r]) = seg_size rs + record_encoded_len r"
  by (simp add: seg_size_def)

lemma image_snoc: "seg_image crc created k (rs @ [r]) = seg_image crc created k rs @ encode_record crc r"
  by (simp add: seg_image_def)

definition closed_seg :: "(bytes \<Rightarrow> u32) \<Rightarrow> disk \<Rightarrow> u64 \<times> wal_record list \<Rightarrow> bool" where
  "closed_seg crc d s \<longleftrightarrow> (\<exists>created. lookup d (seg_name (fst s)) =
     Some \<lparr>f_content = seg_image crc created (fst s) (snd s), f_synced = seg_size (snd s)\<rparr>)"

definition open_seg ::
    "(bytes \<Rightarrow> u32) \<Rightarrow> disk \<Rightarrow> seg_writer \<Rightarrow> wal_record list \<Rightarrow> nat \<Rightarrow> nat \<Rightarrow> bool" where
  "open_seg crc d sw rs i j \<longleftrightarrow>
     i \<le> j \<and> j \<le> length rs \<and> sw_name sw = seg_name (sw_first sw)
     \<and> sw_bytes sw = seg_size rs \<and> unat (sw_pending sw) = unat (sw_first sw) + length rs
     \<and> sw_buf sw = concat (map (encode_record crc) (drop j rs))
     \<and> (\<exists>created. lookup d (sw_name sw) =
          Some \<lparr>f_content = seg_image crc created (sw_first sw) (take j rs),
                f_synced = seg_size (take i rs)\<rparr>)"

lemma open_seg_lookup:
  assumes "open_seg crc d sw rs i j" "lookup d' (seg_name (sw_first sw)) = lookup d (seg_name (sw_first sw))"
  shows "open_seg crc d' sw rs i j"
proof -
  have "sw_name sw = seg_name (sw_first sw)"
    using assms(1) by (simp add: open_seg_def)
  then show ?thesis
    using assms unfolding open_seg_def by metis
qed

text \<open>An operation on the active segment's file leaves every other file alone.\<close>

definition only_file :: "string \<Rightarrow> disk \<Rightarrow> disk \<Rightarrow> bool" where
  "only_file name d d' \<longleftrightarrow> d_up d' = d_up d \<and> (dir_ok d \<longrightarrow> dir_ok d') \<and> (\<forall>n. n \<noteq> name \<longrightarrow> lookup d' n = lookup d n)"

lemma only_file_refl [simp]: "only_file name d d"
  by (simp add: only_file_def)

lemma only_file_trans: "only_file name d d' \<Longrightarrow> only_file name d' d'' \<Longrightarrow> only_file name d d''"
  by (simp add: only_file_def)

lemma only_file_closed: "only_file name d d' \<Longrightarrow> seg_name (fst s) \<noteq> name \<Longrightarrow> closed_seg crc d' s = closed_seg crc d s"
  by (simp add: only_file_def closed_seg_def)

lemma put_file_eq: "lookup d name = Some f \<Longrightarrow> only_file name d (put_file name g d)"
  by (simp add: only_file_def)

lemma flush_seg:
  assumes "open_seg crc d sw rs i j" "d_up d"
  obtains sw' d' where "buf_flush sw d = (Inr (), sw', d')" "open_seg crc d' sw' rs i (length rs)"
    "only_file (sw_name sw) d d'" "sw_first sw' = sw_first sw" "sw_pending sw' = sw_pending sw"
    "sw_name sw' = sw_name sw" "sw_bytes sw' = sw_bytes sw" "sw_buf sw' = []"
proof (cases "sw_buf sw = []")
  case True
  have "drop j rs = []"
  proof (rule ccontr)
    assume "drop j rs \<noteq> []"
    then obtain r qs where "drop j rs = r # qs"
      by (cases "drop j rs") auto
    then show False
      using True assms(1) length_encode_record [of crc r] by (auto simp: open_seg_def)
  qed
  then have "j = length rs"
    using assms(1) by (auto simp: open_seg_def)
  then show ?thesis
    using that [of sw d] True assms(1) by (simp add: buf_flush_def)
next
  case False
  from assms(1) obtain created where f: "lookup d (sw_name sw) =
      Some \<lparr>f_content = seg_image crc created (sw_first sw) (take j rs), f_synced = seg_size (take i rs)\<rparr>"
    and buf: "sw_buf sw = concat (map (encode_record crc) (drop j rs))" and ij: "i \<le> j" "j \<le> length rs"
    by (auto simp: open_seg_def)
  have "concat (map (encode_record crc) (take j rs)) @ concat (map (encode_record crc) (drop j rs))
      = concat (map (encode_record crc) rs)"
    by (simp flip: concat_append map_append)
  then have img: "seg_image crc created (sw_first sw) (take j rs) @ sw_buf sw = seg_image crc created (sw_first sw) rs"
    by (simp add: seg_image_def buf)
  show ?thesis
    by (rule that [of "sw\<lparr>sw_buf := []\<rparr>" "put_file (sw_name sw)
          \<lparr>f_content = seg_image crc created (sw_first sw) rs, f_synced = seg_size (take i rs)\<rparr> d"])
       (use False assms f img ij in \<open>auto simp: buf_flush_def write_file_def open_seg_def only_file_def\<close>)
qed

lemma sync_seg:
  assumes "open_seg crc d sw rs i j" "d_up d"
  obtains d' where "sync_file (sw_name sw) d = (Inr (), d')" "open_seg crc d' sw rs j j"
    "only_file (sw_name sw) d d'"
proof -
  from assms(1) obtain created where f: "lookup d (sw_name sw) =
      Some \<lparr>f_content = seg_image crc created (sw_first sw) (take j rs), f_synced = seg_size (take i rs)\<rparr>"
    by (auto simp: open_seg_def)
  show ?thesis
    by (rule that [of "put_file (sw_name sw)
          \<lparr>f_content = seg_image crc created (sw_first sw) (take j rs), f_synced = seg_size (take j rs)\<rparr> d"])
       (use assms f in \<open>auto simp: sync_file_def open_seg_def only_file_def length_image\<close>)
qed

lemma write_seg:
  assumes "open_seg crc d sw rs i (length rs)" "d_up d" "unat (sw_pending sw) + 1 < 2 ^ 64"
  obtains d' where "write_file (sw_name sw) (encode_record crc r) d = (Inr (), d')" "only_file (sw_name sw) d d'"
    "open_seg crc d' (sw\<lparr>sw_bytes := sw_bytes sw + record_encoded_len r, sw_pending := sw_pending sw + 1\<rparr>)
       (rs @ [r]) i (length rs + 1)"
proof -
  from assms(1) obtain created where f: "lookup d (sw_name sw) =
      Some \<lparr>f_content = seg_image crc created (sw_first sw) rs, f_synced = seg_size (take i rs)\<rparr>"
    by (auto simp: open_seg_def)
  have p: "unat (sw_pending sw + 1) = unat (sw_pending sw) + 1"
    using assms(3) by (intro unat_Suc_word) simp
  show ?thesis
    by (rule that [of "put_file (sw_name sw) \<lparr>f_content = seg_image crc created (sw_first sw) (rs @ [r]),
          f_synced = seg_size (take i rs)\<rparr> d"])
       (use assms f p in \<open>auto simp: write_file_def open_seg_def only_file_def image_snoc seg_size_snoc\<close>)
qed

lemma push_seg:
  assumes "open_seg crc d sw rs i j" "unat (sw_pending sw) + 1 < 2 ^ 64"
  shows "open_seg crc d (sw\<lparr>sw_buf := sw_buf sw @ encode_record crc r,
    sw_bytes := sw_bytes sw + record_encoded_len r, sw_pending := sw_pending sw + 1\<rparr>) (rs @ [r]) i j"
proof -
  have "unat (sw_pending sw + 1) = unat (sw_pending sw) + 1"
    using assms(2) by (intro unat_Suc_word) simp
  then show ?thesis
    using assms(1) by (auto simp: open_seg_def seg_size_snoc)
qed

lemma append_seg:
  assumes "open_seg crc d sw rs i j" "d_up d" "unat (sw_pending sw) + 1 < 2 ^ 64"
    "record_ok r" "r_cursor r = sw_pending sw"
  obtains sw' d' j' where "seg_append crc sw (r_cursor r) (r_ts r) (r_payload r) d = (Inr (), sw', d')"
    "open_seg crc d' sw' (rs @ [r]) i j'" "only_file (sw_name sw) d d'"
    "sw_first sw' = sw_first sw" "sw_pending sw' = sw_pending sw + 1" "sw_name sw' = sw_name sw" "j \<le> j'"
proof -
  have jl: "j \<le> length rs"
    using assms(1) by (simp add: open_seg_def)
  let ?bs = "encode_record crc r"
  have enc: "encode_record_into crc [] (r_cursor r) (r_ts r) (r_payload r) = ?bs"
    by (simp add: encode_record_def)
  have len: "record_encoded_len r = length ?bs"
    by (simp add: length_encode_record record_encoded_len_def wal_consts)
  define bump where "bump = (\<lambda>w :: seg_writer. w\<lparr>sw_bytes := sw_bytes w + length ?bs, sw_pending := sw_pending w + 1\<rparr>)"
  have app: "seg_append crc sw (r_cursor r) (r_ts r) (r_payload r) d = (Inr (), bump w, d')"
    if "buf_write_all ?bs sw d = (Inr (), w, d')" "sw_pending w = sw_pending sw" for w d'
    unfolding seg_append_def enc Let_def using that assms(4,5) by (simp add: record_ok_def bump_def)
  let ?pushed = "\<lambda>w :: seg_writer. w\<lparr>sw_buf := sw_buf w @ ?bs\<rparr>"
  have pushed: "open_seg crc e (bump (?pushed w)) (rs @ [r]) i' j'"
    if "open_seg crc e w rs i' j'" "sw_pending w = sw_pending sw" for e w i' j'
    using push_seg [OF that(1), of r] assms(3) that(2) by (simp add: bump_def len)
  show ?thesis
  proof (cases "length ?bs < BUF_CAPACITY - length (sw_buf sw)")
    case True
    then show ?thesis
      using that [OF app [of "?pushed sw" d], of j] pushed [OF assms(1)]
      using jl by (simp add: buf_write_all_def bump_def)
  next
    case full: False
    show ?thesis
    proof (cases "length ?bs > BUF_CAPACITY - length (sw_buf sw)")
      case True
      obtain w1 d1 where w1: "buf_flush sw d = (Inr (), w1, d1)" "open_seg crc d1 w1 rs i (length rs)"
        "only_file (sw_name sw) d d1" "sw_first w1 = sw_first sw" "sw_pending w1 = sw_pending sw"
        "sw_name w1 = sw_name sw" "sw_bytes w1 = sw_bytes sw" "sw_buf w1 = []"
        using flush_seg [OF assms(1,2)] by metis
      have up: "d_up d1"
        using w1(3) assms(2) by (simp add: only_file_def)
      show ?thesis
      proof (cases "length ?bs \<ge> BUF_CAPACITY")
        case big: True
        have b: "unat (sw_pending w1) + 1 < 2 ^ 64"
          using assms(3) w1(5) by simp
        obtain d2 where d2: "write_file (sw_name w1) ?bs d1 = (Inr (), d2)" "only_file (sw_name w1) d1 d2"
          "open_seg crc d2 (w1\<lparr>sw_bytes := sw_bytes w1 + record_encoded_len r,
             sw_pending := sw_pending w1 + 1\<rparr>) (rs @ [r]) i (length rs + 1)"
          using write_seg [OF w1(2) up b] by metis
        show ?thesis
          using that [OF app [of w1 d2], of "length rs + 1"] w1 d2 full True big len
          using jl by (simp add: buf_write_all_def buf_write_cold_def bump_def only_file_trans [of _ d d1 d2])
      next
        case False
        then show ?thesis
          using that [OF app [of "?pushed w1" d1], of "length rs"] w1 pushed [OF w1(2)] full True
          using jl by (simp add: buf_write_all_def buf_write_cold_def bump_def)
      qed
    next
      case False
      then have eq: "length ?bs = BUF_CAPACITY - length (sw_buf sw)"
        using full by simp
      show ?thesis
      proof (cases "length ?bs \<ge> BUF_CAPACITY")
        case True
        then have "length (sw_buf sw) = 0"
          using eq unfolding BUF_CAPACITY_def by linarith
        then have "sw_buf sw = []"
          by simp
        then have idle: "buf_flush sw d = (Inr (), sw, d)"
          by (simp add: buf_flush_def)
        obtain w1 d1 where "buf_flush sw d = (Inr (), w1, d1)" "open_seg crc d1 w1 rs i (length rs)"
          using flush_seg [OF assms(1,2)] by metis
        then have o': "open_seg crc d sw rs i (length rs)"
          using idle by simp
        obtain d2 where d2: "write_file (sw_name sw) ?bs d = (Inr (), d2)" "only_file (sw_name sw) d d2"
          "open_seg crc d2 (sw\<lparr>sw_bytes := sw_bytes sw + record_encoded_len r,
             sw_pending := sw_pending sw + 1\<rparr>) (rs @ [r]) i (length rs + 1)"
          using write_seg [OF o' assms(2,3)] by metis
        show ?thesis
          using that [OF app [of sw d2], of "length rs + 1"] d2 eq True len
          using jl by (simp add: buf_write_all_def buf_write_cold_def bump_def Let_def)
      next
        case False
        then show ?thesis
          using that [OF app [of "?pushed sw" d], of j] pushed [OF assms(1)] eq
          using jl by (simp add: buf_write_all_def buf_write_cold_def bump_def)
      qed
    qed
  qed
qed

lemma create_seg:
  assumes "lookup d (seg_name k) = None" "d_up d"
  obtains sw d' where "seg_create created (seg_name k) k d = (Inr sw, d')" "open_seg crc d' sw [] 0 0"
    "only_file (seg_name k) d d'" "sw_first sw = k" "sw_pending sw = k" "sw_name sw = seg_name k"
proof -
  let ?img = "encode_segment_header created k"
  have ne: "?img \<noteq> []"
    by (metis length_0_conv length_header numeral_eq_iff zero_neq_numeral)
  let ?w = "\<lparr>sw_name = seg_name k, sw_buf = [], sw_first = k, sw_pending = k, sw_durable = k,
    sw_bytes = SEGMENT_HEADER_LEN\<rparr>"
  have "seg_create created (seg_name k) k d = (Inr ?w, put_file (seg_name k) \<lparr>f_content = ?img, f_synced = 32\<rparr>
      (put_file (seg_name k) \<lparr>f_content = ?img, f_synced = 0\<rparr> (put_file (seg_name k) \<lparr>f_content = [], f_synced = 0\<rparr> d)))"
    using assms ne by (simp add: seg_create_def create_new_def buf_write_all_def BUF_CAPACITY_def
        buf_flush_def write_file_def sync_file_def Let_def)
  then show ?thesis
    by (rule that) (auto simp: open_seg_def only_file_def seg_image_def seg_size_def wal_consts)
qed

lemma fsync_seg:
  assumes "open_seg crc d sw rs i j" "d_up d"
  obtains sw' d' where "seg_fsync sw d = (Inr (sw_pending sw), sw', d')"
    "open_seg crc d' sw' rs (length rs) (length rs)" "only_file (sw_name sw) d d'"
    "sw_first sw' = sw_first sw" "sw_pending sw' = sw_pending sw" "sw_name sw' = sw_name sw" "sw_buf sw' = []"
proof -
  obtain w1 d1 where w1: "buf_flush sw d = (Inr (), w1, d1)" "open_seg crc d1 w1 rs i (length rs)"
    "only_file (sw_name sw) d d1" "sw_first w1 = sw_first sw" "sw_pending w1 = sw_pending sw"
    "sw_name w1 = sw_name sw" "sw_bytes w1 = sw_bytes sw" "sw_buf w1 = []"
    using flush_seg [OF assms] by metis
  have up: "d_up d1"
    using w1(3) assms(2) by (simp add: only_file_def)
  obtain d2 where d2: "sync_file (sw_name w1) d1 = (Inr (), d2)"
    "open_seg crc d2 w1 rs (length rs) (length rs)" "only_file (sw_name w1) d1 d2"
    using sync_seg [OF w1(2) up] by metis
  have o2: "open_seg crc d2 (w1\<lparr>sw_durable := sw_pending w1\<rparr>) rs (length rs) (length rs)"
    using d2(2) by (auto simp: open_seg_def)
  have "only_file (sw_name sw) d d2"
    using w1(3,6) d2(3) by (metis only_file_trans)
  then show ?thesis
    using that [of "w1\<lparr>sw_durable := sw_pending w1\<rparr>" d2] o2 w1 d2(1) by (simp add: seg_fsync_def)
qed

lemma close_seg:
  assumes "open_seg crc d sw rs i j" "d_up d"
  obtains d' where "seg_close sw d = (Inr (), d')" "closed_seg crc d' (sw_first sw, rs)"
    "only_file (sw_name sw) d d'"
proof -
  obtain sw' d' where f: "seg_fsync sw d = (Inr (sw_pending sw), sw', d')"
    "open_seg crc d' sw' rs (length rs) (length rs)" "only_file (sw_name sw) d d'"
    "sw_first sw' = sw_first sw" "sw_name sw' = sw_name sw"
    using fsync_seg [OF assms] by metis
  have "closed_seg crc d' (sw_first sw, rs)"
    using f(2,4) by (auto simp: open_seg_def closed_seg_def)
  then show ?thesis
    using that [of d'] f(1,3) by (simp add: seg_close_def)
qed

subsection \<open>The abstract log\<close>

text \<open>Records with consecutive cursors, and segments that continue one another; only the last one
  may be empty.\<close>

fun numbered :: "nat \<Rightarrow> wal_record list \<Rightarrow> bool" where
  "numbered n [] \<longleftrightarrow> True"
| "numbered n (r # rs) \<longleftrightarrow> unat (r_cursor r) = n \<and> record_ok r \<and> numbered (n + 1) rs"

lemma numbered_append: "numbered n (rs @ qs) \<longleftrightarrow> numbered n rs \<and> numbered (n + length rs) qs"
  by (induction rs arbitrary: n) auto

lemma numbered_take: "numbered n rs \<Longrightarrow> numbered n (take m rs)"
  using numbered_append [of n "take m rs" "drop m rs"] by simp

lemma numbered_nth: "numbered n rs \<Longrightarrow> m < length rs \<Longrightarrow> unat (r_cursor (rs ! m)) = n + m"
  by (induction rs arbitrary: n m) (auto simp: nth_Cons split: nat.splits)

lemma numbered_ok: "numbered n rs \<Longrightarrow> \<forall>r \<in> set rs. record_ok r"
  by (induction rs arbitrary: n) auto

lemma numbered_range: "numbered n rs \<Longrightarrow> r \<in> set rs \<Longrightarrow> n \<le> unat (r_cursor r) \<and> unat (r_cursor r) < n + length rs"
  by (metis in_set_conv_nth le_add1 nat_add_left_cancel_less numbered_nth)

type_synonym segments = "(u64 \<times> wal_record list) list"

fun chain :: "nat \<Rightarrow> segments \<Rightarrow> bool" where
  "chain n [] \<longleftrightarrow> True"
| "chain n (s # ss) \<longleftrightarrow> unat (fst s) = n \<and> numbered n (snd s) \<and> (ss \<noteq> [] \<longrightarrow> snd s \<noteq> [])
     \<and> chain (n + length (snd s)) ss"

definition log_of :: "segments \<Rightarrow> wal_record list" where
  "log_of segs = concat (map snd segs)"

lemma chain_snoc:
  "chain n (ss @ [s]) \<longleftrightarrow> chain n ss \<and> (\<forall>x \<in> set ss. snd x \<noteq> [])
     \<and> unat (fst s) = n + length (log_of ss) \<and> numbered (n + length (log_of ss)) (snd s)"
  by (induction ss arbitrary: n) (auto simp: log_of_def add.assoc)

lemma chain_numbered: "chain n ss \<Longrightarrow> numbered n (log_of ss)"
  by (induction ss arbitrary: n) (auto simp: log_of_def numbered_append)

lemma chain_keys: "chain n ss \<Longrightarrow> k \<in> set (map fst ss) \<Longrightarrow> n \<le> unat k \<and> unat k \<le> n + length (log_of ss)"
  by (induction ss arbitrary: n) (fastforce simp: log_of_def)+

lemma chain_distinct: "chain n ss \<Longrightarrow> distinct (map fst ss)"
proof (induction ss arbitrary: n)
  case (Cons s ss)
  have "fst s \<notin> set (map fst ss)"
  proof
    assume *: "fst s \<in> set (map fst ss)"
    then have "ss \<noteq> []"
      by auto
    then have "0 < length (snd s)"
      using Cons.prems by simp
    moreover have "n + length (snd s) \<le> unat (fst s)"
      using chain_keys [of "n + length (snd s)" ss "fst s"] Cons.prems * by simp
    ultimately show False
      using Cons.prems by simp
  qed
  then show ?case
    using Cons.IH [of "n + length (snd s)"] Cons.prems by simp
qed simp

definition a_size :: "segments \<Rightarrow> nat" where
  "a_size segs = sum_list (map (\<lambda>s. seg_size (snd s)) segs)"

definition a_append :: "nat \<Rightarrow> wal_record \<Rightarrow> segments \<Rightarrow> segments" where
  "a_append limit r segs =
    (if segs = [] then [(r_cursor r, [r])]
     else if seg_size (snd (last segs)) + record_encoded_len r > limit then segs @ [(r_cursor r, [r])]
     else butlast segs @ [(fst (last segs), snd (last segs) @ [r])])"

fun a_retain :: "nat \<Rightarrow> segments \<Rightarrow> segments" where
  "a_retain cap (s # t # ss) = (if a_size (s # t # ss) \<le> cap then s # t # ss else a_retain cap (t # ss))"
| "a_retain cap segs = segs"

definition a_rotate :: "u64 \<Rightarrow> segments \<Rightarrow> segments" where
  "a_rotate k segs = segs @ [(k, [])]"

lemma log_a_append: "log_of (a_append limit r segs) = log_of segs @ [r]"
  by (cases segs rule: rev_cases) (simp_all add: a_append_def log_of_def)

lemma a_retain_suffix: "suffix (a_retain cap segs) segs"
  by (induction cap segs rule: a_retain.induct) (auto intro: suffix_ConsI)

lemma a_retain_last: "segs \<noteq> [] \<Longrightarrow> a_retain cap segs \<noteq> [] \<and> last (a_retain cap segs) = last segs"
  by (induction cap segs rule: a_retain.induct) auto

lemma a_retain_size: "a_size (a_retain cap segs) \<le> cap \<or> length (a_retain cap segs) \<le> 1"
  by (induction cap segs rule: a_retain.induct) auto

subsection \<open>The relation\<close>

definition index_of :: "segments \<Rightarrow> (u64 \<times> string) list" where
  "index_of segs = map (\<lambda>s. (fst s, seg_name (fst s))) segs"

definition sizes_of :: "segments \<Rightarrow> (u64 \<times> nat) list" where
  "sizes_of segs = map (\<lambda>s. (fst s, seg_size (snd s))) segs"

definition no_strays :: "disk \<Rightarrow> segments \<Rightarrow> bool" where
  "no_strays d segs \<longleftrightarrow>
    (\<forall>name. lookup d name \<noteq> None \<and> seg_key name \<noteq> None \<longrightarrow> (\<exists>s \<in> set segs. name = seg_name (fst s)))"

lemma no_strays_only:
  assumes "no_strays d segs" "only_file (seg_name k) d d'" "k \<in> fst ` set segs'" "fst ` set segs \<subseteq> fst ` set segs'"
  shows "no_strays d' segs'"
  unfolding no_strays_def
proof (intro allI impI, elim conjE)
  fix name
  assume n: "lookup d' name \<noteq> None" "seg_key name \<noteq> None"
  show "\<exists>s \<in> set segs'. name = seg_name (fst s)"
  proof (cases "name = seg_name k")
    case True
    then show ?thesis
      using assms(3) by auto
  next
    case False
    then have "lookup d name \<noteq> None"
      using n(1) assms(2) by (simp add: only_file_def)
    then obtain s where "s \<in> set segs" "name = seg_name (fst s)"
      using n(2) assms(1) unfolding no_strays_def by blast
    then have "fst s \<in> fst ` set segs'"
      using assms(4) by (intro subsetD [OF assms(4)] imageI)
    then show ?thesis
      using \<open>name = seg_name (fst s)\<close> by auto
  qed
qed

definition well_numbered :: "segments \<Rightarrow> bool" where
  "well_numbered segs \<longleftrightarrow> (segs \<noteq> [] \<longrightarrow>
    chain (unat (fst (hd segs))) segs \<and> unat (fst (hd segs)) + length (log_of segs) < 2 ^ 64)"

text \<open>All segments retired, no writer: what rotation goes through.\<close>

definition wal_retired :: "(bytes \<Rightarrow> u32) \<Rightarrow> disk \<Rightarrow> wal \<Rightarrow> segments \<Rightarrow> bool" where
  "wal_retired crc d w segs \<longleftrightarrow>
     dir_ok d \<and> well_numbered segs \<and> no_strays d segs
     \<and> wi_segments w = index_of segs \<and> wi_sizes w = sizes_of segs
     \<and> wi_retained_bytes w = a_size segs \<and> (\<forall>s \<in> set segs. closed_seg crc d s)
     \<and> wi_writer w = None"

text \<open>The log in use: the last segment is being written.\<close>

definition wal_rep :: "(bytes \<Rightarrow> u32) \<Rightarrow> disk \<Rightarrow> wal \<Rightarrow> segments \<Rightarrow> nat \<Rightarrow> nat \<Rightarrow> bool" where
  "wal_rep crc d w segs i j \<longleftrightarrow>
     dir_ok d \<and> segs \<noteq> [] \<and> well_numbered segs \<and> no_strays d segs
     \<and> wi_segments w = index_of segs \<and> wi_sizes w = sizes_of (butlast segs)
     \<and> wi_retained_bytes w = a_size (butlast segs)
     \<and> (\<forall>s \<in> set (butlast segs). closed_seg crc d s)
     \<and> (\<exists>sw. wi_writer w = Some sw \<and> sw_first sw = fst (last segs)
          \<and> open_seg crc d sw (snd (last segs)) i j
          \<and> wi_active_bytes w = sw_bytes sw)"

definition a_next :: "segments \<Rightarrow> nat" where
  "a_next segs = unat (fst (hd segs)) + length (log_of segs)"

lemma well_numbered_tail: "well_numbered (s # t # ss) \<Longrightarrow> well_numbered (t # ss)"
  by (auto simp: well_numbered_def log_of_def)

lemma well_numbered_snoc_empty:
  assumes "well_numbered segs" "\<forall>s \<in> set segs. snd s \<noteq> []" "segs \<noteq> [] \<Longrightarrow> unat k = a_next segs"
  shows "well_numbered (segs @ [(k, [])])"
  using assms unat_lt2p [of k]
  by (cases segs) (auto simp: well_numbered_def chain_snoc a_next_def log_of_def simp flip: append_Cons)

lemma a_size_snoc [simp]: "a_size (ss @ [s]) = a_size ss + seg_size (snd s)" "a_size [] = 0"
  "a_size (s # ss) = seg_size (snd s) + a_size ss"
  by (simp_all add: a_size_def)

lemma wal_repE:
  assumes "wal_rep crc d w segs i j"
  obtains ss s sw where "segs = ss @ [s]" "wi_writer w = Some sw" "sw_first sw = fst s"
    "open_seg crc d sw (snd s) i j" "wi_active_bytes w = sw_bytes sw" "d_up d" "well_numbered (ss @ [s])"
    "no_strays d (ss @ [s])" "wi_segments w = index_of (ss @ [s])" "wi_sizes w = sizes_of ss"
    "wi_retained_bytes w = a_size ss" "\<forall>x \<in> set ss. closed_seg crc d x" "sw_name sw = seg_name (fst s)"
    "unat (sw_pending sw) = a_next (ss @ [s])" "dir_ok d"
proof -
  obtain ss s where segs: "segs = ss @ [s]"
    using assms by (metis wal_rep_def append_butlast_last_id)
  obtain sw where sw: "wi_writer w = Some sw" "sw_first sw = fst s" "open_seg crc d sw (snd s) i j"
      "wi_active_bytes w = sw_bytes sw"
    using assms by (auto simp: wal_rep_def segs)
  have "chain (unat (fst (hd (ss @ [s])))) (ss @ [s])"
    using assms by (auto simp: wal_rep_def well_numbered_def segs)
  then have first: "unat (fst s) + length (snd s) = a_next (ss @ [s])"
    by (auto simp: chain_snoc a_next_def log_of_def)
  have sw': "sw_name sw = seg_name (fst s)" "unat (sw_pending sw) = a_next (ss @ [s])"
    using sw(2,3) first by (simp_all add: open_seg_def)
  show ?thesis
    by (rule that [of ss s sw]) (use assms sw sw' in \<open>simp_all add: wal_rep_def segs dir_ok_up\<close>)
qed

lemma well_numbered_keys:
  assumes "well_numbered (ss @ [s])" "x \<in> set ss"
  shows "fst x < fst s" and "seg_name (fst x) \<noteq> seg_name (fst s)"
proof -
  have c: "chain (unat (fst (hd (ss @ [s])))) (ss @ [s])"
    using assms(1) by (simp add: well_numbered_def)
  then have "unat (fst x) \<le> unat (fst s)"
    using chain_keys [of "unat (fst (hd (ss @ [s])))" ss "fst x"] assms(2)
    by (auto simp: chain_snoc)
  moreover have "fst s \<notin> set (map fst ss)"
    using chain_distinct [OF c] by simp
  then have "fst x \<noteq> fst s"
    using imageI [OF assms(2), of fst] by (metis list.set_map)
  then have "unat (fst x) \<noteq> unat (fst s)" "seg_name (fst x) \<noteq> seg_name (fst s)"
    by (simp_all add: word_unat_eq_iff)
  ultimately show "fst x < fst s" "seg_name (fst x) \<noteq> seg_name (fst s)"
    by (simp_all add: word_less_nat_alt)
qed

lemma wal_rep_update:
  assumes "wal_rep crc d w (ss @ [s]) i j" "only_file (seg_name (fst s)) d d'"
    "open_seg crc d' sw' rs' i' j'" "sw_first sw' = fst s" "well_numbered (ss @ [(fst s, rs')])"
    "wi_segments w' = wi_segments w" "wi_sizes w' = wi_sizes w" "wi_retained_bytes w' = wi_retained_bytes w"
    "wi_writer w' = Some sw'" "wi_active_bytes w' = sw_bytes sw'"
  shows "wal_rep crc d' w' (ss @ [(fst s, rs')]) i' j'"
proof -
  have closed: "\<forall>x \<in> set ss. closed_seg crc d' x"
    using assms(1,2) well_numbered_keys(2) [OF assms(5)] only_file_closed [OF assms(2)]
    by (auto simp: wal_rep_def)
  moreover have "no_strays d' (ss @ [(fst s, rs')])"
    using assms(1) by (intro no_strays_only [of _ "ss @ [s]", OF _ assms(2)]) (simp_all add: wal_rep_def)
  ultimately show ?thesis
    using assms by (auto simp: wal_rep_def index_of_def only_file_def)
qed

definition same_meta :: "wal \<Rightarrow> wal \<Rightarrow> bool" where
  "same_meta w w' \<longleftrightarrow> w_cfg w' = w_cfg w \<and> w_durable w' = w_durable w \<and> w_pending w' = w_pending w
     \<and> w_poisoned w' = w_poisoned w \<and> w_wall_base w' = w_wall_base w \<and> w_appends w' = w_appends w
     \<and> w_append_bytes w' = w_append_bytes w \<and> w_flushes w' = w_flushes w"

lemma same_meta_refl [simp]: "same_meta w w"
  by (simp add: same_meta_def)

lemma same_meta_trans: "same_meta w w' \<Longrightarrow> same_meta w' w'' \<Longrightarrow> same_meta w w''"
  by (simp add: same_meta_def)

subsection \<open>Rotation\<close>

lemma new_segment_rep:
  assumes "wal_retired crc d w segs" "\<forall>s \<in> set segs. snd s \<noteq> []" "segs \<noteq> [] \<Longrightarrow> unat k = a_next segs"
  obtains w' d' sw where "new_segment created k w d = (Inr (), w', d')"
    "wal_rep crc d' w' (segs @ [(k, [])]) 0 0" "same_meta w w'" "wi_writer w' = Some sw" "sw_pending sw = k"
proof -
  have wn: "well_numbered (segs @ [(k, [])])"
    using assms by (intro well_numbered_snoc_empty) (auto simp: wal_retired_def)
  note keys = well_numbered_keys [OF wn]
  have "lookup d (seg_name k) = None"
  proof (rule ccontr)
    assume "lookup d (seg_name k) \<noteq> None"
    then obtain s where "s \<in> set segs" "seg_name k = seg_name (fst s)"
      using assms(1) seg_key_name [of k] by (auto simp: wal_retired_def no_strays_def)
    then show False
      using keys(2) [of s] by simp
  qed
  then obtain sw d' where c: "seg_create created (seg_name k) k d = (Inr sw, d')" "open_seg crc d' sw [] 0 0"
    "only_file (seg_name k) d d'" "sw_first sw = k" "sw_pending sw = k" "sw_name sw = seg_name k"
    using create_seg [of d k created crc] assms(1) dir_ok_up by (auto simp: wal_retired_def)
  have "bt_insert k (seg_name k) (index_of segs) = index_of (segs @ [(k, [])])"
    using keys(1) by (subst bt_insert_last) (auto simp: index_of_def)
  moreover have "\<forall>x \<in> set segs. closed_seg crc d' x"
    using assms(1) only_file_closed [OF c(3)] keys(2) by (auto simp: wal_retired_def)
  moreover have "no_strays d' (segs @ [(k, [])])"
    using assms(1) by (intro no_strays_only [of _ segs, OF _ c(3)]) (auto simp: wal_retired_def)
  ultimately show ?thesis
    using that [of "w\<lparr>wi_segments := index_of (segs @ [(k, [])]), wi_active_bytes := sw_bytes sw,
        wi_writer := Some sw\<rparr>" d' sw] assms(1) c wn
    by (simp add: new_segment_def wal_rep_def wal_retired_def same_meta_def only_file_def)
qed

lemma retire_rep:
  assumes "wal_rep crc d w segs i j"
  obtains w' d' where "retire_writer w d = (Inr (), w', d')" "wal_retired crc d' w' segs" "same_meta w w'"
proof -
  from assms obtain ss s sw where r: "segs = ss @ [s]" "wi_writer w = Some sw" "sw_first sw = fst s"
    "open_seg crc d sw (snd s) i j" "d_up d" "well_numbered (ss @ [s])" "no_strays d (ss @ [s])"
    "wi_segments w = index_of (ss @ [s])" "wi_sizes w = sizes_of ss" "wi_retained_bytes w = a_size ss"
    "\<forall>x \<in> set ss. closed_seg crc d x" "sw_name sw = seg_name (fst s)" "dir_ok d"
    by (rule wal_repE)
  obtain d' where c: "seg_close sw d = (Inr (), d')" "closed_seg crc d' s" "only_file (seg_name (fst s)) d d'"
    using close_seg [OF r(4,5)] r(3,12) by (metis prod.collapse)
  note keys = well_numbered_keys [OF r(6)]
  have "bt_insert (fst s) (seg_size (snd s)) (sizes_of ss) = sizes_of (ss @ [s])"
    using keys(1) by (subst bt_insert_last) (auto simp: sizes_of_def)
  moreover have "sw_bytes sw = seg_size (snd s)"
    using r(4) by (simp add: open_seg_def)
  moreover have "\<forall>x \<in> set (ss @ [s]). closed_seg crc d' x"
    using r(11) c(2) only_file_closed [OF c(3)] keys(2) by auto
  moreover have "no_strays d' (ss @ [s])"
    by (intro no_strays_only [OF r(7) c(3)]) auto
  ultimately show ?thesis
    using that [of "w\<lparr>wi_writer := None, wi_sizes := sizes_of (ss @ [s]),
        wi_retained_bytes := a_size (ss @ [s])\<rparr>" d'] r c
    by (simp add: retire_writer_def wal_retired_def same_meta_def only_file_def)
qed

lemma rotate_rep:
  assumes "wal_rep crc d w segs i j" "snd (last segs) \<noteq> []" "unat k = a_next segs"
  obtains w' d' sw where "rotate_locked created k w d = (Inr (), w', d')"
    "wal_rep crc d' w' (a_rotate k segs) 0 0" "same_meta w w'" "wi_writer w' = Some sw" "sw_pending sw = k"
proof -
  obtain w1 d1 where w1: "retire_writer w d = (Inr (), w1, d1)" "wal_retired crc d1 w1 segs" "same_meta w w1"
    using retire_rep [OF assms(1)] by metis
  from assms(1) obtain ss s where segs: "segs = ss @ [s]" "well_numbered (ss @ [s])"
    by (rule wal_repE)
  then have "\<forall>s \<in> set segs. snd s \<noteq> []"
    using assms(2) by (auto simp: well_numbered_def chain_snoc)
  then obtain w2 d2 sw where "new_segment created k w1 d1 = (Inr (), w2, d2)"
    "wal_rep crc d2 w2 (segs @ [(k, [])]) 0 0" "same_meta w1 w2" "wi_writer w2 = Some sw" "sw_pending sw = k"
    using new_segment_rep [OF w1(2)] assms(3) by metis
  then show ?thesis
    using that [of w2 d2 sw] w1 same_meta_trans by (simp add: rotate_locked_def a_rotate_def)
qed

subsection \<open>Retention\<close>

lemma oldest_inactive_rep:
  assumes "wal_rep crc d w segs i j"
  shows "oldest_inactive w = (case segs of s # t # ss \<Rightarrow> Some (fst s) | _ \<Rightarrow> None)"
proof -
  from assms obtain ss s sw where r: "segs = ss @ [s]" "wi_writer w = Some sw" "sw_first sw = fst s"
    "well_numbered (ss @ [s])" "wi_segments w = index_of (ss @ [s])"
    by (rule wal_repE)
  have keys: "map fst (wi_segments w) = map fst ss @ [fst s]"
    by (simp add: r(5) index_of_def)
  show ?thesis
  proof (cases ss)
    case Nil
    then show ?thesis
      using r keys by (simp add: oldest_inactive_def)
  next
    case (Cons x xs)
    then have "fst x \<noteq> fst s"
      using well_numbered_keys(1) [OF r(4), of x] by auto
    then show ?thesis
      using r keys Cons by (cases xs) (simp_all add: oldest_inactive_def)
  qed
qed

lemma drop_rep:
  assumes "wal_rep crc d w (s # t # ss) i j"
  obtains w' d' where "drop_segment (fst s) w d = (w', d')" "wal_rep crc d' w' (t # ss) i j"
    "same_meta w w'" "wi_active_bytes w' = wi_active_bytes w" "wi_writer w' = wi_writer w"
    "wi_retained_bytes w' = a_size (butlast (t # ss))"
proof -
  have b: "butlast (s # t # ss) = s # butlast (t # ss)" "last (s # t # ss) = last (t # ss)"
    by simp_all
  have wn: "well_numbered (s # t # ss)"
    using assms by (simp add: wal_rep_def)
  then have "chain (unat (fst s)) (s # t # ss)"
    by (simp add: well_numbered_def)
  from chain_distinct [OF this] have fresh: "fst s \<notin> fst ` set (t # ss)"
    by auto
  have fresh': "fst s \<notin> fst ` set (butlast (t # ss))"
    using fresh in_set_butlastD by fastforce
  have rm: "bt_remove (fst s) (index_of (s # t # ss)) = index_of (t # ss)"
    "bt_remove (fst s) (sizes_of (s # butlast (t # ss))) = sizes_of (butlast (t # ss))"
    unfolding index_of_def sizes_of_def list.map
    by (rule bt_remove_head, use fresh fresh' in \<open>auto simp: image_iff\<close>)+
  let ?d = "remove_file (seg_name (fst s)) d"
  have up: "d_up d"
    using assms by (simp add: wal_rep_def dir_ok_up)
  have other: "lookup ?d (seg_name (fst x)) = lookup d (seg_name (fst x))" if "x \<in> set (t # ss)" for x
    using up fresh imageI [OF that, of fst] by (metis lookup_remove seg_name_eq_iff)
  have closed: "\<forall>x \<in> set (butlast (t # ss)). closed_seg crc ?d x"
    using assms other in_set_butlastD unfolding wal_rep_def b closed_seg_def by (metis list.set_intros(2))
  have "last (t # ss) \<in> set (t # ss)"
    by (rule last_in_set) simp
  note last_other = other [OF this]
  have act: "open_seg crc ?d sw (snd (last (t # ss))) i j"
    if "open_seg crc d sw (snd (last (t # ss))) i j" "sw_first sw = fst (last (t # ss))" for sw
    by (rule open_seg_lookup [OF that(1)]) (simp only: that(2) last_other)
  have strays: "no_strays ?d (t # ss)"
    using assms up by (fastforce simp: wal_rep_def no_strays_def)
  let ?w = "w\<lparr>wi_segments := index_of (t # ss), wi_sizes := sizes_of (butlast (t # ss)),
    wi_retained_bytes := a_size (butlast (t # ss))\<rparr>"
  have "drop_segment (fst s) w d = (?w, ?d)"
    using assms rm by (simp add: drop_segment_def wal_rep_def b index_of_def sizes_of_def)
  moreover have "wal_rep crc ?d ?w (t # ss) i j"
    using assms closed act strays well_numbered_tail [OF wn] unfolding wal_rep_def b by auto
  ultimately show ?thesis
    using that [of ?w ?d] by (simp add: same_meta_def)
qed

lemma retention_rep:
  assumes "wal_rep crc d w segs i j"
  obtains w' d' where "enforce_retention w d = (w', d')"
    "wal_rep crc d' w' (a_retain (wc_retention_bytes (w_cfg w)) segs) i j" "same_meta w w'"
    "wi_writer w' = wi_writer w"
proof -
  have size: "wi_retained_bytes w + wi_active_bytes w = a_size segs" if "wal_rep crc d w segs i j" for d w segs
    using that by (elim wal_repE) (simp add: open_seg_def)
  have "\<exists>w' d'. enforce_retention w d = (w', d') \<and> wal_rep crc d' w' (a_retain cap segs) i j
    \<and> same_meta w w' \<and> wi_writer w' = wi_writer w"
    if "wal_rep crc d w segs i j" "wc_retention_bytes (w_cfg w) = cap" for cap w d
    using that
  proof (induction cap segs arbitrary: w d rule: a_retain.induct)
    case (1 cap s t ss)
    show ?case
    proof (cases "a_size (s # t # ss) \<le> cap")
      case True
      then show ?thesis
        using 1(2,3) size [OF 1(2)] by (simp add: enforce_retention.simps)
    next
      case False
      obtain w1 d1 where d: "drop_segment (fst s) w d = (w1, d1)" "wal_rep crc d1 w1 (t # ss) i j"
        "same_meta w w1" "wi_writer w1 = wi_writer w"
        using drop_rep [OF 1(2)] by metis
      have "\<not> wi_retained_bytes w + wi_active_bytes w \<le> wc_retention_bytes (w_cfg w)"
        using False size [OF 1(2)] 1(3) by simp
      moreover have "oldest_inactive w = Some (fst s)"
        using oldest_inactive_rep [OF 1(2)] by simp
      ultimately have "enforce_retention w d = enforce_retention w1 d1"
        using d(1) by (subst enforce_retention.simps) simp
      moreover have "wc_retention_bytes (w_cfg w1) = cap"
        using d(3) 1(3) by (simp add: same_meta_def)
      from 1(1) [OF False d(2) this] obtain w2 d2 where "enforce_retention w1 d1 = (w2, d2)"
        "wal_rep crc d2 w2 (a_retain cap (t # ss)) i j" "same_meta w1 w2" "wi_writer w2 = wi_writer w1"
        by blast
      ultimately show ?thesis
        using False d(3,4) same_meta_trans [of w w1 w2] by simp
    qed
  next
    case "2_1"
    then show ?case
      by (simp add: wal_rep_def)
  next
    case "2_2"
    then show ?case
      using oldest_inactive_rep [OF "2_2"(1)] by (simp add: enforce_retention.simps)
  qed
  from this [OF assms refl] show ?thesis
    using that by blast
qed

subsection \<open>Appending and syncing\<close>

lemma well_numbered_extend:
  assumes "well_numbered (ss @ [s])" "unat (r_cursor r) = a_next (ss @ [s])" "record_ok r"
    "unat (r_cursor r) + 1 < 2 ^ 64"
  shows "well_numbered (ss @ [(fst s, snd s @ [r])])"
proof -
  let ?n = "unat (fst (hd (ss @ [s])))"
  have hd: "fst (hd (ss @ [(fst s, snd s @ [r])])) = fst (hd (ss @ [s]))"
    by (cases ss) simp_all
  have c: "chain ?n (ss @ [s])"
    using assms(1) by (simp add: well_numbered_def)
  have next': "unat (r_cursor r) = ?n + length (log_of ss) + length (snd s)"
    using assms(2) by (simp add: a_next_def log_of_def)
  have "chain ?n (ss @ [(fst s, snd s @ [r])])"
    using c next' assms(3) by (simp add: chain_snoc numbered_append)
  moreover have "?n + length (log_of (ss @ [(fst s, snd s @ [r])])) < 2 ^ 64"
    using next' assms(4) by (simp add: log_of_def)
  ultimately show ?thesis
    unfolding well_numbered_def hd by simp
qed

lemma append_active_rep:
  assumes "wal_rep crc d w segs i j" "wi_writer w = Some sw" "sw_pending sw = r_cursor r"
    "record_ok r" "unat (r_cursor r) + 1 < 2 ^ 64"
  obtains w' d' sw' j' where
    "append_active crc (r_cursor r) (r_ts r) (r_payload r) w d = (Inr (), w', d')"
    "wal_rep crc d' w' (butlast segs @ [(fst (last segs), snd (last segs) @ [r])]) i j'"
    "wi_writer w' = Some sw'" "sw_pending sw' = r_cursor r + 1" "w_pending w' = r_cursor r + 1"
    "w_cfg w' = w_cfg w" "w_durable w' = w_durable w" "w_poisoned w' = w_poisoned w"
    "w_appends w' = w_appends w + 1" "w_append_bytes w' = w_append_bytes w + length (r_payload r)"
    "j \<le> j'"
proof -
  from assms(1) obtain ss s sw0 where r: "segs = ss @ [s]" "wi_writer w = Some sw0" "sw_first sw0 = fst s"
    "open_seg crc d sw0 (snd s) i j" "d_up d" "well_numbered (ss @ [s])" "sw_name sw0 = seg_name (fst s)"
    "unat (sw_pending sw0) = a_next (ss @ [s])"
    by (rule wal_repE)
  have sw: "sw0 = sw"
    using r(2) assms(2) by simp
  obtain sw' d' j' where a: "seg_append crc sw (r_cursor r) (r_ts r) (r_payload r) d = (Inr (), sw', d')"
    "open_seg crc d' sw' (snd s @ [r]) i j'" "only_file (seg_name (fst s)) d d'"
    "sw_first sw' = fst s" "sw_pending sw' = r_cursor r + 1" "j \<le> j'"
    using append_seg [of crc d sw "snd s" i j r] r assms(3,4,5) unfolding sw by metis
  have wn: "well_numbered (ss @ [(fst s, snd s @ [r])])"
    using well_numbered_extend [OF r(6) _ assms(4,5)] r(8) assms(3) sw by simp
  let ?w = "w\<lparr>wi_writer := Some sw', wi_active_bytes := sw_bytes sw', w_pending := sw_pending sw',
    w_appends := w_appends w + 1, w_append_bytes := w_append_bytes w + length (r_payload r)\<rparr>"
  have "wal_rep crc d' ?w (ss @ [(fst s, snd s @ [r])]) i j'"
    by (rule wal_rep_update [OF assms(1) [unfolded r(1)] a(3,2,4) wn]) simp_all
  moreover have "append_active crc (r_cursor r) (r_ts r) (r_payload r) w d = (Inr (), ?w, d')"
    using a(1) assms(2) by (simp add: append_active_def)
  ultimately show ?thesis
    using that [of ?w d' j' sw'] a(5,6) r(1) by simp
qed

lemma fsync_rep:
  assumes "wal_rep crc d w segs i j"
  obtains w' d' where "wal_fsync w d = (Inr (), w', d')"
    "wal_rep crc d' w' segs (length (snd (last segs))) (length (snd (last segs)))"
    "unat (w_durable w') = a_next segs" "w_cfg w' = w_cfg w" "w_pending w' = w_pending w"
    "w_poisoned w' = w_poisoned w" "j \<le> length (snd (last segs))"
proof -
  from assms(1) obtain ss s sw where r: "segs = ss @ [s]" "wi_writer w = Some sw" "sw_first sw = fst s"
    "open_seg crc d sw (snd s) i j" "wi_active_bytes w = sw_bytes sw" "d_up d" "well_numbered (ss @ [s])"
    "sw_name sw = seg_name (fst s)" "unat (sw_pending sw) = a_next (ss @ [s])"
    by (rule wal_repE)
  obtain sw' d' where f: "seg_fsync sw d = (Inr (sw_pending sw), sw', d')"
    "open_seg crc d' sw' (snd s) (length (snd s)) (length (snd s))" "only_file (seg_name (fst s)) d d'"
    "sw_first sw' = fst s"
    using fsync_seg [OF r(4,6)] r(3,8) by metis
  have bytes: "wi_active_bytes w = sw_bytes sw'"
    using r(4,5) f(2) by (simp add: open_seg_def)
  let ?w = "w\<lparr>wi_writer := Some sw', w_durable := sw_pending sw, w_flushes := w_flushes w + 1\<rparr>"
  have "well_numbered (ss @ [(fst s, snd s)])"
    using r(7) by simp
  from wal_rep_update [OF assms [unfolded r(1)] f(3,2,4) this, of ?w]
  have "wal_rep crc d' ?w segs (length (snd (last segs))) (length (snd (last segs)))"
    using bytes by (simp add: r(1))
  moreover have "wal_fsync w d = (Inr (), ?w, d')"
    using f(1) r(2) by (simp add: wal_fsync_def)
  ultimately show ?thesis
    using that [of ?w d'] r(1,4,9) by (simp add: open_seg_def)
qed

subsection \<open>The state of a log and its operations\<close>

text \<open>Fresh or in use, and nothing claimed durable that is not synced.\<close>

definition wal_state :: "(bytes \<Rightarrow> u32) \<Rightarrow> disk \<Rightarrow> wal \<Rightarrow> segments \<Rightarrow> nat \<Rightarrow> nat \<Rightarrow> bool" where
  "wal_state crc d w segs i j \<longleftrightarrow>
     (if segs = [] then wal_retired crc d w [] \<and> wi_active_bytes w = 0 \<and> w_durable w = 0 \<and> i = 0 \<and> j = 0
      else wal_rep crc d w segs i j \<and> unat (w_pending w) = a_next segs
        \<and> unat (w_durable w) \<le> unat (fst (last segs)) + i)"

text \<open>What the flusher may claim after its sync: records of segments before the active one, or records
  of the active one that it has flushed.\<close>

definition tick_ok :: "segments \<Rightarrow> nat \<Rightarrow> (string \<times> u64) option \<Rightarrow> bool" where
  "tick_ok segs j tick \<longleftrightarrow> (case tick of None \<Rightarrow> True | Some (name, p) \<Rightarrow>
     segs \<noteq> [] \<and> (unat p \<le> unat (fst (last segs))
       \<or> name = seg_name (fst (last segs)) \<and> unat p \<le> unat (fst (last segs)) + j))"

definition a_log_step :: "wal_config \<Rightarrow> wal_record \<Rightarrow> segments \<Rightarrow> segments" where
  "a_log_step cfg r segs = a_retain (wc_retention_bytes cfg) (a_append (wc_segment_size_max cfg) r segs)"

text \<open>The first three steps of \<open>append\<close> give a log whose last segment can take the record.\<close>

lemma prepare_rep:
  assumes "wal_state crc d w segs i j" "segs \<noteq> [] \<longrightarrow> unat (r_cursor r) = a_next segs"
    "SEGMENT_HEADER_LEN + record_encoded_len r \<le> wc_segment_size_max (w_cfg w)"
  obtains w' d' sw segs' i' j' where
    "and_then (ensure_writer created (r_cursor r) w d) (\<lambda>_.
       rotate_if_full created (r_cursor r) (RECORD_FRAMING + length (r_payload r))) = (Inr (), w', d')"
    "wal_rep crc d' w' segs' i' j'" "wi_writer w' = Some sw" "sw_pending sw = r_cursor r" "same_meta w w'"
    "butlast segs' @ [(fst (last segs'), snd (last segs') @ [r])] = a_append (wc_segment_size_max (w_cfg w)) r segs"
    "unat (w_durable w) \<le> unat (fst (last segs')) + i'"
    "\<And>tick. tick_ok segs j tick \<Longrightarrow> tick_ok segs' j' tick"
proof (cases "segs = []")
  case True
  then obtain w1 d1 sw where n: "new_segment created (r_cursor r) w d = (Inr (), w1, d1)"
    "wal_rep crc d1 w1 [(r_cursor r, [])] 0 0" "same_meta w w1" "wi_writer w1 = Some sw" "sw_pending sw = r_cursor r"
    using new_segment_rep [of crc d w "[]" "r_cursor r" created] assms(1) by (auto simp: wal_state_def)
  have "wi_active_bytes w1 = SEGMENT_HEADER_LEN" "w_cfg w1 = w_cfg w"
    using n(2,3) by (auto simp: wal_rep_def open_seg_def seg_size_def same_meta_def)
  then have "rotate_if_full created (r_cursor r) (RECORD_FRAMING + length (r_payload r)) w1 d1 = (Inr (), w1, d1)"
    using assms(3) by (simp add: rotate_if_full_def record_encoded_len_def)
  moreover have "tick_ok [(r_cursor r, [])] 0 tick" if "tick_ok segs j tick" for tick
    using that True by (cases tick) (auto simp: tick_ok_def)
  ultimately show ?thesis
    using that [OF _ n(2,4,5,3)] n(1) assms(1) True
    by (simp add: ensure_writer_def wal_state_def wal_retired_def a_append_def)
next
  case False
  then have rep: "wal_rep crc d w segs i j" "unat (w_durable w) \<le> unat (fst (last segs)) + i"
    using assms(1) by (auto simp: wal_state_def)
  from rep(1) obtain ss s sw where r: "segs = ss @ [s]" "wi_writer w = Some sw"
    "open_seg crc d sw (snd s) i j" "wi_active_bytes w = sw_bytes sw" "unat (sw_pending sw) = a_next (ss @ [s])"
    "well_numbered (ss @ [s])"
    by (rule wal_repE)
  have c: "sw_pending sw = r_cursor r"
    using r(1,5) assms(2) by (simp add: word_unat_eq_iff)
  have full: "wi_active_bytes w + (RECORD_FRAMING + length (r_payload r))
      = seg_size (snd (last segs)) + record_encoded_len r"
    using r by (simp add: open_seg_def record_encoded_len_def)
  show ?thesis
  proof (cases "seg_size (snd (last segs)) + record_encoded_len r > wc_segment_size_max (w_cfg w)")
    case True
    then have ne: "snd (last segs) \<noteq> []"
      using assms(3) by (auto simp: seg_size_def)
    obtain w1 d1 sw1 where n: "rotate_locked created (r_cursor r) w d = (Inr (), w1, d1)"
      "wal_rep crc d1 w1 (a_rotate (r_cursor r) segs) 0 0" "same_meta w w1" "wi_writer w1 = Some sw1"
      "sw_pending sw1 = r_cursor r"
      using rotate_rep [OF rep(1) ne, of "r_cursor r" created] assms(2) False by metis
    have "chain (unat (fst (hd segs))) (ss @ [s])"
      using r(6) by (simp add: r(1) well_numbered_def)
    then have older: "unat (fst (last segs)) + i \<le> unat (r_cursor r)" "unat (fst (last segs)) + j \<le> unat (r_cursor r)"
      using r(3) assms(2) False by (auto simp: r(1) chain_snoc a_next_def log_of_def open_seg_def)
    have "tick_ok (a_rotate (r_cursor r) segs) 0 tick" if "tick_ok segs j tick" for tick
      using that older(2) by (auto simp: tick_ok_def a_rotate_def split: option.splits)
    then show ?thesis
      using that [OF _ n(2,4,5,3)] n(1) rep(2) True full False r(2) older(1)
      by (simp add: ensure_writer_def rotate_if_full_def a_append_def a_rotate_def)
  next
    case no: False
    then show ?thesis
      using that [OF _ rep(1) r(2) c same_meta_refl] full r(2) rep(2) False
      by (simp add: ensure_writer_def rotate_if_full_def a_append_def)
  qed
qed

end
