(* ===== verification/Wal_Reading.thy ===== *)
theory Wal_Reading
  imports Wal_Refine
begin

text \<open>
  Reading a log: what the replayer yields, the index that the publisher keeps and the one that a
  subscriber rebuilds from the directory.
\<close>

subsection \<open>Exhausting a replayer\<close>

lemma replayer_next_left:
  "replayer_next crc d rp = (Some x, rp') \<Longrightarrow>
    length (rp_segments rp') < length (rp_segments rp)
      \<or> length (rp_segments rp') = length (rp_segments rp) \<and> replayer_left rp' < replayer_left rp"
proof (induction crc d rp arbitrary: x rp' rule: replayer_next.induct)
  case (1 crc d rp)
  show ?case
  proof (cases "rp_current rp")
    case None
    show ?thesis
    proof (cases "rp_segments rp")
      case Nil
      then show ?thesis
        using 1(4) None by (simp add: replayer_next.simps)
    next
      case (Cons p ps)
      show ?thesis
      proof (cases "seg_open p d")
        case (Inl e)
        then show ?thesis
          using 1(4) None Cons by (auto simp: replayer_next.simps)
      next
        case (Inr r)
        then have "replayer_next crc d (rp\<lparr>rp_segments := ps, rp_current := Some r\<rparr>) = (Some x, rp')"
          using 1(4) None Cons by (subst (asm) replayer_next.simps) simp
        from 1(1) [OF None Cons Inr this] show ?thesis
          using Cons by auto
      qed
    qed
  next
    case (Some r)
    obtain res r' where n: "next_record crc r = (res, r')"
      by (cases "next_record crc r") auto
    show ?thesis
    proof (cases res)
      case None
      then have "replayer_next crc d (rp\<lparr>rp_current := None\<rparr>) = (Some x, rp')"
        using 1(4) Some n by (subst (asm) replayer_next.simps) simp
      from 1(2) [OF Some n [symmetric] None this] show ?thesis
        using Some by (auto simp: replayer_left_def)
    next
      case (Some e)
      note left = next_record_left [of crc r e r', OF n [unfolded Some]]
      show ?thesis
      proof (cases e)
        case (Inl err)
        then show ?thesis
          using 1(4) \<open>rp_current rp = Some r\<close> n Some left
          by (subst (asm) replayer_next.simps) (auto simp: replayer_left_def)
      next
        case (Inr y)
        show ?thesis
        proof (cases "r_cursor y < rp_floor rp")
          case True
          then have "replayer_next crc d (rp\<lparr>rp_current := Some r'\<rparr>) = (Some x, rp')"
            using 1(4) \<open>rp_current rp = Some r\<close> n Some Inr by (subst (asm) replayer_next.simps) simp
          from 1(3) [OF \<open>rp_current rp = Some r\<close> n [symmetric] Some Inr True this] show ?thesis
            using left \<open>rp_current rp = Some r\<close> by (auto simp: replayer_left_def)
        next
          case False
          then show ?thesis
            using 1(4) \<open>rp_current rp = Some r\<close> n Some Inr left
            by (subst (asm) replayer_next.simps) (auto simp: replayer_left_def)
        qed
      qed
    qed
  qed
qed

function replay_all :: "(bytes \<Rightarrow> u32) \<Rightarrow> disk \<Rightarrow> replayer \<Rightarrow> (wal_error + wal_record) list" where
  "replay_all crc d rp = (case replayer_next crc d rp of
      (None, rp') \<Rightarrow> []
    | (Some x, rp') \<Rightarrow> x # replay_all crc d rp')"
  by pat_completeness auto
termination
  by (relation "measures [\<lambda>(crc, d, rp). length (rp_segments rp), \<lambda>(crc, d, rp). replayer_left rp]")
     (auto dest: replayer_next_left [OF sym])

declare replay_all.simps [simp del]

lemma replay_all_done:
  "rp_current rp = None \<Longrightarrow> rp_segments rp = [] \<Longrightarrow> replay_all crc d rp = []"
  by (simp add: replay_all.simps replayer_next.simps)

lemma replay_all_open:
  assumes "rp_current rp = None" "rp_segments rp = p # ps" "seg_open p d = Inr r"
  shows "replay_all crc d rp = replay_all crc d (rp\<lparr>rp_segments := ps, rp_current := Some r\<rparr>)"
proof -
  have "replayer_next crc d rp = replayer_next crc d (rp\<lparr>rp_segments := ps, rp_current := Some r\<rparr>)"
    using assms by (subst replayer_next.simps) simp
  then show ?thesis
    by (subst (1 2) replay_all.simps) simp
qed

lemma replay_all_next:
  assumes "rp_current rp = Some r" "next_record crc r = (Some (Inr x), r')"
  shows "replay_all crc d rp =
    (if rp_floor rp \<le> r_cursor x then [Inr x] else []) @ replay_all crc d (rp\<lparr>rp_current := Some r'\<rparr>)"
proof (cases "r_cursor x < rp_floor rp")
  case True
  then have "replayer_next crc d rp = replayer_next crc d (rp\<lparr>rp_current := Some r'\<rparr>)"
    using assms by (subst replayer_next.simps) simp
  then show ?thesis
    using True by (subst (1 2) replay_all.simps) simp
next
  case False
  then have "replayer_next crc d rp = (Some (Inr x), rp\<lparr>rp_current := Some r'\<rparr>)"
    using assms by (subst replayer_next.simps) simp
  then show ?thesis
    using False by (subst replay_all.simps) simp
qed

lemma replay_all_end:
  assumes "rp_current rp = Some r" "next_record crc r = (None, r')"
  shows "replay_all crc d rp = replay_all crc d (rp\<lparr>rp_current := None\<rparr>)"
proof -
  have "replayer_next crc d rp = replayer_next crc d (rp\<lparr>rp_current := None\<rparr>)"
    using assms by (subst replayer_next.simps) simp
  then show ?thesis
    by (subst (1 2) replay_all.simps) simp
qed

text \<open>A segment whose file is a header and whole records.\<close>

definition clean :: "(bytes \<Rightarrow> u32) \<Rightarrow> disk \<Rightarrow> string \<Rightarrow> bool" where
  "clean crc d p \<longleftrightarrow> (\<exists>f. lookup d p = Some f \<and> has_header f \<and> body_rest crc (seg_body f) = [])"

definition records_in :: "(bytes \<Rightarrow> u32) \<Rightarrow> disk \<Rightarrow> string \<Rightarrow> wal_record list" where
  "records_in crc d p = (case lookup d p of None \<Rightarrow> [] | Some f \<Rightarrow> file_records crc f)"

lemma replay_reader:
  assumes "sr_file_len r = length (sr_content r)" "\<not> sr_halted r" "sr_pos r \<le> length (sr_content r)"
    "body_rest crc (drop (sr_pos r) (sr_content r)) = []" "rp_current rp = Some r"
  shows "replay_all crc d rp =
    map Inr (filter (\<lambda>x. rp_floor rp \<le> r_cursor x) (body_records crc (drop (sr_pos r) (sr_content r))))
      @ replay_all crc d (rp\<lparr>rp_current := None\<rparr>)"
  using assms
proof (induction "reader_left r" arbitrary: r rp rule: less_induct)
  case less
  from less.prems(3) show ?case
  proof (cases rule: read_one_record_cases [where crc = crc])
    case eof
    then have "next_record crc r = (None, r)"
      using less.prems by (simp add: next_record_def)
    from replay_all_end [OF less.prems(5) this] show ?thesis
      using eof by simp
  next
    case (got x n)
    let ?r = "r\<lparr>sr_pos := sr_pos r + n\<rparr>"
    have nr: "next_record crc r = (Some (Inr x), ?r)"
      using got less.prems by (simp add: next_record_def)
    note b = body_parsed [OF got(2)]
    have d: "drop n (drop (sr_pos r) (sr_content r)) = drop (sr_pos ?r) (sr_content ?r)"
      by (simp add: add.commute)
    have "replay_all crc d (rp\<lparr>rp_current := Some ?r\<rparr>) =
      map Inr (filter (\<lambda>x. rp_floor (rp\<lparr>rp_current := Some ?r\<rparr>) \<le> r_cursor x)
          (body_records crc (drop (sr_pos ?r) (sr_content ?r))))
        @ replay_all crc d (rp\<lparr>rp_current := Some ?r, rp_current := None\<rparr>)"
      using less.prems read_one_record_advances(3) [OF got(1)] b(2) d
      by (intro less.hyps next_record_left [OF nr]) simp_all
    then show ?thesis
      using replay_all_next [OF less.prems(5) nr, of d] b(1) d by simp
  next
    case crc
    then show ?thesis
      using less.prems body_stuck(2) [of crc "drop (sr_pos r) (sr_content r)"] by simp
  next
    case big
    then show ?thesis
      using less.prems body_stuck(2) [of crc "drop (sr_pos r) (sr_content r)"] by simp
  next
    case short
    then show ?thesis
      using less.prems body_stuck(2) [of crc "drop (sr_pos r) (sr_content r)"] by simp
  qed
qed

lemma replay_segments:
  assumes "\<forall>p \<in> set ps. clean crc d p" "rp_current rp = None" "rp_segments rp = ps"
  shows "replay_all crc d rp =
    map Inr (filter (\<lambda>x. rp_floor rp \<le> r_cursor x) (concat (map (records_in crc d) ps)))"
  using assms
proof (induction ps arbitrary: rp)
  case Nil
  then show ?case by (simp add: replay_all_done)
next
  case (Cons p ps)
  then obtain f where f: "lookup d p = Some f" "has_header f" "body_rest crc (seg_body f) = []"
    by (auto simp: clean_def)
  obtain r where r: "seg_open p d = Inr r" "sr_content r = f_content f" "sr_file_len r = length (f_content f)"
    "sr_pos r = SEGMENT_HEADER_LEN" "\<not> sr_halted r"
    using seg_open_Some [OF f(1,2)] by auto
  let ?rp = "rp\<lparr>rp_segments := ps, rp_current := Some r\<rparr>"
  have "replay_all crc d rp = replay_all crc d ?rp"
    by (rule replay_all_open [OF Cons.prems(2,3) r(1)])
  moreover have "replay_all crc d ?rp = map Inr (filter (\<lambda>x. rp_floor rp \<le> r_cursor x) (file_records crc f))
      @ replay_all crc d (?rp\<lparr>rp_current := None\<rparr>)"
    using replay_reader [of r crc ?rp d] r f has_header_length [OF f(2)]
    by (simp add: seg_body_def file_records_def)
  moreover have "replay_all crc d (?rp\<lparr>rp_current := None\<rparr>) =
      map Inr (filter (\<lambda>x. rp_floor rp \<le> r_cursor x) (concat (map (records_in crc d) ps)))"
    using Cons.IH [of "?rp\<lparr>rp_current := None\<rparr>"] Cons.prems(1) by simp
  moreover have "records_in crc d p = file_records crc f"
    using f(1) by (simp add: records_in_def)
  ultimately show ?case
    by simp
qed

subsection \<open>The segment index\<close>

text \<open>What the program relies on from \<open>BTreeMap\<close>: iteration in key order and lookup after insert.\<close>

locale ordered_map =
  fixes entries :: "'m \<Rightarrow> ('k::linorder \<times> 'v) list"
    and ok :: "'m \<Rightarrow> bool"
    and insert :: "'k \<Rightarrow> 'v \<Rightarrow> 'm \<Rightarrow> 'm"
  assumes entries_sorted: "ok m \<Longrightarrow> sorted_wrt (<) (map fst (entries m))"
    and insert_ok: "ok m \<Longrightarrow> ok (insert k v m)"
    and insert_lookup: "ok m \<Longrightarrow> map_of (entries (insert k v m)) = (map_of (entries m))(k \<mapsto> v)"
begin

lemma entries_unique:
  assumes "ok m" "sorted_wrt (<) (map fst kvs)" "map_of (entries m) = map_of kvs"
  shows "entries m = kvs"
proof -
  note srt = entries_sorted [OF assms(1)] assms(2)
  have dist: "distinct (map fst (entries m))" "distinct (map fst kvs)"
    using srt by (auto simp: strict_sorted_iff)
  have set: "set (entries m) = set kvs"
    using map_of_inject_set [OF dist] assms(3) by simp
  moreover have "inj_on fst (set (entries m) \<union> set kvs)"
    using dist(2) by (simp add: set distinct_map)
  ultimately show ?thesis
    using map_sorted_distinct_set_unique [of fst "entries m" kvs] srt dist by (simp add: strict_sorted_iff)
qed

lemma insert_all:
  assumes "ok m"
  shows "ok (foldl (\<lambda>m kv. insert (fst kv) (snd kv) m) m kvs)"
    and "map_of (entries (foldl (\<lambda>m kv. insert (fst kv) (snd kv) m) m kvs)) = map_of (entries m) ++ map_of (rev kvs)"
proof -
  have "ok (foldl (\<lambda>m kv. insert (fst kv) (snd kv) m) m kvs) \<and>
    map_of (entries (foldl (\<lambda>m kv. insert (fst kv) (snd kv) m) m kvs)) = map_of (entries m) ++ map_of (rev kvs)"
    using assms
    by (induction kvs arbitrary: m) (auto simp: insert_ok insert_lookup map_add_def fun_eq_iff split: option.splits)
  then show "ok (foldl (\<lambda>m kv. insert (fst kv) (snd kv) m) m kvs)"
    "map_of (entries (foldl (\<lambda>m kv. insert (fst kv) (snd kv) m) m kvs)) = map_of (entries m) ++ map_of (rev kvs)"
    by simp_all
qed

end

abbreviation sorted_keys :: "('k::linorder \<times> 'v) list \<Rightarrow> bool" where
  "sorted_keys kvs \<equiv> sorted_wrt (<) (map fst kvs)"

lemma bt_insert_keys: "set (map fst (bt_insert k v kvs)) = Set.insert k (set (map fst kvs))"
  by (induction k v kvs rule: bt_insert.induct) auto

lemma bt_insert_sorted: "sorted_keys kvs \<Longrightarrow> sorted_keys (bt_insert k v kvs)"
proof (induction k v kvs rule: bt_insert.induct)
  case (2 k v k' v' kvs)
  then show ?case
    using bt_insert_keys [of k v kvs] by (auto simp: less_le_not_le)
qed simp

lemma bt_insert_lookup: "map_of (bt_insert k v kvs) = (map_of kvs)(k \<mapsto> v)"
  by (induction k v kvs rule: bt_insert.induct) auto

interpretation btree: ordered_map "\<lambda>m. m" sorted_keys bt_insert
  by unfold_locales (simp_all add: bt_insert_sorted bt_insert_lookup)

text \<open>The index of a chain of segments is sorted, so any order of the directory listing gives it.\<close>

lemma chain_sorted: "chain n ss \<Longrightarrow> sorted_keys ss"
proof (induction ss arbitrary: n)
  case (Cons s ss)
  have "fst s < k" if k: "k \<in> set (map fst ss)" for k
  proof -
    have "ss \<noteq> []"
      using k by auto
    then have "0 < length (snd s)"
      using Cons.prems by simp
    moreover have "n + length (snd s) \<le> unat k"
      using chain_keys [of "n + length (snd s)" ss k] Cons.prems k by simp
    moreover have "unat (fst s) = n"
      using Cons.prems by simp
    ultimately have "unat (fst s) < unat k"
      by linarith
    then show ?thesis
      by (simp add: word_less_nat_alt)
  qed
  then show ?case
    using Cons.IH [of "n + length (snd s)"] Cons.prems by simp
qed simp

lemma well_numbered_sorted:
  "well_numbered segs \<Longrightarrow> sorted_keys (index_of segs) \<and> sorted_keys (sizes_of segs)"
  using chain_sorted [of "unat (fst (hd segs))" segs]
  by (cases "segs = []") (simp_all add: well_numbered_def index_of_def sizes_of_def comp_def)

definition keyed :: "string list \<Rightarrow> (u64 \<times> string) list" where
  "keyed names = List.map_filter (\<lambda>name. map_option (\<lambda>k. (k, name)) (seg_key name)) names"

lemma keyed_simps [simp]:
  "keyed [] = []"
  "keyed (name # names) = (case seg_key name of None \<Rightarrow> keyed names | Some k \<Rightarrow> (k, name) # keyed names)"
  by (simp_all add: keyed_def map_filter_simps split: option.splits)

lemma index_names_fold:
  "index_names names segs = foldl (\<lambda>m kv. bt_insert (fst kv) (snd kv) m) segs (keyed names)"
  by (induction names segs rule: index_names.induct) (simp_all split: option.splits)

lemma keyed_set: "set (keyed names) = {(k, name). name \<in> set names \<and> seg_key name = Some k}"
  by (induction names) (auto split: option.splits)

text \<open>A directory whose segment files are those of the chain.\<close>

definition dir_of :: "disk \<Rightarrow> segments \<Rightarrow> bool" where
  "dir_of d segs \<longleftrightarrow> well_numbered segs \<and> no_strays d segs \<and> distinct (map fst (d_files d))
     \<and> (\<forall>s \<in> set segs. lookup d (seg_name (fst s)) \<noteq> None)"

lemma dir_of_keyed:
  assumes "dir_of d segs"
  shows "set (keyed (map fst (d_files d))) = set (index_of segs)"
    and "distinct (map fst (keyed (map fst (d_files d))))"
proof -
  have names: "set (map fst (d_files d)) = {n. lookup d n \<noteq> None}"
    by (metis dom_def dom_map_of_conv_image_fst list.set_map)
  have canon: "\<exists>s \<in> set segs. fst s = k \<and> n = seg_name k"
    if n: "lookup d n \<noteq> None" "seg_key n = Some k" for n k
  proof -
    have "no_strays d segs"
      using assms by (simp add: dir_of_def)
    then obtain s where s: "s \<in> set segs" "n = seg_name (fst s)"
      using n unfolding no_strays_def by blast
    then have "fst s = k"
      using n(2) seg_key_name [of "fst s"] by simp
    then show ?thesis
      using s by blast
  qed
  have present: "lookup d (seg_name (fst s)) \<noteq> None" if "s \<in> set segs" for s
    using assms that unfolding dir_of_def by blast
  show eq: "set (keyed (map fst (d_files d))) = set (index_of segs)"
  proof (rule set_eqI)
    fix x :: "u64 \<times> string"
    obtain k n where x: "x = (k, n)"
      by (cases x)
    have "x \<in> set (keyed (map fst (d_files d))) \<longleftrightarrow> lookup d n \<noteq> None \<and> seg_key n = Some k"
      by (simp only: keyed_set names x) simp
    also have "\<dots> \<longleftrightarrow> (\<exists>s \<in> set segs. fst s = k \<and> n = seg_name k)"
      using canon present seg_key_name by blast
    also have "\<dots> \<longleftrightarrow> x \<in> set (index_of segs)"
      by (auto simp: x index_of_def image_iff)
    finally show "x \<in> set (keyed (map fst (d_files d))) \<longleftrightarrow> x \<in> set (index_of segs)" .
  qed
  have inj: "inj_on fst (set (keyed (map fst (d_files d))))"
    unfolding eq by (auto simp: inj_on_def index_of_def)
  have "distinct (keyed ns)" if "distinct ns" for ns
    using that by (induction ns) (auto simp: keyed_set split: option.splits)
  then show "distinct (map fst (keyed (map fst (d_files d))))"
    using inj assms by (simp add: distinct_map dir_of_def)
qed

lemma index_names_dir:
  assumes "dir_of d segs"
  shows "index_names (map fst (d_files d)) [] = index_of segs"
proof -
  note K = dir_of_keyed [OF assms]
  let ?kvs = "keyed (map fst (d_files d))"
  have srt: "sorted_keys (index_of segs)"
    using assms well_numbered_sorted by (simp add: dir_of_def)
  have "map_of (rev ?kvs) = map_of (index_of segs)"
    using K srt by (subst map_of_inject_set) (simp_all add: strict_sorted_iff rev_map [symmetric])
  then show ?thesis
    using btree.entries_unique [OF btree.insert_all(1) srt] btree.insert_all(2) [of "[]" ?kvs]
    by (simp add: index_names_fold)
qed

subsection \<open>Reading a log in use\<close>

text \<open>What has been flushed: everything but the last segment's buffered records.\<close>

definition flushed :: "segments \<Rightarrow> nat \<Rightarrow> segments" where
  "flushed segs j = butlast segs @ [(fst (last segs), take j (snd (last segs)))]"

lemma image_file:
  assumes "f_content f = seg_image crc created k rs" "\<forall>r \<in> set rs. record_ok r"
  shows "has_header f" "file_records crc f = rs" "body_rest crc (seg_body f) = []"
proof -
  have "seg_body f = concat (map (encode_record crc) rs) @ []"
    using assms(1) by (simp add: seg_body_def seg_image_def wal_consts)
  then show "file_records crc f = rs" "body_rest crc (seg_body f) = []"
    using body_append [OF assms(2), of crc "[]"] unfolding file_records_def by simp_all
  show "has_header f"
    using assms(1) parse_encode_header by (auto simp: has_header_def seg_image_def)
qed

lemma well_numbered_ok:
  assumes "well_numbered segs" "s \<in> set segs"
  shows "\<forall>r \<in> set (snd s). record_ok r"
proof -
  have "segs \<noteq> []"
    using assms(2) by auto
  then have "numbered (unat (fst (hd segs))) (log_of segs)"
    using assms(1) chain_numbered by (simp add: well_numbered_def)
  from numbered_ok [OF this] show ?thesis
    using assms(2) by (auto simp: log_of_def)
qed

lemma rep_files:
  assumes "wal_rep crc d w segs i j" "s \<in> set (flushed segs j)"
  shows "clean crc d (seg_name (fst s))" and "records_in crc d (seg_name (fst s)) = snd s"
proof -
  from assms(1) obtain ss l sw where r: "segs = ss @ [l]" "open_seg crc d sw (snd l) i j" "sw_first sw = fst l"
    "well_numbered (ss @ [l])" "\<forall>x \<in> set ss. closed_seg crc d x" "sw_name sw = seg_name (fst l)"
    by (rule wal_repE)
  have whole: "clean crc d (seg_name k) \<and> records_in crc d (seg_name k) = rs"
    if "lookup d (seg_name k) = Some f" "f_content f = seg_image crc created k rs" "\<forall>r \<in> set rs. record_ok r"
    for k f created rs
    using image_file [OF that(2,3)] that(1) by (simp add: clean_def records_in_def)
  have "clean crc d (seg_name (fst s)) \<and> records_in crc d (seg_name (fst s)) = snd s"
  proof (cases "s \<in> set ss")
    case True
    then obtain created where "lookup d (seg_name (fst s)) =
        Some \<lparr>f_content = seg_image crc created (fst s) (snd s), f_synced = seg_size (snd s)\<rparr>"
      using r(5) by (auto simp: closed_seg_def)
    then show ?thesis
      by (rule whole) (use well_numbered_ok [OF r(4), of s] True in simp_all)
  next
    case False
    then have s: "s = (fst l, take j (snd l))"
      using assms(2) by (simp add: flushed_def r(1))
    have "\<forall>r \<in> set (take j (snd l)). record_ok r"
      using well_numbered_ok [OF r(4), of l] by (auto dest: in_set_takeD)
    moreover obtain f created where "lookup d (seg_name (fst l)) = Some f"
      "f_content f = seg_image crc created (fst l) (take j (snd l))"
      using r(2,3,6) by (auto simp: open_seg_def)
    ultimately show ?thesis
      unfolding s fst_conv snd_conv using whole by blast
  qed
  then show "clean crc d (seg_name (fst s))" "records_in crc d (seg_name (fst s)) = snd s"
    by simp_all
qed

lemma flushed_keys: "segs \<noteq> [] \<Longrightarrow> map fst (flushed segs j) = map fst segs"
  by (cases segs rule: rev_cases) (simp_all add: flushed_def)

lemma flushed_index: "segs \<noteq> [] \<Longrightarrow> index_of (flushed segs j) = index_of segs"
  by (cases segs rule: rev_cases) (simp_all add: flushed_def index_of_def)

text \<open>The segments before the one that may contain the cursor hold older records only.\<close>

lemma index_read_from_spec:
  assumes "chain n segs" "segs \<noteq> []" "fst (hd segs) \<le> c"
  obtains pre suf where "segs = pre @ suf" "\<forall>r \<in> set (log_of pre). unat (r_cursor r) < unat c"
    "index_read_from c (index_of segs) = Inr (replayer_new (map snd (index_of suf)) c)"
proof -
  let ?below = "filter (\<lambda>k. k \<le> c) (map fst segs)"
  have srt: "sorted_keys segs"
    using chain_sorted [OF assms(1)] .
  have ne: "?below \<noteq> []"
    using assms(2,3) by (cases segs) auto
  define k where "k = last ?below"
  have k: "k \<in> set (map fst segs)" "k \<le> c"
    using last_in_set [OF ne] by (auto simp: k_def)
  then obtain pre s suf where segs: "segs = pre @ s # suf" "fst s = k"
    by (metis (no_types, lifting) in_set_conv_decomp list.set_map imageE)
  have lt: "\<forall>x \<in> set pre. fst x < k" "\<forall>x \<in> set suf. k < fst x"
    using srt segs by (auto simp: sorted_wrt_append)
  have split: "filter (\<lambda>kv. k \<le> fst kv) (index_of segs) = index_of (s # suf)"
  proof -
    have "filter (\<lambda>x. k \<le> fst x) pre = []" "filter (\<lambda>x. k \<le> fst x) suf = suf"
      using lt by (auto simp: filter_empty_conv not_le intro!: filter_True)
    then show ?thesis
      by (simp add: segs index_of_def filter_map comp_def)
  qed
  have "\<forall>r \<in> set (log_of pre). unat (r_cursor r) < unat c"
  proof
    fix r assume r: "r \<in> set (log_of pre)"
    have "chain n (pre @ s # suf)"
      using assms(1) by (simp add: segs(1))
    then have c: "chain n pre" "unat (fst s) = n + length (log_of pre)"
      by (induction pre arbitrary: n) (auto simp: log_of_def add.assoc)
    from numbered_range [OF chain_numbered [OF c(1)] r] have "unat (r_cursor r) < unat k"
      using c(2) segs(2) by simp
    then show "unat (r_cursor r) < unat c"
      using k(2) by (simp add: word_le_nat_alt)
  qed
  moreover have "index_read_from c (index_of segs) = Inr (replayer_new (map snd (index_of (s # suf))) c)"
  proof -
    obtain x xs where x: "segs = x # xs"
      using assms(2) by (cases segs) auto
    have keys: "map fst (index_of segs) = map fst segs"
      by (simp add: index_of_def)
    have old: "oldest_cursor (index_of segs) = Some (fst x)"
      by (simp add: x oldest_cursor_def index_of_def)
    show ?thesis
      using assms(3) ne split unfolding index_read_from_def old keys Let_def k_def [symmetric]
      by (simp add: x not_less)
  qed
  ultimately show ?thesis
    using that [of pre "s # suf"] segs(1) by blast
qed

lemma read_chain:
  assumes "chain n segs" "segs \<noteq> []"
    "\<forall>s \<in> set segs. clean crc d (seg_name (fst s)) \<and> records_in crc d (seg_name (fst s)) = snd s"
  shows "case index_read_from c (index_of segs) of
      Inl e \<Rightarrow> c < fst (hd segs) \<and> e = CursorTooOld c (fst (hd segs))
    | Inr rp \<Rightarrow> fst (hd segs) \<le> c
        \<and> replay_all crc d rp = map Inr (filter (\<lambda>r. c \<le> r_cursor r) (log_of segs))"
proof -
  have hd: "hd (index_of segs) = (fst (hd segs), seg_name (fst (hd segs)))" "index_of segs \<noteq> []"
    using assms(2) by (simp_all add: index_of_def hd_map)
  show ?thesis
  proof (cases "c < fst (hd segs)")
    case True
    then have "index_read_from c (index_of segs) = Inl (CursorTooOld c (fst (hd segs)))"
      using hd by (cases "index_of segs") (auto simp: index_read_from_def oldest_cursor_def)
    then show ?thesis
      using True by simp
  next
    case False
    then obtain pre suf where S: "segs = pre @ suf" "\<forall>r \<in> set (log_of pre). unat (r_cursor r) < unat c"
      "index_read_from c (index_of segs) = Inr (replayer_new (map snd (index_of suf)) c)"
      using index_read_from_spec [OF assms(1,2)] by (metis not_less)
    have files: "\<forall>s \<in> set suf. clean crc d (seg_name (fst s)) \<and> records_in crc d (seg_name (fst s)) = snd s"
      using assms(3) S(1) by simp
    have "replay_all crc d (replayer_new (map snd (index_of suf)) c) =
        map Inr (filter (\<lambda>x. c \<le> r_cursor x) (concat (map (records_in crc d) (map snd (index_of suf)))))"
      using files replay_segments [of "map snd (index_of suf)" crc d "replayer_new (map snd (index_of suf)) c"]
      by (auto simp: replayer_new_def index_of_def)
    also have "concat (map (records_in crc d) (map snd (index_of suf))) = log_of suf"
      using files by (simp add: index_of_def log_of_def comp_def cong: map_cong)
    also have "filter (\<lambda>x. c \<le> r_cursor x) (log_of suf) = filter (\<lambda>x. c \<le> r_cursor x) (log_of segs)"
    proof -
      have "filter (\<lambda>x. c \<le> r_cursor x) (log_of pre) = []"
        using S(2) unfolding filter_empty_conv word_le_nat_alt by (simp add: not_le)
      moreover have "log_of segs = log_of pre @ log_of suf"
        by (simp add: S(1) log_of_def)
      ultimately show ?thesis
        by simp
    qed
    finally show ?thesis
      using S(3) False by (simp add: not_less)
  qed
qed

lemma flushed_chain: "well_numbered segs \<Longrightarrow> segs \<noteq> [] \<Longrightarrow> chain (unat (fst (hd segs))) (flushed segs j)"
  by (cases segs rule: rev_cases)
     (auto simp: flushed_def well_numbered_def chain_snoc numbered_take)

lemma read_in_use:
  assumes "wal_rep crc d w segs i j"
  shows "case index_read_from c (index_of segs) of
      Inl e \<Rightarrow> c < fst (hd segs) \<and> e = CursorTooOld c (fst (hd segs))
    | Inr rp \<Rightarrow> fst (hd segs) \<le> c
        \<and> replay_all crc d rp = map Inr (filter (\<lambda>r. c \<le> r_cursor r) (log_of (flushed segs j)))"
proof -
  have ne: "segs \<noteq> []" "well_numbered segs" "flushed segs j \<noteq> []"
    using assms by (auto simp: wal_rep_def flushed_def)
  then have "fst (hd (flushed segs j)) = fst (hd segs)"
    using flushed_keys [of segs j] by (metis hd_map)
  then show ?thesis
    using read_chain [OF flushed_chain [OF ne(2,1), of j] ne(3), of crc d c] rep_files [OF assms]
      flushed_index [OF ne(1), of j] by (simp split: sum.splits)
qed

end
