(* ===== verification/Wal_Crash.thy ===== *)
theory Wal_Crash
  imports Wal_Reading
begin

text \<open>
  Opening a log that another process left behind, cleanly or by a crash. A crash keeps the synced
  prefix of every file and possibly more of what was written after it; what was only in a
  writer's buffer is gone.
\<close>

subsection \<open>Crashes\<close>

definition crashed :: "disk \<Rightarrow> disk \<Rightarrow> bool" where
  "crashed d d' \<longleftrightarrow> dir_ok d' \<and> (\<forall>n. case lookup d n of
      None \<Rightarrow> lookup d' n = None
    | Some f \<Rightarrow> \<exists>f' m. lookup d' n = Some f' \<and> f_synced f \<le> m \<and> f_content f' = take m (f_content f)
        \<and> f_synced f' = length (f_content f'))"

lemma crashed_file:
  assumes "crashed d d'" "lookup d n = Some f"
  obtains f' m where "lookup d' n = Some f'" "f_synced f \<le> m" "f_content f' = take m (f_content f)"
    "f_synced f' = length (f_content f')"
proof -
  have "case lookup d n of None \<Rightarrow> lookup d' n = None
    | Some f \<Rightarrow> \<exists>f' m. lookup d' n = Some f' \<and> f_synced f \<le> m \<and> f_content f' = take m (f_content f)
        \<and> f_synced f' = length (f_content f')"
    using assms(1) unfolding crashed_def by blast
  then show ?thesis
    using assms(2) that by auto
qed

lemma crashed_dom: "crashed d d' \<Longrightarrow> lookup d' n = None \<longleftrightarrow> lookup d n = None"
proof -
  assume "crashed d d'"
  then have "case lookup d n of None \<Rightarrow> lookup d' n = None
    | Some f \<Rightarrow> \<exists>f' m. lookup d' n = Some f' \<and> f_synced f \<le> m \<and> f_content f' = take m (f_content f)
        \<and> f_synced f' = length (f_content f')"
    unfolding crashed_def by blast
  then show ?thesis
    by (auto split: option.splits)
qed

text \<open>A crash does nothing to a file that was synced whole.\<close>

lemma crashed_synced:
  assumes "crashed d d'" "lookup d n = Some f" "f_synced f = length (f_content f)"
  shows "lookup d' n = Some f"
proof -
  from assms(1,2) obtain f' m where "lookup d' n = Some f'" "f_synced f \<le> m" "f_content f' = take m (f_content f)"
    "f_synced f' = length (f_content f')"
    by (rule crashed_file)
  moreover from this have "f' = f"
    using assms(3) by simp
  ultimately show ?thesis
    by simp
qed

text \<open>Cutting an encoded record list anywhere keeps the records that lie before the cut.\<close>

lemma cut_records:
  assumes "\<forall>r \<in> set rs. record_ok r"
  obtains m where "m \<le> length rs" "body_records crc (take n (concat (map (encode_record crc) rs))) = take m rs"
    "\<And>i. i \<le> length rs \<Longrightarrow> length (concat (map (encode_record crc) (take i rs))) \<le> n \<Longrightarrow> i \<le> m"
proof -
  have "\<exists>m p. m \<le> length rs \<and> take n (concat (map (encode_record crc) rs)) = concat (map (encode_record crc) (take m rs)) @ p
      \<and> (p = [] \<or> (\<exists>r. record_ok r \<and> strict_prefix p (encode_record crc r)))
      \<and> (\<forall>i \<le> length rs. length (concat (map (encode_record crc) (take i rs))) \<le> n \<longrightarrow> i \<le> m)"
    using assms
  proof (induction rs arbitrary: n)
    case Nil
    then show ?case by simp
  next
    case (Cons r rs)
    let ?e = "encode_record crc r"
    show ?case
    proof (cases "length ?e \<le> n")
      case True
      have "\<forall>r \<in> set rs. record_ok r"
        using Cons.prems by simp
      then obtain m p where m: "m \<le> length rs"
        "take (n - length ?e) (concat (map (encode_record crc) rs)) = concat (map (encode_record crc) (take m rs)) @ p"
        "p = [] \<or> (\<exists>r. record_ok r \<and> strict_prefix p (encode_record crc r))"
        "\<forall>i \<le> length rs. length (concat (map (encode_record crc) (take i rs))) \<le> n - length ?e \<longrightarrow> i \<le> m"
        using Cons.IH [of "n - length ?e"] by blast
      have "i \<le> Suc m" if i: "i \<le> length (r # rs)" "length (concat (map (encode_record crc) (take i (r # rs)))) \<le> n" for i
      proof (cases i)
        case (Suc i')
        then show ?thesis
          using i m(4) by (simp add: le_diff_conv2 [OF True] add.commute)
      qed simp
      then show ?thesis
        using m True by (intro exI [of _ "Suc m"] exI [of _ p]) simp
    next
      case False
      have "strict_prefix (take n ?e) ?e"
        using False take_is_prefix [of n ?e] by (auto simp: strict_prefix_def dest: arg_cong [where f = length])
      moreover have "i \<le> 0" if "i \<le> length (r # rs)" "length (concat (map (encode_record crc) (take i (r # rs)))) \<le> n" for i
        using that False by (cases i) simp_all
      ultimately show ?thesis
        using False Cons.prems by (intro exI [of _ 0] exI [of _ "take n ?e"]) auto
    qed
  qed
  then obtain m p where m: "m \<le> length rs"
    "take n (concat (map (encode_record crc) rs)) = concat (map (encode_record crc) (take m rs)) @ p"
    "p = [] \<or> (\<exists>r. record_ok r \<and> strict_prefix p (encode_record crc r))"
    "\<forall>i \<le> length rs. length (concat (map (encode_record crc) (take i rs))) \<le> n \<longrightarrow> i \<le> m"
    by blast
  have "\<forall>r \<in> set (take m rs). record_ok r"
    using assms by (auto dest: in_set_takeD)
  from body_encoded(1) [OF this m(3)] m show ?thesis
    using that by simp
qed

subsection \<open>The scan over the directory\<close>

definition rec_file :: "(bytes \<Rightarrow> u32) \<Rightarrow> disk_file \<Rightarrow> disk_file" where
  "rec_file crc f = (if body_rest crc (seg_body f) = [] then f
     else \<lparr>f_content = recovered crc f, f_synced = length (recovered crc f)\<rparr>)"

lemma rec_file_content: "has_header f \<Longrightarrow> f_content (rec_file crc f) = recovered crc f"
  using content_split [of f crc] by (simp add: rec_file_def)

lemma recover_dir_ok: "dir_ok d \<Longrightarrow> dir_ok (snd (recover_truncate crc name d))"
  by (auto simp: recover_truncate_def set_len_def sync_file_def Let_def split: sum.splits option.splits)

definition scan_size :: "(bytes \<Rightarrow> u32) \<Rightarrow> disk \<Rightarrow> string \<Rightarrow> nat" where
  "scan_size crc d name = length (f_content (rec_file crc (the (lookup d name))))"

lemma open_scan_ok:
  assumes "\<forall>n \<in> set names. seg_key n \<noteq> None \<longrightarrow> (\<exists>f. lookup d n = Some f \<and> has_header f)"
    "dir_ok d" "distinct names"
  obtains d' where "open_scan crc names (segs, sizes) d = (Inr (), (index_names names segs,
      foldl (\<lambda>m kv. bt_insert (fst kv) (snd kv) m) sizes
        (map (\<lambda>kv. (fst kv, scan_size crc d (snd kv))) (keyed names))), d')"
    "dir_ok d'"
    "\<And>n. lookup d' n = (if n \<in> set names \<and> seg_key n \<noteq> None
      then map_option (rec_file crc) (lookup d n) else lookup d n)"
proof -
  have "\<exists>d'. open_scan crc names (segs, sizes) d = (Inr (), (index_names names segs,
      foldl (\<lambda>m kv. bt_insert (fst kv) (snd kv) m) sizes
        (map (\<lambda>kv. (fst kv, scan_size crc d (snd kv))) (keyed names))), d')
    \<and> dir_ok d' \<and> (\<forall>n. lookup d' n = (if n \<in> set names \<and> seg_key n \<noteq> None
      then map_option (rec_file crc) (lookup d n) else lookup d n))"
    using assms
  proof (induction names arbitrary: segs sizes d)
    case Nil
    then show ?case by simp
  next
    case (Cons name names)
    show ?case
    proof (cases "seg_key name")
      case None
      then show ?thesis
        using Cons.IH [of d segs sizes] Cons.prems by auto
    next
      case (Some k)
      then obtain f where f: "lookup d name = Some f" "has_header f"
        using Cons.prems(1) by auto
      have up: "d_up d"
        using Cons.prems(2) by (rule dir_ok_up)
      obtain res d1 where r: "recover_truncate crc name d = (res, d1)"
        by (cases "recover_truncate crc name d") auto
      note L = recover_truncate_lookup(2) [OF f up r]
      have l1: "lookup d1 n = (if n = name then Some (rec_file crc f) else lookup d n)" for n
        by (simp add: L rec_file_def)
      have ok: "res = Inr (projr res)"
        using recover_truncate_spec [OF f up, of crc] r by auto
      have d1: "dir_ok d1"
        using recover_dir_ok [OF Cons.prems(2), of crc name] r by simp
      have size: "scan_size crc d1 n = scan_size crc d n" if "n \<in> set names" for n
        using that Cons.prems(3) l1 by (auto simp: scan_size_def)
      have sizes: "map (\<lambda>kv. (fst kv, scan_size crc d1 (snd kv))) (keyed names)
          = map (\<lambda>kv. (fst kv, scan_size crc d (snd kv))) (keyed names)"
        using size by (auto simp: keyed_set)
      have pre: "\<forall>n \<in> set names. seg_key n \<noteq> None \<longrightarrow> (\<exists>f. lookup d1 n = Some f \<and> has_header f)"
        using Cons.prems(1,3) l1 by auto
      obtain d' where d': "open_scan crc names (bt_insert k name segs,
          bt_insert k (length (f_content (rec_file crc f))) sizes) d1 = (Inr (), (index_names names (bt_insert k name segs),
          foldl (\<lambda>m kv. bt_insert (fst kv) (snd kv) m) (bt_insert k (length (f_content (rec_file crc f))) sizes)
            (map (\<lambda>kv. (fst kv, scan_size crc d (snd kv))) (keyed names))), d')" "dir_ok d'"
        "\<forall>n. lookup d' n = (if n \<in> set names \<and> seg_key n \<noteq> None
          then map_option (rec_file crc) (lookup d1 n) else lookup d1 n)"
        using Cons.IH [OF pre d1, of "bt_insert k name segs" "bt_insert k (length (f_content (rec_file crc f))) sizes"]
          Cons.prems(3) unfolding sizes by auto
      have "open_scan crc (name # names) (segs, sizes) d = open_scan crc names (bt_insert k name segs,
          bt_insert k (length (f_content (rec_file crc f))) sizes) d1"
        using Some r l1 [of name] ok by (cases res) simp_all
      moreover have "scan_size crc d name = length (f_content (rec_file crc f))"
        by (simp add: scan_size_def f(1))
      moreover have "lookup d' n = (if n \<in> set (name # names) \<and> seg_key n \<noteq> None
          then map_option (rec_file crc) (lookup d n) else lookup d n)" for n
        using d'(3) l1 Some f(1) Cons.prems(3) by auto
      ultimately show ?thesis
        using d'(1,2) Some by auto
    qed
  qed
  then show ?thesis
    using that by blast
qed

text \<open>What a crash leaves of a log: every retired segment, and of the active one at least what was
  synced and at most what was flushed.\<close>

definition survives :: "(bytes \<Rightarrow> u32) \<Rightarrow> disk \<Rightarrow> segments \<Rightarrow> bool" where
  "survives crc d segs \<longleftrightarrow> dir_ok d \<and> segs \<noteq> [] \<and> well_numbered segs \<and> no_strays d segs
     \<and> (\<forall>s \<in> set segs. \<exists>f created. lookup d (seg_name (fst s)) = Some f \<and> has_header f
          \<and> file_records crc f = snd s \<and> recovered crc f = seg_image crc created (fst s) (snd s)
          \<and> f_synced f = length (f_content f))"

lemma image_recovered:
  assumes "f_content f = encode_segment_header created k @ b" "body_records crc b = rs"
  shows "has_header f" "file_records crc f = rs" "recovered crc f = seg_image crc created k rs"
proof -
  show "has_header f"
    using assms(1) parse_encode_header by (auto simp: has_header_def)
  show "file_records crc f = rs"
    using assms by (simp add: file_records_def seg_body_def wal_consts)
  then show "recovered crc f = seg_image crc created k rs"
    using assms(1) by (simp add: recovered_def seg_image_def wal_consts)
qed

lemma well_numbered_shorten:
  assumes "well_numbered (ss @ [(k, rs)])"
  shows "well_numbered (ss @ [(k, take m rs)])"
proof -
  have "fst (hd (ss @ [(k, take m rs)])) = fst (hd (ss @ [(k, rs)]))"
    by (cases ss) simp_all
  then show ?thesis
    using assms by (auto simp: well_numbered_def chain_snoc log_of_def intro: numbered_take)
qed

lemma crash_survives:
  assumes "wal_rep crc d w segs i j" "crashed d d'"
  obtains m where "i \<le> m" "m \<le> j" "survives crc d' (butlast segs @ [(fst (last segs), take m (snd (last segs)))])"
proof -
  from assms(1) obtain ss s sw where r: "segs = ss @ [s]" "sw_first sw = fst s" "open_seg crc d sw (snd s) i j"
    "well_numbered (ss @ [s])" "no_strays d (ss @ [s])" "\<forall>x \<in> set ss. closed_seg crc d x"
    "sw_name sw = seg_name (fst s)"
    by (rule wal_repE)
  let ?k = "fst s" and ?rs = "snd s"
  obtain created where f: "lookup d (seg_name ?k) = Some
      \<lparr>f_content = seg_image crc created ?k (take j ?rs), f_synced = seg_size (take i ?rs)\<rparr>" "i \<le> j" "j \<le> length ?rs"
    using r(2,3,7) by (auto simp: open_seg_def)
  obtain f' n where f': "lookup d' (seg_name ?k) = Some f'" "seg_size (take i ?rs) \<le> n"
    "f_content f' = take n (seg_image crc created ?k (take j ?rs))" "f_synced f' = length (f_content f')"
    using crashed_file [OF assms(2) f(1)] by (metis disk_file.select_convs)
  have ok: "\<forall>r \<in> set (take j ?rs). record_ok r"
    using well_numbered_ok [OF r(4), of s] by (auto dest: in_set_takeD)
  obtain m where m: "m \<le> length (take j ?rs)"
    "body_records crc (take (n - 32) (concat (map (encode_record crc) (take j ?rs)))) = take m (take j ?rs)"
    "\<And>i. i \<le> length (take j ?rs) \<Longrightarrow> length (concat (map (encode_record crc) (take i (take j ?rs)))) \<le> n - 32 \<Longrightarrow> i \<le> m"
    using cut_records [OF ok] by metis
  have n: "32 \<le> n" "length (concat (map (encode_record crc) (take i ?rs))) \<le> n - 32"
    using f'(2) length_image [of crc created ?k "take i ?rs"] by (auto simp: seg_image_def seg_size_def wal_consts)
  have im: "i \<le> m"
    using m(3) [of i] f(2,3) n(2) by (simp add: min_def)
  have mj1: "m \<le> j"
    using m(1) by simp
  then have mj: "m \<le> j" "take m (take j ?rs) = take m ?rs"
    by (simp_all add: min.absorb1)
  have "f_content f' = encode_segment_header created ?k @ take (n - 32) (concat (map (encode_record crc) (take j ?rs)))"
    using f'(3) n(1) by (simp add: seg_image_def)
  note last_file = image_recovered [OF this m(2) [unfolded mj(2)]]
  let ?S = "ss @ [(?k, take m ?rs)]"
  have "\<exists>f created. lookup d' (seg_name (fst x)) = Some f \<and> has_header f \<and> file_records crc f = snd x
      \<and> recovered crc f = seg_image crc created (fst x) (snd x) \<and> f_synced f = length (f_content f)" if "x \<in> set ?S" for x
  proof (cases "x \<in> set ss")
    case True
    then obtain c where c: "lookup d (seg_name (fst x)) = Some
        \<lparr>f_content = seg_image crc c (fst x) (snd x), f_synced = seg_size (snd x)\<rparr>"
      using r(6) by (auto simp: closed_seg_def)
    let ?f = "\<lparr>f_content = seg_image crc c (fst x) (snd x), f_synced = seg_size (snd x)\<rparr>"
    have "lookup d' (seg_name (fst x)) = Some ?f"
      by (rule crashed_synced [OF assms(2) c]) (simp add: length_image)
    moreover have "\<forall>r \<in> set (snd x). record_ok r"
      using well_numbered_ok [OF r(4), of x] True by simp
    then have "body_records crc (concat (map (encode_record crc) (snd x)) @ []) = snd x"
      by (subst body_append(1)) simp_all
    then have "has_header ?f" "file_records crc ?f = snd x" "recovered crc ?f = seg_image crc c (fst x) (snd x)"
      using image_recovered [of ?f c "fst x" "concat (map (encode_record crc) (snd x)) @ []" crc "snd x"]
      by (simp_all add: seg_image_def)
    ultimately show ?thesis
      by (intro exI [of _ ?f] exI [of _ c]) (simp add: length_image)
  next
    case False
    then have "x = (?k, take m ?rs)"
      using that by simp
    then show ?thesis
      using f'(1,4) last_file by (intro exI [of _ f'] exI [of _ created]) simp
  qed
  moreover have "no_strays d' ?S"
    unfolding no_strays_def
  proof (intro allI impI)
    fix name assume "lookup d' name \<noteq> None \<and> seg_key name \<noteq> None"
    then have "lookup d name \<noteq> None \<and> seg_key name \<noteq> None"
      using crashed_dom [OF assms(2)] by simp
    then obtain x where "x \<in> set (ss @ [s])" "name = seg_name (fst x)"
      using r(5) unfolding no_strays_def by blast
    then show "\<exists>x \<in> set ?S. name = seg_name (fst x)"
      by (cases "x = s") auto
  qed
  moreover have "well_numbered ?S"
    using well_numbered_shorten [of ss ?k ?rs m] r(4) by simp
  moreover have "dir_ok d'"
    using assms(2) by (simp add: crashed_def)
  ultimately have "survives crc d' ?S"
    by (simp add: survives_def)
  then show ?thesis
    using that [OF im mj(1)] by (simp add: r(1))
qed

text \<open>The scan turns what survived into retired segments and indexes them.\<close>

lemma scan_survivors:
  assumes "survives crc d segs"
  obtains d' where "open_scan crc (map fst (d_files d)) ([], []) d = (Inr (), (index_of segs, sizes_of segs), d')"
    "dir_ok d'" "no_strays d' segs" "\<forall>s \<in> set segs. closed_seg crc d' s"
proof -
  have surv: "\<exists>f created. lookup d (seg_name (fst s)) = Some f \<and> has_header f
      \<and> recovered crc f = seg_image crc created (fst s) (snd s) \<and> f_synced f = length (f_content f)" if "s \<in> set segs" for s
    using assms that unfolding survives_def by blast
  have dir: "dir_of d segs"
    using assms surv unfolding dir_of_def survives_def dir_ok_def by (metis option.distinct(1))
  let ?names = "map fst (d_files d)"
  have pre: "\<forall>n \<in> set ?names. seg_key n \<noteq> None \<longrightarrow> (\<exists>f. lookup d n = Some f \<and> has_header f)"
  proof (intro ballI impI)
    fix n assume n: "n \<in> set ?names" "seg_key n \<noteq> None"
    then have "lookup d n \<noteq> None"
      by (metis dom_map_of_conv_image_fst domIff list.set_map)
    then obtain s where "s \<in> set segs" "n = seg_name (fst s)"
      using assms n(2) unfolding survives_def no_strays_def by blast
    then show "\<exists>f. lookup d n = Some f \<and> has_header f"
      using surv by blast
  qed
  have dok: "dir_ok d" "distinct ?names"
    using assms by (simp_all add: survives_def dir_ok_def)
  obtain d' where scan: "open_scan crc ?names ([], []) d = (Inr (), (index_names ?names [],
      foldl (\<lambda>m kv. bt_insert (fst kv) (snd kv) m) []
        (map (\<lambda>kv. (fst kv, scan_size crc d (snd kv))) (keyed ?names))), d')" "dir_ok d'"
    "\<And>n. lookup d' n = (if n \<in> set ?names \<and> seg_key n \<noteq> None
      then map_option (rec_file crc) (lookup d n) else lookup d n)"
    by (rule open_scan_ok [OF pre dok, where segs = "[]" and sizes = "[]" and crc = crc], rule that)
  note K = dir_of_keyed [OF dir]
  have "scan_size crc d (seg_name (fst s)) = seg_size (snd s)" if s: "s \<in> set segs" for s
  proof -
    obtain f created where "lookup d (seg_name (fst s)) = Some f" "has_header f"
      "recovered crc f = seg_image crc created (fst s) (snd s)"
      using surv [OF s] by blast
    then show ?thesis
      by (simp add: scan_size_def rec_file_content length_image)
  qed
  then have img: "(\<lambda>kv. (fst kv, scan_size crc d (snd kv))) ` set (index_of segs) = set (sizes_of segs)"
    by (auto simp: index_of_def sizes_of_def image_image)
  have srt: "sorted_keys (sizes_of segs)"
    using assms well_numbered_sorted by (simp add: survives_def)
  let ?kvs = "map (\<lambda>kv. (fst kv, scan_size crc d (snd kv))) (keyed ?names)"
  have "map_of (rev ?kvs) = map_of (sizes_of segs)"
    using K srt img by (subst map_of_inject_set) (simp_all add: strict_sorted_iff rev_map [symmetric] comp_def)
  then have sizes: "foldl (\<lambda>m kv. bt_insert (fst kv) (snd kv) m) [] ?kvs = sizes_of segs"
    using btree.entries_unique [OF btree.insert_all(1) srt, of "[]" ?kvs] btree.insert_all(2) [of "[]" ?kvs] by simp
  have look: "lookup d' (seg_name (fst s)) = map_option (rec_file crc) (lookup d (seg_name (fst s)))"
    if "s \<in> set segs" for s
  proof -
    have "lookup d (seg_name (fst s)) \<noteq> None"
      using surv [OF that] by blast
    then have "seg_name (fst s) \<in> set ?names"
      by (metis dom_map_of_conv_image_fst domIff list.set_map)
    then show ?thesis
      using scan(3) [of "seg_name (fst s)"] by (simp add: seg_key_name)
  qed
  have "\<forall>s \<in> set segs. closed_seg crc d' s"
  proof
    fix s assume s: "s \<in> set segs"
    obtain f created where f: "lookup d (seg_name (fst s)) = Some f" "has_header f"
      "recovered crc f = seg_image crc created (fst s) (snd s)" "f_synced f = length (f_content f)"
      using surv [OF s] by blast
    have c: "f_content (rec_file crc f) = seg_image crc created (fst s) (snd s)"
      using rec_file_content [OF f(2), of crc] f(3) by simp
    moreover have "f_synced (rec_file crc f) = length (f_content (rec_file crc f))"
      using f(4) by (simp add: rec_file_def)
    ultimately have "rec_file crc f = \<lparr>f_content = seg_image crc created (fst s) (snd s), f_synced = seg_size (snd s)\<rparr>"
      by (simp add: length_image)
    then show "closed_seg crc d' s"
      using look [OF s] f(1) by (auto simp: closed_seg_def)
  qed
  moreover have "no_strays d' segs"
    using assms scan(3) by (auto simp: survives_def no_strays_def split: if_splits)
  ultimately show ?thesis
    using that scan(1,2) sizes index_names_dir [OF dir] by simp
qed

subsection \<open>Opening what survived\<close>

lemma chain_last:
  assumes "well_numbered (ss @ [s])"
  shows "unat (fst s) + length (snd s) = a_next (ss @ [s])" and "a_next (ss @ [s]) < 2 ^ 64"
    and "numbered (unat (fst s)) (snd s)"
  using assms by (auto simp: well_numbered_def chain_snoc a_next_def log_of_def)

lemma numbered_last: "numbered n rs \<Longrightarrow> rs \<noteq> [] \<Longrightarrow> unat (r_cursor (last rs)) + 1 = n + length rs"
  using numbered_nth [of n rs "length rs - 1"] by (simp add: last_conv_nth)

lemma index_insert_last:
  assumes "\<And>x. x \<in> set segs \<Longrightarrow> fst x < k"
  shows "bt_insert k n (index_of segs) = index_of segs @ [(k, n)]"
    and "bt_insert k b (sizes_of segs) = sizes_of segs @ [(k, b)]"
  using assms by (auto simp: index_of_def sizes_of_def intro!: bt_insert_last)

lemma open_active_survivors:
  assumes "dir_ok d" "well_numbered (ss @ [s])" "no_strays d (ss @ [s])" "\<forall>x \<in> set (ss @ [s]). closed_seg crc d x"
  shows "snd s = [] \<Longrightarrow> open_active crc now (index_of (ss @ [s]), sizes_of (ss @ [s])) d =
      (Inr (None, fst s, 0), (index_of (ss @ [s]), sizes_of (ss @ [s])), d)"
    and "snd s \<noteq> [] \<Longrightarrow> k = of_nat (a_next (ss @ [s])) \<Longrightarrow> \<exists>sw d'.
      open_active crc now (index_of (ss @ [s]), sizes_of (ss @ [s])) d = (Inr (Some sw, k, SEGMENT_HEADER_LEN),
        (index_of (ss @ [s, (k, [])]), sizes_of (ss @ [s]) @ [(k, SEGMENT_HEADER_LEN)]), d')
      \<and> open_seg crc d' sw [] 0 0 \<and> only_file (seg_name k) d d' \<and> sw_first sw = k \<and> sw_pending sw = k
      \<and> unat k = a_next (ss @ [s])"
proof -
  obtain created where f: "lookup d (seg_name (fst s)) =
      Some \<lparr>f_content = seg_image crc created (fst s) (snd s), f_synced = seg_size (snd s)\<rparr>"
    using assms(4) by (auto simp: closed_seg_def)
  let ?f = "\<lparr>f_content = seg_image crc created (fst s) (snd s), f_synced = seg_size (snd s)\<rparr>"
  have "\<forall>r \<in> set (snd s). record_ok r"
    using well_numbered_ok [OF assms(2), of s] by simp
  note img = image_file [of ?f crc created "fst s" "snd s", OF _ this]
  obtain r where r: "seg_open (seg_name (fst s)) d = Inr r"
    using seg_open_Some [OF f img(1)] by auto
  have recs: "iter_records crc r = snd s"
    using seg_records [OF f img(1) r, of crc] img(2) by simp
  have last: "last (index_of (ss @ [s])) = (fst s, seg_name (fst s))" "index_of (ss @ [s]) \<noteq> []"
    by (simp_all add: index_of_def)
  show "open_active crc now (index_of (ss @ [s]), sizes_of (ss @ [s])) d =
      (Inr (None, fst s, 0), (index_of (ss @ [s]), sizes_of (ss @ [s])), d)" if "snd s = []"
    using last r recs that by (simp add: open_active_def Let_def)
  show "\<exists>sw d'. open_active crc now (index_of (ss @ [s]), sizes_of (ss @ [s])) d = (Inr (Some sw, k, SEGMENT_HEADER_LEN),
        (index_of (ss @ [s, (k, [])]), sizes_of (ss @ [s]) @ [(k, SEGMENT_HEADER_LEN)]), d')
      \<and> open_seg crc d' sw [] 0 0 \<and> only_file (seg_name k) d d' \<and> sw_first sw = k \<and> sw_pending sw = k
      \<and> unat k = a_next (ss @ [s])"
    if ne: "snd s \<noteq> []" and k: "k = of_nat (a_next (ss @ [s]))"
  proof -
    note C = chain_last [OF assms(2)]
    have uk: "unat k = a_next (ss @ [s])"
      unfolding k using C(2) by (intro unat_of_nat_u64) simp
    have "unat (r_cursor (last (snd s))) + 1 = a_next (ss @ [s])"
      using numbered_last [OF C(3) ne] C(1) by simp
    then have "unat (r_cursor (last (snd s)) + 1) = unat k"
      using C(2) uk by (subst unat_Suc_word) simp_all
    then have next': "r_cursor (last (snd s)) + 1 = k"
      by (simp add: word_unat_eq_iff)
    have kne: "k \<noteq> fst s"
      using uk C(1) ne by auto
    have "\<forall>x \<in> set (ss @ [s]). snd x \<noteq> []"
      using assms(2) ne by (auto simp: well_numbered_def chain_snoc)
    then have wn: "well_numbered ((ss @ [s]) @ [(k, [])])"
      using assms(2) uk by (intro well_numbered_snoc_empty) auto
    note keys = well_numbered_keys [OF wn]
    have "lookup d (seg_name k) = None"
    proof (rule ccontr)
      assume "lookup d (seg_name k) \<noteq> None"
      then obtain x where "x \<in> set (ss @ [s])" "seg_name k = seg_name (fst x)"
        using assms(3) seg_key_name [of k] unfolding no_strays_def by (metis option.distinct(1))
      then show False
        using keys(2) [of x] by simp
    qed
    then obtain sw d' where c: "seg_create now (seg_name k) k d = (Inr sw, d')" "open_seg crc d' sw [] 0 0"
      "only_file (seg_name k) d d'" "sw_first sw = k" "sw_pending sw = k"
      using create_seg [of d k now crc] dir_ok_up [OF assms(1)] by metis
    have bytes: "sw_bytes sw = SEGMENT_HEADER_LEN"
      using c(2) by (simp add: open_seg_def seg_size_def)
    have "bt_insert k (seg_name k) (index_of (ss @ [s])) = index_of (ss @ [s]) @ [(k, seg_name k)]"
      "bt_insert k SEGMENT_HEADER_LEN (sizes_of (ss @ [s])) = sizes_of (ss @ [s]) @ [(k, SEGMENT_HEADER_LEN)]"
      using index_insert_last [of "ss @ [s]" k] keys(1) by simp_all
    then have "open_active crc now (index_of (ss @ [s]), sizes_of (ss @ [s])) d = (Inr (Some sw, k, SEGMENT_HEADER_LEN),
        (index_of (ss @ [s, (k, [])]), sizes_of (ss @ [s]) @ [(k, SEGMENT_HEADER_LEN)]), d')"
      using last r recs ne next' kne c(1) bytes
      by (simp add: open_active_def Let_def) (simp add: index_of_def)
    then show ?thesis
      using c uk by blast
  qed
qed

lemma open_survivors:
  assumes "survives crc d (ss @ [s])"
  shows "snd s = [] \<Longrightarrow> \<exists>w d'. wal_open crc now cfg d = (Inr w, d') \<and> wi_writer w = None
      \<and> wi_active_bytes w = 0 \<and> w_pending w = fst s \<and> w_cfg w = cfg \<and> \<not> w_poisoned w
      \<and> wi_segments w = index_of (ss @ [s]) \<and> (\<forall>x \<in> set (ss @ [s]). closed_seg crc d' x)"
    and "snd s \<noteq> [] \<Longrightarrow> k = of_nat (a_next (ss @ [s])) \<Longrightarrow> \<exists>w d'. wal_open crc now cfg d = (Inr w, d')
      \<and> wal_rep crc d' w (a_rotate k (ss @ [s])) 0 0 \<and> w_pending w = k \<and> w_durable w = k
      \<and> unat k = a_next (ss @ [s]) \<and> w_cfg w = cfg \<and> \<not> w_poisoned w"
proof -
  let ?S = "ss @ [s]"
  obtain d1 where scan: "open_scan crc (map fst (d_files d)) ([], []) d = (Inr (), (index_of ?S, sizes_of ?S), d1)"
    "dir_ok d1" "no_strays d1 ?S" "\<forall>x \<in> set ?S. closed_seg crc d1 x"
    by (rule scan_survivors [OF assms])
  have wn: "well_numbered ?S"
    using assms by (simp add: survives_def)
  note A = open_active_survivors [OF scan(2) wn scan(3,4)]
  show "\<exists>w d'. wal_open crc now cfg d = (Inr w, d') \<and> wi_writer w = None
      \<and> wi_active_bytes w = 0 \<and> w_pending w = fst s \<and> w_cfg w = cfg \<and> \<not> w_poisoned w
      \<and> wi_segments w = index_of ?S \<and> (\<forall>x \<in> set ?S. closed_seg crc d' x)" if "snd s = []"
    using scan(1,4) A(1) [OF that, of now] by (simp add: wal_open_def)
  show "\<exists>w d'. wal_open crc now cfg d = (Inr w, d')
      \<and> wal_rep crc d' w (a_rotate k ?S) 0 0 \<and> w_pending w = k \<and> w_durable w = k
      \<and> unat k = a_next ?S \<and> w_cfg w = cfg \<and> \<not> w_poisoned w"
    if ne: "snd s \<noteq> []" and k: "k = of_nat (a_next ?S)"
  proof -
    obtain sw d' where o': "open_active crc now (index_of ?S, sizes_of ?S) d1 = (Inr (Some sw, k, SEGMENT_HEADER_LEN),
        (index_of (ss @ [s, (k, [])]), sizes_of ?S @ [(k, SEGMENT_HEADER_LEN)]), d')"
      "open_seg crc d' sw [] 0 0" "only_file (seg_name k) d1 d'" "sw_first sw = k" "sw_pending sw = k"
      "unat k = a_next ?S"
      using A(2) [OF ne k, of now] by blast
    have "\<forall>x \<in> set ?S. snd x \<noteq> []"
      using wn ne by (auto simp: well_numbered_def chain_snoc)
    then have wn2: "well_numbered (?S @ [(k, [])])"
      using wn o'(6) by (intro well_numbered_snoc_empty) auto
    note keys = well_numbered_keys [OF wn2]
    have sz: "bt_remove k (sizes_of ?S @ [(k, SEGMENT_HEADER_LEN)]) = sizes_of ?S"
    proof -
      have "fst x \<noteq> k" if "x \<in> set ?S" for x
        using keys(1) [OF that] by auto
      then have "filter (\<lambda>kv. fst kv \<noteq> k) (sizes_of ?S) = sizes_of ?S"
        by (intro filter_True) (auto simp: sizes_of_def)
      then show ?thesis
        by (simp add: bt_remove_def)
    qed
    have closed: "\<forall>x \<in> set ?S. closed_seg crc d' x"
      using scan(4) only_file_closed [OF o'(3)] keys(2) by auto
    have strays: "no_strays d' (a_rotate k ?S)"
      by (rule no_strays_only [OF scan(3) o'(3)]) (auto simp: a_rotate_def)
    have dok: "dir_ok d'"
      using o'(3) scan(2) by (simp add: only_file_def)
    let ?w = "\<lparr>wi_segments = index_of (?S @ [(k, [])]), wi_sizes = sizes_of ?S, wi_active_bytes = SEGMENT_HEADER_LEN,
        wi_retained_bytes = sum_list (map snd (sizes_of ?S)), wi_writer = Some sw, w_cfg = cfg, w_durable = k,
        w_pending = k, w_poisoned = False, w_wall_base = now, w_appends = 0, w_append_bytes = 0, w_flushes = 0\<rparr>"
    have "wal_open crc now cfg d = (Inr ?w, d')"
    proof -
      have "last (index_of (ss @ [s, (k, [])])) = (k, seg_name k)" "index_of (ss @ [s, (k, [])]) \<noteq> []"
        by (simp_all add: index_of_def)
      then show ?thesis
        using scan(1) o'(1) sz by (simp add: wal_open_def Let_def wal_consts)
    qed
    moreover have "wal_rep crc d' ?w (a_rotate k ?S) 0 0"
    proof -
      have "butlast (a_rotate k ?S) = ?S" "last (a_rotate k ?S) = (k, [])" "a_rotate k ?S \<noteq> []"
        "index_of (a_rotate k ?S) = index_of (?S @ [(k, [])])"
        by (simp_all add: a_rotate_def butlast_append)
      moreover have "well_numbered (a_rotate k ?S)"
        using wn2 by (simp add: a_rotate_def)
      moreover have "sum_list (map snd (sizes_of ?S)) = a_size ?S"
        by (simp add: a_size_def sizes_of_def comp_def)
      moreover have "sw_bytes sw = SEGMENT_HEADER_LEN"
        using o'(2) by (simp add: open_seg_def seg_size_def)
      ultimately show ?thesis
        using closed strays dok o'(2,4) unfolding wal_rep_def by simp
    qed
    ultimately show ?thesis
      using o'(6) by (intro exI [of _ ?w] exI [of _ d']) simp
  qed
qed

lemma open_needs_headers:
  assumes "n \<in> set names" "seg_key n \<noteq> None" "\<forall>f. lookup d n = Some f \<longrightarrow> \<not> has_header f"
  shows "\<exists>e. fst (open_scan crc names idx d) = Inl e"
  using assms
proof (induction names arbitrary: idx d)
  case (Cons name names)
  obtain segs sizes where idx: "idx = (segs, sizes)"
    by (cases idx)
  show ?case
  proof (cases "seg_key name")
    case None
    then have "n \<in> set names"
      using Cons.prems by auto
    then show ?thesis
      using Cons.IH [OF _ Cons.prems(2,3), of "(segs, sizes)"] None by (simp add: idx)
  next
    case (Some k)
    obtain res d1 where r: "recover_truncate crc name d = (res, d1)"
      by (cases "recover_truncate crc name d") auto
    show ?thesis
    proof (cases res)
      case (Inl e)
      then show ?thesis
        using Some r by (simp add: idx)
    next
      case (Inr report)
      have "\<exists>f. lookup d name = Some f \<and> has_header f"
        using r Inr by (auto simp: recover_truncate_def seg_open_def has_header_def Let_def
            split: option.splits sum.splits if_splits)
      then have "name \<noteq> n"
        using Cons.prems(3) by auto
      then have n: "n \<in> set names"
        using Cons.prems(1) by auto
      have "lookup d1 n = lookup d n"
        using r \<open>name \<noteq> n\<close> by (auto simp: recover_truncate_def set_len_def sync_file_def Let_def
            split: option.splits sum.splits if_splits)
      then have "\<forall>f. lookup d1 n = Some f \<longrightarrow> \<not> has_header f"
        using Cons.prems(3) by simp
      note IH = Cons.IH [OF n Cons.prems(2) this]
      show ?thesis
        using Some r Inr IH by (simp add: idx split: option.splits)
    qed
  qed
qed simp

end
