(* ===== verification/Wal_Properties.thy ===== *)
theory Wal_Properties
  imports Wal_Crash
begin

text \<open>
  What the write-ahead log promises, and where it fails: appending refines the abstract list of
  segments; any interleaving of appends, syncs and flusher ticks keeps the log a suffix of what was
  appended and never claims a record durable that is not; what was durable survives a crash; and
  the states of the directory after which the log can never be appended to again.
\<close>

subsection \<open>Appending\<close>

lemma and_then_assoc: "and_then (and_then r k) h = and_then r (\<lambda>x s d. and_then (k x s d) h)"
  by (auto simp: and_then_def split: prod.splits sum.splits)

lemma append_state:
  assumes "wal_state crc d w segs i j" "wc_enabled (w_cfg w)" "\<not> w_poisoned w" "record_ok r"
    "segs \<noteq> [] \<longrightarrow> unat (r_cursor r) = a_next segs" "unat (r_cursor r) + 1 < 2 ^ 64"
    "SEGMENT_HEADER_LEN + record_encoded_len r \<le> wc_segment_size_max (w_cfg w)"
  obtains w' d' i' j' where
    "wal_append crc created (r_cursor r) (r_ts r) (r_payload r) w d = (Inr (), w', d')"
    "wal_state crc d' w' (a_log_step (w_cfg w) r segs) i' j'" "w_cfg w' = w_cfg w" "\<not> w_poisoned w'"
    "w_pending w' = r_cursor r + 1" "a_log_step (w_cfg w) r segs \<noteq> []"
    "wc_fsync_policy (w_cfg w) = Each \<longrightarrow> w_durable w' = w_pending w'"
    "wc_fsync_policy (w_cfg w) \<noteq> Each \<longrightarrow> w_durable w' = w_durable w"
    "\<And>tick. tick_ok segs j tick \<Longrightarrow> tick_ok (a_log_step (w_cfg w) r segs) j' tick"
proof -
  let ?limit = "wc_segment_size_max (w_cfg w)" and ?cap = "wc_retention_bytes (w_cfg w)"
  obtain w1 d1 sw segs1 i1 j1 where p:
    "and_then (ensure_writer created (r_cursor r) w d) (\<lambda>_.
       rotate_if_full created (r_cursor r) (RECORD_FRAMING + length (r_payload r))) = (Inr (), w1, d1)"
    "wal_rep crc d1 w1 segs1 i1 j1" "wi_writer w1 = Some sw" "sw_pending sw = r_cursor r" "same_meta w w1"
    "butlast segs1 @ [(fst (last segs1), snd (last segs1) @ [r])] = a_append ?limit r segs"
    "unat (w_durable w) \<le> unat (fst (last segs1)) + i1"
    "\<And>tick. tick_ok segs j tick \<Longrightarrow> tick_ok segs1 j1 tick"
    using prepare_rep [OF assms(1,5,7)] by metis
  obtain w2 d2 sw2 j2 where a:
    "append_active crc (r_cursor r) (r_ts r) (r_payload r) w1 d1 = (Inr (), w2, d2)"
    "wal_rep crc d2 w2 (a_append ?limit r segs) i1 j2"
    "wi_writer w2 = Some sw2" "sw_pending sw2 = r_cursor r + 1" "w_pending w2 = r_cursor r + 1"
    "w_cfg w2 = w_cfg w1" "w_durable w2 = w_durable w1" "w_poisoned w2 = w_poisoned w1" "j1 \<le> j2"
    using append_active_rep [OF p(2,3,4) assms(4,6)] unfolding p(6) by metis
  let ?A = "a_append ?limit r segs"
  have last: "fst (last ?A) = fst (last segs1)"
    by (simp flip: p(6))
  have next': "a_next ?A = unat (r_cursor r + 1)"
    using a(2,3,4) by (auto elim: wal_repE)
  have meta: "w_cfg w1 = w_cfg w" "w_durable w1 = w_durable w" "\<not> w_poisoned w1"
    using p(5) assms(3) by (simp_all add: same_meta_def)
  obtain w3 d3 i3 j3 where s: "sync_if_each w2 d2 = (Inr (), w3, d3)" "wal_rep crc d3 w3 ?A i3 j3"
    "unat (w_durable w3) \<le> unat (fst (last ?A)) + i3" "w_cfg w3 = w_cfg w" "w_pending w3 = r_cursor r + 1"
    "\<not> w_poisoned w3"
    "wc_fsync_policy (w_cfg w) = Each \<longrightarrow> w_durable w3 = r_cursor r + 1"
    "wc_fsync_policy (w_cfg w) \<noteq> Each \<longrightarrow> w_durable w3 = w_durable w" "j2 \<le> j3"
  proof (cases "wc_fsync_policy (w_cfg w) = Each")
    case True
    obtain w3 d3 where f: "wal_fsync w2 d2 = (Inr (), w3, d3)"
      "wal_rep crc d3 w3 ?A (length (snd (last ?A))) (length (snd (last ?A)))" "unat (w_durable w3) = a_next ?A"
      "w_cfg w3 = w_cfg w2" "w_pending w3 = w_pending w2" "w_poisoned w3 = w_poisoned w2"
      "j2 \<le> length (snd (last ?A))"
      using fsync_rep [OF a(2)] by metis
    obtain ss l where l: "?A = ss @ [l]" "well_numbered (ss @ [l])"
      using a(2) by (auto elim: wal_repE)
    have "a_next ?A = unat (fst (last ?A)) + length (snd (last ?A))"
      using chain_last(1) [OF l(2)] by (simp add: l(1))
    moreover have "w_durable w3 = r_cursor r + 1"
      using f(3) next' by (simp add: word_unat_eq_iff)
    ultimately show ?thesis
      using that [of w3 d3, OF _ f(2)] True f a meta by (simp add: sync_if_each_def)
  next
    case False
    then show ?thesis
      using that [of w2 d2 i1 j2] a meta p(7) last by (simp add: sync_if_each_def)
  qed
  have "retain w3 d3 = (case enforce_retention w3 d3 of (w', d') \<Rightarrow> (Inr (), w', d'))"
    by (simp add: retain_def enforce_retention.simps)
  moreover obtain w4 d4 where e: "enforce_retention w3 d3 = (w4, d4)"
    "wal_rep crc d4 w4 (a_retain ?cap ?A) i3 j3" "same_meta w3 w4"
    using retention_rep [OF s(2)] s(4) by metis
  ultimately have "retain w3 d3 = (Inr (), w4, d4)"
    by simp
  moreover have "wal_append crc created (r_cursor r) (r_ts r) (r_payload r) w d =
      and_then (and_then (ensure_writer created (r_cursor r) w d) (\<lambda>_.
         rotate_if_full created (r_cursor r) (RECORD_FRAMING + length (r_payload r)))) (\<lambda>_ w d.
      and_then (append_active crc (r_cursor r) (r_ts r) (r_payload r) w d) (\<lambda>_ w d.
      and_then (sync_if_each w d) (\<lambda>_. retain)))"
    using assms(2,3,4) by (simp add: wal_append_def and_then_assoc record_ok_def)
  ultimately have run: "wal_append crc created (r_cursor r) (r_ts r) (r_payload r) w d = (Inr (), w4, d4)"
    by (simp add: p(1) a(1) s(1))
  have ne: "?A \<noteq> []"
    using a(2) by (simp add: wal_rep_def)
  note R = a_retain_last [OF ne, of ?cap]
  have "a_next (a_retain ?cap ?A) = a_next ?A"
  proof -
    obtain sw4 where "wi_writer w4 = Some sw4" "unat (sw_pending sw4) = a_next (a_retain ?cap ?A)"
      using e(2) by (auto elim: wal_repE)
    obtain sw3 where w3: "wi_writer w3 = Some sw3" "unat (sw_pending sw3) = a_next ?A"
      using s(2) by (auto elim: wal_repE)
    have "wi_writer w4 = wi_writer w3"
      using retention_rep [OF s(2)] e(1) by force
    then show ?thesis
      using w3 \<open>wi_writer w4 = Some sw4\<close> \<open>unat (sw_pending sw4) = a_next (a_retain ?cap ?A)\<close> by simp
  qed
  then have "wal_state crc d4 w4 (a_log_step (w_cfg w) r segs) i3 j3"
    using e(2,3) R s(3,5) next' by (simp add: wal_state_def a_log_step_def same_meta_def)
  moreover have "tick_ok (a_log_step (w_cfg w) r segs) j3 tick" if "tick_ok segs j tick" for tick
    using p(8) [OF that] a(9) s(9) R last ne
    by (auto simp: tick_ok_def a_log_step_def split: option.splits prod.splits)
  ultimately show ?thesis
    using that [OF run] e(3) s(4-8) R by (simp add: same_meta_def a_log_step_def)
qed

subsection \<open>Runs\<close>

text \<open>The publisher appends at the log's own pending cursor; the flusher's tick is two steps, between
  which the publisher may do anything.\<close>

datatype wal_op = Append u64 bytes | Sync | TickBegin | TickEnd

type_synonym wal_conf = "wal \<times> disk \<times> (string \<times> u64) option"

fun wal_step :: "(bytes \<Rightarrow> u32) \<Rightarrow> wal_op \<Rightarrow> wal_conf \<Rightarrow> wal_conf" where
  "wal_step crc (Append ts payload) (w, d, tick) =
    (case wal_append crc ts (w_pending w) ts payload w d of (_, w', d') \<Rightarrow> (w', d', tick))"
| "wal_step crc Sync (w, d, tick) = (case wal_fsync w d of (_, w', d') \<Rightarrow> (w', d', tick))"
| "wal_step crc TickBegin (w, d, None) = (case flusher_begin w d of (tick, w', d') \<Rightarrow> (w', d', tick))"
| "wal_step crc TickBegin (w, d, Some tick) = (w, d, Some tick)"
| "wal_step crc TickEnd (w, d, None) = (w, d, None)"
| "wal_step crc TickEnd (w, d, Some tick) = (case flusher_end tick w d of (w', d') \<Rightarrow> (w', d', None))"

definition wal_run :: "(bytes \<Rightarrow> u32) \<Rightarrow> wal_op list \<Rightarrow> wal_conf \<Rightarrow> wal_conf" where
  "wal_run crc ops c = foldl (\<lambda>c op. wal_step crc op c) c ops"

fun op_record :: "nat \<Rightarrow> wal_op \<Rightarrow> wal_record list" where
  "op_record n (Append ts payload) = [\<lparr>r_cursor = of_nat n, r_ts = ts, r_payload = payload\<rparr>]"
| "op_record n _ = []"

text \<open>The records appended by a run, numbered from 0.\<close>

definition appended :: "wal_op list \<Rightarrow> wal_record list" where
  "appended ops = foldl (\<lambda>rs op. rs @ op_record (length rs) op) [] ops"

fun op_fits :: "wal_config \<Rightarrow> wal_op \<Rightarrow> bool" where
  "op_fits cfg (Append ts payload) \<longleftrightarrow> length payload \<le> MAX_PAYLOAD_LEN
     \<and> SEGMENT_HEADER_LEN + RECORD_FRAMING + length payload \<le> wc_segment_size_max cfg"
| "op_fits cfg _ \<longleftrightarrow> True"

definition wal_inv :: "(bytes \<Rightarrow> u32) \<Rightarrow> wal_config \<Rightarrow> wal_record list \<Rightarrow> wal_conf \<Rightarrow> segments \<Rightarrow> nat \<Rightarrow> nat \<Rightarrow> bool" where
  "wal_inv crc cfg rs c segs i j \<longleftrightarrow> (case c of (w, d, tick) \<Rightarrow>
     wal_state crc d w segs i j \<and> w_cfg w = cfg \<and> \<not> w_poisoned w \<and> tick_ok segs j tick
     \<and> suffix (log_of segs) rs \<and> unat (w_pending w) = length rs \<and> (segs \<noteq> [] \<longrightarrow> a_next segs = length rs) \<and> (segs = [] \<longrightarrow> rs = []) \<and> (segs \<noteq> [] \<longrightarrow> snd (last segs) \<noteq> [])
     \<and> (a_size segs \<le> wc_retention_bytes cfg \<or> length segs \<le> 1))"

subsection \<open>The flusher\<close>

lemma wal_rep_same_files:
  assumes "wal_rep crc d w segs i j" "dir_ok d'" "\<And>n. lookup d' n = lookup d n"
  shows "wal_rep crc d' w segs i j"
  using assms by (auto simp: wal_rep_def no_strays_def closed_seg_def open_seg_def)

lemma sync_rep:
  assumes "wal_rep crc d w segs i j"
  obtains d' i' where "sync_file name d = (Inr (), d')" "wal_rep crc d' w segs i' j" "i \<le> i'"
    "name = seg_name (fst (last segs)) \<longrightarrow> i' = j"
proof -
  from assms obtain ss s sw where r: "segs = ss @ [s]" "wi_writer w = Some sw" "sw_first sw = fst s"
    "open_seg crc d sw (snd s) i j" "wi_active_bytes w = sw_bytes sw" "d_up d" "well_numbered (ss @ [s])"
    "no_strays d (ss @ [s])" "\<forall>x \<in> set ss. closed_seg crc d x" "sw_name sw = seg_name (fst s)" "dir_ok d"
    by (rule wal_repE)
  show ?thesis
  proof (cases "name = seg_name (fst s)")
    case True
    obtain d' where d': "sync_file (sw_name sw) d = (Inr (), d')" "open_seg crc d' sw (snd s) j j"
      "only_file (seg_name (fst s)) d d'"
      using sync_seg [OF r(4,6)] r(10) by metis
    have "well_numbered (ss @ [(fst s, snd s)])"
      using r(7) by simp
    from wal_rep_update [OF assms [unfolded r(1)] d'(3,2) r(3) this, of w] r(2,5)
    have "wal_rep crc d' w segs j j"
      by (simp add: r(1))
    then show ?thesis
      using that [of d' j] d'(1) True r(1,4,10) by (simp add: open_seg_def)
  next
    case False
    let ?d = "case lookup d name of None \<Rightarrow> d | Some f \<Rightarrow> put_file name (f\<lparr>f_synced := length (f_content f)\<rparr>) d"
    have s: "sync_file name d = (Inr (), ?d)"
      using r(6) by (simp add: sync_file_def)
    have of': "only_file name d ?d"
      by (auto simp: only_file_def split: option.splits)
    have "closed_seg crc ?d x" if x: "x \<in> set ss" for x
    proof (cases "seg_name (fst x) = name")
      case True
      obtain created where "lookup d (seg_name (fst x)) = Some \<lparr>f_content =
          seg_image crc created (fst x) (snd x), f_synced = seg_size (snd x)\<rparr>"
        using r(9) x by (auto simp: closed_seg_def)
      then show ?thesis
        using True unfolding closed_seg_def by (intro exI [of _ created]) (simp add: length_image)
    next
      case False
      then show ?thesis
        using only_file_closed [OF of', of x] r(9) x by simp
    qed
    moreover have "lookup ?d (seg_name (sw_first sw)) = lookup d (seg_name (sw_first sw))"
      using of' False r(3) by (simp add: only_file_def)
    from open_seg_lookup [OF r(4) this] have "open_seg crc ?d sw (snd s) i j" .
    moreover have "no_strays ?d (ss @ [s])"
      using r(8) of' by (fastforce simp: no_strays_def only_file_def split: option.splits)
    moreover have "dir_ok ?d"
      using r(11) of' by (simp add: only_file_def)
    ultimately have "wal_rep crc ?d w segs i j"
      using assms r(2,3,5) by (simp add: wal_rep_def r(1))
    then show ?thesis
      using that [OF s] False r(1) by simp
  qed
qed

lemma begin_rep:
  assumes "wal_rep crc d w segs i j"
  obtains w' d' p where "flusher_begin w d = (Some (seg_name (fst (last segs)), p), w', d')"
    "wal_rep crc d' w' segs i (length (snd (last segs)))" "same_meta w w'"
    "unat p = unat (fst (last segs)) + length (snd (last segs))"
proof -
  from assms obtain ss s sw where r: "segs = ss @ [s]" "wi_writer w = Some sw" "sw_first sw = fst s"
    "open_seg crc d sw (snd s) i j" "wi_active_bytes w = sw_bytes sw" "d_up d" "well_numbered (ss @ [s])"
    "sw_name sw = seg_name (fst s)"
    by (rule wal_repE)
  obtain sw' d' where f: "buf_flush sw d = (Inr (), sw', d')" "open_seg crc d' sw' (snd s) i (length (snd s))"
    "only_file (sw_name sw) d d'" "sw_first sw' = sw_first sw" "sw_pending sw' = sw_pending sw"
    "sw_name sw' = sw_name sw" "sw_bytes sw' = sw_bytes sw"
    using flush_seg [OF r(4,6)] by metis
  let ?w = "w\<lparr>wi_writer := Some sw'\<rparr>"
  have "well_numbered (ss @ [(fst s, snd s)])" "only_file (seg_name (fst s)) d d'" "sw_first sw' = fst s"
    using r(3,7,8) f(3,4) by simp_all
  from wal_rep_update [OF assms [unfolded r(1)] this(2) f(2) this(3,1), of ?w] r(5) f(7)
  have "wal_rep crc d' ?w segs i (length (snd (last segs)))"
    by (simp add: r(1))
  moreover have "unat (sw_pending sw') = unat (fst s) + length (snd s)"
    using r(3,4) f(5) by (simp add: open_seg_def)
  ultimately show ?thesis
    using that [of "sw_pending sw'" ?w d'] f r(1,2,8)
    by (simp add: flusher_begin_def flush_for_external_fsync_def same_meta_def)
qed

subsection \<open>The invariant of runs\<close>

lemma tick_ok_mono: "tick_ok segs j tick \<Longrightarrow> j \<le> j' \<Longrightarrow> tick_ok segs j' tick"
  by (auto simp: tick_ok_def split: option.splits prod.splits)

lemma state_writer:
  assumes "wal_state crc d w segs i j"
  shows "wi_writer w = None \<longleftrightarrow> segs = []"
  using assms by (auto simp: wal_state_def wal_retired_def wal_rep_def split: if_splits)

lemma state_rep: "wal_state crc d w segs i j \<Longrightarrow> segs \<noteq> [] \<Longrightarrow> wal_rep crc d w segs i j"
  by (simp add: wal_state_def)

lemma step_append:
  assumes "wal_inv crc cfg rs (w, d, tick) segs i j" "wc_enabled cfg" "op_fits cfg (Append ts payload)"
    "length rs + 1 < 2 ^ 64"
  shows "\<exists>segs' i' j'. wal_inv crc cfg (rs @ op_record (length rs) (Append ts payload))
    (wal_step crc (Append ts payload) (w, d, tick)) segs' i' j'"
proof -
  let ?r = "\<lparr>r_cursor = of_nat (length rs), r_ts = ts, r_payload = payload\<rparr>"
  note I = assms(1) [unfolded wal_inv_def prod.case]
  have u: "unat (r_cursor ?r) = length rs"
    using assms(4) by (simp add: unat_of_nat_u64)
  have c: "w_pending w = r_cursor ?r"
    using I u by (simp add: word_unat_eq_iff)
  have pre: "record_ok ?r" "SEGMENT_HEADER_LEN + record_encoded_len ?r \<le> wc_segment_size_max (w_cfg w)"
    "wc_enabled (w_cfg w)" "\<not> w_poisoned w" "unat (r_cursor ?r) + 1 < 2 ^ 64"
    using assms(2,3,4) I u by (simp_all add: record_ok_def record_encoded_len_def)
  obtain w' d' i' j' where a: "wal_append crc ts (r_cursor ?r) (r_ts ?r) (r_payload ?r) w d = (Inr (), w', d')"
    "wal_state crc d' w' (a_log_step (w_cfg w) ?r segs) i' j'" "w_cfg w' = w_cfg w" "\<not> w_poisoned w'"
    "w_pending w' = r_cursor ?r + 1" "a_log_step (w_cfg w) ?r segs \<noteq> []"
    "\<And>tick. tick_ok segs j tick \<Longrightarrow> tick_ok (a_log_step (w_cfg w) ?r segs) j' tick"
    using append_state [of crc d w segs i j ?r ts] I pre u by metis
  let ?S = "a_log_step (w_cfg w) ?r segs"
  have pend: "unat (w_pending w') = length (rs @ [?r])"
    using pre(5) u a(5) unat_Suc_word [of "r_cursor ?r"] by simp
  have "suffix (log_of ?S) (rs @ [?r])"
  proof -
    have "suffix (log_of (a_retain cap A)) (log_of A)" for cap A
    proof -
      obtain zs where "A = zs @ a_retain cap A"
        using a_retain_suffix [of cap A] by (auto simp: suffix_def)
      then have "log_of A = log_of zs @ log_of (a_retain cap A)"
        by (metis log_of_def concat_append map_append)
      then show ?thesis
        by (simp add: suffix_def)
    qed
    moreover have "suffix (log_of segs @ [?r]) (rs @ [?r])"
      using I by (auto simp: suffix_def)
    ultimately show ?thesis
      unfolding a_log_step_def using log_a_append by (metis suffix_order.trans)
  qed
  moreover have "a_next ?S = length (rs @ [?r])"
    using a(2,6) pend by (simp add: wal_state_def)
  moreover have "a_size ?S \<le> wc_retention_bytes cfg \<or> length ?S \<le> 1"
    using a_retain_size I by (simp add: a_log_step_def)
  moreover have "snd (last ?S) \<noteq> []"
  proof -
    have "a_append limit ?r segs \<noteq> [] \<and> snd (last (a_append limit ?r segs)) \<noteq> []" for limit
      by (simp add: a_append_def)
    then show ?thesis
      using a_retain_last by (simp add: a_log_step_def)
  qed
  moreover have "wal_step crc (Append ts payload) (w, d, tick) = (w', d', tick)"
    using a(1) c by simp
  ultimately have "wal_inv crc cfg (rs @ op_record (length rs) (Append ts payload))
      (wal_step crc (Append ts payload) (w, d, tick)) ?S i' j'"
    using a(2-4,6,7) I pend by (simp add: wal_inv_def)
  then show ?thesis
    by blast
qed

lemma step_other:
  assumes "wal_inv crc cfg rs (w, d, tick) segs i j" "op = Sync \<or> op = TickBegin \<or> op = TickEnd"
  shows "\<exists>i' j'. wal_inv crc cfg rs (wal_step crc op (w, d, tick)) segs i' j'"
proof (cases "segs = []")
  case True
  note I = assms(1) [unfolded wal_inv_def prod.case]
  have w: "wi_writer w = None"
    using I True state_writer by blast
  have t: "tick = None"
    using I True by (auto simp: tick_ok_def split: option.splits)
  have "wal_step crc op (w, d, tick) = (w, d, tick)"
    using assms(2) w t by (auto simp: wal_fsync_def flusher_begin_def)
  then show ?thesis
    using assms(1) by metis
next
  case ne: False
  note I = assms(1) [unfolded wal_inv_def prod.case]
  have rep: "wal_rep crc d w segs i j" and dur: "unat (w_durable w) \<le> unat (fst (last segs)) + i"
    and pend: "unat (w_pending w) = a_next segs"
    using I ne by (simp_all add: wal_state_def)
  obtain ss l where l: "segs = ss @ [l]" "well_numbered (ss @ [l])"
    using rep by (auto elim: wal_repE)
  have next': "a_next segs = unat (fst (last segs)) + length (snd (last segs))"
    using chain_last(1) [OF l(2)] by (simp add: l(1))
  from assms(2) consider "op = Sync" | "op = TickBegin" | "op = TickEnd"
    by blast
  then show ?thesis
  proof cases
    case 1
    obtain w' d' where f: "wal_fsync w d = (Inr (), w', d')"
      "wal_rep crc d' w' segs (length (snd (last segs))) (length (snd (last segs)))"
      "unat (w_durable w') = a_next segs" "w_cfg w' = w_cfg w" "w_pending w' = w_pending w"
      "w_poisoned w' = w_poisoned w" "j \<le> length (snd (last segs))"
      using fsync_rep [OF rep] by metis
    have "wal_state crc d' w' segs (length (snd (last segs))) (length (snd (last segs)))"
      using ne f next' pend by (simp add: wal_state_def)
    moreover have "tick_ok segs (length (snd (last segs))) tick"
      using tick_ok_mono I f(7) by blast
    ultimately show ?thesis
      using I f 1 by (intro exI [of _ "length (snd (last segs))"]) (simp add: wal_inv_def)
  next
    case 2
    show ?thesis
    proof (cases tick)
      case (Some t)
      then show ?thesis
        using assms(1) 2 by auto
    next
      case None
      obtain w' d' p where b: "flusher_begin w d = (Some (seg_name (fst (last segs)), p), w', d')"
        "wal_rep crc d' w' segs i (length (snd (last segs)))" "same_meta w w'"
        "unat p = unat (fst (last segs)) + length (snd (last segs))"
        using begin_rep [OF rep] by metis
      have "wal_state crc d' w' segs i (length (snd (last segs)))"
        using ne b(2,3) pend dur by (simp add: wal_state_def same_meta_def)
      moreover have "tick_ok segs (length (snd (last segs))) (Some (seg_name (fst (last segs)), p))"
        using ne b(4) by (simp add: tick_ok_def)
      ultimately show ?thesis
        using I b(1,3) 2 None
        by (intro exI [of _ i] exI [of _ "length (snd (last segs))"]) (simp add: wal_inv_def same_meta_def)
    qed
  next
    case 3
    show ?thesis
    proof (cases tick)
      case None
      then show ?thesis
        using assms(1) 3 by auto
    next
      case (Some t)
      obtain name p where t: "t = (name, p)"
        by (cases t)
      obtain d' i' where y: "sync_file name d = (Inr (), d')" "wal_rep crc d' w segs i' j" "i \<le> i'"
        "name = seg_name (fst (last segs)) \<longrightarrow> i' = j"
        using sync_rep [OF rep] by metis
      let ?w = "w\<lparr>w_durable := p, w_flushes := w_flushes w + 1\<rparr>"
      have "unat p \<le> unat (fst (last segs)) + i'"
        using I Some t y(4) by (auto simp: tick_ok_def)
      moreover have "wal_rep crc d' ?w segs i' j"
        using y(2) by (simp add: wal_rep_def)
      ultimately have "wal_state crc d' ?w segs i' j"
        using ne pend by (simp add: wal_state_def)
      then show ?thesis
        using I y(1) Some t 3
        by (intro exI [of _ i'] exI [of _ j]) (simp add: wal_inv_def flusher_end_def tick_ok_def)
    qed
  qed
qed

lemma fresh_scan:
  assumes "\<forall>n. lookup d n \<noteq> None \<longrightarrow> seg_key n = None"
  shows "open_scan crc (map fst (d_files d)) ([], []) d = (Inr (), ([], []), d)"
proof -
  have "\<forall>n \<in> set (map fst (d_files d)). seg_key n = None"
    using assms by (metis dom_map_of_conv_image_fst domIff list.set_map)
  moreover have "open_scan crc ns ([], []) d = (Inr (), ([], []), d)" if "\<forall>n \<in> set ns. seg_key n = None" for ns
    using that by (induction ns) auto
  ultimately show ?thesis
    by blast
qed

lemma fresh_open:
  assumes "\<forall>n. lookup d n \<noteq> None \<longrightarrow> seg_key n = None"
  shows "\<exists>w. wal_open crc now cfg d = (Inr w, d)"
  using fresh_scan [OF assms] by (simp add: wal_open_def open_active_def Let_def)

lemma fresh_inv:
  assumes "dir_ok d" "\<forall>n. lookup d n \<noteq> None \<longrightarrow> seg_key n = None" "wal_open crc now cfg d = (Inr w, d')"
  shows "wal_inv crc cfg [] (w, d', None) [] 0 0"
  using assms fresh_scan [OF assms(2), of crc]
  by (auto simp: wal_open_def open_active_def wal_inv_def wal_state_def wal_retired_def
      well_numbered_def no_strays_def index_of_def sizes_of_def tick_ok_def log_of_def a_size_def)

lemma run_inv:
  assumes "wal_inv crc cfg [] c [] 0 0" "wc_enabled cfg" "\<forall>op \<in> set ops. op_fits cfg op" "length ops < 2 ^ 64"
  shows "\<exists>segs i j. wal_inv crc cfg (appended ops) (wal_run crc ops c) segs i j \<and> length (appended ops) \<le> length ops"
  using assms(3,4)
proof (induction ops rule: rev_induct)
  case Nil
  then show ?case
    using assms(1) by (auto simp: wal_run_def appended_def)
next
  case (snoc op ops)
  obtain segs i j where IH: "wal_inv crc cfg (appended ops) (wal_run crc ops c) segs i j"
    "length (appended ops) \<le> length ops"
    using snoc by auto
  obtain w d tick where c: "wal_run crc ops c = (w, d, tick)"
    by (cases "wal_run crc ops c") auto
  have run: "wal_run crc (ops @ [op]) c = wal_step crc op (w, d, tick)"
    using c by (simp add: wal_run_def)
  have app: "appended (ops @ [op]) = appended ops @ op_record (length (appended ops)) op"
    by (simp add: appended_def)
  have "length (op_record n op) \<le> 1" for n
    by (cases op) simp_all
  from this [of "length (appended ops)"] have "length (appended (ops @ [op])) \<le> length (ops @ [op])"
    using IH(2) by (simp add: app)
  moreover have "\<exists>segs' i' j'. wal_inv crc cfg (appended (ops @ [op])) (wal_run crc (ops @ [op]) c) segs' i' j'"
  proof (cases "\<exists>ts payload. op = Append ts payload")
    case True
    then obtain ts payload where op: "op = Append ts payload"
      by blast
    have fits: "op_fits cfg (Append ts payload)" "length (appended ops) + 1 < 2 ^ 64"
      using snoc.prems IH(2) op by auto
    show ?thesis
      using step_append [OF IH(1) [unfolded c] assms(2) fits] unfolding run app unfolding op .
  next
    case False
    then have other: "op = Sync \<or> op = TickBegin \<or> op = TickEnd" "op_record n op = []" for n
      by (cases op; simp)+
    have "\<exists>i' j'. wal_inv crc cfg (appended ops) (wal_step crc op (w, d, tick)) segs i' j'"
      using step_other [OF IH(1) [unfolded c] other(1)] .
    then show ?thesis
      unfolding run app other(2) append_Nil2 by blast
  qed
  ultimately show ?case
    by blast
qed

end
