(* ===== verification/Wal_Theorems.thy ===== *)
theory Wal_Theorems
  imports Wal_Properties
begin

text \<open>
  The properties of the write-ahead log: appending refines the list of segments, runs keep the
  publisher's bookkeeping and the retention budget, what was appended is read back, what was durable
  survives a crash; and the states in which the log can no longer be appended to or opened.
\<close>

subsection \<open>A concrete log for the witnesses\<close>

definition demo_cfg :: wal_config where
  "demo_cfg = \<lparr>wc_enabled = True, wc_fsync_policy = Batched, wc_fsync_interval_ms = 5,
     wc_fsync_batch_bytes = 64, wc_segment_size_max = 100, wc_retention_bytes = 150\<rparr>"

definition demo_empty :: disk where
  "demo_empty = \<lparr>d_up = True, d_files = []\<rparr>"

definition demo_wal :: wal where
  "demo_wal = \<lparr>wi_segments = [], wi_sizes = [], wi_active_bytes = 0, wi_retained_bytes = 0, wi_writer = None,
     w_cfg = demo_cfg, w_durable = 0, w_pending = 0, w_poisoned = False, w_wall_base = 3,
     w_appends = 0, w_append_bytes = 0, w_flushes = 0\<rparr>"

definition demo_ops :: "wal_op list" where
  "demo_ops = [Append 1 [1, 2], TickBegin, Append 2 [3], TickEnd, Append 3 [], Sync, Append 4 [5]]"

lemma demo_open: "wal_open crc 3 demo_cfg demo_empty = (Inr demo_wal, demo_empty)"
  by (simp add: wal_open_def demo_empty_def open_active_def demo_wal_def Let_def)

lemma demo_empty_ok: "dir_ok demo_empty" "\<forall>n. lookup demo_empty n \<noteq> None \<longrightarrow> seg_key n = None"
  by (simp_all add: demo_empty_def dir_ok_def)

lemma demo_state: "wal_state crc demo_empty demo_wal [] 0 0"
  using fresh_inv [OF demo_empty_ok demo_open, of crc] by (simp add: wal_inv_def)

lemma demo_ops_fit: "\<forall>op \<in> set demo_ops. op_fits demo_cfg op" "length demo_ops < 2 ^ 64"
  "wc_enabled demo_cfg" "\<not> w_poisoned demo_wal" "w_cfg demo_wal = demo_cfg"
  by (simp_all add: demo_ops_def demo_cfg_def demo_wal_def wal_consts)

subsection \<open>Appending\<close>

text \<open>C11: appending one record refines the abstract step on the list of segments. From any state
  that represents a list of segments, an append that fits succeeds, leaves a state that represents the
  list with the record at its end, a new segment if the last one was full and the oldest ones dropped
  to the retention budget, and advances the pending cursor by one; under the Each policy the record is
  durable when the append returns.\<close>

theorem wal_append_refines:
  assumes "wal_state crc d w segs i j" "wc_enabled (w_cfg w)" "\<not> w_poisoned w" "record_ok r"
    "segs \<noteq> [] \<longrightarrow> unat (r_cursor r) = a_next segs" "unat (r_cursor r) + 1 < 2 ^ 64"
    "SEGMENT_HEADER_LEN + record_encoded_len r \<le> wc_segment_size_max (w_cfg w)"
  shows "\<exists>w' d' i' j'. wal_append crc created (r_cursor r) (r_ts r) (r_payload r) w d = (Inr (), w', d')
    \<and> wal_state crc d' w' (a_log_step (w_cfg w) r segs) i' j' \<and> w_pending w' = r_cursor r + 1
    \<and> (wc_fsync_policy (w_cfg w) = Each \<longrightarrow> w_durable w' = w_pending w')"
  using append_state [OF assms, of created] by metis

theorem wal_append_refines_witness:
  "\<exists>w' d' i' j'. wal_append demo_crc 9 0 7 [1, 2] demo_wal demo_empty = (Inr (), w', d')
    \<and> wal_state demo_crc d' w' [(0, [demo_record 0])] i' j'"
proof -
  have "SEGMENT_HEADER_LEN + record_encoded_len (demo_record 0) \<le> wc_segment_size_max (w_cfg demo_wal)"
    by (simp add: demo_record_def record_encoded_len_def demo_wal_def demo_cfg_def wal_consts)
  from wal_append_refines [OF demo_state demo_ops_fit(3) [folded demo_ops_fit(5)] demo_ops_fit(4)
      demo_record_ok _ _ this, of demo_crc 9]
  show ?thesis
    by (auto simp: demo_record_def a_log_step_def a_append_def)
qed

subsection \<open>Runs\<close>

lemma run_segments:
  assumes "dir_ok d" "\<forall>n. lookup d n \<noteq> None \<longrightarrow> seg_key n = None" "wal_open crc now cfg d = (Inr w, d')"
    "wc_enabled cfg" "\<forall>op \<in> set ops. op_fits cfg op" "length ops < 2 ^ 64"
  obtains segs i j where "wal_inv crc cfg (appended ops) (wal_run crc ops (w, d', None)) segs i j"
  using run_inv [OF fresh_inv [OF assms(1-3)] assms(4-6)] by blast

lemma inv_rep:
  assumes "wal_inv crc cfg rs (w, d, tick) segs i j" "segs \<noteq> []"
  shows "wal_rep crc d w segs i j" "unat (w_durable w) \<le> unat (fst (last segs)) + i"
    "unat (fst (last segs)) + length (snd (last segs)) = length rs"
    "rs = take (unat (fst (hd segs))) rs @ log_of segs" "unat (fst (hd segs)) \<le> length rs"
    "wi_segments w = index_of segs" "i \<le> j" "j \<le> length (snd (last segs))"
proof -
  show rep: "wal_rep crc d w segs i j" "unat (w_durable w) \<le> unat (fst (last segs)) + i"
    using assms by (auto simp: wal_inv_def wal_state_def)
  from rep(1) obtain ss l sw where r: "segs = ss @ [l]" "open_seg crc d sw (snd l) i j" "well_numbered (ss @ [l])"
    by (rule wal_repE)
  show "unat (fst (last segs)) + length (snd (last segs)) = length rs"
    using chain_last(1) [OF r(3)] assms by (simp add: wal_inv_def r(1))
  obtain zs where zs: "rs = zs @ log_of segs"
    using assms(1) by (auto simp: wal_inv_def suffix_def)
  moreover have "unat (fst (hd segs)) + length (log_of segs) = length rs"
    using assms by (simp add: wal_inv_def a_next_def)
  ultimately have "length zs = unat (fst (hd segs))"
    by simp
  then show "rs = take (unat (fst (hd segs))) rs @ log_of segs" "unat (fst (hd segs)) \<le> length rs"
    using zs by simp_all
  show "wi_segments w = index_of segs" "i \<le> j" "j \<le> length (snd (last segs))"
    using rep(1) r(1,2) by (simp_all add: wal_rep_def open_seg_def)
qed

lemma inv_empty:
  assumes "wal_inv crc cfg rs (w, d, tick) [] i j"
  shows "rs = []" "wi_segments w = []" "w_durable w = 0" "w_pending w = 0"
    "wi_retained_bytes w + wi_active_bytes w = 0"
  using assms by (auto simp: wal_inv_def wal_state_def wal_retired_def sizes_of_def index_of_def log_of_def unat_eq_0)

text \<open>The records from a cursor on, of a run numbered from \<open>k\<close>.\<close>

lemma numbered_from:
  assumes "numbered n rs"
  shows "filter (\<lambda>r. c \<le> r_cursor r) rs = drop (unat c - n) rs"
  using assms
proof (induction rs arbitrary: n)
  case (Cons r rs)
  have IH: "filter (\<lambda>r. c \<le> r_cursor r) rs = drop (unat c - Suc n) rs"
    using Cons by simp
  show ?case
  proof (cases "unat c \<le> n")
    case True
    then show ?thesis
      using IH Cons.prems by (simp add: word_le_nat_alt)
  next
    case False
    then have "unat c - n = Suc (unat c - Suc n)"
      by simp
    then show ?thesis
      using IH Cons.prems False by (simp add: word_le_nat_alt)
  qed
qed simp

lemma numbered_window:
  assumes "rs = take k rs @ L" "k \<le> length rs" "numbered k L" "k \<le> unat c" "k \<le> p"
  shows "filter (\<lambda>r. c \<le> r_cursor r) (take (p - k) L) = drop (unat c) (take p rs)"
proof -
  have "L = drop k rs"
    using assms(1) by (metis append_take_drop_id same_append_eq)
  then have "drop (unat c - k) (take (p - k) L) = drop (unat c) (take p rs)"
    using assms(4,5) by (simp add: take_drop)
  then show ?thesis
    using numbered_from [OF numbered_take [OF assms(3)]] by simp
qed

lemma flushed_log:
  assumes "chain n segs" "segs \<noteq> []" "j \<le> length (snd (last segs))"
  shows "log_of (flushed segs j) = take (unat (fst (last segs)) + j - n) (log_of segs)"
    and "n \<le> unat (fst (last segs)) + j"
proof -
  obtain ss s where s: "segs = ss @ [s]"
    using assms(2) by (metis append_butlast_last_id)
  have "unat (fst s) = n + length (log_of ss)"
    using assms(1) by (simp add: s chain_snoc)
  then show "log_of (flushed segs j) = take (unat (fst (last segs)) + j - n) (log_of segs)"
    "n \<le> unat (fst (last segs)) + j"
    using assms(3) by (simp_all add: s flushed_def log_of_def)
qed

text \<open>What a state of a run gives back to a reader.\<close>

definition reads :: "(bytes \<Rightarrow> u32) \<Rightarrow> wal_record list \<Rightarrow> nat \<Rightarrow> nat \<Rightarrow> disk
    \<Rightarrow> (u64 \<Rightarrow> wal_error + replayer) \<Rightarrow> bool" where
  "reads crc rs k p d read_from \<longleftrightarrow> (\<forall>c. case read_from c of
      Inl e \<Rightarrow> unat c < k \<and> e = CursorTooOld c (of_nat k)
    | Inr rp \<Rightarrow> k \<le> unat c \<and> replay_all crc d rp = map Inr (drop (unat c) (take p rs)))"

lemma reads_take: "reads crc (take p rs) k p d f \<longleftrightarrow> reads crc rs k p d f"
proof -
  have "take p (take p rs) = take p rs"
    by simp
  then show ?thesis
    by (simp only: reads_def)
qed

lemma inv_reads:
  assumes "wal_inv crc cfg rs (w, d, tick) segs i j" "segs \<noteq> []"
  shows "reads crc rs (unat (fst (hd segs))) (unat (fst (last segs)) + j) d (\<lambda>c. wal_read_from c w)"
proof -
  note R = inv_rep [OF assms]
  let ?k = "unat (fst (hd segs))" and ?p = "unat (fst (last segs)) + j"
  have ch: "chain ?k segs"
    using R(1) by (simp add: wal_rep_def well_numbered_def)
  note F = flushed_log [OF ch assms(2) R(8)]
  have "filter (\<lambda>r. c \<le> r_cursor r) (log_of (flushed segs j)) = drop (unat c) (take ?p rs)" if "fst (hd segs) \<le> c" for c
    unfolding F(1) using that
    by (intro numbered_window [OF R(4,5) chain_numbered [OF ch] _ F(2)]) (simp add: word_le_nat_alt)
  then show ?thesis
    using read_in_use [OF R(1)] unfolding reads_def wal_read_from_def R(6) by (fastforce simp: word_less_nat_alt word_le_nat_alt split: sum.splits)
qed

lemma empty_reads: "wi_segments w = [] \<Longrightarrow> reads crc [] 0 p d (\<lambda>c. wal_read_from c w)"
  by (simp add: reads_def wal_read_from_def index_read_from_def oldest_cursor_def replayer_new_def replay_all_done)

lemma run_snoc: "wal_run crc (ops @ [op]) c = wal_step crc op (wal_run crc ops c)"
  by (simp add: wal_run_def)

lemma appended_sync [simp]: "appended (ops @ [Sync]) = appended ops"
  by (simp add: appended_def)

text \<open>C8: any interleaving of appends, syncs and flusher ticks on a fresh directory keeps the
  publisher's bookkeeping. The pending cursor counts the records appended; the durable cursor never
  passes it; the log is not poisoned; the retained bytes stay within the budget or only one segment is
  left; and the segments hold the newest of the records appended, in order and without a gap.\<close>

theorem wal_run_sound:
  assumes "dir_ok d" "\<forall>n. lookup d n \<noteq> None \<longrightarrow> seg_key n = None" "wal_open crc now cfg d = (Inr w, d')"
    "wc_enabled cfg" "\<forall>op \<in> set ops. op_fits cfg op" "length ops < 2 ^ 64"
    "wal_run crc ops (w, d', None) = (w2, d2, tick)"
  shows "unat (w_pending w2) = length (appended ops) \<and> w_durable w2 \<le> w_pending w2 \<and> \<not> w_poisoned w2
    \<and> (ws_total_bytes (wal_get_stats w2) \<le> wc_retention_bytes cfg \<or> length (wi_segments w2) \<le> 1)
    \<and> (\<exists>segs. wi_segments w2 = index_of segs \<and> suffix (log_of segs) (appended ops)
         \<and> (appended ops \<noteq> [] \<longrightarrow> segs \<noteq> []))"
proof -
  obtain segs i j where I: "wal_inv crc cfg (appended ops) (w2, d2, tick) segs i j"
    using run_segments [OF assms(1-6)] assms(7) by metis
  note U = I [unfolded wal_inv_def prod.case]
  show ?thesis
  proof (cases "segs = []")
    case True
    note E = inv_empty [OF I [unfolded True]]
    have "suffix (log_of []) (appended ops)"
      by (simp add: log_of_def)
    then show ?thesis
      using U E by (auto simp: wal_get_stats_def index_of_def intro!: exI [of _ "[]"])
  next
    case False
    note R = inv_rep [OF I False]
    have "unat (w_durable w2) \<le> unat (w_pending w2)"
      using R(2,3,7,8) U by simp
    moreover have "wi_retained_bytes w2 + wi_active_bytes w2 = a_size segs"
    proof -
      from R(1) obtain ss l sw where "segs = ss @ [l]" "open_seg crc d2 sw (snd l) i j"
        "wi_active_bytes w2 = sw_bytes sw" "wi_retained_bytes w2 = a_size ss"
        by (rule wal_repE)
      then show ?thesis
        by (simp add: open_seg_def)
    qed
    ultimately show ?thesis
      using U R(6) False by (auto simp: wal_get_stats_def word_le_nat_alt index_of_def intro!: exI [of _ segs])
  qed
qed

text \<open>C10: reading a log in use. Reading from a cursor fails with CursorTooOld exactly when the cursor
  is before the oldest one retained, and otherwise returns the records appended from that cursor on,
  each once and in order, up to a point that is never behind the durable cursor; after a sync that is
  all of them. The subscriber's view of the directory gives the same.\<close>

theorem wal_reads_back:
  assumes "dir_ok d" "\<forall>n. lookup d n \<noteq> None \<longrightarrow> seg_key n = None" "wal_open crc now cfg d = (Inr w, d')"
    "wc_enabled cfg" "\<forall>op \<in> set ops. op_fits cfg op" "length ops + 1 < 2 ^ 64"
    "wal_run crc ops (w, d', None) = (w2, d2, tick)" "wal_run crc (ops @ [Sync]) (w, d', None) = (w3, d3, tick3)"
  shows "\<exists>p. unat (w_durable w2) \<le> p \<and> p \<le> length (appended ops)
    \<and> reads crc (appended ops) (unat (wal_oldest_cursor w2)) p d2 (\<lambda>c. wal_read_from c w2)
    \<and> reads crc (appended ops) (unat (wal_oldest_cursor w3)) (length (appended ops)) d3 (\<lambda>c. wal_read_from c w3)
    \<and> wal_reader_open (Some d2) = wi_segments w2"
proof -
  have len: "length ops < 2 ^ 64"
    using assms(6) by simp
  obtain segs i j where I: "wal_inv crc cfg (appended ops) (w2, d2, tick) segs i j"
    using run_segments [OF assms(1-5) len] assms(7) by metis
  have s: "wal_step crc Sync (w2, d2, tick) = (w3, d3, tick3)"
    using assms(7,8) by (simp add: run_snoc)
  show ?thesis
  proof (cases "segs = []")
    case True
    note E = inv_empty [OF I [unfolded True]]
    have "wi_writer w2 = None" "wal_retired crc d2 w2 []"
      using I True by (auto simp: wal_inv_def wal_state_def wal_retired_def)
    then have "w3 = w2" "d3 = d2" "dir_of d2 []"
      using s by (auto simp: wal_fsync_def dir_of_def wal_retired_def dir_ok_def)
    then show ?thesis
      using E empty_reads [OF E(2)] index_names_dir [of d2 "[]"]
      by (simp add: wal_oldest_cursor_def oldest_cursor_def wal_reader_open_def index_of_def)
  next
    case False
    note R = inv_rep [OF I False]
    obtain w' d' where f: "wal_fsync w2 d2 = (Inr (), w', d')"
      "wal_rep crc d' w' segs (length (snd (last segs))) (length (snd (last segs)))"
      "unat (w_durable w') = a_next segs" "w_cfg w' = w_cfg w2" "w_pending w' = w_pending w2"
      "w_poisoned w' = w_poisoned w2" "j \<le> length (snd (last segs))"
      using fsync_rep [OF R(1)] by metis
    have w3: "w' = w3" "d' = d3" "tick3 = tick"
      using s f(1) by simp_all
    have "tick_ok segs (length (snd (last segs))) tick"
      using I tick_ok_mono f(7) by (auto simp: wal_inv_def)
    then have I3: "wal_inv crc cfg (appended ops) (w3, d3, tick) segs (length (snd (last segs))) (length (snd (last segs)))"
      using I f R(3) False unfolding w3 by (simp add: wal_inv_def wal_state_def)
    have old: "unat (wal_oldest_cursor w2) = unat (fst (hd segs))" "unat (wal_oldest_cursor w3) = unat (fst (hd segs))"
      using R(6) inv_rep(6) [OF I3 False] False
      by (cases segs; simp add: wal_oldest_cursor_def oldest_cursor_def index_of_def)+
    have "dir_of d2 segs"
    proof -
      from R(1) obtain ss l sw where r: "segs = ss @ [l]" "open_seg crc d2 sw (snd l) i j" "dir_ok d2"
        "\<forall>x \<in> set ss. closed_seg crc d2 x" "sw_name sw = seg_name (fst l)" "sw_first sw = fst l"
        "well_numbered (ss @ [l])" "no_strays d2 (ss @ [l])"
        by (rule wal_repE)
      then show ?thesis
        by (auto simp: dir_of_def dir_ok_def closed_seg_def open_seg_def)
    qed
    then have "wal_reader_open (Some d2) = wi_segments w2"
      using index_names_dir R(6) by (simp add: wal_reader_open_def)
    then show ?thesis
      using inv_reads [OF I False] inv_reads [OF I3 False] R(2,3,7,8) unfolding old
      by (intro exI [of _ "unat (fst (last segs)) + j"]) simp
  qed
qed

subsection \<open>Crashes\<close>

lemma closed_reads:
  assumes "well_numbered segs" "segs \<noteq> []" "\<forall>s \<in> set segs. closed_seg crc d s" "wi_segments w = index_of segs"
    "suffix (log_of segs) rs" "length rs = a_next segs"
  shows "reads crc rs (unat (fst (hd segs))) (length rs) d (\<lambda>c. wal_read_from c w)"
proof -
  let ?k = "unat (fst (hd segs))"
  have ch: "chain ?k segs"
    using assms(1,2) by (simp add: well_numbered_def)
  have files: "\<forall>s \<in> set segs. clean crc d (seg_name (fst s)) \<and> records_in crc d (seg_name (fst s)) = snd s"
  proof
    fix s assume s: "s \<in> set segs"
    then obtain created where f: "lookup d (seg_name (fst s)) = Some \<lparr>f_content =
        seg_image crc created (fst s) (snd s), f_synced = seg_size (snd s)\<rparr>"
      using assms(3) by (auto simp: closed_seg_def)
    show "clean crc d (seg_name (fst s)) \<and> records_in crc d (seg_name (fst s)) = snd s"
      using image_file [of "\<lparr>f_content = seg_image crc created (fst s) (snd s), f_synced = seg_size (snd s)\<rparr>"
          crc created "fst s" "snd s"] well_numbered_ok [OF assms(1) s] f
      by (simp add: clean_def records_in_def)
  qed
  obtain zs where zs: "rs = zs @ log_of segs"
    using assms(5) by (auto simp: suffix_def)
  then have "length zs = ?k"
    using assms(6) by (simp add: a_next_def)
  then have w: "rs = take ?k rs @ log_of segs" "?k \<le> length rs"
    using zs by simp_all
  have "filter (\<lambda>r. c \<le> r_cursor r) (log_of segs) = drop (unat c) rs" if "fst (hd segs) \<le> c" for c
  proof -
    have "length (log_of segs) = length rs - ?k"
      using assms(6) by (simp add: a_next_def)
    then show ?thesis
      using numbered_window [OF w chain_numbered [OF ch], of c "length rs"] that w(2)
      by (simp add: word_le_nat_alt)
  qed
  then show ?thesis
    using read_chain [OF ch assms(2) files] unfolding reads_def wal_read_from_def assms(4)
    by (fastforce simp: word_less_nat_alt word_le_nat_alt split: sum.splits)
qed

lemma survivors_read:
  assumes "survives crc d (ss @ [s])" "suffix (log_of (ss @ [s])) rs" "length rs = a_next (ss @ [s])"
  shows "\<exists>w d'. wal_open crc now cfg d = (Inr w, d') \<and> unat (w_pending w) = length rs
    \<and> reads crc rs (unat (fst (hd (ss @ [s])))) (length rs) d' (\<lambda>c. wal_read_from c w)"
proof (cases "snd s = []")
  case True
  obtain w d' where o': "wal_open crc now cfg d = (Inr w, d')" "w_pending w = fst s"
    "wi_segments w = index_of (ss @ [s])" "\<forall>x \<in> set (ss @ [s]). closed_seg crc d' x"
    using open_survivors(1) [OF assms(1) True, of now cfg] by blast
  have wn: "well_numbered (ss @ [s])"
    using assms(1) by (simp add: survives_def)
  have "unat (fst s) = length rs"
    using chain_last(1) [OF wn] True assms(3) by simp
  then show ?thesis
    using o' closed_reads [OF wn _ o'(4,3) assms(2,3)] by (intro exI [of _ w] exI [of _ d']) simp
next
  case False
  let ?k = "of_nat (a_next (ss @ [s])) :: u64"
  obtain w d' where o': "wal_open crc now cfg d = (Inr w, d')" "wal_rep crc d' w (a_rotate ?k (ss @ [s])) 0 0"
    "w_pending w = ?k" "unat ?k = a_next (ss @ [s])"
    using open_survivors(2) [OF assms(1) False refl, of now cfg] by blast
  let ?S = "a_rotate ?k (ss @ [s])"
  have S: "?S = (ss @ [s]) @ [(?k, [])]" "hd ?S = hd (ss @ [s])" "log_of ?S = log_of (ss @ [s])" "?S \<noteq> []"
    by (cases ss; simp add: a_rotate_def log_of_def)+
  have wn: "well_numbered ?S"
    using o'(2) by (simp add: wal_rep_def)
  have ch: "chain (unat (fst (hd ?S))) ?S"
    using wn S(4) by (simp add: well_numbered_def)
  obtain zs where zs: "rs = zs @ log_of (ss @ [s])"
    using assms(2) by (auto simp: suffix_def)
  have fl: "flushed ?S 0 = ?S"
    by (simp add: flushed_def S(1) butlast_append)
  have "filter (\<lambda>r. c \<le> r_cursor r) (log_of ?S) = drop (unat c) rs" if "fst (hd ?S) \<le> c" for c
  proof -
    have len: "length zs = unat (fst (hd ?S))"
      using zs assms(3) S(2) by (simp add: a_next_def)
    have "filter (\<lambda>r. c \<le> r_cursor r) (log_of ?S) = drop (unat c - unat (fst (hd ?S))) (log_of ?S)"
      by (rule numbered_from [OF chain_numbered [OF ch]])
    also have "\<dots> = drop (unat c) rs"
      using that len zs S(3) by (simp add: word_le_nat_alt)
    finally show ?thesis .
  qed
  moreover have "wi_segments w = index_of ?S"
    using o'(2) by (simp add: wal_rep_def)
  ultimately have "reads crc rs (unat (fst (hd ?S))) (length rs) d' (\<lambda>c. wal_read_from c w)"
    using read_in_use [OF o'(2)] fl unfolding reads_def wal_read_from_def
    by (fastforce simp: word_less_nat_alt word_le_nat_alt split: sum.splits)
  then show ?thesis
    using o' assms(3) S(2) by (intro exI [of _ w] exI [of _ d']) simp
qed


subsection \<open>Where the log stops\<close>

lemma create_existing: "lookup d name \<noteq> None \<Longrightarrow> seg_create created name first d = (Inl (WriterIo IoAlreadyExists), d)"
  by (simp add: seg_create_def create_new_def)

text \<open>A log without a writer whose next segment file exists cannot be appended to.\<close>

lemma append_blocked:
  assumes "wi_writer w = None" "lookup d (seg_name c) \<noteq> None" "wc_enabled (w_cfg w)" "\<not> w_poisoned w"
    "length payload \<le> MAX_PAYLOAD_LEN"
  shows "wal_append crc created c ts payload w d = (Inl (WalWriter (WriterIo IoAlreadyExists)), w, d)"
  using assms create_existing [OF assms(2)] by (simp add: wal_append_def ensure_writer_def new_segment_def)

lemma synced_survives:
  assumes "wal_rep crc d w segs n n" "n = length (snd (last segs))"
  shows "survives crc d segs"
proof -
  from assms(1) obtain ss l sw where r: "segs = ss @ [l]" "sw_first sw = fst l" "open_seg crc d sw (snd l) n n"
    "well_numbered (ss @ [l])" "no_strays d (ss @ [l])" "\<forall>x \<in> set ss. closed_seg crc d x"
    "sw_name sw = seg_name (fst l)" "dir_ok d"
    by (rule wal_repE)
  have whole: "closed_seg crc d s" if s: "s \<in> set segs" for s
    using that r(1,2,3,6,7) assms(2) by (auto simp: closed_seg_def open_seg_def)
  have "\<exists>f created. lookup d (seg_name (fst s)) = Some f \<and> has_header f \<and> file_records crc f = snd s
      \<and> recovered crc f = seg_image crc created (fst s) (snd s) \<and> f_synced f = length (f_content f)"
    if s: "s \<in> set segs" for s
  proof -
    obtain created where f: "lookup d (seg_name (fst s)) = Some \<lparr>f_content =
        seg_image crc created (fst s) (snd s), f_synced = seg_size (snd s)\<rparr>"
      using whole [OF s] by (auto simp: closed_seg_def)
    let ?f = "\<lparr>f_content = seg_image crc created (fst s) (snd s), f_synced = seg_size (snd s)\<rparr>"
    have "\<forall>r \<in> set (snd s). record_ok r"
      using well_numbered_ok [of segs s] r(1,4) s by simp
    then have "body_records crc (concat (map (encode_record crc) (snd s))) = snd s"
      using body_append(1) [of "snd s" crc "[]"] body_stuck(1) by fastforce
    moreover have "f_content ?f = encode_segment_header created (fst s) @ concat (map (encode_record crc) (snd s))"
      by (simp add: seg_image_def)
    ultimately show ?thesis
      using image_recovered [of ?f created "fst s" _ crc "snd s"] f length_image [of crc created "fst s" "snd s"]
      by (intro exI [of _ ?f] exI [of _ created]) auto
  qed
  then show ?thesis
    using r(1,4,5,8) by (simp add: survives_def)
qed

lemma drop_survives:
  assumes "wal_rep crc d w segs i j" "wc_enabled (w_cfg w)"
  shows "survives crc (wal_drop w d) segs"
proof -
  obtain w' d' where "wal_fsync w d = (Inr (), w', d')"
    "wal_rep crc d' w' segs (length (snd (last segs))) (length (snd (last segs)))"
    using fsync_rep [OF assms(1)] by metis
  then show ?thesis
    using synced_survives assms(2) by (simp add: wal_drop_def)
qed

text \<open>A second restart without an append in between stops the log for good. The first restart of
  a log that holds a record opens a new, empty segment; the second one finds that segment last, keeps
  it and defers the writer; and every append then tries to create the file that is already there, fails
  with AlreadyExists and changes nothing.\<close>

theorem second_restart_blocks_log:
  assumes "dir_ok d" "\<forall>n. lookup d n \<noteq> None \<longrightarrow> seg_key n = None" "wal_open crc now cfg d = (Inr w, d')"
    "wc_enabled cfg" "\<forall>op \<in> set ops. op_fits cfg op" "length ops < 2 ^ 64"
    "wal_run crc ops (w, d', None) = (w2, d2, tick)" "appended ops \<noteq> []"
  shows "\<exists>w3 d3 w4 d4. wal_open crc now1 cfg (wal_drop w2 d2) = (Inr w3, d3)
    \<and> wal_open crc now2 cfg (wal_drop w3 d3) = (Inr w4, d4) \<and> unat (w_pending w4) = length (appended ops)
    \<and> (\<forall>created ts payload. length payload \<le> MAX_PAYLOAD_LEN \<longrightarrow>
         wal_append crc created (w_pending w4) ts payload w4 d4 = (Inl (WalWriter (WriterIo IoAlreadyExists)), w4, d4))"
proof -
  obtain segs i j where I: "wal_inv crc cfg (appended ops) (w2, d2, tick) segs i j"
    using run_segments [OF assms(1-6)] assms(7) by metis
  have ne: "segs \<noteq> []" "snd (last segs) \<noteq> []" "a_next segs = length (appended ops)" "w_cfg w2 = cfg"
    using I assms(8) by (auto simp: wal_inv_def)
  obtain ss s where s: "segs = ss @ [s]"
    using ne(1) by (metis append_butlast_last_id)
  let ?k = "of_nat (a_next (ss @ [s])) :: u64"
  have "survives crc (wal_drop w2 d2) (ss @ [s])"
    using drop_survives [OF inv_rep(1) [OF I ne(1)]] ne(4) assms(4) by (simp add: s)
  from open_survivors(2) [OF this _ refl, of now1 cfg] obtain w3 d3 where
    o': "wal_open crc now1 cfg (wal_drop w2 d2) = (Inr w3, d3)" "wal_rep crc d3 w3 (a_rotate ?k (ss @ [s])) 0 0"
      "unat ?k = a_next (ss @ [s])" "w_cfg w3 = cfg"
    using ne(2) by (auto simp: s)
  have "survives crc (wal_drop w3 d3) ((ss @ [s]) @ [(?k, [])])"
    using drop_survives [OF o'(2)] o'(4) assms(4) by (simp add: a_rotate_def)
  from open_survivors(1) [OF this, of now2 cfg] obtain w4 d4 where
    t: "wal_open crc now2 cfg (wal_drop w3 d3) = (Inr w4, d4)" "wi_writer w4 = None" "w_pending w4 = ?k"
      "closed_seg crc d4 (?k, [])" "w_cfg w4 = cfg" "\<not> w_poisoned w4"
    by auto
  have "lookup d4 (seg_name (w_pending w4)) \<noteq> None"
    using t(3,4) by (auto simp: closed_seg_def)
  then show ?thesis
    using append_blocked [OF t(2) _ _ t(6)] t(1,3,5) o'(1,3) assms(4) ne(3)
    by (intro exI [of _ w3] exI [of _ d3] exI [of _ w4] exI [of _ d4]) (simp add: s)
qed

text \<open>A first record that does not fit an empty segment stops the log for good. The append creates
  the segment, finds the record too large for it, closes it and creates it again under the same name,
  which fails; every later append fails the same way and changes nothing.\<close>

theorem oversize_record_blocks_log:
  assumes "dir_ok d" "\<forall>n. lookup d n \<noteq> None \<longrightarrow> seg_key n = None" "wal_open crc now cfg d = (Inr w, d')"
    "wc_enabled cfg" "length payload \<le> MAX_PAYLOAD_LEN"
    "SEGMENT_HEADER_LEN + RECORD_FRAMING + length payload > wc_segment_size_max cfg"
  shows "\<exists>w2 d2. wal_append crc created (w_pending w) ts payload w d' = (Inl (WalWriter (WriterIo IoAlreadyExists)), w2, d2)
    \<and> w_pending w2 = w_pending w
    \<and> (\<forall>created' ts' payload'. length payload' \<le> MAX_PAYLOAD_LEN \<longrightarrow>
         wal_append crc created' (w_pending w2) ts' payload' w2 d2 = (Inl (WalWriter (WriterIo IoAlreadyExists)), w2, d2))"
proof -
  note I = fresh_inv [OF assms(1-3), unfolded wal_inv_def prod.case]
  have w: "wal_retired crc d' w []" "w_cfg w = cfg" "\<not> w_poisoned w" "wi_writer w = None"
    using I by (auto simp: wal_state_def wal_retired_def)
  let ?c = "w_pending w"
  obtain w1 d1 sw where n: "new_segment created ?c w d' = (Inr (), w1, d1)" "wal_rep crc d1 w1 [(?c, [])] 0 0"
    "same_meta w w1"
    by (rule new_segment_rep [OF w(1), of ?c created]) simp_all
  obtain w2 d2 where r: "retire_writer w1 d1 = (Inr (), w2, d2)" "wal_retired crc d2 w2 [(?c, [])]" "same_meta w1 w2"
    using retire_rep [OF n(2)] by metis
  have ex: "lookup d2 (seg_name ?c) \<noteq> None"
    using r(2) by (auto simp: wal_retired_def closed_seg_def)
  have meta: "w_cfg w2 = cfg" "\<not> w_poisoned w2" "w_pending w2 = ?c" "wi_writer w2 = None" "w_cfg w1 = cfg"
    using n(3) r(2,3) w by (simp_all add: same_meta_def wal_retired_def)
  have "wi_active_bytes w1 = SEGMENT_HEADER_LEN"
    using n(2) by (auto simp: wal_rep_def open_seg_def seg_size_def)
  then have "rotate_if_full created ?c (RECORD_FRAMING + length payload) w1 d1
      = (Inl (WalWriter (WriterIo IoAlreadyExists)), w2, d2)"
    using assms(6) r(1) create_existing [OF ex] meta(5)
    by (simp add: rotate_if_full_def rotate_locked_def new_segment_def)
  then have "wal_append crc created ?c ts payload w d' = (Inl (WalWriter (WriterIo IoAlreadyExists)), w2, d2)"
    using n(1) w assms(4,5) by (simp add: wal_append_def ensure_writer_def)
  then show ?thesis
    using append_blocked [OF meta(4) _ _ meta(2)] ex meta assms(4)
    by (intro exI [of _ w2] exI [of _ d2]) simp
qed

lemma short_file_kept:
  assumes "lookup d n = Some f" "length (f_content f) < SEGMENT_HEADER_LEN"
  shows "lookup (snd (recover_truncate crc name d)) n = Some f"
proof (cases "name = n")
  case True
  then show ?thesis
    using assms by (simp add: recover_truncate_def seg_open_def Let_def)
next
  case False
  then show ?thesis
    using assms(1) by (auto simp: recover_truncate_def set_len_def sync_file_def Let_def
        split: option.splits sum.splits if_splits)
qed

lemma short_file_scan:
  assumes "lookup d n = Some f" "length (f_content f) < SEGMENT_HEADER_LEN"
  shows "lookup (snd (snd (open_scan crc names idx d))) n = Some f"
  using assms(1)
proof (induction names arbitrary: idx d)
  case (Cons name names)
  obtain segs sizes where idx: "idx = (segs, sizes)"
    by (cases idx)
  obtain res d1 where r: "recover_truncate crc name d = (res, d1)"
    by (cases "recover_truncate crc name d") auto
  have "lookup d1 n = Some f"
    using short_file_kept [OF Cons.prems assms(2), of crc name] r by simp
  then show ?case
    using Cons.IH Cons.prems r by (simp add: idx split: option.splits sum.splits)
qed simp

text \<open>A crash between the creation of a segment file and the end of its header stops the log for
  good. While the directory holds a segment file shorter than the header, opening fails, and it leaves
  the file as it is, so that opening again fails too.\<close>

theorem torn_header_blocks_open:
  assumes "lookup d name = Some f" "seg_key name \<noteq> None" "length (f_content f) < SEGMENT_HEADER_LEN"
  shows "\<exists>e d'. wal_open crc now cfg d = (Inl e, d') \<and> lookup d' name = Some f"
proof -
  have "name \<in> set (map fst (d_files d))"
    using assms(1) by (metis domI dom_map_of_conv_image_fst list.set_map)
  moreover have "\<not> has_header f"
    using assms(3) by (simp add: has_header_def parse_header_def)
  ultimately obtain e where "fst (open_scan crc (map fst (d_files d)) ([], []) d) = Inl e"
    using open_needs_headers [of name "map fst (d_files d)" d crc "([], [])"] assms(1,2) by auto
  then show ?thesis
    using short_file_scan [OF assms(1,3), of crc "map fst (d_files d)" "([], [])"]
    by (cases "open_scan crc (map fst (d_files d)) ([], []) d") (auto simp: wal_open_def)
qed

subsection \<open>Witnesses\<close>

definition demo_conf :: wal_conf where
  "demo_conf = wal_run demo_crc demo_ops (demo_wal, demo_empty, None)"

definition lose_unsynced :: "disk \<Rightarrow> disk" where
  "lose_unsynced d = d\<lparr>d_files := map (\<lambda>(n, f).
     (n, \<lparr>f_content = take (f_synced f) (f_content f), f_synced = length (take (f_synced f) (f_content f))\<rparr>)) (d_files d)\<rparr>"

lemma crashed_lose: "dir_ok d \<Longrightarrow> crashed d (lose_unsynced d)"
proof -
  assume ok: "dir_ok d"
  have "map fst (d_files (lose_unsynced d)) = map fst (d_files d)"
    by (simp add: lose_unsynced_def comp_def case_prod_unfold)
  moreover have "d_up (lose_unsynced d) = d_up d"
    by (simp add: lose_unsynced_def)
  ultimately have "dir_ok (lose_unsynced d)"
    using ok by (simp only: dir_ok_def)
  moreover have "lookup (lose_unsynced d) n = map_option (\<lambda>f. \<lparr>f_content = take (f_synced f) (f_content f),
      f_synced = length (take (f_synced f) (f_content f))\<rparr>) (lookup d n)" for n
    by (simp add: lose_unsynced_def map_of_map)
  ultimately show ?thesis
    unfolding crashed_def by (auto split: option.splits intro!: exI)
qed

lemma demo_appended: "length (appended demo_ops) = 4" "appended demo_ops \<noteq> []"
  by (simp_all add: demo_ops_def appended_def)

lemma demo_conf_cases:
  obtains w2 d2 tick where "wal_run demo_crc demo_ops (demo_wal, demo_empty, None) = (w2, d2, tick)"
  by (cases "wal_run demo_crc demo_ops (demo_wal, demo_empty, None)") auto

lemma demo_dir_ok: "wal_run demo_crc demo_ops (demo_wal, demo_empty, None) = (w2, d2, tick) \<Longrightarrow> dir_ok d2"
  using run_segments [OF demo_empty_ok demo_open demo_ops_fit(3,1,2), of demo_crc]
  by (metis (no_types, lifting) wal_inv_def prod.case wal_state_def wal_rep_def wal_retired_def)

theorem wal_run_sound_witness:
  "\<exists>w2 d2 tick. demo_conf = (w2, d2, tick) \<and> unat (w_pending w2) = 4 \<and> w_durable w2 \<le> w_pending w2"
proof -
  obtain w2 d2 tick where r: "wal_run demo_crc demo_ops (demo_wal, demo_empty, None) = (w2, d2, tick)"
    by (rule demo_conf_cases)
  show ?thesis
    using wal_run_sound [OF demo_empty_ok demo_open demo_ops_fit(3,1,2) r] r demo_appended by (simp add: demo_conf_def)
qed

theorem wal_reads_back_witness:
  "\<exists>w3 d3 tick3 k. wal_run demo_crc (demo_ops @ [Sync]) (demo_wal, demo_empty, None) = (w3, d3, tick3)
    \<and> reads demo_crc (appended demo_ops) k 4 d3 (\<lambda>c. wal_read_from c w3)"
proof -
  obtain w2 d2 tick where r: "wal_run demo_crc demo_ops (demo_wal, demo_empty, None) = (w2, d2, tick)"
    by (rule demo_conf_cases)
  obtain w3 d3 tick3 where s: "wal_run demo_crc (demo_ops @ [Sync]) (demo_wal, demo_empty, None) = (w3, d3, tick3)"
    by (cases "wal_run demo_crc (demo_ops @ [Sync]) (demo_wal, demo_empty, None)") auto
  have "length demo_ops + 1 < 2 ^ 64"
    by (simp add: demo_ops_def)
  from wal_reads_back [OF demo_empty_ok demo_open demo_ops_fit(3,1) this r s] show ?thesis
    using s demo_appended by auto
qed


theorem second_restart_blocks_log_witness:
  "\<exists>w2 d2 tick w3 d3 w4 d4. demo_conf = (w2, d2, tick)
    \<and> wal_open demo_crc 11 demo_cfg (wal_drop w2 d2) = (Inr w3, d3)
    \<and> wal_open demo_crc 12 demo_cfg (wal_drop w3 d3) = (Inr w4, d4)
    \<and> wal_append demo_crc 13 (w_pending w4) 14 [1] w4 d4 = (Inl (WalWriter (WriterIo IoAlreadyExists)), w4, d4)"
proof -
  obtain w2 d2 tick where r: "wal_run demo_crc demo_ops (demo_wal, demo_empty, None) = (w2, d2, tick)"
    by (rule demo_conf_cases)
  have "length [1 :: 8 word] \<le> MAX_PAYLOAD_LEN"
    by (simp add: wal_consts)
  then show ?thesis
    using second_restart_blocks_log [OF demo_empty_ok demo_open demo_ops_fit(3,1,2) r demo_appended(2), of 11 12] r
    unfolding demo_conf_def by blast
qed

theorem oversize_record_blocks_log_witness:
  "\<exists>w2 d2. wal_append demo_crc 9 0 7 (replicate 80 1) demo_wal demo_empty
      = (Inl (WalWriter (WriterIo IoAlreadyExists)), w2, d2)
    \<and> wal_append demo_crc 9 0 7 [1] w2 d2 = (Inl (WalWriter (WriterIo IoAlreadyExists)), w2, d2)"
proof -
  have l: "length (replicate 80 (1 :: 8 word)) \<le> MAX_PAYLOAD_LEN"
    "SEGMENT_HEADER_LEN + RECORD_FRAMING + length (replicate 80 (1 :: 8 word)) > wc_segment_size_max demo_cfg"
    by (simp_all add: demo_cfg_def wal_consts)
  have "length [1 :: 8 word] \<le> MAX_PAYLOAD_LEN" "w_pending demo_wal = 0"
    by (simp_all add: wal_consts demo_wal_def)
  then show ?thesis
    using oversize_record_blocks_log [OF demo_empty_ok demo_open demo_ops_fit(3) l, of demo_crc 9 7]
    by metis
qed

theorem torn_header_blocks_open_witness:
  "\<exists>e d'. wal_open demo_crc 9 demo_cfg \<lparr>d_up = True, d_files = [(seg_name 5, \<lparr>f_content = [1, 2, 3], f_synced = 0\<rparr>)]\<rparr>
    = (Inl e, d')"
  using torn_header_blocks_open [of "\<lparr>d_up = True, d_files = [(seg_name 5, \<lparr>f_content = [1, 2, 3], f_synced = 0\<rparr>)]\<rparr>"
      "seg_name 5" "\<lparr>f_content = [1, 2, 3], f_synced = 0\<rparr>" demo_crc 9 demo_cfg]
  by (auto simp: seg_key_name wal_consts)

end
