(* ===== verification/Publisher_Properties.thy ===== *)
theory Publisher_Properties
  imports Publisher_Wakeups Ring_Properties Wal_Theorems
begin

text \<open>
  The properties of the producer handle: a publish writes the log and then the ring or changes
  neither, ring and log stay in step over any run, every waiting client is woken once; and the
  places where the handle stops working: a client that shares a cursor slot with a stale one, and a
  retry after a failed sync.
\<close>

subsection \<open>Wakeups\<close>

text \<open>After a publish, and as long as no two clients share a cursor slot, every client that
  announced it is about to sleep is signalled exactly once and no other; the clients that remain are
  those whose cursor is claimed and whose channel, if it was used, is open.\<close>

theorem broadcast_wakes_waiting:
  assumes "mapped (pb_ring t) (tp_map t)" "in_table t" "distinct (map cl_idx (pb_clients t))"
  shows "let t' = broadcast_wakeup peer_open t; r = pb_ring t; m = tp_map t; cs = mset (pb_clients t) in
     mset (tp_signals t') = mset (tp_signals t) + image_mset cl_chan {# c \<in># cs. waits r m c #}
     \<and> mset (pb_clients t') = {# c \<in># cs. stays r m peer_open c #}
     \<and> pb_wakeups t' = pb_wakeups t + size {# c \<in># cs. waits r m c #}
     \<and> pb_dropped t' + length (pb_clients t') = pb_dropped t + length (pb_clients t)"
proof -
  have "apart t 0"
    using assms by (simp add: apart_def)
  then have "decided peer_open 0 t (broadcast_from peer_open 0 t)"
    using broadcast_from_decides by blast
  then have D: "let t' = broadcast_from peer_open 0 t; r = pb_ring t; m = tp_map t; cs = mset (pb_clients t) in
     mset (tp_signals t') = mset (tp_signals t) + image_mset cl_chan {# c \<in># cs. waits r m c #}
     \<and> mset (pb_clients t') = {# c \<in># cs. stays r m peer_open c #}
     \<and> pb_wakeups t' = pb_wakeups t + size {# c \<in># cs. waits r m c #}
     \<and> pb_dropped t' + size (mset (pb_clients t')) = pb_dropped t + size (mset (pb_clients t))"
    by (auto simp: decided_def Let_def simp flip: size_mset)
  then show ?thesis
    by (cases "pb_clients t = []") (simp_all add: broadcast_wakeup_def Let_def)
qed

text \<open>Two clients with the same cursor slot. When a subscriber disconnects and another takes over
  its cursor slot before the next publish, the publisher holds a stale client and a live one for the
  slot. The wakeup meant for the live one is sent to the stale one, and as the flag is consumed no
  later broadcast wakes the live client as long as it sleeps.\<close>

theorem stale_client_steals_wakeup:
  assumes "mapped (pb_ring t) (tp_map t)" "pb_clients t = [stale, live]" "cl_idx stale = cl_idx live"
    "cl_idx live < unat (max_subscribers (pb_ring t))" "waits (pb_ring t) (tp_map t) live" "peer_open stale"
  shows "let t' = broadcast_wakeup peer_open t in
     tp_signals t' = tp_signals t @ [cl_chan stale] \<and> pb_clients t' = [stale, live]
     \<and> (\<forall>m peer_open'. mapped (pb_ring t) m \<and> cursor_at m (cl_idx live) = cursor_at (tp_map t') (cl_idx live)
          \<and> wakeflag_at (pb_ring t) m (cl_idx live) = wakeflag_at (pb_ring t) (tp_map t') (cl_idx live) \<longrightarrow>
            tp_signals (broadcast_wakeup peer_open' (t'\<lparr>tp_map := m\<rparr>)) = tp_signals t')"
proof -
  let ?k = "cl_idx live" and ?r = "pb_ring t"
  define m1 where "m1 = wr64 (tp_map t) (wakeflag_addr ?r ?k) 0"
  define m2 where "m2 = wr64 m1 (wakeflag_addr ?r ?k) 0"
  have mp: "mapped ?r m1"
    using assms(1,4) by (simp add: m1_def mapped_low_writes)
  have fl: "wakeflag_at ?r m1 ?k = 0" "cursor_at m1 ?k = cursor_at (tp_map t) ?k"
    using assms(1,4) by (simp_all add: m1_def header_wakeflag)
  have fl2: "wakeflag_at ?r m2 ?k = 0" "cursor_at m2 ?k = cursor_at (tp_map t) ?k"
    using mp assms(4) fl by (simp_all add: m2_def header_wakeflag)
  have claimed: "cursor_at (tp_map t) ?k \<noteq> CURSOR_UNCLAIMED"
    using assms(5) by (simp add: waits_def gone_def cursor_is_unclaimed_def)
  have nowait: "\<not> gone m c" "\<not> waits ?r m c"
    if "cl_idx c = ?k" "wakeflag_at ?r m ?k = 0" "cursor_at m ?k = cursor_at (tp_map t) ?k" for m c
    using that claimed by (simp_all add: waits_def gone_def cursor_is_unclaimed_def WAKEFLAG_WAITING_def)
  have first: "waits ?r (tp_map t) stale" "\<not> gone (tp_map t) stale"
    using assms(3,5) by (simp_all add: waits_def gone_def)
  define t1 where "t1 = send_wakeup stale (t\<lparr>tp_map := m1\<rparr>)"
  define t2 where "t2 = t1\<lparr>tp_map := m2\<rparr>"
  have t1: "pb_clients t1 = [stale, live]" "pb_ring t1 = ?r" "tp_map t1 = m1"
    "tp_signals t1 = tp_signals t @ [cl_chan stale]"
    using assms(2) by (simp_all add: t1_def)
  have "broadcast_wakeup peer_open t = broadcast_from peer_open (Suc 0) t1"
    using assms(2,3,6) first by (simp add: broadcast_wakeup_def broadcast_from_cases [of _ 0 t] t1_def m1_def)
  also have "\<dots> = broadcast_from peer_open (Suc (Suc 0)) t2"
    using nowait [OF refl fl] t1 by (simp add: broadcast_from_cases [of _ "Suc 0" t1] t2_def m2_def)
  also have "\<dots> = t2"
    using t1(1) by (subst broadcast_from_cases) (simp add: t2_def)
  finally have b: "broadcast_wakeup peer_open t = t2" .
  have later: "tp_signals (broadcast_wakeup peer_open' (t2\<lparr>tp_map := m\<rparr>)) = tp_signals t2"
    if m: "mapped ?r m" "cursor_at m ?k = cursor_at (tp_map t2) ?k" "wakeflag_at ?r m ?k = wakeflag_at ?r (tp_map t2) ?k"
    for m peer_open'
  proof -
    have z: "wakeflag_at ?r m ?k = 0" "cursor_at m ?k = cursor_at (tp_map t) ?k"
      using m fl2 by (simp_all add: t2_def)
    define m' where "m' = wr64 m (wakeflag_addr ?r ?k) 0"
    have z': "wakeflag_at ?r m' ?k = 0" "cursor_at m' ?k = cursor_at (tp_map t) ?k"
      using m(1) assms(4) z by (simp_all add: m'_def header_wakeflag)
    let ?u = "t2\<lparr>tp_map := m\<rparr>"
    have "broadcast_wakeup peer_open' ?u = broadcast_from peer_open' (Suc 0) (t2\<lparr>tp_map := m'\<rparr>)"
      unfolding broadcast_wakeup_def using nowait [OF assms(3) z] t1 assms(3)
      by (subst broadcast_from_cases) (simp add: m'_def t2_def)
    also have "\<dots> = broadcast_from peer_open' (Suc (Suc 0)) (t2\<lparr>tp_map := wr64 m' (wakeflag_addr ?r ?k) 0\<rparr>)"
      using nowait [OF refl z'] t1 by (subst broadcast_from_cases) (simp add: t2_def)
    also have "\<dots> = t2\<lparr>tp_map := wr64 m' (wakeflag_addr ?r ?k) 0\<rparr>"
      using t1 by (subst broadcast_from_cases) (simp add: t2_def)
    finally show ?thesis
      by simp
  qed
  show ?thesis
    unfolding b Let_def using later t1 by (simp add: t2_def)
qed

subsection \<open>Publishing\<close>

lemma wal_stage_frame:
  assumes "wal_stage crc env n data t = (res, t')"
  shows "tp_map t' = tp_map t" "tp_signals t' = tp_signals t" "pb_published t' = pb_published t"
    "pb_clients t' = pb_clients t" "pb_ring t' = pb_ring t" "pb_policy t' = pb_policy t"
    "pb_full_rejected t' = pb_full_rejected t" "pb_wal t = None \<longleftrightarrow> pb_wal t' = None"
    "res = Inl Full \<Longrightarrow> t' = t"
    "res = Inr () \<Longrightarrow> pb_wal t \<noteq> None \<Longrightarrow> pb_policy t = ErrorPolicy \<Longrightarrow> \<not> is_full (pb_ring t) (tp_map t)"
  using assms by (auto simp: wal_stage_def split: option.splits if_splits prod.splits sum.splits)

lemma ring_stage_False:
  assumes "ring_stage data t = Some (False, t')"
  shows "t' = t" "pb_policy t = ErrorPolicy" "is_full (pb_ring t) (tp_map t)"
  using assms by (auto simp: ring_stage_def try_publish_full_iff publish_drop_oldest_def Let_def
      split: backpressure.splits if_splits option.splits)

text \<open>A publish that returns an error has not touched the ring, has woken nobody and has not
  counted the message; if the error is Full, the log is untouched too, so that no record is left behind
  that no subscriber will ever see in the ring.\<close>

theorem publish_error_no_effect:
  assumes "publish crc env data t = Some (Inl e, t')"
  shows "tp_map t' = tp_map t \<and> tp_signals t' = tp_signals t \<and> pb_published t' = pb_published t
    \<and> (e = Full \<longrightarrow> pb_wal t' = pb_wal t \<and> tp_disk t' = tp_disk t)"
proof -
  obtain res cs where acc: "accept_clients (en_accepts env) (pb_clients t) = (res, cs)"
    by (cases "accept_clients (en_accepts env) (pb_clients t)") auto
  have accErr: "accept_clients xs cs = (Inl Full, cs') \<Longrightarrow> False" for xs cs cs'
    by (induction xs cs rule: accept_clients.induct) auto
  show ?thesis
  proof (cases "unat (slot_payload_size (pb_ring t)) < length data \<or> (\<exists>e. res = Inl e)")
    case True
    then show ?thesis
      using assms acc accErr by (auto simp: publish_def split: if_splits sum.splits)
  next
    case False
    obtain res' t1 where w: "wal_stage crc env 0 data (t\<lparr>pb_clients := cs\<rparr>) = (res', t1)"
      by (cases "wal_stage crc env 0 data (t\<lparr>pb_clients := cs\<rparr>)") auto
    note F = wal_stage_frame [OF w]
    show ?thesis
    proof (cases res')
      case (Inl e')
      then show ?thesis
        using assms False acc w F by (auto simp: publish_def split: sum.splits)
    next
      case (Inr u)
      then obtain t2 where t2: "ring_stage data t1 = Some (False, t2)" "t' = t2\<lparr>pb_full_rejected := pb_full_rejected t2 + 1\<rparr>"
        using assms False acc w Inr by (auto simp: publish_def split: sum.splits option.splits prod.splits bool.splits)
      note R = ring_stage_False [OF t2(1)]
      have "pb_wal t = None"
      proof (rule ccontr)
        assume "pb_wal t \<noteq> None"
        then show False
          using F(1,5,6,10) R Inr by simp
      qed
      then have "t1 = t\<lparr>pb_clients := cs\<rparr>"
        using w by (simp add: wal_stage_def)
      then show ?thesis
        using t2(2) R(1) by simp
    qed
  qed
qed

subsection \<open>Ring and log in step\<close>

definition topic_rep :: "(bytes \<Rightarrow> u32) \<Rightarrow> topic \<Rightarrow> alog \<Rightarrow> segments \<Rightarrow> bool" where
  "topic_rep crc t a segs \<longleftrightarrow> ring_refines (pb_ring t) (tp_map t) a \<and> in_table t
     \<and> (case pb_wal t of None \<Rightarrow> segs = []
        | Some w \<Rightarrow> (\<exists>i j. wal_state crc (tp_disk t) w segs i j) \<and> wc_enabled (w_cfg w) \<and> \<not> w_poisoned w
            \<and> unat (w_pending w) = a_tail a \<and> (segs \<noteq> [] \<longrightarrow> a_next segs = a_tail a))"

definition publish_fits :: "topic \<Rightarrow> bytes \<Rightarrow> bool" where
  "publish_fits t data \<longleftrightarrow> length data \<le> unat (slot_payload_size (pb_ring t))
     \<and> (case pb_wal t of None \<Rightarrow> True
        | Some w \<Rightarrow> length data \<le> MAX_PAYLOAD_LEN
            \<and> SEGMENT_HEADER_LEN + RECORD_FRAMING + length data \<le> wc_segment_size_max (w_cfg w))"

text \<open>No handshake fails, and the cursor slots the handshakes name are in the table.\<close>

definition accepts_ok :: "ring \<Rightarrow> (io_error + client) list \<Rightarrow> bool" where
  "accepts_ok r accepts \<longleftrightarrow> list_all (\<lambda>x. case x of Inl _ \<Rightarrow> False | Inr c \<Rightarrow> cl_idx c < unat (max_subscribers r)) accepts"

lemma accept_all:
  "accepts_ok r accepts \<Longrightarrow> \<forall>c \<in> set cs. cl_idx c < unat (max_subscribers r) \<Longrightarrow>
    \<exists>cs'. accept_clients accepts cs = (Inr (), cs') \<and> (\<forall>c \<in> set cs'. cl_idx c < unat (max_subscribers r))"
  by (induction accepts cs rule: accept_clients.induct) (auto simp: accepts_ok_def)

text \<open>The record of a message in the log.\<close>

definition record_of :: "penv \<Rightarrow> nat \<Rightarrow> wal \<Rightarrow> nat \<Rightarrow> bytes \<Rightarrow> wal_record" where
  "record_of env n w k data = \<lparr>r_cursor = of_nat k, r_ts = current_ts w (en_elapsed env n), r_payload = data\<rparr>"

definition log_after :: "penv \<Rightarrow> nat \<Rightarrow> bytes \<Rightarrow> topic \<Rightarrow> alog \<Rightarrow> segments \<Rightarrow> segments" where
  "log_after env n data t a segs = (case pb_wal t of None \<Rightarrow> []
     | Some w \<Rightarrow> a_log_step (w_cfg w) (record_of env n w (a_tail a) data) segs)"

lemma wal_stage_full:
  assumes "topic_rep crc t a segs" "pb_policy t = ErrorPolicy" "a_full (ncap (pb_ring t)) a"
  shows "wal_stage crc env n data t = (if pb_wal t = None then Inr () else Inl Full, t)"
  using assms by (auto simp: wal_stage_def topic_rep_def is_full_refines split: option.splits)

lemma wal_stage_ok:
  assumes "topic_rep crc t a segs" "publish_fits t data" "a_tail a + 1 < 2 ^ 63"
    "pb_policy t = ErrorPolicy \<longrightarrow> \<not> a_full (ncap (pb_ring t)) a"
  obtains t' where "wal_stage crc env n data t = (Inr (), t')" "tp_map t' = tp_map t" "pb_ring t' = pb_ring t"
    "pb_policy t' = pb_policy t" "in_table t'"
    "case pb_wal t' of None \<Rightarrow> pb_wal t = None \<and> t' = t
       | Some w' \<Rightarrow> \<exists>w i j. pb_wal t = Some w \<and> wal_state crc (tp_disk t') w' (log_after env n data t a segs) i j
           \<and> w_cfg w' = w_cfg w \<and> \<not> w_poisoned w' \<and> unat (w_pending w') = a_tail a + 1
           \<and> log_after env n data t a segs \<noteq> []"
proof (cases "pb_wal t")
  case None
  then show ?thesis
    using that [of t] assms(1) by (simp add: wal_stage_def topic_rep_def)
next
  case (Some w)
  let ?r = "record_of env n w (a_tail a) data"
  have R: "ring_refines (pb_ring t) (tp_map t) a" "in_table t"
    using assms(1) by (auto simp: topic_rep_def)
  note D = ring_refinesD [OF R(1)]
  obtain i j where S: "wal_state crc (tp_disk t) w segs i j" "wc_enabled (w_cfg w)" "\<not> w_poisoned w"
    "segs \<noteq> [] \<longrightarrow> a_next segs = a_tail a"
    using assms(1) Some by (auto simp: topic_rep_def)
  have tail: "current_tail (tp_map t) = r_cursor ?r" "unat (r_cursor ?r) = a_tail a"
    using D(5,6) by (simp_all add: record_of_def unat_of_nat_small)
  have pre: "record_ok ?r" "SEGMENT_HEADER_LEN + record_encoded_len ?r \<le> wc_segment_size_max (w_cfg w)"
    "unat (r_cursor ?r) + 1 < 2 ^ 64" "segs \<noteq> [] \<longrightarrow> unat (r_cursor ?r) = a_next segs"
    using assms(2,3) Some S(4) tail(2) by (simp_all add: publish_fits_def record_ok_def record_of_def record_encoded_len_def)
  obtain w' d' i' j' where A:
    "wal_append crc (en_created env n) (r_cursor ?r) (r_ts ?r) (r_payload ?r) w (tp_disk t) = (Inr (), w', d')"
    "wal_state crc d' w' (a_log_step (w_cfg w) ?r segs) i' j'" "w_cfg w' = w_cfg w" "\<not> w_poisoned w'"
    "w_pending w' = r_cursor ?r + 1" "a_log_step (w_cfg w) ?r segs \<noteq> []"
    using append_state [OF S(1-3) pre(1,4,3,2), of "en_created env n"] by metis
  have pend: "unat (w_pending w') = a_tail a + 1"
    using A(5) pre(3) tail(2) unat_Suc_word [of "r_cursor ?r"] by simp
  have full: "\<not> (pb_policy t = ErrorPolicy \<and> is_full (pb_ring t) (tp_map t))"
    using assms(4) is_full_refines [OF R(1)] by simp
  have "wal_stage crc env n data t = (Inr (), t\<lparr>pb_wal := Some w', tp_disk := d'\<rparr>)"
    using Some A(1) full unfolding wal_stage_def tail(1) by (simp add: record_of_def)
  then show ?thesis
    using that [of "t\<lparr>pb_wal := Some w', tp_disk := d'\<rparr>"] A(2-4,6) pend R(2) Some
    by (auto simp: in_table_def log_after_def)
qed

lemma ring_stage_ok:
  assumes "ring_refines (pb_ring t) (tp_map t) a" "length data \<le> unat (slot_payload_size (pb_ring t))"
    "a_tail a + 1 < 2 ^ 63" "pb_policy t = ErrorPolicy \<longrightarrow> \<not> a_full (ncap (pb_ring t)) a"
  obtains m where "ring_stage data t = Some (True, t\<lparr>tp_map := m\<rparr>)"
    "ring_refines (pb_ring t) m (a\<lparr>a_msgs := a_msgs a @ [data]\<rparr>)"
proof -
  obtain m' where m': "write_slot (pb_ring t) (tp_map t) (current_tail (tp_map t)) data = Some m'"
    "ring_refines (pb_ring t) (set_tail m' (current_tail (tp_map t) + 1)) (a\<lparr>a_msgs := a_msgs a @ [data]\<rparr>)"
    using publish_refines [OF assms(1-3)] by blast
  then show ?thesis
    using that [of "set_tail m' (current_tail (tp_map t) + 1)"] assms(2,4) is_full_refines [OF assms(1)]
    by (cases "pb_policy t")
       (simp_all add: ring_stage_def try_publish_full_iff publish_drop_oldest_def Let_def)
qed

lemma ring_stage_full:
  assumes "ring_refines (pb_ring t) (tp_map t) a" "length data \<le> unat (slot_payload_size (pb_ring t))"
    "pb_policy t = ErrorPolicy" "a_full (ncap (pb_ring t)) a"
  shows "ring_stage data t = Some (False, t)"
  using assms is_full_refines [OF assms(1)] by (simp add: ring_stage_def try_publish_full_iff)

lemma broadcast_frame:
  assumes "ring_refines (pb_ring t) (tp_map t) a" "in_table t"
  shows "ring_refines (pb_ring t) (tp_map (broadcast_wakeup peer_open t)) a"
    "same_but_wakeups t (broadcast_wakeup peer_open t)"
  using broadcast_from_frame [of t a peer_open 0] assms by (auto simp: broadcast_wakeup_def)

lemma topic_rep_clients:
  "topic_rep crc t a segs \<Longrightarrow> \<forall>c \<in> set cs. cl_idx c < unat (max_subscribers (pb_ring t))
    \<Longrightarrow> topic_rep crc (t\<lparr>pb_clients := cs\<rparr>) a segs"
  by (auto simp: topic_rep_def in_table_def split: option.splits)

text \<open>One publish on a topic that represents a ring and a log: the branch and the state it leaves.\<close>

lemma publish_full:
  assumes "topic_rep crc t a segs" "publish_fits t data" "accepts_ok (pb_ring t) (en_accepts env)"
    "pb_policy t = ErrorPolicy" "a_full (ncap (pb_ring t)) a"
  shows "\<exists>t'. publish crc env data t = Some (Inl Full, t') \<and> topic_rep crc t' a segs
    \<and> pb_full_rejected t' = pb_full_rejected t + (if pb_wal t = None then 1 else 0)
    \<and> pb_published t' = pb_published t \<and> pb_ring t' = pb_ring t \<and> pb_policy t' = pb_policy t
    \<and> map_option w_cfg (pb_wal t') = map_option w_cfg (pb_wal t)"
proof -
  obtain cs where cs: "accept_clients (en_accepts env) (pb_clients t) = (Inr (), cs)"
    "\<forall>c \<in> set cs. cl_idx c < unat (max_subscribers (pb_ring t))"
    using accept_all [OF assms(3)] assms(1) by (force simp: topic_rep_def in_table_def)
  let ?t = "t\<lparr>pb_clients := cs\<rparr>"
  note rep = topic_rep_clients [OF assms(1) cs(2)]
  have "wal_stage crc env 0 data ?t = (if pb_wal t = None then Inr () else Inl Full, ?t)"
    using wal_stage_full [OF rep] assms(4,5) by simp
  moreover have "ring_stage data ?t = Some (False, ?t)"
    using ring_stage_full [of ?t a data] rep assms(2,4,5) by (simp add: topic_rep_def publish_fits_def)
  ultimately have "publish crc env data t = Some (Inl Full,
      if pb_wal t = None then ?t\<lparr>pb_full_rejected := pb_full_rejected t + 1\<rparr> else ?t)"
    using assms(2) cs(1) by (simp add: publish_def publish_fits_def)
  moreover have "topic_rep crc (?t\<lparr>pb_full_rejected := n\<rparr>) a segs" for n
    using rep by (auto simp: topic_rep_def in_table_def split: option.splits)
  ultimately show ?thesis
    using rep by auto
qed

lemma publish_ok:
  assumes "topic_rep crc t a segs" "publish_fits t data" "accepts_ok (pb_ring t) (en_accepts env)"
    "a_tail a + 1 < 2 ^ 63" "pb_policy t = ErrorPolicy \<longrightarrow> \<not> a_full (ncap (pb_ring t)) a"
  shows "\<exists>t'. publish crc env data t = Some (Inr (), t')
    \<and> topic_rep crc t' (a\<lparr>a_msgs := a_msgs a @ [data]\<rparr>) (log_after env 0 data t a segs)
    \<and> pb_full_rejected t' = pb_full_rejected t \<and> pb_published t' = pb_published t + 1
    \<and> pb_ring t' = pb_ring t \<and> pb_policy t' = pb_policy t
    \<and> map_option w_cfg (pb_wal t') = map_option w_cfg (pb_wal t)"
proof -
  obtain cs where cs: "accept_clients (en_accepts env) (pb_clients t) = (Inr (), cs)"
    "\<forall>c \<in> set cs. cl_idx c < unat (max_subscribers (pb_ring t))"
    using accept_all [OF assms(3)] assms(1) by (force simp: topic_rep_def in_table_def)
  let ?t = "t\<lparr>pb_clients := cs\<rparr>" and ?a = "a\<lparr>a_msgs := a_msgs a @ [data]\<rparr>"
    and ?L = "log_after env 0 data t a segs"
  have rep: "topic_rep crc ?t a segs" "publish_fits ?t data"
    using topic_rep_clients [OF assms(1) cs(2)] assms(2) by (simp_all add: publish_fits_def)
  have same_L: "log_after env 0 data ?t a segs = ?L"
    by (simp add: log_after_def)
  obtain t1 where w: "wal_stage crc env 0 data ?t = (Inr (), t1)" "tp_map t1 = tp_map ?t" "pb_ring t1 = pb_ring ?t"
    "pb_policy t1 = pb_policy ?t" "in_table t1"
    "case pb_wal t1 of None \<Rightarrow> pb_wal ?t = None \<and> t1 = ?t
       | Some w' \<Rightarrow> \<exists>w i j. pb_wal ?t = Some w \<and> wal_state crc (tp_disk t1) w' ?L i j
           \<and> w_cfg w' = w_cfg w \<and> \<not> w_poisoned w' \<and> unat (w_pending w') = a_tail a + 1 \<and> ?L \<noteq> []"
    using wal_stage_ok [OF rep assms(4), of env 0] assms(5) unfolding same_L by auto
  note F = wal_stage_frame [OF w(1)]
  have fit: "ring_refines (pb_ring t1) (tp_map t1) a" "length data \<le> unat (slot_payload_size (pb_ring t1))"
    "pb_policy t1 = ErrorPolicy \<longrightarrow> \<not> a_full (ncap (pb_ring t1)) a"
    using rep assms(5) w(2-4) by (simp_all add: topic_rep_def publish_fits_def)
  obtain m where m: "ring_stage data t1 = Some (True, t1\<lparr>tp_map := m\<rparr>)" "ring_refines (pb_ring t1) m ?a"
    using ring_stage_ok [OF fit(1,2) assms(4) fit(3)] by blast
  let ?u = "t1\<lparr>tp_map := m, pb_published := pb_published t1 + 1\<rparr>"
  let ?t' = "broadcast_wakeup (en_open env) ?u"
  have run: "publish crc env data t = Some (Inr (), ?t')"
    using assms(2) cs(1) w(1) m(1) by (simp add: publish_def publish_fits_def)
  have u: "ring_refines (pb_ring ?u) (tp_map ?u) ?a" "in_table ?u"
    using m(2) w(5) by (simp_all add: in_table_def)
  note B = broadcast_frame [OF u, of "en_open env"]
  have S: "pb_ring ?t' = pb_ring t" "pb_policy ?t' = pb_policy t" "pb_wal ?t' = pb_wal t1"
    "pb_published ?t' = pb_published t + 1" "pb_full_rejected ?t' = pb_full_rejected t" "tp_disk ?t' = tp_disk t1"
    using B(2) w(3,4) F(3,7) by (simp_all add: same_but_wakeups_def)
  have tail: "a_tail ?a = a_tail a + 1"
    by (simp add: a_tail_def)
  have "topic_rep crc ?t' ?a ?L"
  proof (cases "pb_wal t1")
    case None
    then show ?thesis
      using B(1) in_table_same [OF u(2) B(2)] S w(6) m(2) w(3) by (simp add: topic_rep_def log_after_def)
  next
    case (Some w')
    then obtain w0 i j where W: "pb_wal t = Some w0" "wal_state crc (tp_disk t1) w' ?L i j" "w_cfg w' = w_cfg w0"
      "\<not> w_poisoned w'" "unat (w_pending w') = a_tail a + 1" "?L \<noteq> []"
      using w(6) by auto
    moreover have "a_next ?L = a_tail a + 1"
      using W by (simp add: wal_state_def)
    moreover have "wc_enabled (w_cfg w0)"
      using rep(1) W(1) by (simp add: topic_rep_def)
    ultimately show ?thesis
      using B(1) in_table_same [OF u(2) B(2)] S Some tail w(3) by (auto simp: topic_rep_def)
  qed
  moreover have "map_option w_cfg (pb_wal ?t') = map_option w_cfg (pb_wal t)"
    using w(6) S(3) by (auto split: option.splits)
  ultimately show ?thesis
    using run S by blast
qed


subsection \<open>Runs of a topic\<close>

text \<open>The publisher publishes; subscribers receive, join and leave on the same map.\<close>

datatype topic_op = DoPublish penv bytes | DoRing ring_op

fun topic_step :: "(bytes \<Rightarrow> u32) \<Rightarrow> topic_op \<Rightarrow> topic \<Rightarrow> (bytes list \<times> topic) option" where
  "topic_step crc (DoPublish env data) t =
    map_option (\<lambda>(res, t'). (if res = Inr () then [data] else [], t')) (publish crc env data t)"
| "topic_step crc (DoRing op) t =
    map_option (\<lambda>(_, m). ([], t\<lparr>tp_map := m\<rparr>)) (ring_step (pb_ring t) op (tp_map t))"

text \<open>The messages accepted in a run, and the topic it ends in.\<close>

fun topic_run :: "(bytes \<Rightarrow> u32) \<Rightarrow> topic_op list \<Rightarrow> topic \<Rightarrow> (bytes list \<times> topic) option" where
  "topic_run crc [] t = Some ([], t)"
| "topic_run crc (op # ops) t = (case topic_step crc op t of
      None \<Rightarrow> None
    | Some (acc, t') \<Rightarrow> map_option (\<lambda>(acc', t''). (acc @ acc', t'')) (topic_run crc ops t'))"

text \<open>What the callers owe: messages that fit, handshakes that succeed, cursor slots in the table, and
  subscribers do not write messages.\<close>

fun topic_op_ok :: "topic \<Rightarrow> topic_op \<Rightarrow> bool" where
  "topic_op_ok t (DoPublish env data) \<longleftrightarrow> publish_fits t data \<and> accepts_ok (pb_ring t) (en_accepts env)"
| "topic_op_ok t (DoRing (Receive i)) \<longleftrightarrow> i < unat (max_subscribers (pb_ring t))"
| "topic_op_ok t (DoRing (Release i)) \<longleftrightarrow> i < unat (max_subscribers (pb_ring t))"
| "topic_op_ok t (DoRing Claim) \<longleftrightarrow> True"
| "topic_op_ok t (DoRing _) \<longleftrightarrow> False"

definition payloads :: "segments \<Rightarrow> bytes list" where
  "payloads segs = map r_payload (log_of segs)"

lemma payloads_after:
  assumes "pb_wal t = Some w"
  shows "suffix (payloads (log_after env n data t a segs)) (payloads segs @ [data])"
proof -
  let ?A = "a_append (wc_segment_size_max (w_cfg w)) (record_of env n w (a_tail a) data) segs"
  let ?R = "a_retain (wc_retention_bytes (w_cfg w)) ?A"
  obtain zs where "?A = zs @ ?R"
    using a_retain_suffix by (metis suffix_def)
  then have "log_of ?A = log_of zs @ log_of ?R"
    by (metis log_of_def concat_append map_append)
  then have "map r_payload (log_of segs @ [record_of env n w (a_tail a) data]) = map r_payload (log_of zs @ log_of ?R)"
    by (simp only: log_a_append)
  then have "payloads segs @ [data] = map r_payload (log_of zs) @ payloads ?R"
    by (simp only: payloads_def map_append list.map record_of_def wal_record.select_convs)
  moreover have "log_after env n data t a segs = ?R"
    using assms by (simp add: log_after_def a_log_step_def)
  ultimately show ?thesis
    by (simp only: suffixI)
qed

definition same_config :: "topic \<Rightarrow> topic \<Rightarrow> bool" where
  "same_config t t' \<longleftrightarrow> pb_ring t' = pb_ring t \<and> pb_policy t' = pb_policy t
     \<and> map_option w_cfg (pb_wal t') = map_option w_cfg (pb_wal t)"

lemma same_config_wal: "same_config t t' \<Longrightarrow> pb_wal t' = None \<longleftrightarrow> pb_wal t = None"
  unfolding same_config_def by (metis map_option_is_None)

lemma same_config_ok: "same_config t t' \<Longrightarrow> topic_op_ok t op \<Longrightarrow> topic_op_ok t' op"
  by (cases "(t, op)" rule: topic_op_ok.cases)
     (auto simp: same_config_def publish_fits_def split: option.splits)

lemma topic_step_agrees:
  assumes "topic_rep crc t a segs" "topic_op_ok t op" "a_tail a + 1 < 2 ^ 63"
    "pb_wal t \<noteq> None \<longrightarrow> suffix (payloads segs) (old @ a_msgs a)"
  shows "\<exists>acc t' a' segs'. topic_step crc op t = Some (acc, t') \<and> topic_rep crc t' a' segs'
    \<and> a_msgs a' = a_msgs a @ acc \<and> a_base a' = a_base a \<and> same_config t t' \<and> length acc \<le> 1
    \<and> (pb_wal t' \<noteq> None \<longrightarrow> suffix (payloads segs') (old @ a_msgs a'))"
proof (cases op)
  case (DoPublish env data)
  then have ok: "publish_fits t data" "accepts_ok (pb_ring t) (en_accepts env)"
    using assms(2) by simp_all
  show ?thesis
  proof (cases "pb_policy t = ErrorPolicy \<and> a_full (ncap (pb_ring t)) a")
    case True
    then obtain t' where t': "publish crc env data t = Some (Inl Full, t')" "topic_rep crc t' a segs"
      "same_config t t'"
      using publish_full [OF assms(1) ok] unfolding same_config_def by metis
    moreover have "pb_wal t' \<noteq> None \<longrightarrow> pb_wal t \<noteq> None"
      using same_config_wal [OF t'(3)] by simp
    ultimately show ?thesis
      using DoPublish assms(4) by (intro exI [of _ "[]"] exI [of _ t'] exI [of _ a] exI [of _ segs]) simp
  next
    case False
    let ?a = "a\<lparr>a_msgs := a_msgs a @ [data]\<rparr>" and ?L = "log_after env 0 data t a segs"
    obtain t' where t': "publish crc env data t = Some (Inr (), t')" "topic_rep crc t' ?a ?L" "same_config t t'"
      using publish_ok [OF assms(1) ok assms(3)] False unfolding same_config_def by metis
    have "suffix (payloads ?L) (old @ a_msgs ?a)" if w: "pb_wal t' \<noteq> None"
    proof -
      obtain w where w: "pb_wal t = Some w"
        using same_config_wal [OF t'(3)] w by auto
      have "suffix (payloads segs @ [data]) ((old @ a_msgs a) @ [data])"
        using assms(4) w by (simp only: suffix_append) simp
      from suffix_order.trans [OF payloads_after [OF w] this] show ?thesis
        by simp
    qed
    then show ?thesis
      using DoPublish t' by (intro exI [of _ "[data]"] exI [of _ t'] exI [of _ ?a] exI [of _ ?L]) simp
  qed
next
  case (DoRing rop)
  have R: "ring_refines (pb_ring t) (tp_map t) a"
    using assms(1) by (simp add: topic_rep_def)
  have ok: "a_ok (pb_ring t) rop a"
    using assms(2) DoRing by (cases rop) simp_all
  have msgs: "a_msgs (snd (a_step n rop a)) = a_msgs a \<and> a_base (snd (a_step n rop a)) = a_base a" for n
    using assms(2) DoRing by (cases rop) (auto simp: Let_def split: option.splits)
  let ?a = "snd (a_step (ncap (pb_ring t)) rop a)"
  obtain m' where m': "ring_step (pb_ring t) rop (tp_map t) = Some (fst (a_step (ncap (pb_ring t)) rop a), m')"
    "ring_refines (pb_ring t) m' ?a"
    using ring_step_sim [OF R ok] by blast
  have "a_tail ?a = a_tail a"
    using msgs by (simp add: a_tail_def)
  then have "topic_rep crc (t\<lparr>tp_map := m'\<rparr>) ?a segs"
    using assms(1) m'(2) by (auto simp: topic_rep_def in_table_def split: option.splits)
  then show ?thesis
    using DoRing m'(1) msgs assms(4)
    by (intro exI [of _ "[]"] exI [of _ "t\<lparr>tp_map := m'\<rparr>"] exI [of _ ?a] exI [of _ segs]) (simp add: same_config_def)
qed


subsection \<open>Where publishing stops\<close>

lemma publish_wal_error:
  assumes "accepts_ok (pb_ring t) (en_accepts env)" "in_table t" "length data \<le> unat (slot_payload_size (pb_ring t))"
    "pb_wal t = Some w" "\<not> (pb_policy t = ErrorPolicy \<and> is_full (pb_ring t) (tp_map t))"
    "\<And>created ts. wal_append crc created (current_tail (tp_map t)) ts data w (tp_disk t) = (Inl e, w' , d')"
  shows "\<exists>cs. publish crc env data t = Some (Inl (BusWal e), t\<lparr>pb_clients := cs, pb_wal := Some w', tp_disk := d'\<rparr>)
    \<and> (\<forall>c \<in> set cs. cl_idx c < unat (max_subscribers (pb_ring t)))"
proof -
  obtain cs where cs: "accept_clients (en_accepts env) (pb_clients t) = (Inr (), cs)"
    "\<forall>c \<in> set cs. cl_idx c < unat (max_subscribers (pb_ring t))"
    using accept_all [OF assms(1)] assms(2) by (force simp: in_table_def)
  have "wal_stage crc env 0 data (t\<lparr>pb_clients := cs\<rparr>)
      = (Inl (BusWal e), t\<lparr>pb_clients := cs, pb_wal := Some w', tp_disk := d'\<rparr>)"
    using assms(4-6) by (simp add: wal_stage_def)
  then show ?thesis
    using assms(3) cs by (intro exI [of _ cs]) (simp add: publish_def)
qed

lemma append_sync_fails:
  assumes "wc_enabled (w_cfg w)" "wc_fsync_policy (w_cfg w) = Each" "\<not> w_poisoned w" "wi_writer w = Some sw"
    "length data \<le> MAX_PAYLOAD_LEN" "\<not> d_up d"
    "wi_active_bytes w + (RECORD_FRAMING + length data) \<le> wc_segment_size_max (w_cfg w)"
    "length (sw_buf sw) + RECORD_FRAMING + length data < BUF_CAPACITY"
  shows "\<exists>sw' w'. wal_append crc created (sw_pending sw) ts data w d = (Inl (WalWriter (WriterIo IoDevice)), w', d)
    \<and> wi_writer w' = Some sw' \<and> sw_pending sw' = sw_pending sw + 1
    \<and> wi_active_bytes w' = sw_bytes sw + RECORD_FRAMING + length data \<and> w_cfg w' = w_cfg w \<and> \<not> w_poisoned w'"
proof -
  let ?bs = "encode_record_into crc [] (sw_pending sw) ts data"
  have len: "length ?bs = RECORD_FRAMING + length data"
    using length_encode_record [of crc "\<lparr>r_cursor = sw_pending sw, r_ts = ts, r_payload = data\<rparr>"]
    by (simp add: encode_record_def wal_consts)
  then have ne: "?bs \<noteq> []"
    by (auto simp: wal_consts)
  let ?sw1 = "sw\<lparr>sw_buf := sw_buf sw @ ?bs, sw_bytes := sw_bytes sw + length ?bs, sw_pending := sw_pending sw + 1\<rparr>"
  have "length ?bs < BUF_CAPACITY - length (sw_buf sw)"
    using assms(8) len by simp
  then have "buf_write_all ?bs sw d = (Inr (), sw\<lparr>sw_buf := sw_buf sw @ ?bs\<rparr>, d)"
    by (simp add: buf_write_all_def Let_def)
  then have a: "seg_append crc sw (sw_pending sw) ts data d = (Inr (), ?sw1, d)"
    using assms(5) by (simp add: seg_append_def Let_def)
  have f: "seg_fsync ?sw1 d = (Inl (WriterIo IoDevice), ?sw1, d)"
    using assms(6) ne by (simp add: seg_fsync_def buf_flush_def write_file_def)
  show ?thesis
    using assms a f len
    by (simp add: wal_append_def ensure_writer_def rotate_if_full_def append_active_def sync_if_each_def
        wal_fsync_def Let_def)
qed

lemma append_regressed:
  assumes "wc_enabled (w_cfg w)" "\<not> w_poisoned w" "wi_writer w = Some sw" "length data \<le> MAX_PAYLOAD_LEN"
    "wi_active_bytes w + (RECORD_FRAMING + length data) \<le> wc_segment_size_max (w_cfg w)" "c \<noteq> sw_pending sw"
  shows "wal_append crc created c ts data w d = (Inl (WalWriter (CursorRegressed c (sw_pending sw))), w, d)"
  using assms by (simp add: wal_append_def ensure_writer_def rotate_if_full_def append_active_def seg_append_def
      Let_def)

text \<open>A publish whose sync fails cannot be retried. Under the Each policy the record is in the log's
  buffer when the sync fails; the publish returns an error and the ring does not take the message. The
  log counts the record all the same, so that every later publish, of the same or another message and on
  a disk that works again, is refused with CursorRegressed, until the segment is full.\<close>

theorem failed_sync_blocks_retry:
  assumes "pb_wal t = Some w" "wc_enabled (w_cfg w)" "wc_fsync_policy (w_cfg w) = Each" "\<not> w_poisoned w"
    "wi_writer w = Some sw" "sw_pending sw = current_tail (tp_map t)" "wi_active_bytes w = sw_bytes sw"
    "in_table t" "accepts_ok (pb_ring t) (en_accepts env)" "\<not> d_up (tp_disk t)"
    "\<not> (pb_policy t = ErrorPolicy \<and> is_full (pb_ring t) (tp_map t))"
    "publish_fits t data" "sw_bytes sw + RECORD_FRAMING + length data \<le> wc_segment_size_max (w_cfg w)"
    "length (sw_buf sw) + RECORD_FRAMING + length data < BUF_CAPACITY"
  shows "\<exists>t'. publish crc env data t = Some (Inl (BusWal (WalWriter (WriterIo IoDevice))), t')
    \<and> tp_map t' = tp_map t
    \<and> (\<forall>d env' data'. accepts_ok (pb_ring t) (en_accepts env') \<and> publish_fits t data'
        \<and> sw_bytes sw + 2 * RECORD_FRAMING + length data + length data' \<le> wc_segment_size_max (w_cfg w) \<longrightarrow>
        (\<exists>t''. publish crc env' data' (t'\<lparr>tp_disk := d\<rparr>) = Some (Inl (BusWal (WalWriter
             (CursorRegressed (current_tail (tp_map t)) (current_tail (tp_map t) + 1)))), t'')))"
proof -
  have len: "length data \<le> unat (slot_payload_size (pb_ring t))" "length data \<le> MAX_PAYLOAD_LEN"
    using assms(1,12) by (simp_all add: publish_fits_def)
  obtain cs where cs: "accept_clients (en_accepts env) (pb_clients t) = (Inr (), cs)"
    "\<forall>c \<in> set cs. cl_idx c < unat (max_subscribers (pb_ring t))"
    using accept_all [OF assms(9)] assms(8) by (force simp: in_table_def)
  have "wi_active_bytes w + (RECORD_FRAMING + length data) \<le> wc_segment_size_max (w_cfg w)"
    using assms(7,13) by simp
  note fails = append_sync_fails [OF assms(2-5) len(2) assms(10) this assms(14), of crc]
  obtain sw' w' where A: "wal_append crc (en_created env 0) (sw_pending sw) (current_ts w (en_elapsed env 0)) data w (tp_disk t)
      = (Inl (WalWriter (WriterIo IoDevice)), w', tp_disk t)"
    "wi_writer w' = Some sw'" "sw_pending sw' = sw_pending sw + 1"
    "wi_active_bytes w' = sw_bytes sw + RECORD_FRAMING + length data" "w_cfg w' = w_cfg w" "\<not> w_poisoned w'"
    using fails by metis
  let ?t' = "t\<lparr>pb_clients := cs, pb_wal := Some w'\<rparr>"
  have "publish crc env data t = Some (Inl (BusWal (WalWriter (WriterIo IoDevice))), ?t')"
    using assms(1,6,11) A(1) len(1) cs(1) by (simp add: publish_def wal_stage_def)
  moreover have "\<exists>t''. publish crc env' data' (?t'\<lparr>tp_disk := d\<rparr>) = Some (Inl (BusWal (WalWriter
      (CursorRegressed (current_tail (tp_map t)) (current_tail (tp_map t) + 1)))), t'')"
    if p: "accepts_ok (pb_ring t) (en_accepts env')" "publish_fits t data'"
      "sw_bytes sw + 2 * RECORD_FRAMING + length data + length data' \<le> wc_segment_size_max (w_cfg w)" for d env' data'
  proof -
    have len': "length data' \<le> unat (slot_payload_size (pb_ring t))" "length data' \<le> MAX_PAYLOAD_LEN"
      using assms(1) p(2) by (simp_all add: publish_fits_def)
    let ?u = "?t'\<lparr>tp_disk := d\<rparr>"
    have "wal_append crc created (current_tail (tp_map ?u)) ts data' w' (tp_disk ?u) =
        (Inl (WalWriter (CursorRegressed (current_tail (tp_map t)) (current_tail (tp_map t) + 1))), w', tp_disk ?u)"
      for created ts
      using append_regressed [of w' sw' data' "current_tail (tp_map t)" crc created ts d] A(2-6) assms(2,6) len'(2) p(3)
      by simp
    note err = publish_wal_error [of ?u env' data' w', OF _ _ _ _ _ this]
    have "accepts_ok (pb_ring ?u) (en_accepts env')" "in_table ?u" "length data' \<le> unat (slot_payload_size (pb_ring ?u))"
      "pb_wal ?u = Some w'" "\<not> (pb_policy ?u = ErrorPolicy \<and> is_full (pb_ring ?u) (tp_map ?u))"
      using p(1) cs(2) len'(1) assms(11) by (simp_all add: in_table_def)
    from err [OF this] show ?thesis
      by blast
  qed
  ultimately show ?thesis
    by (intro exI [of _ ?t']) simp
qed

subsection \<open>Batches\<close>

lemma publish_fits_config: "same_config t t' \<Longrightarrow> publish_fits t' data = publish_fits t data"
  by (auto simp: same_config_def publish_fits_def split: option.splits)

lemma same_config_trans: "same_config t t' \<Longrightarrow> same_config t' t'' \<Longrightarrow> same_config t t''"
  by (simp add: same_config_def)

lemma publish_loop_ok:
  assumes "topic_rep crc t a segs" "list_all (publish_fits t) items" "a_tail a + length items < 2 ^ 63"
  shows "\<exists>k t' segs'. publish_loop crc env n items t = Some (None, n + k, t') \<and> k \<le> length items
    \<and> topic_rep crc t' (a\<lparr>a_msgs := a_msgs a @ take k items\<rparr>) segs' \<and> same_config t t'
    \<and> pb_published t' = pb_published t \<and> pb_clients t' = pb_clients t
    \<and> (k < length items \<longrightarrow> pb_policy t = ErrorPolicy
         \<and> a_full (ncap (pb_ring t)) (a\<lparr>a_msgs := a_msgs a @ take k items\<rparr>))"
  using assms
proof (induction items arbitrary: t a segs n)
  case Nil
  then show ?case
    by (intro exI [of _ 0] exI [of _ t] exI [of _ segs]) (simp add: same_config_def)
next
  case (Cons data items)
  have fits: "publish_fits t data" "length data \<le> unat (slot_payload_size (pb_ring t))" "a_tail a + 1 < 2 ^ 63"
    using Cons.prems by (auto simp: publish_fits_def)
  have R: "ring_refines (pb_ring t) (tp_map t) a"
    using Cons.prems(1) by (simp add: topic_rep_def)
  show ?case
  proof (cases "pb_policy t = ErrorPolicy \<and> a_full (ncap (pb_ring t)) a")
    case True
    have w: "wal_stage crc env n data t = (if pb_wal t = None then Inr () else Inl Full, t)"
      using wal_stage_full [OF Cons.prems(1)] True by blast
    have r: "ring_stage data t = Some (False, t)"
      using ring_stage_full [OF R fits(2)] True by blast
    have "publish_loop crc env n (data # items) t = Some (None, n, t)"
      using fits(2) w r by (cases "pb_wal t = None") simp_all
    then show ?thesis
      using Cons.prems(1) True by (intro exI [of _ 0] exI [of _ t] exI [of _ segs]) (simp add: same_config_def)
  next
    case False
    let ?a = "a\<lparr>a_msgs := a_msgs a @ [data]\<rparr>" and ?L = "log_after env n data t a segs"
    have nf: "pb_policy t = ErrorPolicy \<longrightarrow> \<not> a_full (ncap (pb_ring t)) a"
      using False by blast
    obtain t1 where w: "wal_stage crc env n data t = (Inr (), t1)" "tp_map t1 = tp_map t" "pb_ring t1 = pb_ring t"
      "pb_policy t1 = pb_policy t" "in_table t1"
      "case pb_wal t1 of None \<Rightarrow> pb_wal t = None \<and> t1 = t
         | Some w' \<Rightarrow> \<exists>w i j. pb_wal t = Some w \<and> wal_state crc (tp_disk t1) w' ?L i j
             \<and> w_cfg w' = w_cfg w \<and> \<not> w_poisoned w' \<and> unat (w_pending w') = a_tail a + 1 \<and> ?L \<noteq> []"
      using wal_stage_ok [OF Cons.prems(1) fits(1,3) nf, of env n] by blast
    note F = wal_stage_frame [OF w(1)]
    obtain m where m: "ring_stage data t1 = Some (True, t1\<lparr>tp_map := m\<rparr>)" "ring_refines (pb_ring t1) m ?a"
      using ring_stage_ok [of t1 a data] R fits nf w(2-4) by auto
    let ?u = "t1\<lparr>tp_map := m\<rparr>"
    have tail: "a_tail ?a = a_tail a + 1"
      by (simp add: a_tail_def)
    have cfg: "same_config t ?u"
      using w(3,4,6) by (auto simp: same_config_def split: option.splits)
    have rep: "topic_rep crc ?u ?a ?L"
    proof (cases "pb_wal t1")
      case None
      then show ?thesis
        using m(2) w(5,6) by (simp add: topic_rep_def log_after_def in_table_def)
    next
      case (Some w')
      then obtain w0 i j where W: "pb_wal t = Some w0" "wal_state crc (tp_disk t1) w' ?L i j" "w_cfg w' = w_cfg w0"
        "\<not> w_poisoned w'" "unat (w_pending w') = a_tail a + 1" "?L \<noteq> []"
        using w(6) by auto
      moreover have "a_next ?L = a_tail a + 1"
        using W by (simp add: wal_state_def)
      moreover have "wc_enabled (w_cfg w0)"
        using Cons.prems(1) W(1) by (simp add: topic_rep_def)
      ultimately show ?thesis
        using m(2) w(5) Some tail by (auto simp: topic_rep_def in_table_def)
    qed
    have all: "list_all (publish_fits ?u) items" "a_tail ?a + length items < 2 ^ 63"
      using Cons.prems(2,3) publish_fits_config [OF cfg] tail by (simp_all add: list_all_iff)
    obtain k t' segs' where IH: "publish_loop crc env (n + 1) items ?u = Some (None, n + 1 + k, t')"
      "k \<le> length items" "topic_rep crc t' (?a\<lparr>a_msgs := a_msgs ?a @ take k items\<rparr>) segs'" "same_config ?u t'"
      "pb_published t' = pb_published ?u" "pb_clients t' = pb_clients ?u"
      "k < length items \<longrightarrow> pb_policy ?u = ErrorPolicy
         \<and> a_full (ncap (pb_ring ?u)) (?a\<lparr>a_msgs := a_msgs ?a @ take k items\<rparr>)"
      using Cons.IH [OF rep all, of "n + 1"] by blast
    have "publish_loop crc env n (data # items) t = Some (None, n + Suc k, t')"
      using fits(2) w(1) m(1) IH(1) by simp
    then show ?thesis
      using IH F(3,4) w(3,4) same_config_trans [OF cfg IH(4)]
      by (intro exI [of _ "Suc k"] exI [of _ t'] exI [of _ segs']) simp
  qed
qed

text \<open>A batch. \<open>publish_many\<close> writes a prefix of the batch, in order, to the log and the ring, and
  returns its length; it stops before the end only under the Error policy, when the ring is full, and
  under DropOldest it writes everything.\<close>

theorem publish_many_prefix:
  assumes "topic_rep crc t a segs" "list_all (publish_fits t) items" "a_tail a + length items < 2 ^ 63"
    "accepts_ok (pb_ring t) (en_accepts env)"
  shows "\<exists>k t' segs'. publish_many crc env items t = Some (Inr k, t') \<and> k \<le> length items
    \<and> topic_rep crc t' (a\<lparr>a_msgs := a_msgs a @ take k items\<rparr>) segs' \<and> pb_published t' = pb_published t + k
    \<and> (k < length items \<longrightarrow> pb_policy t = ErrorPolicy
         \<and> a_full (ncap (pb_ring t)) (a\<lparr>a_msgs := a_msgs a @ take k items\<rparr>))"
proof -
  obtain cs where cs: "accept_clients (en_accepts env) (pb_clients t) = (Inr (), cs)"
    "\<forall>c \<in> set cs. cl_idx c < unat (max_subscribers (pb_ring t))"
    using accept_all [OF assms(4)] assms(1) by (force simp: topic_rep_def in_table_def)
  let ?t = "t\<lparr>pb_clients := cs\<rparr>"
  have fits: "list_all (publish_fits ?t) items"
    using assms(2) by (simp add: list_all_iff publish_fits_def)
  obtain k t1 segs' where L: "publish_loop crc env 0 items ?t = Some (None, k, t1)" "k \<le> length items"
    "topic_rep crc t1 (a\<lparr>a_msgs := a_msgs a @ take k items\<rparr>) segs'" "pb_published t1 = pb_published t"
    "k < length items \<longrightarrow> pb_policy t = ErrorPolicy
         \<and> a_full (ncap (pb_ring t)) (a\<lparr>a_msgs := a_msgs a @ take k items\<rparr>)"
    using publish_loop_ok [OF topic_rep_clients [OF assms(1) cs(2)] fits assms(3), of env 0] by auto
  let ?u = "t1\<lparr>pb_published := pb_published t1 + k\<rparr>"
  let ?t' = "if k > 0 then broadcast_wakeup (en_open env) ?u else t1"
  have "ring_refines (pb_ring ?u) (tp_map ?u) (a\<lparr>a_msgs := a_msgs a @ take k items\<rparr>)" "in_table ?u"
    using L(3) by (simp_all add: topic_rep_def in_table_def)
  note B = broadcast_frame [OF this, of "en_open env"]
  have "topic_rep crc (broadcast_wakeup (en_open env) ?u) (a\<lparr>a_msgs := a_msgs a @ take k items\<rparr>) segs'"
    using B(1) in_table_same [OF _ B(2)] B(2) L(3)
    by (auto simp: topic_rep_def same_but_wakeups_def in_table_def split: option.splits)
  moreover have "pb_published (broadcast_wakeup (en_open env) ?u) = pb_published t + k"
    using B(2) L(4) by (simp add: same_but_wakeups_def)
  moreover have "publish_many crc env items t = Some (Inr k, ?t')"
    using cs(1) L(1) by (simp add: publish_many_def)
  ultimately have "topic_rep crc ?t' (a\<lparr>a_msgs := a_msgs a @ take k items\<rparr>) segs'" "pb_published ?t' = pb_published t + k"
    "publish_many crc env items t = Some (Inr k, ?t')"
    using L(3,4) by (cases "0 < k"; simp only: if_True if_False; simp)+
  then show ?thesis
    using L(2,5) by blast
qed

lemma publish_loop_counters:
  "publish_loop crc env n items t = Some (res, k, t') \<Longrightarrow> pb_published t' = pb_published t"
proof (induction crc env n items t rule: publish_loop.induct)
  case (2 crc env n data items t)
  obtain r t1 where w: "wal_stage crc env n data t = (r, t1)"
    by (cases "wal_stage crc env n data t") auto
  note F = wal_stage_frame(3) [OF w]
  show ?case
  proof (cases "length data > unat (slot_payload_size (pb_ring t))")
    case True
    then show ?thesis
      using "2.prems" by simp
  next
    case small: False
    show ?thesis
    proof (cases r)
      case (Inl e)
      then show ?thesis
        using "2.prems" small w F by simp
    next
      case (Inr u)
      then obtain b t2 where t2: "ring_stage data t1 = Some (b, t2)"
        using "2.prems" small w by (cases "ring_stage data t1") auto
      then have "pb_published t2 = pb_published t"
        using F by (auto simp: ring_stage_def split: backpressure.splits)
      then show ?thesis
        using "2.prems" "2.IH" [OF small w [symmetric] Inr t2 refl] small w Inr t2 by (cases b) simp_all
    qed
  qed
qed simp

text \<open>The messages of a batch that ends with an error are not counted.\<close>

lemma publish_many_error_uncounted:
  assumes "publish_many crc env items t = Some (Inl e, t')"
  shows "pb_published t' = pb_published t"
proof -
  have "pb_published (broadcast_from p i u) = pb_published u" for p i u
    by (rule broadcast_from_induct [where P = "\<lambda>i u u'. pb_published u' = pb_published u"])
       (simp_all add: drop_client_def send_wakeup_def)
  then have b: "pb_published (broadcast_wakeup p u) = pb_published u" for p u
    by (simp add: broadcast_wakeup_def)
  show ?thesis
    using assms by (auto simp: publish_many_def b split: sum.splits prod.splits option.splits
        dest!: publish_loop_counters)
qed

subsection \<open>A concrete topic for the witnesses\<close>

definition demo_topic :: topic where
  "demo_topic = \<lparr>pb_ring = ring_handle 4 16 2, pb_clients = [], pb_policy = ErrorPolicy,
     pb_wal = Some demo_wal, pb_published = 0, pb_full_rejected = 0, pb_dropped = 0, pb_wakeups = 0,
     tp_map = demo_map, tp_disk = demo_empty, tp_signals = []\<rparr>"

definition demo_penv :: penv where
  "demo_penv = \<lparr>en_accepts = [], en_open = (\<lambda>_. True), en_created = (\<lambda>_. 9), en_elapsed = (\<lambda>_. 4)\<rparr>"

lemma demo_topic_rep: "topic_rep crc demo_topic (fresh_log (ring_handle 4 16 2)) []"
  using demo_map_refines demo_state [of crc] demo_ops_fit(3-5)
  by (auto simp: topic_rep_def demo_topic_def in_table_def demo_fresh a_tail_def demo_wal_def)

lemma demo_topic_fits: "length data \<le> 16 \<Longrightarrow> publish_fits demo_topic data"
  by (simp add: publish_fits_def demo_topic_def demo_wal_def demo_cfg_def wal_consts)

lemma demo_accepts: "accepts_ok r (en_accepts demo_penv)"
  by (simp add: accepts_ok_def demo_penv_def)

text \<open>Two clients for cursor slot 0, whose subscriber waits.\<close>

definition demo_sleeper :: "client list \<Rightarrow> topic" where
  "demo_sleeper cs = demo_topic\<lparr>pb_clients := cs, tp_map := set_wakeflag (ring_handle 4 16 2) demo_joined 0\<rparr>"

lemma demo_sleeper_waits:
  "mapped (pb_ring (demo_sleeper cs)) (tp_map (demo_sleeper cs))"
  "waits (pb_ring (demo_sleeper cs)) (tp_map (demo_sleeper cs)) \<lparr>cl_idx = 0, cl_chan = k\<rparr>"
proof -
  let ?r = "ring_handle 4 16 2"
  note D = ring_refinesD(2,7,8) [OF demo_joined_refines]
  have "cursor_at demo_joined 0 = 0"
    using D(3) [of 0] by (simp add: demo_log_def cursor_rel_def)
  then show "mapped (pb_ring (demo_sleeper cs)) (tp_map (demo_sleeper cs))"
    "waits (pb_ring (demo_sleeper cs)) (tp_map (demo_sleeper cs)) \<lparr>cl_idx = 0, cl_chan = k\<rparr>"
    using D(1) by (simp_all add: demo_sleeper_def demo_topic_def set_wakeflag_def mapped_low_writes waits_def
        gone_def cursor_is_unclaimed_def header_wakeflag CURSOR_UNCLAIMED_def)
qed

theorem broadcast_wakes_waiting_witness:
  "let t' = broadcast_wakeup (\<lambda>_. True) (demo_sleeper [\<lparr>cl_idx = 0, cl_chan = 5\<rparr>]) in
     tp_signals t' = [5] \<and> pb_clients t' = [\<lparr>cl_idx = 0, cl_chan = 5\<rparr>] \<and> pb_wakeups t' = 1"
proof -
  let ?t = "demo_sleeper [\<lparr>cl_idx = 0, cl_chan = 5\<rparr>]"
  have "in_table ?t" "distinct (map cl_idx (pb_clients ?t))"
    by (simp_all add: demo_sleeper_def demo_topic_def in_table_def)
  note B = broadcast_wakes_waiting [OF demo_sleeper_waits(1) this, where peer_open = "\<lambda>_. True"]
  have s: "waits (pb_ring ?t) (tp_map ?t) \<lparr>cl_idx = 0, cl_chan = 5\<rparr>"
    by (rule demo_sleeper_waits)
  then have "stays (pb_ring ?t) (tp_map ?t) (\<lambda>_. True) \<lparr>cl_idx = 0, cl_chan = 5\<rparr>"
    by (simp add: stays_def waits_def)
  then show ?thesis
    using B s by (simp add: Let_def demo_sleeper_def demo_topic_def)
qed

theorem stale_client_steals_wakeup_witness:
  "tp_signals (broadcast_wakeup (\<lambda>_. True) (demo_sleeper [\<lparr>cl_idx = 0, cl_chan = 5\<rparr>, \<lparr>cl_idx = 0, cl_chan = 6\<rparr>])) = [5]"
proof -
  let ?t = "demo_sleeper [\<lparr>cl_idx = 0, cl_chan = 5\<rparr>, \<lparr>cl_idx = 0, cl_chan = 6\<rparr>]"
  have "pb_clients ?t = [\<lparr>cl_idx = 0, cl_chan = 5\<rparr>, \<lparr>cl_idx = 0, cl_chan = 6\<rparr>]" "pb_ring ?t = ring_handle 4 16 2"
    "tp_signals ?t = []"
    by (simp_all add: demo_sleeper_def demo_topic_def)
  then show ?thesis
    using stale_client_steals_wakeup [OF demo_sleeper_waits(1), of _ "\<lparr>cl_idx = 0, cl_chan = 5\<rparr>" "\<lparr>cl_idx = 0, cl_chan = 6\<rparr>" "\<lambda>_. True"]
      demo_sleeper_waits(2) by (simp add: Let_def)
qed

definition demo_full :: bytes where
  "demo_full = snd (the (run_steps (ring_step (ring_handle 4 16 2)) (map (\<lambda>b. Publish [b]) [1, 2, 3, 4]) demo_joined))"

lemma demo_full_refines:
  "ring_refines (ring_handle 4 16 2) demo_full \<lparr>a_base = 0, a_msgs = [[1], [2], [3], [4]], a_cursors = [Some 0, None]\<rparr>"
proof -
  let ?r = "ring_handle 4 16 2" and ?ops = "map (\<lambda>b. Publish [b]) [1, 2, 3, 4]"
  have "run_ok (a_ok ?r) (a_step (ncap ?r)) ?ops demo_log"
    by (simp add: demo_log_def a_tail_def a_full_def ncap_def)
  moreover have "snd (run_abs (a_step (ncap ?r)) ?ops demo_log)
      = \<lparr>a_base = 0, a_msgs = [[1], [2], [3], [4]], a_cursors = [Some 0, None]\<rparr>"
    by (simp add: demo_log_def a_tail_def a_full_def ncap_def)
  moreover note ring_sim.run_sim [OF demo_joined_refines, of ?ops]
  ultimately show ?thesis
    unfolding demo_full_def by (metis option.sel snd_conv)
qed

theorem publish_error_no_effect_witness:
  "\<exists>t'. publish demo_crc demo_penv [7] (demo_topic\<lparr>pb_wal := None, tp_map := demo_full\<rparr>) = Some (Inl Full, t')
    \<and> tp_map t' = demo_full \<and> tp_signals t' = [] \<and> tp_disk t' = demo_empty"
proof -
  let ?t = "demo_topic\<lparr>pb_wal := None, tp_map := demo_full\<rparr>"
  have "topic_rep demo_crc ?t \<lparr>a_base = 0, a_msgs = [[1], [2], [3], [4]], a_cursors = [Some 0, None]\<rparr> []"
    using demo_full_refines by (simp add: topic_rep_def demo_topic_def in_table_def)
  from publish_full [OF this, of "[7]" demo_penv] obtain t' where
    t': "publish demo_crc demo_penv [7] ?t = Some (Inl Full, t')"
    using demo_accepts by (auto simp: publish_fits_def demo_topic_def a_full_def a_tail_def ncap_def)
  from publish_error_no_effect [OF this] show ?thesis
    using t' by (simp add: demo_topic_def)
qed



theorem publish_many_prefix_witness:
  "\<exists>k t' segs'. publish_many demo_crc demo_penv [[7], [8]] demo_topic = Some (Inr k, t') \<and> k \<le> 2
    \<and> topic_rep demo_crc t' \<lparr>a_base = 0, a_msgs = take k [[7], [8]], a_cursors = [None, None]\<rparr> segs'"
proof -
  have "list_all (publish_fits demo_topic) [[7], [8]]"
    "a_tail (fresh_log (ring_handle 4 16 2)) + length [[7 :: u8], [8]] < 2 ^ 63"
    using demo_topic_fits by (simp_all add: demo_fresh a_tail_def)
  from publish_many_prefix [OF demo_topic_rep this demo_accepts, of demo_crc] show ?thesis
    unfolding demo_fresh by fastforce
qed

text \<open>A log under the Each policy with a segment just begun, on a disk that is down.\<close>

definition demo_each :: wal where
  "demo_each = demo_wal\<lparr>wi_segments := [(0, seg_name 0)], wi_active_bytes := 32,
     w_cfg := demo_cfg\<lparr>wc_fsync_policy := Each, wc_segment_size_max := 200\<rparr>,
     wi_writer := Some \<lparr>sw_name = seg_name 0, sw_buf = [], sw_first = 0, sw_pending = 0, sw_durable = 0, sw_bytes = 32\<rparr>\<rparr>"

theorem failed_sync_blocks_retry_witness:
  "\<exists>t'. publish demo_crc demo_penv [7] (demo_topic\<lparr>pb_wal := Some demo_each, tp_disk := demo_empty\<lparr>d_up := False\<rparr>\<rparr>)
      = Some (Inl (BusWal (WalWriter (WriterIo IoDevice))), t')
    \<and> (\<exists>t''. publish demo_crc demo_penv [7] (t'\<lparr>tp_disk := demo_empty\<rparr>) = Some (Inl (BusWal (WalWriter (CursorRegressed 0 1))), t''))"
proof -
  let ?t = "demo_topic\<lparr>pb_wal := Some demo_each, tp_disk := demo_empty\<lparr>d_up := False\<rparr>\<rparr>"
  note R = demo_map_refines [unfolded demo_fresh]
  have tail: "current_tail (tp_map ?t) = 0"
    using ring_refinesD(6) [OF R] by (simp add: demo_topic_def a_tail_def)
  have nf: "\<not> is_full (pb_ring ?t) (tp_map ?t)"
    using is_full_refines [OF R] by (simp add: demo_topic_def a_full_def)
  have fits: "publish_fits ?t [7]"
    by (simp add: publish_fits_def demo_topic_def demo_each_def demo_wal_def wal_consts)
  note F = failed_sync_blocks_retry [of ?t demo_each, OF _ _ _ _ _ _ _ _ demo_accepts _ _ fits, of _ demo_crc]
  show ?thesis
    using F nf tail fits demo_accepts
    by (fastforce simp: demo_each_def demo_wal_def demo_cfg_def demo_topic_def demo_empty_def in_table_def BUF_CAPACITY_def wal_consts)
qed

end
