(* ===== verification/Publisher_Restart.thy ===== *)
theory Publisher_Restart
  imports Publisher_Properties
begin

text \<open>
  A publisher that starts again on what an earlier one left behind: the ring file and the log of a
  publisher that stopped in order, or the log alone.
\<close>

lemma reuse_and_resume:
  fixes v k :: u64
  assumes "mapped r m"
  defines "m' \<equiv> set_tail (set_tail (wr64 m OFF_GENERATION v) 0) k"
  shows "mapped r m'" "generation m' = v" "current_tail m' = k" "slot_view r m' i = slot_view r m i"
    "j < unat (max_subscribers r) \<Longrightarrow> cursor_at m' j = cursor_at m j"
    "j < unat (max_subscribers r) \<Longrightarrow> wakeflag_at r m' j = wakeflag_at r m j"
proof -
  let ?g = "wr64 m OFF_GENERATION v"
  have mp: "mapped r ?g" "mapped r (set_tail ?g 0)"
    using assms(1) by (simp_all add: mapped_low_writes)
  show "mapped r m'" "generation m' = v" "current_tail m' = k" "slot_view r m' i = slot_view r m i"
    "j < unat (max_subscribers r) \<Longrightarrow> cursor_at m' j = cursor_at m j"
    "j < unat (max_subscribers r) \<Longrightarrow> wakeflag_at r m' j = wakeflag_at r m j"
    using assms(1) mp header_set_tail [OF mp(1), of 0] header_set_tail [OF mp(2), of k]
      header_generation [OF assms(1), of v]
    by (simp_all add: m'_def slot_view_set_tail slot_view_generation mapped_low_writes)
qed

lemma a_next_rotate: "segs \<noteq> [] \<Longrightarrow> a_next (a_rotate k segs) = a_next segs"
  by (cases segs) (simp_all add: a_next_def a_rotate_def log_of_def)

lemma empty_at_refines:
  assumes "mapped r m" "b < 2 ^ 63" "\<And>i. i < unat (max_subscribers r) \<Longrightarrow> cursor_at m i = CURSOR_UNCLAIMED"
  shows "ring_refines r (set_tail m (of_nat b))
    \<lparr>a_base = b, a_msgs = [], a_cursors = replicate (unat (max_subscribers r)) None\<rparr>"
  using assms header_set_tail [OF assms(1), of "of_nat b"]
  by (auto simp: ring_refines_def log_view_def mapped_low_writes cursor_rel_def unat_of_nat_small)

lemma restart_same_ring:
  assumes "ring_refines r m a"
  shows "ring_refines r (set_tail (set_tail (wr64 m OFF_GENERATION (v :: u64)) 0) (of_nat (a_tail a))) a"
proof -
  note D = ring_refinesD [OF assms] and N = reuse_and_resume [OF ring_refinesD(2) [OF assms], where v = v and k = "of_nat (a_tail a)"]
  have "log_view r (set_tail (set_tail (wr64 m OFF_GENERATION v) 0) (of_nat (a_tail a))) (a_base a) (a_msgs a)"
    using N(1,3,4) D(6) by (intro log_view_cong [OF D(1)]) simp_all
  then show ?thesis
    using D(7,8) N(5) by (simp add: ring_refines_def)
qed


text \<open>When the ring file is gone and the log has survived, the new ring is empty and goes on at the
  number the log has reached.\<close>

theorem publisher_recovers_position:
  assumes "ring_wf (ring_handle (cf_capacity cfg) (cf_slot_size cfg) (cf_max_subscribers cfg))"
    "wc_enabled (cf_wal cfg)" "survives crc d segs" "snd (last segs) \<noteq> []" "a_next segs < 2 ^ 63"
  shows "\<exists>t'. publisher_create crc now cfg (Inr ()) (Inr ()) None d = Some (Inr t', Some (tp_map t'), tp_disk t')
    \<and> topic_rep crc t' \<lparr>a_base = a_next segs, a_msgs = [], a_cursors = replicate (unat (cf_max_subscribers cfg)) None\<rparr>
        (a_rotate (of_nat (a_next segs)) segs)"
proof -
  let ?r = "ring_handle (cf_capacity cfg) (cf_slot_size cfg) (cf_max_subscribers cfg)"
  let ?m = "snd (ring_create (cf_capacity cfg) (cf_slot_size cfg) (cf_max_subscribers cfg))"
  let ?k = "of_nat (a_next segs) :: u64"
  obtain ss s where s: "segs = ss @ [s]"
    using assms(3) by (cases segs rule: rev_cases) (auto simp: survives_def)
  obtain w' d' where O: "wal_open crc now (cf_wal cfg) d = (Inr w', d')"
    "wal_rep crc d' w' (a_rotate ?k segs) 0 0" "w_pending w' = ?k" "w_durable w' = ?k" "unat ?k = a_next segs"
    "w_cfg w' = cf_wal cfg" "\<not> w_poisoned w'"
    using open_survivors(2) [OF assms(3) [unfolded s], of ?k now "cf_wal cfg"] assms(4) unfolding s by auto
  note P = ring_create_props [OF assms(1)]
  have "0 < a_next segs"
    using assms(4) by (simp add: s a_next_def log_of_def)
  then have tl: "current_tail ?m < w_pending w'"
    using P(9) O(3,5) by (simp add: word_less_nat_alt)
  let ?t' = "\<lparr>pb_ring = ?r, pb_clients = [], pb_policy = cf_backpressure cfg,
     pb_wal = Some w', pb_published = 0, pb_full_rejected = 0, pb_dropped = 0, pb_wakeups = 0,
     tp_map = set_tail ?m ?k, tp_disk = d', tp_signals = []\<rparr>"
  have "publisher_create crc now cfg (Inr ()) (Inr ()) None d = Some (Inr ?t', Some (tp_map ?t'), tp_disk ?t')"
    using O(1) tl assms(2) by (simp add: publisher_create_def ring_create_or_reuse_def ring_open_def Let_def
        split_beta fst_ring_create flip: O(3))
  moreover have "ring_refines ?r (set_tail ?m ?k)
      \<lparr>a_base = a_next segs, a_msgs = [], a_cursors = replicate (unat (cf_max_subscribers cfg)) None\<rparr>"
    using empty_at_refines [OF P(1) assms(5)] P(10) by (simp add: ring_handle_def)
  moreover have "wal_state crc d' w' (a_rotate ?k segs) 0 0"
    using O(2-5) by (simp add: wal_state_def a_next_rotate s) (simp add: a_rotate_def)
  ultimately show ?thesis
    using O(3,5-7) assms(2) by (intro exI [of _ ?t']) (auto simp: topic_rep_def in_table_def a_next_rotate s a_tail_def)
qed

subsection \<open>Witnesses\<close>

lemma ring_open_set_tail: "64 \<le> length m \<Longrightarrow> ring_open (Some (set_tail m v)) = ring_open (Some m)"
  by (simp add: ring_open_def set_tail_def buf_simps disjoint_ranges_def)

lemma replicate_two: "replicate 2 x = [x, x]"
  by (simp add: numeral_2_eq_2)

lemma demo_restart_state:
  obtains w d i j where "wal_state demo_crc d w [(0, [demo_record 0])] i j" "wal_rep demo_crc d w [(0, [demo_record 0])] i j"
    "w_cfg w = demo_cfg" "\<not> w_poisoned w" "unat (w_pending w) = 1"
proof -
  have "record_ok (demo_record 0)" "[] \<noteq> [] \<longrightarrow> unat (r_cursor (demo_record 0)) = a_next []"
    "unat (r_cursor (demo_record 0)) + 1 < 2 ^ 64"
    "SEGMENT_HEADER_LEN + record_encoded_len (demo_record 0) \<le> wc_segment_size_max (w_cfg demo_wal)"
    by (simp_all add: demo_record_ok) (simp add: demo_record_def record_encoded_len_def demo_wal_def demo_cfg_def wal_consts)+
  from append_state [OF demo_state demo_ops_fit(3) [folded demo_ops_fit(5)] demo_ops_fit(4) this, of demo_crc 9]
  obtain w' d' i' j' where A: "wal_state demo_crc d' w' (a_log_step (w_cfg demo_wal) (demo_record 0) []) i' j'"
    "w_cfg w' = w_cfg demo_wal" "\<not> w_poisoned w'" "w_pending w' = r_cursor (demo_record 0) + 1"
    by metis
  have "a_log_step (w_cfg demo_wal) (demo_record 0) [] = [(0, [demo_record 0])]"
    by (simp add: a_log_step_def a_append_def demo_record_def demo_wal_def)
  then show ?thesis
    using that [of d' w' i' j'] A by (simp add: demo_ops_fit(5) demo_record_def wal_state_def)
qed


theorem publisher_recovers_position_witness:
  "\<exists>d t'. publisher_create demo_crc 5
      \<lparr>cf_slot_size = 16, cf_capacity = 4, cf_base_dir = [], cf_max_subscribers = 2, cf_backpressure = ErrorPolicy, cf_wal = demo_cfg\<rparr>
      (Inr ()) (Inr ()) None d = Some (Inr t', Some (tp_map t'), tp_disk t')
    \<and> topic_rep demo_crc t' \<lparr>a_base = 1, a_msgs = [], a_cursors = [None, None]\<rparr> [(0, [demo_record 0]), (1, [])]"
proof -
  obtain w d i j where W: "wal_rep demo_crc d w [(0, [demo_record 0])] i j" "w_cfg w = demo_cfg"
    using demo_restart_state by metis
  then have "survives demo_crc (wal_drop w d) [(0, [demo_record 0])]"
    using drop_survives demo_ops_fit(3) by metis
  from publisher_recovers_position [OF _ _ this, of
      "\<lparr>cf_slot_size = 16, cf_capacity = 4, cf_base_dir = [], cf_max_subscribers = 2, cf_backpressure = ErrorPolicy, cf_wal = demo_cfg\<rparr>" 5]
  show ?thesis
    using demo_ring_wf demo_ops_fit(3) by (auto simp: a_rotate_def a_next_def log_of_def replicate_two)
qed

end
