(* ===== verification/Waker.thy ===== *)
theory Waker
  imports Wal_Record
begin

text \<open>
  The wakeup primitives of Linux: \<open>crates/mmbus/src/waker.rs\<close>, module \<open>linux\<close>. An eventfd in
  semaphore mode is its counter: a write adds one, a read takes one. What a system call returns is an
  argument.
\<close>

subsection \<open>The eventfd (lines 20--70)\<close>

definition create_eventfd :: u64 where
  "create_eventfd = 0"

text \<open>A write that would overflow the counter fails on the non-blocking descriptor.\<close>

definition eventfd_wake :: "u64 \<Rightarrow> bool \<times> u64" where
  "eventfd_wake count = (if - 2 \<le> count then (False, count) else (True, count + 1))"

definition eventfd_drain :: "u64 \<Rightarrow> (io_error + u64) \<times> u64" where
  "eventfd_drain count = (if count = 0 then (Inl IoWouldBlock, 0) else (Inr 1, count - 1))"

subsection \<open>Waiting (lines 72--118)\<close>

text \<open>What one call of \<open>poll\<close> reports: a signal, another error, a timeout, or readiness and whether
  the peer has hung up.\<close>

datatype poll_result = PollInterrupted | PollFailed io_error | PollTimedOut | PollReady bool

fun poll_wakeup :: "poll_result list \<Rightarrow> (io_error + unit) option" where
  "poll_wakeup [] = None"
| "poll_wakeup (PollInterrupted # polls) = poll_wakeup polls"
| "poll_wakeup (PollFailed e # polls) = Some (Inl e)"
| "poll_wakeup (PollTimedOut # polls) = Some (Inl IoWouldBlock)"
| "poll_wakeup (PollReady hup # polls) = Some (if hup then Inl IoUnexpectedEof else Inr ())"

subsection \<open>The handshake (lines 120--216)\<close>

text \<open>The message carries the cursor slot in its bytes and the eventfd beside them.\<close>

definition send_fd :: "nat \<Rightarrow> u32 \<Rightarrow> bytes \<times> nat" where
  "send_fd fd cursor_idx = (u32_le cursor_idx, fd)"

text \<open>The received bytes overwrite the beginning of a zeroed array.\<close>

definition recv_fd :: "io_error + bytes \<times> nat option \<Rightarrow> io_error + nat \<times> u32" where
  "recv_fd received = (case received of
      Inl e \<Rightarrow> Inl e
    | Inr (bs, None) \<Rightarrow> Inl IoInvalidData
    | Inr (bs, Some fd) \<Rightarrow> Inr (fd, rd32 (poke [0, 0, 0, 0] 0 (take 4 bs)) 0))"

lemma handshake_roundtrip:
  "recv_fd (Inr (fst (send_fd fd idx), Some (snd (send_fd fd idx)))) = Inr (fd, idx)"
  using c32.rd_wr_same [of 0 "[0, 0, 0, 0]" idx] by (simp add: recv_fd_def send_fd_def rd32_def)

lemma wake_then_drain: "count < - 2 \<Longrightarrow> eventfd_drain (snd (eventfd_wake count)) = (Inr 1, count)"
proof -
  assume a: "count < - 2"
  have "count + 1 \<noteq> 0"
  proof
    assume "count + 1 = 0"
    then have "count = - 1"
      by (simp only: eq_neg_iff_add_eq_0)
    then show False
      using a by simp
  qed
  then show ?thesis
    using a by (simp add: eventfd_drain_def eventfd_wake_def not_le)
qed

end
