(* ===== verification/Subscriber.thy ===== *)
theory Subscriber
  imports Publisher Waker
begin

text \<open>
  The consumer handle of a topic: \<open>crates/mmbus/src/subscriber.rs\<close>. A subscriber owns a cursor slot
  of the ring; the map is shared and passed along. What others do to the map while a call runs is an
  argument, a function from the map they find to the map they leave, and so is what the system calls
  return. \<open>None\<close>: a call that has not returned when the given turns are used up, or a panic.
\<close>

subsection \<open>State (lines 21--80)\<close>

record subscriber =
  sb_ring :: ring
  sb_cursor :: u64
  sb_idx :: nat
  sb_generation :: u64
  sb_replay :: "replayer option"

datatype start_pos = Now | HistoryBack u64 | Explicit u64

definition subscriber_drop :: "subscriber \<Rightarrow> bytes \<Rightarrow> bytes" where
  "subscriber_drop s m = release_cursor m (sb_idx s)"

subsection \<open>Connecting (lines 93--313)\<close>

text \<open>The ring file as each attempt to open it finds it, and whether the deadline has passed after a
  failed attempt; the same for the connections to the socket.\<close>

fun open_ring :: "string \<Rightarrow> (bytes option \<times> bool) list \<Rightarrow> (bus_error + ring \<times> bytes) option" where
  "open_ring name [] = None"
| "open_ring name ((file, late) # attempts) = (case ring_open file of
      None \<Rightarrow> None
    | Some (Inr r) \<Rightarrow> Some (Inr (r, the file))
    | Some (Inl _) \<Rightarrow> if late then Some (Inl (Timeout name)) else open_ring name attempts)"

fun connect_socket :: "string \<Rightarrow> ((io_error + unit) \<times> bool) list \<Rightarrow> (bus_error + unit) option" where
  "connect_socket name [] = None"
| "connect_socket name ((Inr _, late) # attempts) = Some (Inr ())"
| "connect_socket name ((Inl _, late) # attempts) =
    (if late then Some (Inl (Timeout name)) else connect_socket name attempts)"

text \<open>The start position, with the directory of the log as the subscriber finds it.\<close>

definition start_at :: "start_pos \<Rightarrow> ring \<Rightarrow> u64 \<Rightarrow> disk option \<Rightarrow> bus_error + u64 \<times> replayer option" where
  "start_at start r tail dir = (case start of
      Now \<Rightarrow> Inr (tail, None)
    | HistoryBack n \<Rightarrow> Inr (saturating_sub tail n, None)
    | Explicit c \<Rightarrow>
        let ring_oldest = saturating_sub tail (ucast (capacity r)) in
        if c \<ge> ring_oldest then Inr (c, None)
        else let reader = wal_reader_open dir in
          (case oldest_cursor reader of
             None \<Rightarrow> Inl (BusCursorTooOld c ring_oldest)
           | Some _ \<Rightarrow> (case wal_reader_read_from c reader of
               Inr rp \<Rightarrow> Inr (c, Some rp)
             | Inl (CursorTooOld requested oldest) \<Rightarrow> Inl (BusCursorTooOld requested oldest)
             | Inl e \<Rightarrow> Inl (BusWal e))))"

record connect_env =
  ce_opens :: "(bytes option \<times> bool) list"
  ce_eventfd :: "io_error + unit"
  ce_connects :: "((io_error + unit) \<times> bool) list"
  ce_sent :: "io_error + unit"
  ce_meanwhile :: "bytes \<Rightarrow> bytes"
  ce_dir :: "disk option"

definition handshake :: "string \<Rightarrow> connect_env \<Rightarrow> (bus_error + unit) option" where
  "handshake name env = (case ce_eventfd env of
      Inl e \<Rightarrow> Some (Inl (BusIo e))
    | Inr _ \<Rightarrow> (case connect_socket name (ce_connects env) of
        None \<Rightarrow> None
      | Some (Inl e) \<Rightarrow> Some (Inl e)
      | Some (Inr _) \<Rightarrow> (case ce_sent env of
          Inl e \<Rightarrow> Some (Inl (BusIo e))
        | Inr _ \<Rightarrow> Some (Inr ()))))"

text \<open>After the handshake: the position in the ring as it is now.\<close>

definition resync :: "start_pos \<Rightarrow> disk option \<Rightarrow> ring \<Rightarrow> nat \<Rightarrow> bytes \<Rightarrow> (bus_error + subscriber) \<times> bytes" where
  "resync start dir r idx m =
    (let tail = current_tail m in case start_at start r tail dir of
       Inl e \<Rightarrow> (Inl e, release_cursor m idx)
     | Inr (cursor, wal_replay) \<Rightarrow>
         let live_cursor = (if wal_replay \<noteq> None then tail else cursor);
             m' = set_cursor m idx live_cursor
         in (Inr \<lparr>sb_ring = r, sb_cursor = cursor, sb_idx = idx, sb_generation = generation m',
                  sb_replay = wal_replay\<rparr>, m'))"

definition connect_with ::
    "string \<Rightarrow> connect_env \<Rightarrow> start_pos \<Rightarrow> ((bus_error + subscriber) \<times> bytes option) option" where
  "connect_with name env start = (case open_ring name (ce_opens env) of
      None \<Rightarrow> None
    | Some (Inl e) \<Rightarrow> Some (Inl e, None)
    | Some (Inr (r, m)) \<Rightarrow> (case claim_cursor r m (current_tail m) of
        (None, m') \<Rightarrow> Some (Inl (TooManySubscribers (max_subscribers r)), Some m')
      | (Some idx, m') \<Rightarrow> (case handshake name env of
          None \<Rightarrow> None
        | Some (Inl e) \<Rightarrow> Some (Inl e, Some (release_cursor (ce_meanwhile env m') idx))
        | Some (Inr _) \<Rightarrow>
            let (res, m'') = resync start (ce_dir env) r idx (ce_meanwhile env m')
            in Some (res, Some m''))))"

definition connect_now :: "string \<Rightarrow> connect_env \<Rightarrow> ((bus_error + subscriber) \<times> bytes option) option" where
  "connect_now name env = connect_with name env Now"

subsection \<open>The log before the ring (lines 556--588)\<close>

definition next_wal_record ::
    "(bytes \<Rightarrow> u32) \<Rightarrow> disk \<Rightarrow> subscriber \<Rightarrow> bytes \<Rightarrow> (bus_error + bytes option) \<times> subscriber \<times> bytes" where
  "next_wal_record crc d s m = (case sb_replay s of
      None \<Rightarrow> (Inr None, s, m)
    | Some rp \<Rightarrow> (case replayer_next crc d rp of
        (Some (Inr x), rp') \<Rightarrow>
          (Inr (Some (r_payload x)), s\<lparr>sb_cursor := r_cursor x + 1, sb_replay := Some rp'\<rparr>, m)
      | (Some (Inl e), rp') \<Rightarrow> (Inl (BusWal e), s\<lparr>sb_replay := None\<rparr>, m)
      | (None, rp') \<Rightarrow> (Inr None, s\<lparr>sb_replay := None\<rparr>, set_cursor m (sb_idx s) (sb_cursor s))))"

subsection \<open>Waiting (lines 479--545, 674--725)\<close>

record wait_env =
  wn_arming :: "bytes \<Rightarrow> bytes"
  wn_asleep :: "bytes \<Rightarrow> bytes"
  wn_poll :: "io_error + unit"
  wn_drain :: "io_error + unit"

definition wait_wakeup :: "wait_env \<Rightarrow> subscriber \<Rightarrow> bytes \<Rightarrow> (io_error + unit) \<times> bytes" where
  "wait_wakeup env s m =
    (let m' = wn_asleep env m in case wn_poll env of
       Inl e \<Rightarrow> (Inl e, m')
     | Inr _ \<Rightarrow> (case wn_drain env of
         Inl e \<Rightarrow> (Inl e, m')
       | Inr _ \<Rightarrow> (if generation m' \<noteq> sb_generation s then Inl IoUnexpectedEof else Inr (), m')))"

definition wait_readable :: "wait_env \<Rightarrow> subscriber \<Rightarrow> bytes \<Rightarrow> (bus_error + bool) \<times> bytes" where
  "wait_readable env s m =
    (let m1 = wn_arming env (set_wakeflag (sb_ring s) m (sb_idx s)) in
     if sb_cursor s < current_tail m1 then (Inr True, clear_wakeflag (sb_ring s) m1 (sb_idx s))
     else (case wait_wakeup env s m1 of (res, m2) \<Rightarrow>
       (case res of
          Inr _ \<Rightarrow> Inr True
        | Inl e \<Rightarrow> if e = IoWouldBlock \<or> e = IoTimedOut then Inr False else Inl (BusIo e),
        clear_wakeflag (sb_ring s) m2 (sb_idx s))))"

definition arm_wakeup :: "(bytes \<Rightarrow> bytes) \<Rightarrow> subscriber \<Rightarrow> bytes \<Rightarrow> bool \<times> bytes" where
  "arm_wakeup arming s m =
    (let m1 = arming (set_wakeflag (sb_ring s) m (sb_idx s)) in
     if sb_cursor s < current_tail m1 then (True, clear_wakeflag (sb_ring s) m1 (sb_idx s))
     else (False, m1))"

definition try_drain_wakeup :: "u64 \<Rightarrow> (io_error + bool) \<times> u64" where
  "try_drain_wakeup count = (case eventfd_drain count of
      (Inr _, count') \<Rightarrow> (Inr True, count')
    | (Inl e, count') \<Rightarrow> (if e = IoWouldBlock then Inr False else Inl e, count'))"

subsection \<open>Receiving (lines 315--477)\<close>

text \<open>One look at the ring: the message, if any; the buffer is what a failed look leaves in it.\<close>

definition ring_receive :: "subscriber \<Rightarrow> bytes \<Rightarrow> bytes \<Rightarrow> (bool \<times> bytes \<times> subscriber \<times> bytes) option" where
  "ring_receive s out m = (case try_receive (sb_ring s) m (sb_idx s) (sb_cursor s) out of
      None \<Rightarrow> None
    | Some (Some new_cursor, out', m') \<Rightarrow> Some (True, out', s\<lparr>sb_cursor := new_cursor\<rparr>, m')
    | Some (None, out', m') \<Rightarrow> Some (False, out', s, m'))"

fun receive_loop :: "wait_env list \<Rightarrow> subscriber \<Rightarrow> bytes \<Rightarrow> bytes \<Rightarrow> ((bus_error + bytes) \<times> subscriber \<times> bytes) option" where
  "receive_loop waits s out m = (case ring_receive s out m of
      None \<Rightarrow> None
    | Some (True, out', s', m') \<Rightarrow> Some (Inr out', s', m')
    | Some (False, out', s', m') \<Rightarrow> (case waits of
        [] \<Rightarrow> None
      | env # waits \<Rightarrow> (case wait_readable env s' m' of
          (Inl e, m'') \<Rightarrow> Some (Inl e, s', m'')
        | (Inr _, m'') \<Rightarrow> receive_loop waits s' out' m'')))"

definition receive_into ::
    "(bytes \<Rightarrow> u32) \<Rightarrow> disk \<Rightarrow> wait_env list \<Rightarrow> subscriber \<Rightarrow> bytes \<Rightarrow> ((bus_error + bytes) \<times> subscriber \<times> bytes) option" where
  "receive_into crc d waits s m = (case next_wal_record crc d s m of
      (Inl e, s', m') \<Rightarrow> Some (Inl e, s', m')
    | (Inr (Some payload), s', m') \<Rightarrow> Some (Inr payload, s', m')
    | (Inr None, s', m') \<Rightarrow> receive_loop waits s' [] m')"

text \<open>With a deadline: each turn says whether it has passed after the look at the ring.\<close>

fun receive_timeout_loop ::
    "(bool \<times> wait_env) list \<Rightarrow> subscriber \<Rightarrow> bytes \<Rightarrow> bytes \<Rightarrow> ((bus_error + bytes option) \<times> subscriber \<times> bytes) option" where
  "receive_timeout_loop waits s out m = (case ring_receive s out m of
      None \<Rightarrow> None
    | Some (True, out', s', m') \<Rightarrow> Some (Inr (Some out'), s', m')
    | Some (False, out', s', m') \<Rightarrow> (case waits of
        [] \<Rightarrow> None
      | (late, env) # waits \<Rightarrow>
          if late then Some (Inr None, s', m')
          else (case wait_readable env s' m' of
            (Inl e, m'') \<Rightarrow> Some (Inl e, s', m'')
          | (Inr False, m'') \<Rightarrow> Some (Inr None, s', m'')
          | (Inr True, m'') \<Rightarrow> receive_timeout_loop waits s' out' m'')))"

definition receive_timeout_into ::
    "(bytes \<Rightarrow> u32) \<Rightarrow> disk \<Rightarrow> (bool \<times> wait_env) list \<Rightarrow> subscriber \<Rightarrow> bytes
      \<Rightarrow> ((bus_error + bytes option) \<times> subscriber \<times> bytes) option" where
  "receive_timeout_into crc d waits s m = (case next_wal_record crc d s m of
      (Inl e, s', m') \<Rightarrow> Some (Inl e, s', m')
    | (Inr (Some payload), s', m') \<Rightarrow> Some (Inr (Some payload), s', m')
    | (Inr None, s', m') \<Rightarrow> receive_timeout_loop waits s' [] m')"

text \<open>An error of the log falls through to the ring.\<close>

definition try_receive_into ::
    "(bytes \<Rightarrow> u32) \<Rightarrow> disk \<Rightarrow> subscriber \<Rightarrow> bytes \<Rightarrow> (bytes option \<times> subscriber \<times> bytes) option" where
  "try_receive_into crc d s m = (case next_wal_record crc d s m of
      (Inr (Some payload), s', m') \<Rightarrow> Some (Some payload, s', m')
    | (_, s', m') \<Rightarrow>
        map_option (\<lambda>(got, out, s'', m''). (if got then Some out else None, s'', m'')) (ring_receive s' [] m'))"

definition subscriber_try_slice ::
    "subscriber \<Rightarrow> bytes \<Rightarrow> bytes \<Rightarrow> (nat option option \<times> bytes \<times> subscriber \<times> bytes) option" where
  "subscriber_try_slice s out m = (case try_receive_into_slice (sb_ring s) m (sb_idx s) (sb_cursor s) out of
      None \<Rightarrow> None
    | Some (Some (new_cursor, len), out', m') \<Rightarrow> Some (Some len, out', s\<lparr>sb_cursor := new_cursor\<rparr>, m')
    | Some (None, out', m') \<Rightarrow> Some (None, out', s, m'))"

definition try_receive_one_into_slice ::
    "(bytes \<Rightarrow> u32) \<Rightarrow> disk \<Rightarrow> subscriber \<Rightarrow> bytes \<Rightarrow> bytes
      \<Rightarrow> ((bus_error + nat option) \<times> bytes \<times> subscriber \<times> bytes) option" where
  "try_receive_one_into_slice crc d s out m = (case next_wal_record crc d s m of
      (Inl e, s', m') \<Rightarrow> Some (Inl e, out, s', m')
    | (Inr (Some payload), s', m') \<Rightarrow>
        if length payload > length out then Some (Inl (TooLarge (length payload) (length out)), out, s', m')
        else Some (Inr (Some (length payload)), poke out 0 payload, s', m')
    | (Inr None, s', m') \<Rightarrow>
        map_option (\<lambda>(res, out', s'', m'').
            (case res of
               None \<Rightarrow> Inr None
             | Some None \<Rightarrow> Inl (TooLarge (unat (slot_payload_size (sb_ring s))) (length out))
             | Some (Some n) \<Rightarrow> Inr (Some n), out', s'', m''))
          (subscriber_try_slice s' out m'))"

text \<open>For event loops: the log first, then at most one wakeup and one look at the ring.\<close>

definition poll_recv ::
    "(bytes \<Rightarrow> u32) \<Rightarrow> disk \<Rightarrow> u64 \<Rightarrow> subscriber \<Rightarrow> bytes
      \<Rightarrow> ((bus_error + bytes option) \<times> u64 \<times> subscriber \<times> bytes) option" where
  "poll_recv crc d count s m = (case next_wal_record crc d s m of
      (Inl e, s', m') \<Rightarrow> Some (Inl e, count, s', m')
    | (Inr (Some payload), s', m') \<Rightarrow> Some (Inr (Some payload), count, s', m')
    | (Inr None, s', m') \<Rightarrow> (case try_drain_wakeup count of
        (Inl e, count') \<Rightarrow> Some (Inl (BusIo e), count', s', m')
      | (Inr False, count') \<Rightarrow> Some (Inr None, count', s', m')
      | (Inr True, count') \<Rightarrow>
          if generation m' \<noteq> sb_generation s' then Some (Inl (BusIo IoUnexpectedEof), count', s', m')
          else map_option (\<lambda>(res, s'', m''). (Inr res, count', s'', m'')) (try_receive_into crc d s' m')))"

definition subscriber_lag :: "subscriber \<Rightarrow> bytes \<Rightarrow> u64" where
  "subscriber_lag s m = saturating_sub (current_tail m) (sb_cursor s)"

end
