(* ===== verification/Subscriber_Properties.thy ===== *)
theory Subscriber_Properties
  imports Publisher_Restart Subscriber
begin

text \<open>
  The properties of the consumer handle: what a subscriber gets that joins at a given position, the
  hand-over from the log to the ring, waking up, and the positions and restarts that end or block a
  subscription.
\<close>

subsection \<open>Reading everything\<close>

fun sub_drain :: "(bytes \<Rightarrow> u32) \<Rightarrow> disk \<Rightarrow> nat \<Rightarrow> subscriber \<Rightarrow> bytes \<Rightarrow> (bytes list \<times> subscriber \<times> bytes) option" where
  "sub_drain crc d 0 s m = Some ([], s, m)"
| "sub_drain crc d (Suc n) s m = (case try_receive_into crc d s m of
      None \<Rightarrow> None
    | Some (None, s', m') \<Rightarrow> Some ([], s', m')
    | Some (Some payload, s', m') \<Rightarrow>
        map_option (\<lambda>(payloads, s'', m''). (payload # payloads, s'', m'')) (sub_drain crc d n s' m'))"

lemma replay_all_Cons:
  assumes "replay_all crc d rp = map Inr (x # rs)"
  obtains rp' where "replayer_next crc d rp = (Some (Inr x), rp')" "replay_all crc d rp' = map Inr rs"
proof -
  obtain res rp' where n: "replayer_next crc d rp = (res, rp')"
    by (cases "replayer_next crc d rp")
  show ?thesis
    using assms that n by (subst (asm) replay_all.simps) (auto split: option.splits)
qed

lemma replay_all_Nil:
  assumes "replay_all crc d rp = []"
  obtains rp' where "replayer_next crc d rp = (None, rp')"
proof -
  obtain res rp' where n: "replayer_next crc d rp = (res, rp')"
    by (cases "replayer_next crc d rp")
  show ?thesis
    using assms that n by (subst (asm) replay_all.simps) (auto split: option.splits)
qed

lemma drain_replay:
  assumes "sb_replay s = Some rp" "replay_all crc d rp = map Inr rs"
  shows "\<exists>rp' rp''. replayer_next crc d rp' = (None, rp'') \<and> (\<forall>n. sub_drain crc d (length rs + n) s m =
    map_option (\<lambda>(payloads, s', m'). (map r_payload rs @ payloads, s', m'))
      (sub_drain crc d n (s\<lparr>sb_cursor := if rs = [] then sb_cursor s else r_cursor (last rs) + 1,
         sb_replay := Some rp'\<rparr>) m))"
  using assms
proof (induction rs arbitrary: s rp)
  case Nil
  then obtain rp'' where "replayer_next crc d rp = (None, rp'')"
    using replay_all_Nil [of crc d rp] by auto
  moreover have "s\<lparr>sb_cursor := sb_cursor s, sb_replay := Some rp\<rparr> = s"
    using Nil.prems(1) by simp
  ultimately show ?case
    by (intro exI [of _ rp] exI [of _ rp'']) (simp add: option.map_ident split_beta)
next
  case (Cons x rs)
  then obtain rp1 where n: "replayer_next crc d rp = (Some (Inr x), rp1)" "replay_all crc d rp1 = map Inr rs"
    using replay_all_Cons by blast
  let ?s = "s\<lparr>sb_cursor := r_cursor x + 1, sb_replay := Some rp1\<rparr>"
  have t: "try_receive_into crc d s m = Some (Some (r_payload x), ?s, m)"
    using Cons.prems(1) n(1) by (simp add: try_receive_into_def next_wal_record_def)
  obtain rp' rp'' where R: "replayer_next crc d rp' = (None, rp'')"
    "\<And>n. sub_drain crc d (length rs + n) ?s m =
    map_option (\<lambda>(payloads, s', m'). (map r_payload rs @ payloads, s', m'))
      (sub_drain crc d n (?s\<lparr>sb_cursor := if rs = [] then sb_cursor ?s else r_cursor (last rs) + 1,
         sb_replay := Some rp'\<rparr>) m)"
    using Cons.IH [of ?s rp1] n(2) by auto
  have "sub_drain crc d (length (x # rs) + n) s m =
    map_option (\<lambda>(payloads, s', m'). (map r_payload (x # rs) @ payloads, s', m'))
      (sub_drain crc d n (s\<lparr>sb_cursor := r_cursor (last (x # rs)) + 1, sb_replay := Some rp'\<rparr>) m)" for n
    using t R(2) [of n]
    by (cases "sub_drain crc d n (s\<lparr>sb_cursor := r_cursor (last (x # rs)) + 1, sb_replay := Some rp'\<rparr>) m"; cases "rs = []")
       auto
  then show ?case
    using R(1) by (intro exI [of _ rp'] exI [of _ rp'']) simp
qed

lemma ring_receive_next:
  assumes "ring_refines (sb_ring s) m a" "sb_idx s < unat (max_subscribers (sb_ring s))"
    "unat (sb_cursor s) = c" "a_base a \<le> c" "c < a_tail a" "a_tail a \<le> c + ncap (sb_ring s)"
  shows "\<exists>m'. ring_receive s out m = Some (True, a_msgs a ! (c - a_base a), s\<lparr>sb_cursor := of_nat (c + 1)\<rparr>, m')
    \<and> ring_refines (sb_ring s) m' (a\<lparr>a_cursors := (a_cursors a)[sb_idx s := Some (c + 1)]\<rparr>)"
proof -
  note D = ring_refinesD [OF assms(1)]
  have k: "skip_to (ncap (sb_ring s)) (a_base a + length (a_msgs a)) c = c"
    using assms(5,6) by (intro skip_to_here) (simp_all add: a_tail_def)
  have "try_receive (sb_ring s) m (sb_idx s) (sb_cursor s) out
      = Some (Some (of_nat (c + 1)), a_msgs a ! (c - a_base a), set_cursor m (sb_idx s) (of_nat (c + 1)))"
    using try_receive_seq [OF D(1), of "sb_cursor s" "sb_idx s" out] assms(3-5) k by (simp add: a_tail_def)
  moreover have "ring_refines (sb_ring s) (set_cursor m (sb_idx s) (of_nat (c + 1)))
      (a\<lparr>a_cursors := (a_cursors a)[sb_idx s := Some (c + 1)]\<rparr>)"
    using assms(4,5) by (intro set_cursor_refines [OF assms(1,2)]) (simp add: cursor_rel_def)
  ultimately show ?thesis
    by (simp add: ring_receive_def)
qed

lemma ring_receive_empty:
  assumes "ring_refines (sb_ring s) m a" "unat (sb_cursor s) = a_tail a"
  shows "ring_receive s out m = Some (False, out, s, m)"
proof -
  have "\<not> sb_cursor s < rd64 m OFF_TAIL"
    using ring_refinesD(4) [OF assms(1)] assms(2) by (simp add: word_less_nat_alt current_tail_def)
  then show ?thesis
    by (simp add: ring_receive_def try_receive_def try_receive_at_def not_less)
qed

lemma drain_ring:
  assumes "ring_refines (sb_ring s) m a" "sb_idx s < unat (max_subscribers (sb_ring s))" "sb_replay s = None"
    "unat (sb_cursor s) = c" "a_base a \<le> c" "c \<le> a_tail a" "a_tail a \<le> c + ncap (sb_ring s)"
    "a_cursors a ! sb_idx s = Some c" "a_tail a < c + n"
  shows "\<exists>m'. sub_drain crc d n s m = Some (drop (c - a_base a) (a_msgs a), s\<lparr>sb_cursor := of_nat (a_tail a)\<rparr>, m')
    \<and> ring_refines (sb_ring s) m' (a\<lparr>a_cursors := (a_cursors a)[sb_idx s := Some (a_tail a)]\<rparr>)"
  using assms
proof (induction n arbitrary: s m a c)
  case (Suc n)
  note D = ring_refinesD [OF Suc.prems(1)]
  have nw: "next_wal_record crc d s m = (Inr None, s, m)"
    using Suc.prems(3) by (simp add: next_wal_record_def)
  show ?case
  proof (cases "c = a_tail a")
    case True
    have "sb_cursor s = of_nat (a_tail a)"
      using True Suc.prems(4) D(5) by (simp add: word_unat_eq_iff unat_of_nat_small)
    moreover have "a\<lparr>a_cursors := (a_cursors a)[sb_idx s := Some (a_tail a)]\<rparr> = a"
      using Suc.prems(8) True by (metis (mono_tags, lifting) alog.surjective alog.update_convs(3) list_update_id)
    ultimately show ?thesis
      using ring_receive_empty [OF Suc.prems(1)] Suc.prems(1,4) True nw
      by (simp add: try_receive_into_def a_tail_def)
  next
    case False
    then have lt: "c < a_tail a"
      using Suc.prems(6) by simp
    let ?s = "s\<lparr>sb_cursor := of_nat (c + 1)\<rparr>" and ?a = "a\<lparr>a_cursors := (a_cursors a)[sb_idx s := Some (c + 1)]\<rparr>"
    obtain m1 where m1: "ring_receive s [] m = Some (True, a_msgs a ! (c - a_base a), ?s, m1)"
      "ring_refines (sb_ring s) m1 ?a"
      using ring_receive_next [OF Suc.prems(1,2,4,5) lt Suc.prems(7)] by blast
    have tail: "a_tail ?a = a_tail a"
      by (simp add: a_tail_def)
    have c1: "unat (of_nat (c + 1) :: u64) = c + 1"
      using lt D(5) by (intro unat_of_nat_small) simp
    obtain m' where "sub_drain crc d n ?s m1 = Some (drop (c + 1 - a_base a) (a_msgs a), s\<lparr>sb_cursor := of_nat (a_tail a)\<rparr>, m')"
      "ring_refines (sb_ring s) m' (a\<lparr>a_cursors := (a_cursors a)[sb_idx s := Some (a_tail a)]\<rparr>)"
      using Suc.IH [of ?s m1 ?a "c + 1"] m1(2) Suc.prems(2,3,5,7,9) lt c1 D(7) tail by auto
    moreover have "drop (c - a_base a) (a_msgs a) = a_msgs a ! (c - a_base a) # drop (c + 1 - a_base a) (a_msgs a)"
      using lt Suc.prems(5) by (simp add: Cons_nth_drop_Suc [symmetric] a_tail_def Suc_diff_le)
    ultimately show ?thesis
      using m1(1) nw by (simp add: try_receive_into_def)
  qed
qed simp

text \<open>Replay, then the ring.\<close>

lemma drain_handover:
  assumes "ring_refines (sb_ring s) m a" "sb_idx s < unat (max_subscribers (sb_ring s))"
    "sb_replay s = Some rp" "replay_all crc d rp = map Inr rs"
    "unat (if rs = [] then sb_cursor s else r_cursor (last rs) + 1) = p"
    "a_base a \<le> p" "p \<le> a_tail a" "a_tail a \<le> p + ncap (sb_ring s)" "a_tail a < p + n"
  shows "\<exists>s' m'. sub_drain crc d (length rs + n) s m = Some (map r_payload rs @ drop (p - a_base a) (a_msgs a), s', m')
    \<and> ring_refines (sb_ring s) m' (a\<lparr>a_cursors := (a_cursors a)[sb_idx s := Some (a_tail a)]\<rparr>)
    \<and> sb_cursor s' = of_nat (a_tail a) \<and> sb_replay s' = None"
proof -
  let ?p = "if rs = [] then sb_cursor s else r_cursor (last rs) + 1"
  obtain rp' rp'' where R: "replayer_next crc d rp' = (None, rp'')"
    "\<And>n. sub_drain crc d (length rs + n) s m = map_option (\<lambda>(payloads, s', m'). (map r_payload rs @ payloads, s', m'))
      (sub_drain crc d n (s\<lparr>sb_cursor := ?p, sb_replay := Some rp'\<rparr>) m)"
    using drain_replay [OF assms(3,4), of m] by blast
  obtain n' where n: "n = Suc n'"
    using assms(7,9) by (cases n) simp_all
  let ?s1 = "s\<lparr>sb_cursor := ?p, sb_replay := Some rp'\<rparr>" and ?s2 = "s\<lparr>sb_cursor := ?p, sb_replay := None\<rparr>"
  let ?m = "set_cursor m (sb_idx s) ?p" and ?a = "a\<lparr>a_cursors := (a_cursors a)[sb_idx s := Some p]\<rparr>"
  have p: "?p = of_nat p"
    using assms(5,7) ring_refinesD(5) [OF assms(1)] by (simp only: word_unat_eq_iff unat_of_nat_small le_less_trans)
  have "try_receive_into crc d ?s1 m = try_receive_into crc d ?s2 ?m"
    using R(1) by (simp add: try_receive_into_def next_wal_record_def)
  then have "sub_drain crc d n ?s1 m = sub_drain crc d n ?s2 ?m"
    by (simp add: n)
  moreover have "ring_refines (sb_ring ?s2) ?m ?a"
    using assms(6,7) unfolding p by (simp add: set_cursor_refines [OF assms(1,2)] cursor_rel_def)
  then have "\<exists>m'. sub_drain crc d n ?s2 ?m = Some (drop (p - a_base ?a) (a_msgs ?a), ?s2\<lparr>sb_cursor := of_nat (a_tail ?a)\<rparr>, m')
    \<and> ring_refines (sb_ring ?s2) m' (?a\<lparr>a_cursors := (a_cursors ?a)[sb_idx ?s2 := Some (a_tail ?a)]\<rparr>)"
    using assms(2,5-9) ring_refinesD(7) [OF assms(1)] by (intro drain_ring) (simp_all add: a_tail_def)
  ultimately show ?thesis
    using R(2) [of n] by (auto simp: a_tail_def)
qed

subsection \<open>Connecting\<close>

lemma connect_quiet:
  assumes "ring_refines r m a" "ring_open (Some m) = Some (Inr r)" "first_free (a_cursors a) = Some idx"
    "ce_opens env = (Some m, late) # attempts" "handshake name env = Some (Inr ())" "ce_meanwhile env = id"
  shows "\<exists>m'. connect_with name env start = Some (fst (resync start (ce_dir env) r idx m'),
        Some (snd (resync start (ce_dir env) r idx m')))
      \<and> ring_refines r m' (a\<lparr>a_cursors := (a_cursors a)[idx := Some (a_tail a)]\<rparr>)
      \<and> idx < unat (max_subscribers r) \<and> generation m' = generation m"
proof -
  note D = ring_refinesD [OF assms(1)] and C = claim_refines [OF assms(1), where w = "current_tail m"]
  have i: "idx < unat (max_subscribers r)"
    using assms(3) D(7) by (simp add: first_free_Some)
  let ?m = "clear_wakeflag r (set_cursor m idx (current_tail m)) idx"
  have "cursor_rel a (current_tail m) (Some (a_tail a))"
    using D(6) by (simp add: cursor_rel_def a_tail_def)
  then have "ring_refines r ?m (a\<lparr>a_cursors := (a_cursors a)[idx := Some (a_tail a)]\<rparr>)"
    unfolding clear_wakeflag_def by (intro wakeflag_refines set_cursor_refines assms(1) i)
  moreover have "claim_cursor r m (current_tail m) = (Some idx, ?m)"
    using C(1,3) assms(3) by (simp add: prod_eq_iff)
  moreover have "generation ?m = generation m"
    using header_wakeflag(2) [OF mapped_low_writes(2) [OF D(2) i] i] header_set_cursor(2) [OF D(2) i]
    by (simp add: clear_wakeflag_def)
  ultimately show ?thesis
    using assms(2,4-6) i by (intro exI [of _ ?m]) (simp add: connect_with_def split_beta)
qed

lemma resync_live:
  assumes "ring_refines r m a" "idx < unat (max_subscribers r)"
    "start_at start r (current_tail m) dir = Inr (of_nat c, None)" "a_base a \<le> c" "c \<le> a_tail a"
  shows "\<exists>m'. resync start dir r idx m = (Inr \<lparr>sb_ring = r, sb_cursor = of_nat c, sb_idx = idx,
        sb_generation = generation m, sb_replay = None\<rparr>, m')
    \<and> ring_refines r m' (a\<lparr>a_cursors := (a_cursors a)[idx := Some c]\<rparr>) \<and> unat (of_nat c :: u64) = c"
proof -
  note D = ring_refinesD [OF assms(1)]
  have "ring_refines r (set_cursor m idx (of_nat c)) (a\<lparr>a_cursors := (a_cursors a)[idx := Some c]\<rparr>)"
    using assms(4,5) by (intro set_cursor_refines [OF assms(1,2)]) (simp add: cursor_rel_def)
  moreover have "unat (of_nat c :: u64) = c"
    using assms(5) D(5) by (intro unat_of_nat_small) simp
  ultimately show ?thesis
    using assms(3) header_set_cursor(2) [OF D(2) assms(2)] by (simp add: resync_def)
qed

lemma ring_oldest:
  assumes "ring_refines r m a"
  shows "unat (saturating_sub (current_tail m) (ucast (capacity r))) = a_tail a - ncap r"
proof -
  have "unat (ucast (capacity r) :: u64) = ncap r"
    by (simp add: ncap_def)
  then show ?thesis
    using ring_refinesD(4) [OF assms] by (simp add: unat_saturating_sub)
qed

text \<open>The log as a subscriber finds it.\<close>

lemma log_from:
  assumes "wal_rep crc d w segs i j" "fst (hd segs) \<le> c"
  shows "wal_reader_open (Some d) = index_of segs" "segs \<noteq> []" "j \<le> length (snd (last segs))"
    "\<exists>rp. wal_reader_read_from c (index_of segs) = Inr rp \<and> replay_all crc d rp =
      map Inr (drop (unat c - unat (fst (hd segs)))
        (take (unat (fst (last segs)) + j - unat (fst (hd segs))) (log_of segs)))"
    "unat (fst (hd segs)) \<le> unat (fst (last segs)) + j"
proof -
  from assms(1) obtain ss l sw where r: "segs = ss @ [l]" "open_seg crc d sw (snd l) i j" "dir_ok d"
    "\<forall>x \<in> set ss. closed_seg crc d x" "sw_name sw = seg_name (fst l)" "sw_first sw = fst l"
    "well_numbered (ss @ [l])" "no_strays d (ss @ [l])"
    by (rule wal_repE)
  then have "dir_of d segs"
    by (auto simp: dir_of_def dir_ok_def closed_seg_def open_seg_def)
  then show "wal_reader_open (Some d) = index_of segs"
    using index_names_dir by (simp add: wal_reader_open_def)
  show ne: "segs \<noteq> []" and j: "j \<le> length (snd (last segs))"
    using r(1,2) by (simp_all add: open_seg_def)
  have ch: "chain (unat (fst (hd segs))) segs"
    using assms(1) ne by (simp add: wal_rep_def well_numbered_def)
  note F = flushed_log [OF ch ne j]
  show "unat (fst (hd segs)) \<le> unat (fst (last segs)) + j"
    by (rule F(2))
  have "chain (unat (fst (hd segs))) (flushed segs j)"
    using flushed_chain assms(1) ne by (simp add: wal_rep_def)
  then have "filter (\<lambda>r. c \<le> r_cursor r) (log_of (flushed segs j)) =
      drop (unat c - unat (fst (hd segs))) (log_of (flushed segs j))"
    by (intro numbered_from chain_numbered)
  then show "\<exists>rp. wal_reader_read_from c (index_of segs) = Inr rp \<and> replay_all crc d rp =
      map Inr (drop (unat c - unat (fst (hd segs)))
        (take (unat (fst (last segs)) + j - unat (fst (hd segs))) (log_of segs)))"
    using read_in_use [OF assms(1), of c] assms(2) unfolding F(1) wal_reader_read_from_def
    by (auto split: sum.splits simp: not_le)
qed


subsection \<open>Positions\<close>

lemma connect_resync_errors:
  "resync start dir r idx m = (Inl e, m') \<Longrightarrow> m' = release_cursor m idx"
  by (auto simp: resync_def Let_def split: sum.splits prod.splits)

lemma first_free_update: "first_free cs = Some i \<Longrightarrow> (cs[i := x])[i := None] = cs"
  by (metis first_free_Some list_update_id list_update_overwrite)

text \<open>Connecting either succeeds or leaves no trace. Whatever goes wrong after the cursor slot was
  claimed (the eventfd, the socket, the handshake, a position that is too old), the ring is left with
  the same log and the same cursors as before.\<close>

theorem connect_error_releases_slot:
  assumes "ring_refines r m a" "ring_open (Some m) = Some (Inr r)" "ce_opens env = (Some m, late) # attempts"
    "ce_meanwhile env = id" "connect_with name env start = Some (Inl e, file)"
  shows "\<exists>m'. file = Some m' \<and> ring_refines r m' a"
proof -
  note C = claim_refines [OF assms(1), where w = "current_tail m"] and D = ring_refinesD [OF assms(1)]
  show ?thesis
  proof (cases "first_free (a_cursors a)")
    case None
    then have "claim_cursor r m (current_tail m) = (None, m)"
      using C(1,2) by (simp add: prod_eq_iff)
    then show ?thesis
      using assms by (auto simp: connect_with_def)
  next
    case (Some idx)
    let ?a = "a\<lparr>a_cursors := (a_cursors a)[idx := Some (a_tail a)]\<rparr>"
    have i: "idx < unat (max_subscribers r)"
      using Some D(7) by (simp add: first_free_Some)
    obtain m1 where m1: "claim_cursor r m (current_tail m) = (Some idx, m1)" "ring_refines r m1 ?a"
    proof -
      have "cursor_rel a (current_tail m) (Some (a_tail a))"
        using D(6) by (simp add: cursor_rel_def a_tail_def)
      then have "ring_refines r (clear_wakeflag r (set_cursor m idx (current_tail m)) idx) ?a"
        unfolding clear_wakeflag_def by (intro wakeflag_refines set_cursor_refines assms(1) i)
      then show ?thesis
        using that C(1) C(3) [of idx] Some by (simp add: prod_eq_iff)
    qed
    have "ring_refines r (release_cursor m1 idx) (?a\<lparr>a_cursors := (a_cursors ?a)[idx := None]\<rparr>)"
      unfolding release_cursor_def by (intro set_cursor_refines [OF m1(2) i]) (simp add: cursor_rel_def)
    moreover have "?a\<lparr>a_cursors := (a_cursors ?a)[idx := None]\<rparr> = a"
      using first_free_update [OF Some] by simp
    ultimately have rel: "ring_refines r (release_cursor m1 idx) a"
      by simp
    show ?thesis
    proof (cases "handshake name env")
      case None
      then show ?thesis
        using assms m1(1) by (simp add: connect_with_def)
    next
      case hs: (Some res)
      show ?thesis
      proof (cases res)
        case (Inl e')
        then show ?thesis
          using assms m1(1) hs rel by (auto simp: connect_with_def)
      next
        case (Inr u)
        then have "resync start (ce_dir env) r idx m1 = (Inl e, the file)" "file \<noteq> None"
          using assms m1(1) hs by (auto simp: connect_with_def split: prod.splits)
        then show ?thesis
          using connect_resync_errors rel by fastforce
      qed
    qed
  qed
qed

text \<open>The three ways to start within the ring. \<open>Now\<close> starts at the tail, \<open>HistoryBack n\<close> \<open>n\<close>
  messages before it, \<open>Explicit c\<close> at \<open>c\<close>; the cursor slot holds the same position, so that the
  publisher takes the subscriber into account from there on.\<close>

theorem connect_positions:
  assumes "ring_refines r m a" "ring_open (Some m) = Some (Inr r)" "first_free (a_cursors a) = Some idx"
    "ce_opens env = (Some m, late) # attempts" "handshake name env = Some (Inr ())" "ce_meanwhile env = id"
    "case start of Now \<Rightarrow> c = a_tail a | HistoryBack n \<Rightarrow> c = a_tail a - unat n
       | Explicit k \<Rightarrow> c = unat k \<and> a_tail a - ncap r \<le> c"
    "a_base a \<le> c" "c \<le> a_tail a"
  shows "\<exists>m' s. connect_with name env start = Some (Inr s, Some m') \<and> unat (sb_cursor s) = c
    \<and> sb_replay s = None \<and> sb_idx s = idx \<and> sb_generation s = generation m' \<and> sb_ring s = r
    \<and> ring_refines r m' (a\<lparr>a_cursors := (a_cursors a)[idx := Some c]\<rparr>)"
proof -
  obtain m1 where m1: "connect_with name env start = Some (fst (resync start (ce_dir env) r idx m1),
        Some (snd (resync start (ce_dir env) r idx m1)))"
    "ring_refines r m1 (a\<lparr>a_cursors := (a_cursors a)[idx := Some (a_tail a)]\<rparr>)" "idx < unat (max_subscribers r)"
    using connect_quiet [OF assms(1-6)] by blast
  let ?a = "a\<lparr>a_cursors := (a_cursors a)[idx := Some (a_tail a)]\<rparr>"
  have tail: "a_tail ?a = a_tail a"
    by (simp add: a_tail_def)
  note D = ring_refinesD [OF m1(2)]
  have c: "unat (of_nat c :: u64) = c"
    using assms(9) D(5) unfolding tail by (intro unat_of_nat_small) simp
  have "start_at start r (current_tail m1) (ce_dir env) = Inr (of_nat c, None)"
  proof (cases start)
    case Now
    then show ?thesis
      using assms(7) D(6) tail by (simp add: start_at_def)
  next
    case (HistoryBack n)
    then have "unat (saturating_sub (current_tail m1) n) = unat (of_nat c :: u64)"
      using assms(7) D(4) c unfolding tail by (simp add: unat_saturating_sub)
    then show ?thesis
      using HistoryBack by (simp add: start_at_def word_unat_eq_iff)
  next
    case (Explicit k)
    then have "k = of_nat c" "\<not> k < saturating_sub (current_tail m1) (ucast (capacity r))"
      using assms(7) ring_oldest [OF m1(2)] unfolding tail by (simp_all add: word_less_nat_alt)
    then show ?thesis
      using Explicit by (simp add: start_at_def not_less Let_def)
  qed
  from resync_live [OF m1(2,3) this] assms(8,9) obtain m' where
    m': "resync start (ce_dir env) r idx m1 = (Inr \<lparr>sb_ring = r, sb_cursor = of_nat c, sb_idx = idx,
        sb_generation = generation m1, sb_replay = None\<rparr>, m')"
    "ring_refines r m' (?a\<lparr>a_cursors := (a_cursors ?a)[idx := Some c]\<rparr>)"
    unfolding tail by auto
  have "generation m' = generation m1"
    using m'(1) by (auto simp: resync_def Let_def split: sum.splits prod.splits)
  then show ?thesis
    using m1(1) m' c by auto
qed

text \<open>A subscriber that starts beyond the tail, alone on a topic under the Error policy, blocks it: the
  distance from its cursor to the tail wraps around, so the ring counts as full and every publish is
  refused, and as nothing is published the subscriber never gets a message.\<close>

theorem future_cursor_blocks_publisher:
  assumes "ring_refines r m a" "ring_open (Some m) = Some (Inr r)" "\<forall>x \<in> set (a_cursors a). x = None"
    "a_cursors a \<noteq> []" "ce_opens env = (Some m, late) # attempts" "handshake name env = Some (Inr ())" "ce_meanwhile env = id"
    "a_tail a < unat c" "unat c < 2 ^ 63"
  shows "\<exists>s m'. connect_with name env (Explicit c) = Some (Inr s, Some m')
    \<and> (\<forall>out. ring_receive s out m' = Some (False, out, s, m'))
    \<and> (\<forall>data. length data \<le> unat (slot_payload_size r) \<longrightarrow> try_publish r m' data = Some (False, m'))"
proof -
  have "first_free (a_cursors a) = Some 0"
    using assms(3,4) by (cases "a_cursors a") simp_all
  from connect_quiet [OF assms(1,2) this assms(5-7)] obtain m1 where
    m1: "connect_with name env (Explicit c) = Some (fst (resync (Explicit c) (ce_dir env) r 0 m1),
        Some (snd (resync (Explicit c) (ce_dir env) r 0 m1)))"
    "ring_refines r m1 (a\<lparr>a_cursors := (a_cursors a)[0 := Some (a_tail a)]\<rparr>)" "0 < unat (max_subscribers r)"
    by blast
  let ?a = "a\<lparr>a_cursors := (a_cursors a)[0 := Some (a_tail a)]\<rparr>"
  have tail: "a_tail ?a = a_tail a"
    by (simp add: a_tail_def)
  note D = ring_refinesD [OF m1(2)]
  let ?m = "set_cursor m1 0 c"
  let ?s = "\<lparr>sb_ring = r, sb_cursor = c, sb_idx = 0, sb_generation = generation ?m, sb_replay = None\<rparr>"
  have "\<not> c < saturating_sub (current_tail m1) (ucast (capacity r))"
    using ring_oldest [OF m1(2)] assms(8) unfolding tail by (simp add: word_less_nat_alt)
  then have con: "connect_with name env (Explicit c) = Some (Inr ?s, Some ?m)"
    using m1(1) by (simp add: resync_def start_at_def Let_def not_less)
  note H = header_set_cursor [OF D(2) m1(3), where v = c]
  have ahead: "current_tail ?m < c"
    using H(1) D(4) assms(8) tail by (simp add: word_less_nat_alt)
  then have "rd64 ?m OFF_TAIL \<le> c"
    by (simp add: current_tail_def)
  then have rcv: "ring_receive ?s out ?m = Some (False, out, ?s, ?m)" for out
    by (simp add: ring_receive_def try_receive_def try_receive_at_def)
  have "claimed r ?m = {c}"
  proof -
    have "cursor_at ?m j = (if j = 0 then c else CURSOR_UNCLAIMED)" if "j < unat (max_subscribers r)" for j
    proof -
      have "a_cursors a ! j = None" if "j \<noteq> 0"
        using that \<open>j < unat (max_subscribers r)\<close> D(7) assms(3) by (metis nth_mem alog.select_convs(3) alog.surjective alog.update_convs(3) length_list_update)
      then show ?thesis
        using H(3) D(8) [OF that] by (cases "j = 0") (simp_all add: cursor_rel_def)
    qed
    moreover have "c \<noteq> CURSOR_UNCLAIMED"
      using assms(9) by (auto simp: CURSOR_UNCLAIMED_def unsigned_minus_1_eq_mask mask_eq_exp_minus_1)
    ultimately show ?thesis
      using m1(3) by (auto simp: claimed_def split: if_splits intro!: exI [of _ "0 :: nat"])
  qed
  then have "is_full r ?m \<longleftrightarrow> ucast (capacity r) \<le> current_tail ?m - c"
    by (simp add: is_full_def min_active_cursor_eq)
  moreover have "ucast (capacity r) \<le> current_tail ?m - c"
  proof -
    have "unat (current_tail ?m - c) = 2 ^ 64 + unat (current_tail ?m) - unat c"
      using ahead by (simp add: unat_sub_if' word_less_nat_alt not_le)
    moreover have "unat (ucast (capacity r) :: u64) < 2 ^ 32"
      using unat_u32_less [of "capacity r"] by simp
    ultimately show ?thesis
      using assms(9) by (simp add: word_le_nat_alt)
  qed
  ultimately have "try_publish r ?m data = Some (False, ?m)" if "length data \<le> unat (slot_payload_size r)" for data
    using that by (simp add: try_publish_full_iff)
  then show ?thesis
    using con rcv by (intro exI [of _ ?s] exI [of _ ?m]) simp
qed

subsection \<open>Waking up\<close>

text \<open>A publish by another process, as the subscriber finds the map after it.\<close>

definition others_publish :: "ring \<Rightarrow> bytes \<Rightarrow> bytes \<Rightarrow> bytes" where
  "others_publish r data m = (case try_publish r m data of Some (True, m') \<Rightarrow> m' | _ \<Rightarrow> m)"

lemma others_publish_refines:
  assumes "ring_refines r m a" "length data \<le> unat (slot_payload_size r)" "a_tail a + 1 < 2 ^ 63" "\<not> a_full (ncap r) a"
  shows "ring_refines r (others_publish r data m) (a\<lparr>a_msgs := a_msgs a @ [data]\<rparr>)"
    "current_tail (others_publish r data m) = of_nat (a_tail a + 1)" "unat (current_tail (others_publish r data m)) = a_tail a + 1"
proof -
  obtain m' where m': "write_slot r m (current_tail m) data = Some m'"
    "ring_refines r (set_tail m' (current_tail m + 1)) (a\<lparr>a_msgs := a_msgs a @ [data]\<rparr>)"
    using publish_refines [OF assms(1-3)] by blast
  have o: "others_publish r data m = set_tail m' (current_tail m + 1)"
    using assms(2,4) m'(1) is_full_refines [OF assms(1)] by (simp add: others_publish_def try_publish_full_iff)
  show "ring_refines r (others_publish r data m) (a\<lparr>a_msgs := a_msgs a @ [data]\<rparr>)"
    using m'(2) o by simp
  then show "current_tail (others_publish r data m) = of_nat (a_tail a + 1)" "unat (current_tail (others_publish r data m)) = a_tail a + 1"
    using ring_refinesD(4,6) by (fastforce simp: a_tail_def)+
qed

lemma others_publish_generation:
  assumes "ring_refines r m a" "length data \<le> unat (slot_payload_size r)"
  shows "generation (others_publish r data m) = generation m"
proof -
  note mp = ring_refinesD(2) [OF assms(1)]
  note F = write_slot_frame [OF mp assms(2), where tail = "current_tail m"]
  have "others_publish r data m = (if is_full r m then m
      else set_tail (apply_stores m (write_slot_stores r (current_tail m) data)) (current_tail m + 1))"
    using assms(2) write_slot_ok [OF mp assms(2)] by (simp add: others_publish_def try_publish_full_iff)
  then show ?thesis
    using F(4) header_set_tail(2) [OF F(1)] by simp
qed

text \<open>C23: a subscriber that has read everything gets the next message, whether it is published between
  the subscriber's last look at the ring and its sleep, or while it sleeps and is then woken; its cursor
  moves past the message.\<close>

theorem receive_gets_next_publish:
  assumes "ring_refines (sb_ring s) m a" "sb_idx s < unat (max_subscribers (sb_ring s))" "sb_replay s = None"
    "unat (sb_cursor s) = a_tail a" "sb_generation s = generation m" "\<not> a_full (ncap (sb_ring s)) a"
    "length data \<le> unat (slot_payload_size (sb_ring s))" "a_tail a + 1 < 2 ^ 63"
    "wn_arming env = others_publish (sb_ring s) data
     \<or> wn_arming env = id \<and> wn_asleep env = others_publish (sb_ring s) data \<and> wn_poll env = Inr () \<and> wn_drain env = Inr ()"
  shows "\<exists>s' m'. receive_into crc d [env] s m = Some (Inr data, s', m') \<and> unat (sb_cursor s') = a_tail a + 1
    \<and> ring_refines (sb_ring s) m' (a\<lparr>a_msgs := a_msgs a @ [data], a_cursors := (a_cursors a)[sb_idx s := Some (a_tail a + 1)]\<rparr>)"
proof -
  let ?r = "sb_ring s" and ?i = "sb_idx s" and ?a = "a\<lparr>a_msgs := a_msgs a @ [data]\<rparr>"
  let ?m0 = "set_wakeflag ?r m ?i"
  let ?m1 = "others_publish ?r data ?m0"
  let ?m2 = "clear_wakeflag ?r ?m1 ?i"
  note D = ring_refinesD [OF assms(1)]
  have R0: "ring_refines ?r ?m0 a"
    unfolding set_wakeflag_def by (rule wakeflag_refines [OF assms(1,2)])
  have g0: "generation ?m0 = generation m"
    unfolding set_wakeflag_def by (rule header_wakeflag(2) [OF D(2) assms(2)])
  note P = others_publish_refines [OF R0 assms(7,8,6)]
  have behind: "sb_cursor s < current_tail ?m1"
    using P(3) assms(4) by (simp add: word_less_nat_alt)
  have even: "\<not> sb_cursor s < current_tail ?m0"
    using ring_refinesD(4) [OF R0] assms(4) by (simp add: word_less_nat_alt)
  have gen: "generation ?m1 = sb_generation s"
    using others_publish_generation [OF R0 assms(7)] g0 assms(5) by simp
  have wait: "wait_readable env s m = (Inr True, ?m2)"
    using assms(9) behind even gen by (auto simp: wait_readable_def wait_wakeup_def Let_def)
  have R2: "ring_refines ?r ?m2 ?a"
    unfolding clear_wakeflag_def by (rule wakeflag_refines [OF P(1) assms(2)])
  have "a_base ?a \<le> a_tail a" "a_tail a < a_tail ?a" "a_tail ?a \<le> a_tail a + ncap ?r"
    using D(3) by (simp_all add: a_tail_def)
  from ring_receive_next [OF R2 assms(2,4) this, of "[]"] obtain m' where
    "ring_receive s [] ?m2 = Some (True, data, s\<lparr>sb_cursor := of_nat (a_tail a + 1)\<rparr>, m')"
    "ring_refines ?r m' (?a\<lparr>a_cursors := (a_cursors ?a)[?i := Some (a_tail a + 1)]\<rparr>)"
    by (auto simp: a_tail_def)
  moreover have "unat (of_nat (a_tail a + 1) :: u64) = a_tail a + 1"
    by (rule unat_of_nat_small [OF assms(8)])
  ultimately show ?thesis
    using wait ring_receive_empty [OF assms(1,4)] assms(3)
    by (simp add: receive_into_def next_wal_record_def receive_loop.simps)
qed

text \<open>A subscriber that sleeps while another publisher takes the topic over is told so: its receive
  ends with an unexpected end of file instead of waiting on a ring that starts again at 0, and its wakeup
  flag is cleared.\<close>

theorem restart_ends_subscription:
  assumes "ring_refines (sb_ring s) m a" "sb_idx s < unat (max_subscribers (sb_ring s))" "sb_replay s = None"
    "unat (sb_cursor s) = a_tail a" "sb_generation s = generation m" "ring_open (Some m) = Some (Inr (sb_ring s))"
    "wn_arming env = id" "wn_poll env = Inr ()" "wn_drain env = Inr ()"
    "wn_asleep env = (\<lambda>m. case ring_create_or_reuse (Some m) (capacity (sb_ring s)) (slot_payload_size (sb_ring s))
        (max_subscribers (sb_ring s)) of Some (_, m') \<Rightarrow> m' | None \<Rightarrow> m)"
  shows "\<exists>s' m'. receive_into crc d [env] s m = Some (Inl (BusIo IoUnexpectedEof), s', m')
    \<and> generation m' = sb_generation s + 1 \<and> wakeflag_at (sb_ring s) m' (sb_idx s) = 0"
proof -
  let ?r = "sb_ring s" and ?i = "sb_idx s"
  let ?m0 = "set_wakeflag ?r m ?i"
  note D = ring_refinesD [OF assms(1)]
  have R0: "ring_refines ?r ?m0 a"
    unfolding set_wakeflag_def by (rule wakeflag_refines [OF assms(1,2)])
  note D0 = ring_refinesD [OF R0]
  have g0: "generation ?m0 = generation m"
    unfolding set_wakeflag_def by (rule header_wakeflag(2) [OF D(2) assms(2)])
  have "64 \<le> length m" "64 + 16 * unat (max_subscribers ?r) \<le> length m"
    using mapped_tail_room [OF D(2)] mapped_bounds(1,3) [OF D(2)] by simp_all
  then have "ring_open (Some ?m0) = ring_open (Some m)"
    using assms(2) unfolding ring_open_def set_wakeflag_def
    by (simp add: wakeflag_addr_eq buf_simps disjoint_ranges_def)
  then have op: "ring_open (Some ?m0) = Some (Inr ?r)"
    using assms(6) by simp
  let ?m1 = "set_tail (wr64 ?m0 OFF_GENERATION (generation ?m0 + 1)) 0"
  have re: "wn_asleep env ?m0 = ?m1"
    using op mapped_tail_room [OF D0(2)] by (simp add: assms(10) ring_create_or_reuse_def Let_def)
  note G = mapped_low_writes(4) [OF D0(2), of "generation ?m0 + 1"]
  have mp1: "mapped ?r ?m1"
    by (rule mapped_low_writes(1) [OF G])
  have gen: "generation ?m1 = sb_generation s + 1"
    using header_set_tail(2) [OF G] header_generation(2) [OF D0(2)] g0 assms(5) by simp
  have even: "\<not> sb_cursor s < current_tail ?m0"
    using D0(4) assms(4) by (simp add: word_less_nat_alt)
  have "wait_readable env s m = (Inl (BusIo IoUnexpectedEof), clear_wakeflag ?r ?m1 ?i)"
    using even gen re assms(7-9) by (simp add: wait_readable_def wait_wakeup_def Let_def)
  then have "receive_into crc d [env] s m = Some (Inl (BusIo IoUnexpectedEof), s, clear_wakeflag ?r ?m1 ?i)"
    using ring_receive_empty [OF assms(1,4)] assms(3) by (simp add: receive_into_def next_wal_record_def receive_loop.simps)
  moreover have "generation (clear_wakeflag ?r ?m1 ?i) = sb_generation s + 1" "wakeflag_at ?r (clear_wakeflag ?r ?m1 ?i) ?i = 0"
    using header_wakeflag(2,4) [OF mp1 assms(2)] gen by (simp_all add: clear_wakeflag_def)
  ultimately show ?thesis
    by blast
qed

end
