(* ===== verification/Eventcount.thy ===== *)
theory Eventcount
  imports Subscriber_Properties
begin

text \<open>
  The sleeping and waking protocol between one subscriber and the publisher of a topic.  The operations of
  the two sides (subscriber.rs wait_wakeup / receive_into, publisher.rs publish / publish_batch / wake_all,
  waker.rs) touch one mapping and one eventfd; here they are cut into the stores and system calls at which
  the two processes can interleave, as an inductive step relation, and the theorems are about every run.
\<close>

subsection \<open>The two sides as interleaved steps\<close>

datatype sub_pc = Connecting | Linking | Reading | Arming | Checking | Sleeping | Waking

datatype pub_pc = Idle | Accepted | Stored

record wakeup_state =
  ws_map :: bytes
  ws_count :: u64
  ws_cursor :: u64
  ws_linked :: bool
  ws_sub :: sub_pc
  ws_pub :: pub_pc

text \<open>What everybody else on the topic may do to the map.\<close>

definition undisturbed :: "ring \<Rightarrow> nat \<Rightarrow> bytes \<Rightarrow> bytes \<Rightarrow> bool" where
  "undisturbed r i m m' \<longleftrightarrow> mapped r m' \<and> current_tail m' = current_tail m
     \<and> cursor_at m' i = cursor_at m i \<and> wakeflag_at r m' i = wakeflag_at r m i"

inductive wakeup_step :: "ring \<Rightarrow> nat \<Rightarrow> wakeup_state \<Rightarrow> wakeup_state \<Rightarrow> bool" for r i where
  connect: "ws_sub x = Connecting \<Longrightarrow> wakeup_step r i x (x\<lparr>ws_sub := Linking\<rparr>)"
| resync: "ws_sub x = Linking \<Longrightarrow> wakeup_step r i x (x\<lparr>ws_sub := Reading, ws_cursor := current_tail (ws_map x),
    ws_map := set_cursor (ws_map x) i (current_tail (ws_map x))\<rparr>)"
| receive: "ws_sub x = Reading \<Longrightarrow> try_receive r (ws_map x) i (ws_cursor x) [] = Some (Some c, out, m')
    \<Longrightarrow> wakeup_step r i x (x\<lparr>ws_cursor := c, ws_map := m'\<rparr>)"
| empty: "ws_sub x = Reading \<Longrightarrow> try_receive r (ws_map x) i (ws_cursor x) [] = Some (None, out, m')
    \<Longrightarrow> wakeup_step r i x (x\<lparr>ws_sub := Arming\<rparr>)"
| arm: "ws_sub x = Arming \<Longrightarrow> wakeup_step r i x (x\<lparr>ws_sub := Checking, ws_map := set_wakeflag r (ws_map x) i\<rparr>)"
| again: "ws_sub x = Checking \<Longrightarrow> ws_cursor x < current_tail (ws_map x)
    \<Longrightarrow> wakeup_step r i x (x\<lparr>ws_sub := Reading, ws_map := clear_wakeflag r (ws_map x) i\<rparr>)"
| sleep: "ws_sub x = Checking \<Longrightarrow> \<not> ws_cursor x < current_tail (ws_map x)
    \<Longrightarrow> wakeup_step r i x (x\<lparr>ws_sub := Sleeping\<rparr>)"
| wake: "ws_sub x = Sleeping \<Longrightarrow> eventfd_drain (ws_count x) = (Inr v, count')
    \<Longrightarrow> wakeup_step r i x (x\<lparr>ws_sub := Waking, ws_count := count'\<rparr>)"
| awake: "ws_sub x = Waking \<Longrightarrow> wakeup_step r i x (x\<lparr>ws_sub := Reading, ws_map := clear_wakeflag r (ws_map x) i\<rparr>)"
| accept: "ws_pub x = Idle
    \<Longrightarrow> wakeup_step r i x (x\<lparr>ws_pub := Accepted, ws_linked := ws_linked x \<or> ws_sub x \<noteq> Connecting\<rparr>)"
| full: "ws_pub x = Accepted \<Longrightarrow> try_publish r (ws_map x) data = Some (False, m') \<Longrightarrow> wakeup_step r i x (x\<lparr>ws_pub := Idle\<rparr>)"
| store: "ws_pub x \<noteq> Idle \<Longrightarrow> try_publish r (ws_map x) data = Some (True, m')
    \<Longrightarrow> wakeup_step r i x (x\<lparr>ws_pub := Stored, ws_map := m'\<rparr>)"
| signal: "ws_pub x = Stored \<Longrightarrow> ws_linked x \<Longrightarrow> take_wakeflag r (ws_map x) i = (True, m')
    \<Longrightarrow> wakeup_step r i x (x\<lparr>ws_pub := Idle, ws_map := m', ws_count := snd (eventfd_wake (ws_count x))\<rparr>)"
| skip: "ws_pub x = Stored \<Longrightarrow> ws_linked x \<Longrightarrow> take_wakeflag r (ws_map x) i = (False, m')
    \<Longrightarrow> wakeup_step r i x (x\<lparr>ws_pub := Idle, ws_map := m'\<rparr>)"
| unseen: "ws_pub x = Stored \<Longrightarrow> \<not> ws_linked x \<Longrightarrow> wakeup_step r i x (x\<lparr>ws_pub := Idle\<rparr>)"
| others: "undisturbed r i (ws_map x) m' \<Longrightarrow> wakeup_step r i x (x\<lparr>ws_map := m'\<rparr>)"

abbreviation wakeup_reach :: "ring \<Rightarrow> nat \<Rightarrow> wakeup_state \<Rightarrow> wakeup_state \<Rightarrow> bool" where
  "wakeup_reach r i \<equiv> rtranclp (wakeup_step r i)"

subsection \<open>What the stores of one step leave alone\<close>

lemma try_receive_map:
  assumes "mapped r m" "i < unat (max_subscribers r)" "try_receive r m i c out = Some (res, out', m')"
  shows "m' = m \<or> (\<exists>c'. m' = set_cursor m i c')"
  using assms(3) by (auto simp: try_receive_def try_receive_at_def apply_stores_def apply_store_def set_cursor_def
      wr64_def Let_def simp del: recv_loop.simps split: if_splits prod.splits option.splits)

lemma try_receive_mapped:
  assumes "mapped r m" "i < unat (max_subscribers r)" "try_receive r m i c out = Some (res, out', m')"
  shows "mapped r m'"
  using try_receive_map [OF assms] assms(1,2) by (auto simp: mapped_low_writes)

lemma try_publish_map:
  assumes "mapped r m" "i < unat (max_subscribers r)" "try_publish r m data = Some (True, m')"
  shows "mapped r m'" "wakeflag_at r m' i = wakeflag_at r m i" "cursor_at m' i = cursor_at m i"
    "current_tail m' = current_tail m + 1" "\<not> is_full r m" "length data \<le> unat (slot_payload_size r)"
proof -
  show len: "length data \<le> unat (slot_payload_size r)" "\<not> is_full r m"
    using assms(3) by (auto simp: try_publish_def is_full_def Let_def split: if_splits option.splits)
  let ?s = "apply_stores m (write_slot_stores r (current_tail m) data)"
  note F = write_slot_frame [OF assms(1) len(1), where tail = "current_tail m"]
  have "m' = set_tail ?s (current_tail m + 1)"
    using assms(3) len(2) write_slot_ok [OF assms(1) len(1)] len(1) by (simp add: try_publish_full_iff)
  then show "mapped r m'" "wakeflag_at r m' i = wakeflag_at r m i" "cursor_at m' i = cursor_at m i"
    "current_tail m' = current_tail m + 1"
    using header_set_tail [OF F(1), of "current_tail m + 1"] mapped_low_writes(1) [OF F(1)] F(5,6) assms(2)
    by simp_all
qed

definition wakeup_inv :: "ring \<Rightarrow> nat \<Rightarrow> wakeup_state \<Rightarrow> bool" where
  "wakeup_inv r i x \<longleftrightarrow> mapped r (ws_map x) \<and> i < unat (max_subscribers r) \<and> ws_linked x
     \<and> (ws_sub x \<in> {Checking, Sleeping} \<longrightarrow> wakeflag_at r (ws_map x) i = WAKEFLAG_WAITING \<or> ws_count x \<noteq> 0)
     \<and> (ws_sub x = Sleeping \<longrightarrow> ws_cursor x < current_tail (ws_map x) \<longrightarrow> ws_count x \<noteq> 0 \<or> ws_pub x = Stored)"

lemma eventfd_wake_nonzero: "snd (eventfd_wake k) \<noteq> 0"
proof (cases "- 2 \<le> k")
  case True
  then have "k \<noteq> 0"
    by auto
  then show ?thesis
    using True by (simp add: eventfd_wake_def)
next
  case False
  have "k + 1 \<noteq> 0"
  proof
    assume "k + 1 = 0"
    then have "k = - 1"
      by (simp only: eq_neg_iff_add_eq_0)
    then show False
      using False by simp
  qed
  then show ?thesis
    using False by (simp add: eventfd_wake_def)
qed

lemma wakeup_inv_step: "wakeup_step r i x y \<Longrightarrow> wakeup_inv r i x \<Longrightarrow> wakeup_inv r i y"
proof (induction rule: wakeup_step.induct)
  case (resync x)
  then show ?case
    by (simp add: wakeup_inv_def mapped_low_writes)
next
  case (receive x c out m')
  then have "mapped r m'"
    using try_receive_mapped [OF _ _ receive(2)] by (simp add: wakeup_inv_def)
  then show ?case
    using receive by (simp add: wakeup_inv_def)
next
  case (arm x)
  then show ?case
    by (simp add: wakeup_inv_def set_wakeflag_def mapped_low_writes header_wakeflag)
next
  case (again x)
  then show ?case
    by (simp add: wakeup_inv_def clear_wakeflag_def mapped_low_writes)
next
  case (awake x)
  then show ?case
    by (simp add: wakeup_inv_def clear_wakeflag_def mapped_low_writes)
next
  case (store x data m')
  then have "mapped r (ws_map x)" "i < unat (max_subscribers r)"
    by (simp_all add: wakeup_inv_def)
  note P = try_publish_map [OF this store(2)]
  then show ?case
    using store(3) by (simp add: wakeup_inv_def)
next
  case (signal x m')
  then have "mapped r m'"
    by (auto simp: wakeup_inv_def take_wakeflag_def mapped_low_writes)
  then show ?case
    using signal eventfd_wake_nonzero by (simp add: wakeup_inv_def)
next
  case (skip x m')
  then have "mapped r m'" "wakeflag_at r (ws_map x) i \<noteq> WAKEFLAG_WAITING"
    by (auto simp: wakeup_inv_def take_wakeflag_def mapped_low_writes)
  then show ?case
    using skip by (auto simp: wakeup_inv_def)
next
  case (others x m')
  then show ?case
    by (auto simp: wakeup_inv_def undisturbed_def)
qed (auto simp: wakeup_inv_def)


subsection \<open>A subscriber that connects during a batch\<close>

lemma lagging_is_full:
  assumes "mapped r m" "i < unat (max_subscribers r)" "cursor_at m i = c" "c \<noteq> CURSOR_UNCLAIMED"
    "c \<le> current_tail m" "unat c + ncap r \<le> unat (current_tail m)"
  shows "is_full r m"
proof -
  have c: "c \<in> claimed r m"
    using assms(2-4) by (auto simp: claimed_def)
  then have le: "Min (claimed r m) \<le> c"
    by (intro Min_le) (simp_all add: claimed_def)
  have "unat (ucast (capacity r) :: u64) = ncap r"
    by (simp add: ncap_def)
  moreover have "Min (claimed r m) \<le> current_tail m"
    using le assms(5) by simp
  then have "unat (current_tail m - Min (claimed r m)) = unat (current_tail m) - unat (Min (claimed r m))"
    by (simp add: unat_sub)
  ultimately show ?thesis
    using c le assms(6) by (auto simp: is_full_def min_active_cursor_eq word_le_nat_alt)
qed

text \<open>The states no step leads out of.\<close>

definition trapped :: "ring \<Rightarrow> nat \<Rightarrow> u64 \<Rightarrow> u64 \<Rightarrow> wakeup_state \<Rightarrow> bool" where
  "trapped r i c tail x \<longleftrightarrow> mapped r (ws_map x) \<and> i < unat (max_subscribers r) \<and> ws_sub x = Sleeping \<and> ws_count x = 0
     \<and> ws_pub x \<noteq> Stored \<and> ws_cursor x = c \<and> cursor_at (ws_map x) i = c \<and> current_tail (ws_map x) = tail
     \<and> c \<noteq> CURSOR_UNCLAIMED \<and> c \<le> tail \<and> unat c + ncap r \<le> unat tail"

lemma trapped_step: "wakeup_step r i x y \<Longrightarrow> trapped r i c tail x \<Longrightarrow> trapped r i c tail y"
proof (induction rule: wakeup_step.induct)
  case (wake x v count')
  then show ?case
    by (simp add: trapped_def eventfd_drain_def)
next
  case (store x data m')
  then have "is_full r (ws_map x)"
    by (intro lagging_is_full [of r _ i c]) (simp_all add: trapped_def)
  then show ?case
    using try_publish_map(5) [OF _ _ store(2), of i] store(3) by (simp add: trapped_def)
next
  case (others x m')
  then show ?case
    by (simp add: trapped_def undisturbed_def)
qed (simp_all add: trapped_def)

lemma publish_now:
  assumes "ring_refines r m a" "length data \<le> unat (slot_payload_size r)" "a_tail a + 1 < 2 ^ 63" "\<not> a_full (ncap r) a"
  obtains m' where "try_publish r m data = Some (True, m')" "ring_refines r m' (a\<lparr>a_msgs := a_msgs a @ [data]\<rparr>)"
proof -
  obtain m' where m': "write_slot r m (current_tail m) data = Some m'"
    "ring_refines r (set_tail m' (current_tail m + 1)) (a\<lparr>a_msgs := a_msgs a @ [data]\<rparr>)"
    using publish_refines [OF assms(1-3)] by blast
  then show ?thesis
    using that assms(2,4) is_full_refines [OF assms(1)] by (simp add: try_publish_full_iff)
qed

lemma store_batch:
  assumes "ring_refines r (ws_map x) a" "length data \<le> unat (slot_payload_size r)" "a_tail a + n < 2 ^ 63"
    "\<forall>k. Some k \<in> set (a_cursors a) \<longrightarrow> a_tail a + n \<le> k + ncap r" "ws_pub x \<noteq> Idle"
  shows "\<exists>m' p. wakeup_reach r i x (x\<lparr>ws_map := m', ws_pub := p\<rparr>) \<and> p \<noteq> Idle \<and> (0 < n \<or> ws_pub x = Stored \<longrightarrow> p = Stored)
    \<and> ring_refines r m' (a\<lparr>a_msgs := a_msgs a @ replicate n data\<rparr>)"
  using assms
proof (induction n arbitrary: x a)
  case 0
  then show ?case
    by (intro exI [of _ "ws_map x"] exI [of _ "ws_pub x"]) simp
next
  case (Suc n)
  let ?a = "a\<lparr>a_msgs := a_msgs a @ [data]\<rparr>"
  have tail: "a_tail ?a = a_tail a + 1"
    by (simp add: a_tail_def)
  have "\<not> a_full (ncap r) a"
    using Suc.prems(4) by (force simp: a_full_iff)
  then obtain m1 where m1: "try_publish r (ws_map x) data = Some (True, m1)" "ring_refines r m1 ?a"
    using publish_now [OF Suc.prems(1,2)] Suc.prems(3) by auto
  let ?x = "x\<lparr>ws_pub := Stored, ws_map := m1\<rparr>"
  have step: "wakeup_step r i x ?x"
    by (rule wakeup_step.store [OF Suc.prems(5) m1(1)])
  obtain m' p where "wakeup_reach r i ?x (?x\<lparr>ws_map := m', ws_pub := p\<rparr>)" "p = Stored"
    "ring_refines r m' (?a\<lparr>a_msgs := a_msgs ?a @ replicate n data\<rparr>)"
    using Suc.IH [of ?x ?a] m1(2) Suc.prems(2-4) tail by auto
  then show ?case
    using converse_rtranclp_into_rtranclp [where r = "wakeup_step r i", OF step]
    by (intro exI [of _ m'] exI [of _ p]) auto
qed

text \<open>C22: What the protocol does not cover: a subscriber whose handshake completes after a batch looked for new
  connections (accept_clients) and that goes to sleep before the batch stores is not in the publisher's wake
  list, and when the batch fills the ring no later step wakes it: its cursor keeps the ring full, every later
  publish is refused before the wake-up calls, and the subscriber sleeps for ever.\<close>

theorem connect_during_batch_deadlocks:
  assumes "ring_refines r m a" "i < unat (max_subscribers r)" "a_cursors a ! i = Some (a_tail a)"
    "\<forall>k. Some k \<in> set (a_cursors a) \<longrightarrow> k = a_tail a" "a_tail a + ncap r < 2 ^ 63"
  shows "\<exists>y. wakeup_reach r i \<lparr>ws_map = m, ws_count = 0, ws_cursor = 0, ws_linked = False, ws_sub = Connecting, ws_pub = Idle\<rparr> y
    \<and> unat (current_tail (ws_map y)) = a_tail a + ncap r
    \<and> (\<forall>z. wakeup_reach r i y z \<longrightarrow> ws_sub z = Sleeping \<and> ws_cursor z = of_nat (a_tail a)
         \<and> current_tail (ws_map z) = current_tail (ws_map y))"
proof -
  let ?x = "\<lparr>ws_map = m, ws_count = 0, ws_cursor = 0, ws_linked = False, ws_sub = Connecting, ws_pub = Idle\<rparr>"
  let ?c = "of_nat (a_tail a) :: u64"
  let ?m1 = "set_cursor m i ?c" and ?m2 = "set_wakeflag r (set_cursor m i ?c) i"
  note D = ring_refinesD [OF assms(1)]
  have a: "a\<lparr>a_cursors := (a_cursors a)[i := Some (a_tail a)]\<rparr> = a"
    using assms(3) by (metis (mono_tags, lifting) alog.surjective alog.update_convs(3) list_update_id)
  have "cursor_rel a ?c (Some (a_tail a))"
    by (simp add: cursor_rel_def a_tail_def)
  then have R1: "ring_refines r ?m1 a"
    using set_cursor_refines [OF assms(1,2), of ?c "Some (a_tail a)"] a by simp
  have R2: "ring_refines r ?m2 a"
    unfolding set_wakeflag_def by (rule wakeflag_refines [OF R1 assms(2)])
  have c: "unat ?c = a_tail a"
    by (rule unat_of_nat_small [OF D(5)])
  have tails: "current_tail m = ?c" "current_tail ?m1 = ?c" "current_tail ?m2 = ?c"
    using D(6) ring_refinesD(6) [OF R1] ring_refinesD(6) [OF R2] by simp_all
  define s1 where "s1 = ?x\<lparr>ws_pub := Accepted\<rparr>"
  define s2 where "s2 = s1\<lparr>ws_sub := Linking\<rparr>"
  define s3 where "s3 = s2\<lparr>ws_sub := Reading, ws_cursor := ?c, ws_map := ?m1\<rparr>"
  define s4 where "s4 = s3\<lparr>ws_sub := Arming\<rparr>"
  define s5 where "s5 = s4\<lparr>ws_sub := Checking, ws_map := ?m2\<rparr>"
  define s6 where "s6 = s5\<lparr>ws_sub := Sleeping\<rparr>"
  note S = s1_def s2_def s3_def s4_def s5_def s6_def
  have "wakeup_step r i ?x s1"
    using wakeup_step.accept [of ?x r i] by (simp add: S)
  moreover have "wakeup_step r i s1 s2"
    using wakeup_step.connect [of s1 r i] by (simp add: S)
  moreover have "wakeup_step r i s2 s3"
    using wakeup_step.resync [of s2 r i] tails(1) by (simp add: S)
  moreover have "wakeup_step r i s3 s4"
  proof -
    have "rd64 ?m1 OFF_TAIL \<le> ?c"
      using tails(2) by (simp add: current_tail_def)
    then have "try_receive r ?m1 i ?c [] = Some (None, [], ?m1)"
      by (simp add: try_receive_def try_receive_at_def apply_stores_def)
    then show ?thesis
      using wakeup_step.empty [of s3 r i "[]" ?m1] by (simp add: S)
  qed
  moreover have "wakeup_step r i s4 s5"
    using wakeup_step.arm [of s4 r i] by (simp add: S)
  moreover have "wakeup_step r i s5 s6"
    using wakeup_step.sleep [of s5 r i] tails(3) by (simp add: S)
  ultimately have r6: "wakeup_reach r i ?x s6"
    by (meson converse_rtranclp_into_rtranclp rtranclp.rtrancl_refl)
  have "\<forall>k. Some k \<in> set (a_cursors a) \<longrightarrow> a_tail a + ncap r \<le> k + ncap r"
    using assms(4) by simp
  then obtain m' p where B: "wakeup_reach r i s6 (s6\<lparr>ws_map := m', ws_pub := p\<rparr>)" "p = Stored"
    "ring_refines r m' (a\<lparr>a_msgs := a_msgs a @ replicate (ncap r) []\<rparr>)"
    using store_batch [of r s6 a "[]" "ncap r" i] R2 assms(5) D(3) by (auto simp: S)
  let ?y = "s6\<lparr>ws_map := m', ws_pub := Idle\<rparr>"
  note D' = ring_refinesD [OF B(3)]
  have "wakeup_step r i (s6\<lparr>ws_map := m', ws_pub := p\<rparr>) ?y"
    using wakeup_step.unseen [of "s6\<lparr>ws_map := m', ws_pub := p\<rparr>" r i] B(2) by (simp add: S)
  with r6 B(1) have ry: "wakeup_reach r i ?x ?y"
    by (meson rtranclp.rtrancl_into_rtrancl rtranclp_trans)
  have tail: "unat (current_tail m') = a_tail a + ncap r"
    using D'(4) by (simp add: a_tail_def)
  have "cursor_at m' i = ?c"
    using D'(8) [OF assms(2)] assms(3) by (simp add: cursor_rel_def)
  then have T: "trapped r i ?c (current_tail m') ?y"
    using D'(2) assms(2) tail c of_nat_not_unclaimed [OF D(5)] by (simp add: trapped_def S word_le_nat_alt)
  have "trapped r i ?c (current_tail m') z" if "wakeup_reach r i ?y z" for z
    using that T by (induction rule: rtranclp_induct) (auto intro: trapped_step)
  then show ?thesis
    using ry tail by (intro exI [of _ ?y]) (auto simp: trapped_def)
qed

end
