(* ===== verification/Subscriber_Witnesses.thy ===== *)
theory Subscriber_Witnesses
  imports Eventcount
begin

text \<open>
  The properties of the subscriber and of the wakeup protocol at concrete topics: a ring of four slots, one
  subscriber, a log of five records.
\<close>

definition demo_join :: "bytes \<Rightarrow> disk option \<Rightarrow> connect_env" where
  "demo_join m dir = \<lparr>ce_opens = [(Some m, False)], ce_eventfd = Inr (), ce_connects = [(Inr (), False)],
     ce_sent = Inr (), ce_meanwhile = id, ce_dir = dir\<rparr>"

definition demo_sub :: "bytes \<Rightarrow> subscriber" where
  "demo_sub m = \<lparr>sb_ring = ring_handle 4 16 2, sb_cursor = 0, sb_idx = 0, sb_generation = generation m, sb_replay = None\<rparr>"

lemma demo_join_props: "handshake name (demo_join m dir) = Some (Inr ())"
  "ce_opens (demo_join m dir) = (Some m, False) # []" "ce_meanwhile (demo_join m dir) = id" "ce_dir (demo_join m dir) = dir"
  by (simp_all add: demo_join_def handshake_def)

lemma demo_map_open: "ring_open (Some demo_map) = Some (Inr (ring_handle 4 16 2))"
proof -
  note P = ring_create_props [OF demo_ring_wf, folded demo_map_def]
  show ?thesis
    using P(1,3,5-7) mapped_tail_room [OF P(1)] by (simp add: ring_open_def ring_handle_def)
qed

lemma max_subscribers_demo: "max_subscribers (ring_handle 4 16 2) = 2"
  by (simp add: ring_handle_def)

lemma demo_joined_open: "ring_open (Some demo_joined) = Some (Inr (ring_handle 4 16 2))"
proof -
  let ?r = "ring_handle 4 16 2"
  note C = claim_refines [OF demo_map_refines, where w = 0]
  have "first_free (a_cursors (fresh_log ?r)) = Some 0"
    by (simp add: demo_fresh)
  then have "demo_joined = clear_wakeflag ?r (set_cursor demo_map 0 0) 0"
    using C(1) C(3) [of 0] by (simp add: demo_joined_def prod_eq_iff)
  moreover note D = ring_refinesD(2) [OF demo_map_refines]
  have "64 \<le> length demo_map" "64 + 16 * unat (max_subscribers ?r) \<le> length demo_map"
    using mapped_tail_room [OF D] mapped_bounds(1,3) [OF D] by simp_all
  then have "ring_open (Some (clear_wakeflag ?r (set_cursor demo_map 0 0) 0)) = ring_open (Some demo_map)"
    unfolding ring_open_def set_cursor_def clear_wakeflag_def
    by (simp add: wakeflag_addr_eq cursor_addr_def buf_simps disjoint_ranges_def ring_handle_def)
  ultimately show ?thesis
    using demo_map_open by simp
qed

theorem connect_error_releases_slot_witness:
  "\<exists>m'. connect_with ''t'' (demo_join demo_map None\<lparr>ce_eventfd := Inl IoDevice\<rparr>) Now = Some (Inl (BusIo IoDevice), Some m')
    \<and> ring_refines (ring_handle 4 16 2) m' (fresh_log (ring_handle 4 16 2))"
proof -
  let ?env = "demo_join demo_map None\<lparr>ce_eventfd := Inl IoDevice\<rparr>"
  note C = claim_refines [OF demo_map_refines, where w = "current_tail demo_map"]
  have "first_free (a_cursors (fresh_log (ring_handle 4 16 2))) = Some 0"
    by (simp add: demo_fresh)
  then have "\<exists>m'. connect_with ''t'' ?env Now = Some (Inl (BusIo IoDevice), Some m')"
    using C(1) demo_map_open
    by (auto simp: connect_with_def demo_join_def handshake_def split: prod.splits)
  then obtain m' where F: "connect_with ''t'' ?env Now = Some (Inl (BusIo IoDevice), Some m')"
    by blast
  then show ?thesis
    using connect_error_releases_slot [OF demo_map_refines demo_map_open _ _ F, of False "[]"]
    by (simp add: demo_join_def)
qed

theorem connect_positions_witness:
  "\<exists>m' s. connect_with ''t'' (demo_join demo_map None) (HistoryBack 3) = Some (Inr s, Some m') \<and> unat (sb_cursor s) = 0
    \<and> sb_replay s = None \<and> sb_idx s = 0 \<and> ring_refines (ring_handle 4 16 2) m' demo_log"
proof -
  have "first_free (a_cursors (fresh_log (ring_handle 4 16 2))) = Some 0"
    by (simp add: demo_fresh)
  from connect_positions [OF demo_map_refines demo_map_open this demo_join_props(2,1,3), where start = "HistoryBack 3" and c = 0, of "''t''" None]
  show ?thesis
    by (fastforce simp: demo_fresh a_tail_def demo_log_def)
qed

theorem future_cursor_blocks_publisher_witness:
  "\<exists>s m'. connect_with ''t'' (demo_join demo_map None) (Explicit 5) = Some (Inr s, Some m')
    \<and> ring_receive s [] m' = Some (False, [], s, m') \<and> try_publish (ring_handle 4 16 2) m' [1] = Some (False, m')"
proof -
  have "slot_payload_size (ring_handle 4 16 2) = 16"
    by (simp add: ring_handle_def)
  then show ?thesis
    using future_cursor_blocks_publisher [OF demo_map_refines demo_map_open _ _ demo_join_props(2,1,3), where c = 5]
    by (fastforce simp: demo_fresh a_tail_def)
qed

theorem receive_gets_next_publish_witness:
  "\<exists>s' m'. receive_into demo_crc demo_empty [\<lparr>wn_arming = id, wn_asleep = others_publish (ring_handle 4 16 2) [7],
      wn_poll = Inr (), wn_drain = Inr ()\<rparr>] (demo_sub demo_joined) demo_joined = Some (Inr [7], s', m')
    \<and> unat (sb_cursor s') = 1"
  using receive_gets_next_publish [of "demo_sub demo_joined" demo_joined demo_log "[7]"
      "\<lparr>wn_arming = id, wn_asleep = others_publish (ring_handle 4 16 2) [7], wn_poll = Inr (), wn_drain = Inr ()\<rparr>" demo_crc demo_empty]
    demo_joined_refines
  by (auto simp: demo_sub_def demo_log_def a_tail_def a_full_def ncap_def ring_handle_def)

theorem restart_ends_subscription_witness:
  "\<exists>env s' m'. receive_into demo_crc demo_empty [env] (demo_sub demo_joined) demo_joined = Some (Inl (BusIo IoUnexpectedEof), s', m')
    \<and> generation m' = generation demo_joined + 1"
proof -
  let ?r = "ring_handle 4 16 2"
  let ?env = "\<lparr>wn_arming = id, wn_asleep = \<lambda>m. case ring_create_or_reuse (Some m) (capacity ?r) (slot_payload_size ?r)
        (max_subscribers ?r) of Some (_, m') \<Rightarrow> m' | None \<Rightarrow> m, wn_poll = Inr (), wn_drain = Inr ()\<rparr>"
  have "\<exists>s' m'. receive_into demo_crc demo_empty [?env] (demo_sub demo_joined) demo_joined = Some (Inl (BusIo IoUnexpectedEof), s', m')
    \<and> generation m' = sb_generation (demo_sub demo_joined) + 1 \<and> wakeflag_at (sb_ring (demo_sub demo_joined)) m' (sb_idx (demo_sub demo_joined)) = 0"
    using demo_joined_refines demo_joined_open
    by (intro restart_ends_subscription [where a = demo_log])
      (auto simp: demo_sub_def demo_log_def a_tail_def max_subscribers_demo)
  then show ?thesis
    by (intro exI [of _ ?env]) (auto simp: demo_sub_def)
qed



theorem connect_during_batch_deadlocks_witness:
  "\<exists>y. wakeup_reach (ring_handle 4 16 2) 0 \<lparr>ws_map = demo_joined, ws_count = 0, ws_cursor = 0, ws_linked = False,
      ws_sub = Connecting, ws_pub = Idle\<rparr> y \<and> unat (current_tail (ws_map y)) = 4 \<and> ws_sub y = Sleeping \<and> ws_cursor y = 0"
proof -
  have n: "ncap (ring_handle 4 16 2) = 4"
    by (simp add: ncap_def ring_handle_def)
  show ?thesis
    using connect_during_batch_deadlocks [OF demo_joined_refines, of 0] unfolding n max_subscribers_demo
    by (auto simp: demo_log_def a_tail_def)
qed

definition demo_roomy :: wal_config where
  "demo_roomy = \<lparr>wc_enabled = True, wc_fsync_policy = Each, wc_fsync_interval_ms = 5,
     wc_fsync_batch_bytes = 64, wc_segment_size_max = 1000, wc_retention_bytes = 10000\<rparr>"

lemma demo_record_sizes: "record_encoded_len (demo_record c) = RECORD_FRAMING + 2"
  "seg_size (map demo_record cs) = SEGMENT_HEADER_LEN + length cs * (RECORD_FRAMING + 2)"
  by (induction cs) (simp_all add: demo_record_def record_encoded_len_def seg_size_def)

lemma demo_long_log:
  "n \<le> 5 \<Longrightarrow> \<exists>w d i j. wal_state demo_crc d w (if n = 0 then [] else [(0, map (\<lambda>k. demo_record (of_nat k)) [0..<n])]) i j
    \<and> w_cfg w = demo_roomy \<and> \<not> w_poisoned w \<and> unat (w_pending w) = n \<and> w_durable w = w_pending w"
proof (induction n)
  case 0
  have "wal_open demo_crc 3 demo_roomy demo_empty = (Inr (demo_wal\<lparr>w_cfg := demo_roomy\<rparr>), demo_empty)"
    by (simp add: wal_open_def demo_empty_def open_active_def demo_wal_def Let_def)
  then have "wal_state demo_crc demo_empty (demo_wal\<lparr>w_cfg := demo_roomy\<rparr>) [] 0 0"
    using fresh_inv [OF demo_empty_ok, of demo_crc 3 demo_roomy] by (simp add: wal_inv_def)
  then show ?case
    by (intro exI [of _ "demo_wal\<lparr>w_cfg := demo_roomy\<rparr>"] exI [of _ demo_empty] exI [of _ 0]) (simp add: demo_wal_def)
next
  case (Suc n)
  let ?segs = "if n = 0 then [] else [(0, map (\<lambda>k. demo_record (of_nat k)) [0..<n])]" and ?x = "demo_record (of_nat n)"
  obtain w d i j where W: "wal_state demo_crc d w ?segs i j" "w_cfg w = demo_roomy" "\<not> w_poisoned w"
    using Suc by auto
  have n: "unat (of_nat n :: u64) = n"
    using Suc.prems by (intro unat_of_nat_small) simp
  have c: "unat (r_cursor ?x) = n" "r_cursor ?x = of_nat n"
    using n by (simp_all add: demo_record_def)
  have "wc_enabled (w_cfg w)" "?segs \<noteq> [] \<longrightarrow> unat (r_cursor ?x) = a_next ?segs" "unat (r_cursor ?x) + 1 < 2 ^ 64"
    "SEGMENT_HEADER_LEN + record_encoded_len ?x \<le> wc_segment_size_max (w_cfg w)"
    using Suc.prems W(2) unfolding c(1) by (simp_all add: a_next_def log_of_def demo_roomy_def demo_record_sizes wal_consts)
  from append_state [OF W(1) this(1) W(3) demo_record_ok this(2-4), of 9]
  obtain w' d' i' j' where A: "wal_state demo_crc d' w' (a_log_step demo_roomy ?x ?segs) i' j'" "w_cfg w' = demo_roomy"
    "\<not> w_poisoned w'" "w_pending w' = of_nat n + 1" "w_durable w' = w_pending w'"
    unfolding c(2) W(2) by (metis (no_types, lifting) demo_roomy_def wal_config.select_convs(2))
  have "seg_size (map (\<lambda>k. demo_record (of_nat k)) [0..<n]) + record_encoded_len ?x \<le> 1000"
    using Suc.prems demo_record_sizes(2) [of "map of_nat [0..<n]"] by (simp add: demo_record_sizes wal_consts comp_def)
  then have "a_append 1000 ?x ?segs = [(0, map (\<lambda>k. demo_record (of_nat k)) [0..<Suc n])]"
    using c(2) by (simp add: a_append_def)
  then have "a_log_step demo_roomy ?x ?segs = [(0, map (\<lambda>k. demo_record (of_nat k)) [0..<Suc n])]"
    by (simp add: a_log_step_def demo_roomy_def)
  moreover have "unat (w_pending w') = Suc n"
    using A(4) n Suc.prems by (simp add: unat_Suc_word)
  ultimately show ?case
    using A by (intro exI [of _ w'] exI [of _ d'] exI [of _ i'] exI [of _ j']) simp
qed


end
