(* ===== verification/V2_Segment.thy ===== *)
theory V2_Segment
  imports Wal Ring_Log
begin

text \<open>
  One segment of the experimental lock-free log, \<open>crates/mmbus/src/wal/v2\<close>: the coordination file
  (\<open>active.rs\<close>), the writer (\<open>mmap_segment_writer.rs\<close>), the reader (\<open>mmap_segment_reader.rs\<close>), the
  sync primitives (\<open>durability.rs\<close>) and the rotation step (\<open>rotation.rs\<close>). A file is mapped by its
  users, so what it holds is the list of stores made to it since the last sync over the bytes that
  are on the device; a crash may keep any of these stores, word by word.
\<close>

subsection \<open>Mapped files\<close>

record mfile =
  mf_base :: bytes
  mf_stores :: "store list"
  mf_synced :: bool

text \<open>\<open>mf_synced\<close>: whether the file has been synced since its creation.\<close>

definition mf_content :: "mfile \<Rightarrow> bytes" where
  "mf_content f = apply_stores (mf_base f) (mf_stores f)"

text \<open>Whoever has a file mapped keeps its inode after the file is removed.\<close>

record mdisk =
  md_up :: bool
  md_files :: "(string \<times> mfile) list"
  md_unlinked :: "(string \<times> mfile) list"

abbreviation mlookup :: "mdisk \<Rightarrow> string \<Rightarrow> mfile option" where
  "mlookup d \<equiv> map_of (md_files d)"

definition mput :: "string \<Rightarrow> mfile \<Rightarrow> mdisk \<Rightarrow> mdisk" where
  "mput name f d = d\<lparr>md_files := AList.update name f (md_files d)\<rparr>"

definition mremove :: "string \<Rightarrow> mdisk \<Rightarrow> mdisk" where
  "mremove name d = (case mlookup d name of
      None \<Rightarrow> d
    | Some f \<Rightarrow>
        if md_up d then d\<lparr>md_files := AList.delete name (md_files d), md_unlinked := (name, f) # md_unlinked d\<rparr>
        else d)"

text \<open>Stores through the mapping of a linked file; nobody stores to a removed one.\<close>

definition mstore :: "string \<Rightarrow> store list \<Rightarrow> mdisk \<Rightarrow> mdisk" where
  "mstore name ss d = (case mlookup d name of
      None \<Rightarrow> d | Some f \<Rightarrow> mput name (f\<lparr>mf_stores := mf_stores f @ ss\<rparr>) d)"

definition mmap_of :: "mdisk \<Rightarrow> string \<Rightarrow> bytes" where
  "mmap_of d name = (case mlookup d name of
      Some f \<Rightarrow> mf_content f
    | None \<Rightarrow> (case map_of (md_unlinked d) name of Some f \<Rightarrow> mf_content f | None \<Rightarrow> []))"

subsection \<open>Durability (durability.rs, lines 27--52)\<close>

definition flush_async :: "mdisk \<Rightarrow> io_error + unit" where
  "flush_async d = (if md_up d then Inr () else Inl IoDevice)"

definition flush_sync :: "string \<Rightarrow> mdisk \<Rightarrow> (io_error + unit) \<times> mdisk" where
  "flush_sync name d =
    (if \<not> md_up d then (Inl IoDevice, d)
     else (Inr (), case mlookup d name of
         None \<Rightarrow> d
       | Some f \<Rightarrow> mput name \<lparr>mf_base = mf_content f, mf_stores = [], mf_synced = True\<rparr> d))"

subsection \<open>The coordination file (active.rs)\<close>

definition ACTIVE_COORD_FILENAME :: string where "ACTIVE_COORD_FILENAME = ''active.dat''"
definition ACTIVE_COORD_LEN :: nat where "ACTIVE_COORD_LEN = 16"
definition FIRST_CURSOR_OFFSET :: nat where "FIRST_CURSOR_OFFSET = 0"
definition GENERATION_OFFSET :: nat where "GENERATION_OFFSET = 8"

text \<open>A file that is too short is extended with zeros.\<close>

definition open_or_create :: "mdisk \<Rightarrow> (io_error + unit) \<times> mdisk" where
  "open_or_create d = (case mlookup d ACTIVE_COORD_FILENAME of
      None \<Rightarrow>
        if \<not> md_up d then (Inl IoDevice, d)
        else (Inr (), mput ACTIVE_COORD_FILENAME
               \<lparr>mf_base = replicate ACTIVE_COORD_LEN 0, mf_stores = [], mf_synced = False\<rparr> d)
    | Some f \<Rightarrow>
        if length (mf_content f) < ACTIVE_COORD_LEN then
          if \<not> md_up d then (Inl IoDevice, d)
          else (Inr (), mput ACTIVE_COORD_FILENAME
                 (f\<lparr>mf_base := mf_base f @ replicate (ACTIVE_COORD_LEN - length (mf_content f)) 0\<rparr>) d)
        else (Inr (), d))"

definition load_first_cursor :: "mdisk \<Rightarrow> u64" where
  "load_first_cursor d = rd64 (mmap_of d ACTIVE_COORD_FILENAME) FIRST_CURSOR_OFFSET"

definition load_generation :: "mdisk \<Rightarrow> u64" where
  "load_generation d = rd64 (mmap_of d ACTIVE_COORD_FILENAME) GENERATION_OFFSET"

definition store_active :: "u64 \<Rightarrow> mdisk \<Rightarrow> (io_error + unit) \<times> mdisk" where
  "store_active first_cursor d =
    (let d1 = mstore ACTIVE_COORD_FILENAME [(FIRST_CURSOR_OFFSET, u64_le first_cursor)] d;
         d2 = mstore ACTIVE_COORD_FILENAME [(GENERATION_OFFSET, u64_le (load_generation d1 + 1))] d1
     in (flush_async d2, d2))"

definition peek_active :: "mdisk \<Rightarrow> (u64 \<times> u64) option" where
  "peek_active d = (case mlookup d ACTIVE_COORD_FILENAME of
      None \<Rightarrow> None
    | Some f \<Rightarrow>
        let buf = take ACTIVE_COORD_LEN (mf_content f) in
        if length buf < ACTIVE_COORD_LEN then None else Some (rd64 buf 0, rd64 buf 8))"

subsection \<open>Segment writer (mmap\_segment\_writer.rs)\<close>

definition SEGMENT_VERSION_V2 :: u32 where "SEGMENT_VERSION_V2 = 2"
definition WRITING_BIT_U32 :: u32 where "WRITING_BIT_U32 = push_bit 31 1"
definition TAIL_OFFSET :: nat where "TAIL_OFFSET = 24"
definition SKIP_TO_END_SENTINEL :: u32 where "SKIP_TO_END_SENTINEL = - 1"

definition align_record_len :: "nat \<Rightarrow> nat" where
  "align_record_len unpadded = unat ((of_nat unpadded + 7 :: u64) AND NOT 7)"

datatype v2_writer_error = V2PayloadTooLarge nat | SegmentTooSmall nat nat | V2WriterIo io_error

datatype append_outcome = Appended u64 u64 | SegmentFull

record v2_writer =
  mw_name :: string
  mw_size :: nat
  mw_first :: u64

definition v2_create_stores :: "u64 \<Rightarrow> store list" where
  "v2_create_stores first_cursor =
    [(0, u64_le SEGMENT_MAGIC), (8, u32_le SEGMENT_VERSION_V2), (16, u64_le first_cursor),
     (TAIL_OFFSET, u64_le (of_nat SEGMENT_HEADER_LEN))]"

definition v2_create :: "string \<Rightarrow> nat \<Rightarrow> u64 \<Rightarrow> mdisk \<Rightarrow> (v2_writer_error + v2_writer) \<times> mdisk" where
  "v2_create name segment_size first_cursor d =
    (if segment_size < SEGMENT_HEADER_LEN + RECORD_FRAMING
     then (Inl (SegmentTooSmall segment_size (SEGMENT_HEADER_LEN + RECORD_FRAMING)), d)
     else if mlookup d name \<noteq> None then (Inl (V2WriterIo IoAlreadyExists), d)
     else if \<not> md_up d then (Inl (V2WriterIo IoDevice), d)
     else (Inr \<lparr>mw_name = name, mw_size = segment_size, mw_first = first_cursor\<rparr>,
           mput name \<lparr>mf_base = replicate segment_size 0, mf_stores = v2_create_stores first_cursor,
                      mf_synced = False\<rparr> d))"

definition v2_tail :: "v2_writer \<Rightarrow> mdisk \<Rightarrow> u64" where
  "v2_tail w d = rd64 (mmap_of d (mw_name w)) TAIL_OFFSET"

text \<open>The stores of one append, in program order; the payload is copied byte by byte, and the checksum
  is taken over what the map then holds, padding included.\<close>

definition v2_body_stores :: "nat \<Rightarrow> u64 \<Rightarrow> u64 \<Rightarrow> bytes \<Rightarrow> store list" where
  "v2_body_stores offset cursor ts payload =
    [(offset + 4, u64_le cursor), (offset + 12, u64_le ts), (offset + 20, u32_le (of_nat (length payload)))]
    @ map (\<lambda>k. (offset + 24 + k, [payload ! k])) [0..<length payload]"

definition v2_append_stores ::
    "(bytes \<Rightarrow> u32) \<Rightarrow> bytes \<Rightarrow> nat \<Rightarrow> nat \<Rightarrow> u64 \<Rightarrow> u64 \<Rightarrow> bytes \<Rightarrow> store list" where
  "v2_append_stores crc m offset aligned cursor ts payload =
    (let stores = [(TAIL_OFFSET, u64_le (of_nat offset + of_nat aligned)),
                   (offset, u32_le (of_nat aligned OR WRITING_BIT_U32))]
                  @ v2_body_stores offset cursor ts payload;
         crc_input = sub (apply_stores m stores) (offset + 4) (aligned - 8)
     in stores @ [(offset + aligned - 4, u32_le (crc crc_input)), (offset, u32_le (of_nat aligned))])"

definition v2_append ::
    "(bytes \<Rightarrow> u32) \<Rightarrow> v2_writer \<Rightarrow> u64 \<Rightarrow> u64 \<Rightarrow> bytes \<Rightarrow> mdisk
      \<Rightarrow> (v2_writer_error + append_outcome) \<times> mdisk" where
  "v2_append crc w cursor ts payload d =
    (if length payload > MAX_PAYLOAD_LEN then (Inl (V2PayloadTooLarge (length payload)), d)
     else
       let unpadded = RECORD_FRAMING + length payload;
           aligned = align_record_len unpadded;
           current = v2_tail w d;
           nxt = current + of_nat aligned
       in if nxt > of_nat (mw_size w) then (Inr SegmentFull, d)
          else (Inr (Appended current (cursor + 1)),
                mstore (mw_name w)
                  (v2_append_stores crc (mmap_of d (mw_name w)) (unat current) aligned cursor ts payload) d))"

definition write_skip_to_end :: "v2_writer \<Rightarrow> mdisk \<Rightarrow> bool \<times> mdisk" where
  "write_skip_to_end w d =
    (let current = v2_tail w d in
     if current + 4 > of_nat (mw_size w) then (False, d)
     else (True, mstore (mw_name w)
            [(TAIL_OFFSET, u64_le (current + 4)), (unat current, u32_le SKIP_TO_END_SENTINEL)] d))"

subsection \<open>Rotation (rotation.rs)\<close>

datatype rotate_error = RotateWriter v2_writer_error | RotateIo io_error

definition v2_rotate :: "v2_writer \<Rightarrow> u64 \<Rightarrow> nat \<Rightarrow> mdisk \<Rightarrow> (rotate_error + v2_writer) \<times> mdisk" where
  "v2_rotate old_writer new_first_cursor segment_size d =
    (let d1 = snd (write_skip_to_end old_writer d) in
     case v2_create (seg_name new_first_cursor) segment_size new_first_cursor d1 of
       (Inl e, d2) \<Rightarrow> (Inl (RotateWriter e), d2)
     | (Inr new_writer, d2) \<Rightarrow> (case store_active new_first_cursor d2 of
           (Inl e, d3) \<Rightarrow> (Inl (RotateIo e), d3)
         | (Inr _, d3) \<Rightarrow> (Inr new_writer, d3)))"

subsection \<open>Segment reader (mmap\_segment\_reader.rs)\<close>

datatype v2_reader_error =
    V2ReaderIo io_error
  | V2ReaderHeader header_error
  | LegacyV1Segment
  | V2OversizeRecord nat nat
  | V2CrcMismatch nat u32 u32
  | V2UndersizeRecord nat nat

datatype read_outcome =
    ReadRecord wal_record
  | AwaitMore
  | EndOfSegment
  | ReadErr v2_reader_error

record v2_reader =
  mr_name :: string
  mr_size :: nat
  mr_first :: u64
  mr_pos :: nat

definition v2_reader_open :: "string \<Rightarrow> mdisk \<Rightarrow> v2_reader_error + v2_reader" where
  "v2_reader_open name d = (case mlookup d name of
      None \<Rightarrow> Inl (V2ReaderIo IoNotFound)
    | Some f \<Rightarrow>
        let m = mf_content f; file_len = length m in
        if file_len < SEGMENT_HEADER_LEN then Inl (V2ReaderHeader (HeaderTruncated file_len))
        else if rd64 m 0 \<noteq> SEGMENT_MAGIC then Inl (V2ReaderHeader (BadMagic (rd64 m 0)))
        else if rd32 m 8 = 1 then Inl LegacyV1Segment
        else if rd32 m 8 \<noteq> SEGMENT_VERSION_V2 then Inl (V2ReaderHeader (HeaderVersion (rd32 m 8)))
        else Inr \<lparr>mr_name = name, mr_size = file_len, mr_first = rd64 m 16,
                  mr_pos = SEGMENT_HEADER_LEN\<rparr>)"

text \<open>One look at the segment. \<open>E\<close> gives the map at the time of each load; loads that are not atomic
  take one time unit per byte. Behind the end of the file the last page is filled with zeros.\<close>

definition v2_next_at :: "(bytes \<Rightarrow> u32) \<Rightarrow> (nat \<Rightarrow> bytes) \<Rightarrow> nat \<Rightarrow> v2_reader \<Rightarrow> read_outcome \<times> v2_reader" where
  "v2_next_at crc E t r =
    (let offset = mr_pos r in
     if offset \<ge> mr_size r then (EndOfSegment, r)
     else if of_nat offset \<ge> rd64 (E t) TAIL_OFFSET then (AwaitMore, r)
     else
       let raw = rd32 (E (t + 1) @ [0, 0, 0]) offset in
       if raw = 0 then (AwaitMore, r)
       else if raw = SKIP_TO_END_SENTINEL then (EndOfSegment, r\<lparr>mr_pos := mr_size r\<rparr>)
       else if raw AND WRITING_BIT_U32 \<noteq> 0 then (AwaitMore, r)
       else
         let record_len = unat raw in
         if record_len > MAX_RECORD_LEN then (ReadErr (V2OversizeRecord record_len offset), r\<lparr>mr_pos := mr_size r\<rparr>)
         else if record_len < RECORD_FRAMING then (ReadErr (V2UndersizeRecord record_len offset), r\<lparr>mr_pos := mr_size r\<rparr>)
         else if offset + record_len > mr_size r then (ReadErr (V2OversizeRecord record_len offset), r\<lparr>mr_pos := mr_size r\<rparr>)
         else
           let cursor = le_u64 (copy_from E (t + 2) (offset + 4) 8);
               ts = le_u64 (copy_from E (t + 10) (offset + 12) 8);
               payload_len = unat (le_u32 (copy_from E (t + 18) (offset + 20) 4))
           in if 24 + payload_len + 4 > record_len
              then (ReadErr (V2OversizeRecord record_len offset), r\<lparr>mr_pos := offset + align_record_len record_len\<rparr>)
              else
                let stored_crc = le_u32 (copy_from E (t + 22) (offset + record_len - 4) 4);
                    computed_crc = crc (copy_from E (t + 26) (offset + 4) (record_len - 8))
                in if stored_crc \<noteq> computed_crc
                   then (ReadErr (V2CrcMismatch offset stored_crc computed_crc), r\<lparr>mr_pos := offset + record_len\<rparr>)
                   else (ReadRecord \<lparr>r_cursor = cursor, r_ts = ts,
                           r_payload = copy_from E (t + 26 + record_len) (offset + 24) payload_len\<rparr>,
                         r\<lparr>mr_pos := offset + record_len\<rparr>))"

definition v2_next_record :: "(bytes \<Rightarrow> u32) \<Rightarrow> mdisk \<Rightarrow> v2_reader \<Rightarrow> read_outcome \<times> v2_reader" where
  "v2_next_record crc d r = v2_next_at crc (\<lambda>_. mmap_of d (mr_name r)) 0 r"

definition v2_rewind :: "v2_reader \<Rightarrow> v2_reader" where
  "v2_rewind r = r\<lparr>mr_pos := SEGMENT_HEADER_LEN\<rparr>"

definition open_segment_reader :: "u64 \<Rightarrow> mdisk \<Rightarrow> v2_reader_error + v2_reader" where
  "open_segment_reader first_cursor d = v2_reader_open (seg_name first_cursor) d"

end
