(* ===== verification/V2_Segment_Properties.thy ===== *)
theory V2_Segment_Properties
  imports V2_Segment
begin

text \<open>
  What a segment of the lock-free log holds, and what a reader beside its writer gets: records laid out
  one after the other over zeros, appended by the stores of \<open>v2_append\<close>, read at any interleaving of
  the two sides.
\<close>

subsection \<open>Records on the map\<close>

lemma align_record_len_eq: "n < 2 ^ 60 \<Longrightarrow> align_record_len n = (n + 7) div 8 * 8"
proof -
  assume n: "n < 2 ^ 60"
  have m: "(7 :: u64) = mask 3"
    by (simp add: mask_eq_exp_minus_1)
  have "unat (of_nat n + 7 :: u64) = n + 7"
    using n unat_of_nat_u64 [of "n + 7"] by simp
  then show ?thesis
    unfolding align_record_len_def m unat_align_down by simp
qed

definition v2_padded :: "wal_record \<Rightarrow> nat" where
  "v2_padded r = align_record_len (RECORD_FRAMING + length (r_payload r))"

lemma v2_padded_bounds:
  assumes "record_ok r"
  shows "28 + length (r_payload r) \<le> v2_padded r" "v2_padded r \<le> MAX_RECORD_LEN" "28 \<le> v2_padded r"
    "v2_padded r mod 8 = 0"
proof -
  have "length (r_payload r) \<le> 16777188"
    using assms by (simp add: record_ok_def wal_consts)
  moreover from this have "v2_padded r = (35 + length (r_payload r)) div 8 * 8"
    unfolding v2_padded_def by (subst align_record_len_eq) (simp_all add: wal_consts)
  ultimately show "28 + length (r_payload r) \<le> v2_padded r" "v2_padded r \<le> MAX_RECORD_LEN" "28 \<le> v2_padded r"
    "v2_padded r mod 8 = 0"
    by (simp_all add: wal_consts)
qed

definition v2_body :: "wal_record \<Rightarrow> bytes" where
  "v2_body r = u64_le (r_cursor r) @ u64_le (r_ts r) @ u32_le (of_nat (length (r_payload r))) @ r_payload r
     @ replicate (v2_padded r - 28 - length (r_payload r)) 0"

definition v2_encode :: "(bytes \<Rightarrow> u32) \<Rightarrow> wal_record \<Rightarrow> bytes" where
  "v2_encode crc r = u32_le (of_nat (v2_padded r)) @ v2_body r @ u32_le (crc (v2_body r))"

lemma length_v2_body: "record_ok r \<Longrightarrow> length (v2_body r) = v2_padded r - 8"
  using v2_padded_bounds(1) [of r] by (simp add: v2_body_def)

lemma length_v2_encode: "record_ok r \<Longrightarrow> length (v2_encode crc r) = v2_padded r"
  using v2_padded_bounds(1) [of r] by (simp add: v2_encode_def length_v2_body)

definition v2_len :: "wal_record list \<Rightarrow> nat" where
  "v2_len rs = sum_list (map v2_padded rs)"

lemma v2_len_simps [simp]: "v2_len [] = 0" "v2_len (r # rs) = v2_padded r + v2_len rs"
  "v2_len (rs @ rs') = v2_len rs + v2_len rs'"
  by (simp_all add: v2_len_def)

lemma v2_len_take_le: "v2_len (take k rs) \<le> v2_len rs"
  by (metis append_take_drop_id le_add1 v2_len_simps(3))

lemma v2_len_take_Suc: "k < length rs \<Longrightarrow> v2_len (take (Suc k) rs) = v2_len (take k rs) + v2_padded (rs ! k)"
  by (simp add: take_Suc_conv_app_nth)

definition v2_log :: "(bytes \<Rightarrow> u32) \<Rightarrow> wal_record list \<Rightarrow> bytes" where
  "v2_log crc rs = concat (map (v2_encode crc) rs)"

lemma v2_log_simps [simp]: "v2_log crc [] = []" "v2_log crc (r # rs) = v2_encode crc r @ v2_log crc rs"
  "v2_log crc (rs @ rs') = v2_log crc rs @ v2_log crc rs'"
  by (simp_all add: v2_log_def)

lemma length_v2_log: "list_all record_ok rs \<Longrightarrow> length (v2_log crc rs) = v2_len rs"
  by (induction rs) (simp_all add: length_v2_encode)

text \<open>A segment with the records \<open>rs\<close>.\<close>

definition v2_image :: "(bytes \<Rightarrow> u32) \<Rightarrow> u64 \<Rightarrow> nat \<Rightarrow> wal_record list \<Rightarrow> bytes \<Rightarrow> bool" where
  "v2_image crc first cap rs m \<longleftrightarrow> length m = cap \<and> cap < 2 ^ 63 \<and> list_all record_ok rs \<and> 32 + v2_len rs \<le> cap
     \<and> rd64 m 0 = SEGMENT_MAGIC \<and> rd32 m 8 = SEGMENT_VERSION_V2 \<and> rd64 m 16 = first
     \<and> rd64 m TAIL_OFFSET = of_nat (32 + v2_len rs)
     \<and> drop 32 m = v2_log crc rs @ replicate (cap - 32 - v2_len rs) 0"

lemma v2_image_fresh:
  assumes "60 \<le> cap" "cap < 2 ^ 63"
  shows "v2_image crc first cap [] (apply_stores (replicate cap 0) (v2_create_stores first))"
proof -
  let ?m = "replicate cap (0 :: u8)"
  have "drop 32 (apply_stores ?m (v2_create_stores first)) = drop 32 ?m"
    using assms(1) by (simp add: v2_create_stores_def apply_store_def TAIL_OFFSET_def poke_def drop_append)
  then show ?thesis
    using assms by (simp add: v2_image_def v2_create_stores_def apply_store_def TAIL_OFFSET_def
        rd64_def rd32_def sub_poke_same sub_poke_other disjoint_ranges_def wal_consts)
qed

lemma poke_mid: "off = length a \<Longrightarrow> length b = length xs \<Longrightarrow> poke (a @ b @ c) off xs = a @ xs @ c"
  by (simp add: poke_def)

lemma drop_poke_before: "off + length xs \<le> n \<Longrightarrow> n \<le> length m \<Longrightarrow> drop n (poke m off xs) = drop n m"
  by (simp add: poke_def drop_append)

lemma sub_in_take: "off + n \<le> k \<Longrightarrow> k \<le> length m \<Longrightarrow> sub (take k m @ xs) off n = sub m off n"
  by (simp add: sub_append_left sub_take)

text \<open>The map after the stores of an append that precede the checksum, and after all of them.\<close>

lemma v2_append_effect:
  assumes "v2_image crc first cap rs m" "record_ok r" "32 + v2_len rs + v2_padded r \<le> cap"
  defines "off \<equiv> 32 + v2_len rs"
  shows "v2_image crc first cap (rs @ [r])
      (apply_stores m (v2_append_stores crc m off (v2_padded r) (r_cursor r) (r_ts r) (r_payload r)))"
proof -
  note B = v2_padded_bounds [OF assms(2)]
  let ?p = "r_payload r" and ?n = "length (r_payload r)" and ?L = "v2_padded r"
  let ?pad = "?L - 28 - ?n" and ?rest = "replicate (cap - off - ?L) (0 :: u8)"
  have I: "length m = cap" "cap < 2 ^ 63" "list_all record_ok rs" "off \<le> cap"
    "drop 32 m = v2_log crc rs @ replicate (cap - off) 0"
    using assms(1) by (simp_all add: v2_image_def off_def)
  have L: "off + ?L \<le> cap"
    using assms(3) by (simp add: off_def)
  let ?tail = "u64_le (of_nat off + of_nat ?L)" and ?mark = "u32_le (of_nat ?L OR WRITING_BIT_U32)"
  define a where "a = take 32 (poke m TAIL_OFFSET ?tail) @ v2_log crc rs"
  have la: "length a = off"
    using I L length_v2_log [OF I(3), of crc] by (simp add: a_def off_def TAIL_OFFSET_def)
  define z :: "nat \<Rightarrow> bytes" where "z = (\<lambda>k. replicate k 0)"
  have lz: "length (z k) = k" for k
    by (simp add: z_def)
  have "poke m TAIL_OFFSET ?tail = take 32 (poke m TAIL_OFFSET ?tail) @ drop 32 (poke m TAIL_OFFSET ?tail)"
    by simp
  also have "drop 32 (poke m TAIL_OFFSET ?tail) = drop 32 m"
    using I L off_def by (intro drop_poke_before) (simp_all add: TAIL_OFFSET_def)
  finally have m0: "poke m TAIL_OFFSET ?tail = a @ replicate (cap - off) 0"
    using I(5) by (simp add: a_def)
  have split: "cap - off = 4 + (8 + (8 + (4 + (?n + (?pad + (4 + (cap - off - ?L)))))))"
    using L B(1) by simp
  have m1: "poke m TAIL_OFFSET ?tail = a @ z 4 @ z 8 @ z 8 @ z 4 @ z ?n @ z ?pad @ z 4 @ ?rest"
    unfolding m0 z_def by (subst split) (simp only: replicate_add append_assoc)
  let ?body = "[(off + 4, u64_le (r_cursor r)), (off + 12, u64_le (r_ts r)), (off + 20, u32_le (of_nat ?n))]"
  let ?pre = "[(TAIL_OFFSET, ?tail), (off, ?mark)] @ v2_body_stores off (r_cursor r) (r_ts r) ?p"
  have "apply_stores m ([(TAIL_OFFSET, ?tail), (off, ?mark)] @ ?body)
      = a @ ?mark @ u64_le (r_cursor r) @ u64_le (r_ts r) @ u32_le (of_nat ?n) @ z ?n @ z ?pad @ z 4 @ ?rest"
    using m1 la
      poke_mid [of off a "z 4" ?mark]
      poke_mid [of "off + 4" "a @ ?mark" "z 8" "u64_le (r_cursor r)"]
      poke_mid [of "off + 12" "a @ ?mark @ u64_le (r_cursor r)" "z 8" "u64_le (r_ts r)"]
      poke_mid [of "off + 20" "a @ ?mark @ u64_le (r_cursor r) @ u64_le (r_ts r)" "z 4" "u32_le (of_nat ?n)"]
    by (simp add: apply_store_def lz)
  moreover have "apply_stores m ?pre = poke (apply_stores m ([(TAIL_OFFSET, ?tail), (off, ?mark)] @ ?body)) (off + 24) ?p"
  proof -
    have "length (apply_stores m ([(TAIL_OFFSET, ?tail), (off, ?mark)] @ ?body)) = cap"
      using I L off_def B by (simp add: apply_store_def TAIL_OFFSET_def)
    then show ?thesis
      using apply_byte_stores [of "off + 24" ?n "apply_stores m ([(TAIL_OFFSET, ?tail), (off, ?mark)] @ ?body)" ?p] L B
      by (simp add: v2_body_stores_def)
  qed
  ultimately have pre: "apply_stores m ?pre = a @ ?mark @ v2_body r @ z 4 @ ?rest"
    using la poke_mid [of "off + 24" "a @ ?mark @ u64_le (r_cursor r) @ u64_le (r_ts r) @ u32_le (of_nat ?n)" "z ?n" ?p]
    by (simp add: lz v2_body_def z_def)
  have crc_in: "sub (apply_stores m ?pre) (off + 4) (?L - 8) = v2_body r"
    unfolding pre using la length_v2_body [OF assms(2)] by (simp add: sub_def)
  have ss: "v2_append_stores crc m off ?L (r_cursor r) (r_ts r) ?p
      = ?pre @ [(off + ?L - 4, u32_le (crc (v2_body r))), (off, u32_le (of_nat ?L))]"
    by (simp only: v2_append_stores_def Let_def crc_in)
  let ?m' = "apply_stores m (v2_append_stores crc m off ?L (r_cursor r) (r_ts r) ?p)"
  have "?m' = apply_stores (apply_stores m ?pre) [(off + ?L - 4, u32_le (crc (v2_body r))), (off, u32_le (of_nat ?L))]"
    unfolding ss by (rule apply_stores_simps(3))
  also have "\<dots> = poke (poke (a @ ?mark @ v2_body r @ z 4 @ ?rest) (off + ?L - 4) (u32_le (crc (v2_body r)))) off (u32_le (of_nat ?L))"
    unfolding pre by (simp add: apply_store_def)
  also have "\<dots> = a @ v2_encode crc r @ ?rest"
    using la B length_v2_body [OF assms(2)]
      poke_mid [of "off + ?L - 4" "a @ ?mark @ v2_body r" "z 4" "u32_le (crc (v2_body r))"]
      poke_mid [of off a ?mark "u32_le (of_nat ?L)"]
    by (simp add: lz v2_encode_def)
  finally have m': "?m' = take 32 (poke m TAIL_OFFSET ?tail) @ v2_log crc (rs @ [r]) @ ?rest"
    by (simp add: a_def)
  have t32: "length (take 32 (poke m TAIL_OFFSET ?tail)) = 32"
    using I L off_def by (simp add: TAIL_OFFSET_def)
  have hd: "sub ?m' k n = sub (poke m TAIL_OFFSET ?tail) k n" if "k + n \<le> 32" for k n
    unfolding m' by (rule sub_in_take [OF that]) (use I L off_def in \<open>simp add: TAIL_OFFSET_def\<close>)
  have room: "TAIL_OFFSET + length ?tail \<le> length m"
    using I L off_def by (simp add: TAIL_OFFSET_def)
  have "rd64 ?m' 0 = rd64 m 0" "rd32 ?m' 8 = rd32 m 8" "rd64 ?m' 16 = rd64 m 16" "rd64 ?m' TAIL_OFFSET = of_nat off + of_nat ?L"
    using room by (simp_all add: rd64_def rd32_def hd TAIL_OFFSET_def sub_poke_other sub_poke_same disjoint_ranges_def)
  moreover have "length ?m' = cap"
    unfolding m' using t32 L length_v2_log [of "rs @ [r]" crc] I(3) assms(2) by (simp add: off_def length_v2_encode)
  moreover have "drop 32 ?m' = v2_log crc (rs @ [r]) @ ?rest"
    unfolding m' using t32 by simp
  ultimately show ?thesis
    using assms(1,2) L by (simp add: v2_image_def off_def add.assoc diff_diff_eq)
qed


subsection \<open>The segment while records are appended\<close>

definition v2_pos :: "wal_record list \<Rightarrow> nat \<Rightarrow> nat" where
  "v2_pos rs k = 32 + v2_len (take k rs)"

text \<open>What a reader of the records \<open>all\<close> can rely on while the first \<open>j\<close> are complete: their bytes, and
  that the next one, when the tail is past it already, is not taken for a record.\<close>

definition v2_view :: "(bytes \<Rightarrow> u32) \<Rightarrow> wal_record list \<Rightarrow> nat \<Rightarrow> nat \<Rightarrow> bytes \<Rightarrow> bool" where
  "v2_view crc all cap j m \<longleftrightarrow> length m = cap \<and> j \<le> length all \<and> v2_pos all j \<le> cap
     \<and> sub m 32 (v2_len (take j all)) = v2_log crc (take j all)
     \<and> (rd64 m TAIL_OFFSET = of_nat (v2_pos all j) \<or> j < length all \<and> rd64 m TAIL_OFFSET = of_nat (v2_pos all (Suc j)))
     \<and> (j < length all \<longrightarrow> rd32 m (v2_pos all j) = 0
          \<or> rd32 m (v2_pos all j) \<noteq> SKIP_TO_END_SENTINEL \<and> rd32 m (v2_pos all j) AND WRITING_BIT_U32 \<noteq> 0)"

lemma v2_pos_Suc: "k < length rs \<Longrightarrow> v2_pos rs (Suc k) = v2_pos rs k + v2_padded (rs ! k)"
  by (simp add: v2_pos_def v2_len_take_Suc)

lemma v2_pos_mono: "j \<le> k \<Longrightarrow> v2_pos rs j \<le> v2_pos rs k"
  by (metis (no_types, lifting) add_left_mono min.absorb1 take_take v2_len_take_le v2_pos_def)

lemma le_bytes_zero: "le_bytes n 0 = replicate n 0"
  by (induction n) simp_all

lemma u32_le_zero: "u32_le 0 = replicate 4 0"
  by (simp add: u32_le_def le_bytes_zero)

lemma v2_image_zero:
  assumes "v2_image crc first cap rs m" "32 + v2_len rs + 4 \<le> cap"
  shows "sub m (32 + v2_len rs) 4 = u32_le 0"
proof -
  have I: "list_all record_ok rs" "drop 32 m = v2_log crc rs @ replicate (cap - 32 - v2_len rs) 0"
    using assms(1) by (simp_all add: v2_image_def)
  have "sub m (32 + v2_len rs) 4 = take 4 (drop (v2_len rs) (drop 32 m))"
    by (simp add: sub_def add.commute)
  also have "\<dots> = replicate 4 0"
    using I length_v2_log [of rs crc] assms(2) by simp
  finally show ?thesis
    by (simp only: u32_le_zero)
qed

lemma v2_image_view:
  assumes "v2_image crc first cap rs m" "list_all record_ok ds" "32 + v2_len (rs @ ds) \<le> cap"
  shows "v2_view crc (rs @ ds) cap (length rs) m"
proof -
  have I: "length m = cap" "list_all record_ok rs" "32 + v2_len rs \<le> cap" "drop 32 m = v2_log crc rs @ replicate (cap - 32 - v2_len rs) 0"
    "rd64 m TAIL_OFFSET = of_nat (32 + v2_len rs)"
    using assms by (simp_all add: v2_image_def)
  then have "sub m 32 (v2_len rs) = v2_log crc rs"
    using length_v2_log [of rs crc] by (simp add: sub_def)
  moreover have "rd32 m (32 + v2_len rs) = 0" if ds: "ds \<noteq> []"
  proof -
    obtain r ds' where "ds = r # ds'"
      using ds by (cases ds) auto
    then have "32 + v2_len rs + 4 \<le> cap"
      using assms(2,3) v2_padded_bounds(3) [of r] by simp
    then show ?thesis
      using v2_image_zero [OF assms(1)] by (simp add: rd32_def)
  qed
  ultimately show ?thesis
    using I by (simp add: v2_view_def v2_pos_def)
qed

lemma v2_marked:
  assumes "n \<le> MAX_RECORD_LEN"
  shows "of_nat n OR WRITING_BIT_U32 \<noteq> SKIP_TO_END_SENTINEL" "(of_nat n OR WRITING_BIT_U32) AND WRITING_BIT_U32 \<noteq> 0"
    "(of_nat n :: u32) AND WRITING_BIT_U32 = 0" "(of_nat n :: u32) \<noteq> SKIP_TO_END_SENTINEL" "unat (of_nat n :: u32) = n"
proof -
  have n: "n < 2 ^ 25"
    using assms by (simp add: wal_consts)
  then show u: "unat (of_nat n :: u32) = n"
    by (intro unat_of_nat_u32) simp
  have b: "\<not> bit (of_nat n :: u32) k" if "25 \<le> k" for k
  proof -
    have "n < 2 ^ k"
      using n that power_increasing [of 25 k "2 :: nat"] by simp
    then show ?thesis
      by (simp only: bit_of_nat_iff) (simp add: bit_iff_odd)
  qed
  have w: "bit WRITING_BIT_U32 k \<longleftrightarrow> k = 31" for k
    unfolding WRITING_BIT_U32_def bit_push_bit_iff by (auto simp: bit_1_iff)
  have "\<not> bit (of_nat n OR WRITING_BIT_U32 :: u32) 30" "bit (- 1 :: u32) 30"
    using b [of 30] by (simp_all add: bit_or_iff w)
  then show "of_nat n OR WRITING_BIT_U32 \<noteq> SKIP_TO_END_SENTINEL"
    unfolding SKIP_TO_END_SENTINEL_def by metis
  have "bit ((of_nat n OR WRITING_BIT_U32) AND WRITING_BIT_U32) 31"
    by (simp add: bit_simps w)
  then show "(of_nat n OR WRITING_BIT_U32) AND WRITING_BIT_U32 \<noteq> 0"
    by (metis bit_0_eq bot_apply bot_bool_def)
  show "(of_nat n :: u32) AND WRITING_BIT_U32 = 0"
    using b by (intro bit_word_eqI) (auto simp: bit_and_iff w)
  show "(of_nat n :: u32) \<noteq> SKIP_TO_END_SENTINEL"
    using b [OF order.strict_implies_order, of 30] \<open>bit (- 1 :: u32) 30\<close> unfolding SKIP_TO_END_SENTINEL_def by auto
qed

lemma v2_append_stores_split:
  assumes "record_ok r"
  obtains mids where "v2_append_stores crc m off (v2_padded r) (r_cursor r) (r_ts r) (r_payload r)
      = (TAIL_OFFSET, u64_le (of_nat off + of_nat (v2_padded r)))
        # (off, u32_le (of_nat (v2_padded r) OR WRITING_BIT_U32)) # mids @ [(off, u32_le (of_nat (v2_padded r)))]"
    "\<forall>s \<in> set mids. store_within (off + 4) (off + v2_padded r) s" "length mids = 4 + length (r_payload r)"
proof -
  note B = v2_padded_bounds [OF assms]
  let ?crc = "crc (sub (apply_stores m ([(TAIL_OFFSET, u64_le (of_nat off + of_nat (v2_padded r))),
      (off, u32_le (of_nat (v2_padded r) OR WRITING_BIT_U32))] @ v2_body_stores off (r_cursor r) (r_ts r) (r_payload r)))
      (off + 4) (v2_padded r - 8))"
  let ?mids = "v2_body_stores off (r_cursor r) (r_ts r) (r_payload r) @ [(off + v2_padded r - 4, u32_le ?crc)]"
  show ?thesis
  proof (rule that [of ?mids])
    show "\<forall>s \<in> set ?mids. store_within (off + 4) (off + v2_padded r) s"
      using B(1) by (auto simp: v2_body_stores_def store_within_def)
  qed (simp_all add: v2_append_stores_def Let_def v2_body_stores_def)
qed

lemma length_v2_append_stores:
  "length (v2_append_stores crc m off n cursor ts payload) = 7 + length payload"
  by (simp add: v2_append_stores_def v2_body_stores_def Let_def)

lemma v2_view_busy:
  assumes "v2_image crc first cap rs m" "list_all record_ok (r # ds)" "32 + v2_len (rs @ r # ds) \<le> cap"
    "n < length (v2_append_stores crc m (32 + v2_len rs) (v2_padded r) (r_cursor r) (r_ts r) (r_payload r))"
  shows "v2_view crc (rs @ r # ds) cap (length rs)
    (apply_stores m (take n (v2_append_stores crc m (32 + v2_len rs) (v2_padded r) (r_cursor r) (r_ts r) (r_payload r))))"
proof -
  let ?off = "32 + v2_len rs"
  obtain mids where S: "v2_append_stores crc m ?off (v2_padded r) (r_cursor r) (r_ts r) (r_payload r)
      = (TAIL_OFFSET, u64_le (of_nat ?off + of_nat (v2_padded r)))
        # (?off, u32_le (of_nat (v2_padded r) OR WRITING_BIT_U32)) # mids @ [(?off, u32_le (of_nat (v2_padded r)))]"
    "\<forall>s \<in> set mids. store_within (?off + 4) (?off + v2_padded r) s"
    using v2_append_stores_split [of r] assms(2) by (metis list.pred_inject(2))
  have r: "record_ok r"
    using assms(2) by simp
  note B = v2_padded_bounds [OF r] and M = v2_marked [OF v2_padded_bounds(2) [OF r]]
  have I: "length m = cap" "list_all record_ok rs" "drop 32 m = v2_log crc rs @ replicate (cap - 32 - v2_len rs) 0"
    using assms(1) by (simp_all add: v2_image_def)
  have pos: "v2_pos (rs @ r # ds) (length rs) = ?off" "v2_pos (rs @ r # ds) (Suc (length rs)) = ?off + v2_padded r"
    by (simp_all add: v2_pos_def)
  let ?m1 = "poke m TAIL_OFFSET (u64_le (of_nat ?off + of_nat (v2_padded r)))"
  let ?m2 = "poke ?m1 ?off (u32_le (of_nat (v2_padded r) OR WRITING_BIT_U32))"
  consider "n = 0" | "n = 1" | k where "n = Suc (Suc k)" "k \<le> length mids"
    using assms(4) unfolding S(1) by (cases n; cases "n - 1") auto
  then show ?thesis
  proof cases
    case 1
    then show ?thesis
      using v2_image_view [OF assms(1-3)] by simp
  next
    case 2
    have room: "32 \<le> length m" "?off + 4 \<le> length m"
      using I(1) assms(3) B(3) by simp_all
    have "sub ?m1 32 (v2_len rs) = sub m 32 (v2_len rs)" "sub ?m1 ?off 4 = sub m ?off 4"
      using room by (simp_all add: sub_poke_other disjoint_ranges_def TAIL_OFFSET_def)
    moreover have "sub m 32 (v2_len rs) = v2_log crc rs"
      using I length_v2_log [of rs crc] by (simp add: sub_def)
    moreover have "sub m ?off 4 = u32_le 0"
      using v2_image_zero [OF assms(1)] room I(1) by simp

    moreover have "rd64 ?m1 TAIL_OFFSET = of_nat (?off + v2_padded r)" "length ?m1 = cap"
      using room I(1) by (simp_all add: rd64_def sub_poke_same TAIL_OFFSET_def)
    moreover have "apply_stores m (take n (v2_append_stores crc m ?off (v2_padded r) (r_cursor r) (r_ts r) (r_payload r))) = ?m1"
      unfolding S(1) using 2 by (simp add: apply_store_def)
    ultimately show ?thesis
      using assms(3) by (simp add: v2_view_def pos rd32_def)
  next
    case 3
    let ?ss = "take k mids"
    have ss: "\<forall>s \<in> set ?ss. store_within (?off + 4) (?off + v2_padded r) s"
      using S(2) by (meson in_set_takeD)
    have room: "32 \<le> length m" "?off + 4 \<le> length m" "?off + v2_padded r \<le> length m"
      using I(1) assms(3) B(3) by simp_all
    then have l2: "length ?m2 = length m"
      by (simp add: TAIL_OFFSET_def)
    have hi: "?off + v2_padded r \<le> length ?m2"
      using room l2 by simp
    note W = apply_stores_within [OF ss hi]
    have d: "disjoint_ranges (?off + 4) (?off + v2_padded r - (?off + 4)) 32 (v2_len rs)"
      "disjoint_ranges (?off + 4) (?off + v2_padded r - (?off + 4)) ?off 4"
      "disjoint_ranges (?off + 4) (?off + v2_padded r - (?off + 4)) TAIL_OFFSET 8"
      by (simp_all add: disjoint_ranges_def TAIL_OFFSET_def)
    have "sub ?m2 32 (v2_len rs) = sub m 32 (v2_len rs)"
      using room by (simp add: sub_poke_other disjoint_ranges_def TAIL_OFFSET_def)
    moreover have "sub m 32 (v2_len rs) = v2_log crc rs"
      using I length_v2_log [of rs crc] by (simp add: sub_def)
    moreover have "sub ?m2 ?off 4 = u32_le (of_nat (v2_padded r) OR WRITING_BIT_U32)"
      using room by (simp add: sub_poke_same TAIL_OFFSET_def)
    moreover have "sub ?m2 TAIL_OFFSET 8 = u64_le (of_nat (?off + v2_padded r))"
      using room by (simp add: sub_poke_same sub_poke_other disjoint_ranges_def TAIL_OFFSET_def)
    moreover have "apply_stores m (take n (v2_append_stores crc m ?off (v2_padded r) (r_cursor r) (r_ts r) (r_payload r)))
        = apply_stores ?m2 ?ss"
      unfolding S(1) using 3 by (simp add: apply_store_def)
    ultimately show ?thesis
      using W(1) W(2) [OF d(1)] W(2) [OF d(2)] W(2) [OF d(3)] l2 I(1) assms(3) M(1,2)
      by (simp add: v2_view_def pos rd32_def rd64_def)
  qed
qed


text \<open>The stores of successive appends, each at the tail the one before left.\<close>

fun v2_program :: "(bytes \<Rightarrow> u32) \<Rightarrow> bytes \<Rightarrow> wal_record list \<Rightarrow> store list" where
  "v2_program crc m [] = []"
| "v2_program crc m (r # rs) =
    (let ss = v2_append_stores crc m (unat (rd64 m TAIL_OFFSET)) (v2_padded r) (r_cursor r) (r_ts r) (r_payload r)
     in ss @ v2_program crc (apply_stores m ss) rs)"

text \<open>How many appends are complete after \<open>n\<close> stores.\<close>

fun v2_done :: "wal_record list \<Rightarrow> nat \<Rightarrow> nat" where
  "v2_done [] n = 0"
| "v2_done (r # rs) n =
    (if 7 + length (r_payload r) \<le> n then Suc (v2_done rs (n - (7 + length (r_payload r)))) else 0)"

lemma v2_done_mono: "n \<le> n' \<Longrightarrow> v2_done rs n \<le> v2_done rs n'"
  by (induction rs arbitrary: n n') (auto simp: diff_le_mono)

lemma v2_image_tail: "v2_image crc first cap rs m \<Longrightarrow> unat (rd64 m TAIL_OFFSET) = 32 + v2_len rs"
proof -
  assume "v2_image crc first cap rs m"
  then have "rd64 m TAIL_OFFSET = of_nat (32 + v2_len rs)" "32 + v2_len rs \<le> cap" "cap < 2 ^ 63"
    by (auto simp only: v2_image_def)
  moreover from this(2,3) have "32 + v2_len rs < 2 ^ 63"
    by (rule le_less_trans)
  ultimately show ?thesis
    by (simp only: unat_of_nat_small)
qed

lemma v2_program_view:
  assumes "v2_image crc first cap rs m" "list_all record_ok ds" "32 + v2_len (rs @ ds) \<le> cap"
    "n \<le> length (v2_program crc m ds)"
  shows "v2_view crc (rs @ ds) cap (length rs + v2_done ds n) (apply_stores m (take n (v2_program crc m ds)))"
  using assms
proof (induction ds arbitrary: rs m n)
  case Nil
  then show ?case
    using v2_image_view [of crc first cap rs m "[]"] by simp
next
  case (Cons r ds)
  let ?ss = "v2_append_stores crc m (32 + v2_len rs) (v2_padded r) (r_cursor r) (r_ts r) (r_payload r)"
  have r: "record_ok r" "32 + v2_len rs + v2_padded r \<le> cap"
    using Cons.prems by simp_all
  have P: "v2_program crc m (r # ds) = ?ss @ v2_program crc (apply_stores m ?ss) ds"
    using v2_image_tail [OF Cons.prems(1)] by (simp add: Let_def)
  have len: "length ?ss = 7 + length (r_payload r)"
    by (rule length_v2_append_stores)
  show ?case
  proof (cases "n < length ?ss")
    case True
    then show ?thesis
      using v2_view_busy [OF Cons.prems(1-3) True] len unfolding P by simp
  next
    case False
    have "v2_view crc ((rs @ [r]) @ ds) cap (length (rs @ [r]) + v2_done ds (n - length ?ss))
        (apply_stores (apply_stores m ?ss) (take (n - length ?ss) (v2_program crc (apply_stores m ?ss) ds)))"
      using v2_append_effect [OF Cons.prems(1) r] Cons.prems(2-4) unfolding P
      by (intro Cons.IH) (simp_all add: add.assoc)
    then show ?thesis
      using False len unfolding P by simp
  qed
qed

lemma v2_program_image:
  assumes "v2_image crc first cap rs m" "list_all record_ok ds" "32 + v2_len (rs @ ds) \<le> cap"
  shows "v2_image crc first cap (rs @ ds) (apply_stores m (v2_program crc m ds))"
  using assms
proof (induction ds arbitrary: rs m)
  case (Cons r ds)
  let ?ss = "v2_append_stores crc m (32 + v2_len rs) (v2_padded r) (r_cursor r) (r_ts r) (r_payload r)"
  have r: "record_ok r" "32 + v2_len rs + v2_padded r \<le> cap"
    using Cons.prems by simp_all
  then have "v2_image crc first cap ((rs @ [r]) @ ds) (apply_stores (apply_stores m ?ss) (v2_program crc (apply_stores m ?ss) ds))"
    using v2_append_effect [OF Cons.prems(1) r] Cons.prems(2,3) by (intro Cons.IH) (simp_all add: add.assoc)
  then show ?case
    using v2_image_tail [OF Cons.prems(1)] by (simp add: Let_def)
qed simp

subsection \<open>Reading\<close>

lemma v2_view_record:
  assumes "v2_view crc all cap j m" "list_all record_ok all" "k < j"
  shows "sub m (v2_pos all k) (v2_padded (all ! k)) = v2_encode crc (all ! k)" "v2_pos all k + v2_padded (all ! k) \<le> length m"
    "record_ok (all ! k)" "v2_pos all k + v2_padded (all ! k) \<le> v2_pos all j"
proof -
  have V: "length m = cap" "j \<le> length all" "v2_pos all j \<le> cap" "sub m 32 (v2_len (take j all)) = v2_log crc (take j all)"
    using assms(1) by (simp_all add: v2_view_def)
  have k: "k < length all"
    using assms(3) V(2) by simp
  show ok: "record_ok (all ! k)"
    using assms(2) k by (simp add: list_all_length)
  show le: "v2_pos all k + v2_padded (all ! k) \<le> v2_pos all j"
    using v2_pos_mono [of "Suc k" j all] v2_pos_Suc [OF k] assms(3) by simp
  then show "v2_pos all k + v2_padded (all ! k) \<le> length m"
    using V by simp
  have "take j all = take k all @ all ! k # drop (Suc k) (take j all)"
    using id_take_nth_drop [of k "take j all"] assms(3) V(2) by (simp only: length_take take_take nth_take min_def) simp
  then have "v2_log crc (take j all) = v2_log crc (take k all @ all ! k # drop (Suc k) (take j all))"
    by (rule arg_cong)
  also have "\<dots> = v2_log crc (take k all) @ v2_encode crc (all ! k) @ v2_log crc (drop (Suc k) (take j all))"
    by (simp only: v2_log_simps(2,3))
  finally obtain rest where "v2_log crc (take j all) = v2_log crc (take k all) @ v2_encode crc (all ! k) @ rest"
    by blast
  moreover have "length (v2_log crc (take k all)) = v2_len (take k all)"
    using assms(2) by (intro length_v2_log) (auto simp: list_all_iff dest: in_set_takeD)
  ultimately have "sub (v2_log crc (take j all)) (v2_len (take k all)) (v2_padded (all ! k)) = v2_encode crc (all ! k)"
    using length_v2_encode [OF ok, of crc] by (simp add: sub_def)
  moreover have "v2_len (take k all) + v2_padded (all ! k) \<le> v2_len (take j all)"
    using le by (simp add: v2_pos_def)
  ultimately show "sub m (v2_pos all k) (v2_padded (all ! k)) = v2_encode crc (all ! k)"
    using V(4) sub_sub [of "v2_len (take k all)" "v2_padded (all ! k)" "v2_len (take j all)" m 32]
    by (simp add: v2_pos_def)
qed

lemma copy_from_settled:
  assumes "\<And>k. k < n \<Longrightarrow> sub (E (t + k)) a n = v" "\<And>k. k < n \<Longrightarrow> a + n \<le> length (E (t + k))" "length v = n"
  shows "copy_from E t a n = v"
proof (rule nth_equalityI)
  fix k assume "k < length (copy_from E t a n)"
  then have k: "k < n"
    by (simp add: copy_from_def)
  then have "E (t + k) ! (a + k) = sub (E (t + k)) a n ! k"
    using assms(2) [OF k] by (simp add: sub_def)
  then show "copy_from E t a n ! k = v ! k"
    using assms(1) [OF k] k by (simp add: copy_from_def)
qed (simp add: copy_from_def assms(3))

lemma v2_encode_fields:
  assumes "record_ok r"
  shows "sub (v2_encode crc r) 0 4 = u32_le (of_nat (v2_padded r))" "sub (v2_encode crc r) 4 8 = u64_le (r_cursor r)"
    "sub (v2_encode crc r) 12 8 = u64_le (r_ts r)" "sub (v2_encode crc r) 20 4 = u32_le (of_nat (length (r_payload r)))"
    "sub (v2_encode crc r) 24 (length (r_payload r)) = r_payload r"
    "sub (v2_encode crc r) 4 (v2_padded r - 8) = v2_body r"
    "sub (v2_encode crc r) (v2_padded r - 4) 4 = u32_le (crc (v2_body r))"
proof -
  note B = v2_padded_bounds [OF assms] and L = length_v2_body [OF assms]
  show "sub (v2_encode crc r) 0 4 = u32_le (of_nat (v2_padded r))" "sub (v2_encode crc r) 4 8 = u64_le (r_cursor r)"
    "sub (v2_encode crc r) 12 8 = u64_le (r_ts r)" "sub (v2_encode crc r) 20 4 = u32_le (of_nat (length (r_payload r)))"
    "sub (v2_encode crc r) 24 (length (r_payload r)) = r_payload r"
    by (simp_all add: v2_encode_def v2_body_def sub_def)
  show "sub (v2_encode crc r) 4 (v2_padded r - 8) = v2_body r"
    using L by (simp add: v2_encode_def sub_def)
  obtain q where q: "v2_padded r = 8 + q"
    using B(3) le_Suc_ex [of 8 "v2_padded r"] by auto
  show "sub (v2_encode crc r) (v2_padded r - 4) 4 = u32_le (crc (v2_body r))"
    using L unfolding q by (simp add: v2_encode_def sub_def)
qed


text \<open>Reading a record that is complete by the time its length is loaded.\<close>

lemma v2_next_settled:
  assumes at: "\<And>u. t + 1 \<le> u \<Longrightarrow> sub (E u) off (v2_padded x) = v2_encode crc x" "\<And>u. t + 1 \<le> u \<Longrightarrow> length (E u) = cap"
    and x: "record_ok x" and le: "off + v2_padded x \<le> cap"
    and tail: "of_nat off < rd64 (E t) TAIL_OFFSET"
    and r: "mr_pos r = off" "mr_size r = cap"
  shows "v2_next_at crc E t r = (ReadRecord x, r\<lparr>mr_pos := off + v2_padded x\<rparr>)"
proof -
  note B = v2_padded_bounds [OF x] and F = v2_encode_fields [OF x, of crc]
  note M = v2_marked [OF B(2)]
  have field: "sub (E u) (off + i) n = sub (v2_encode crc x) i n" if "t + 1 \<le> u" "i + n \<le> v2_padded x" for u i n
    using at(1) [OF that(1)] sub_sub [OF that(2), of "E u" off] by simp
  have copy: "copy_from E u (off + i) n = sub (v2_encode crc x) i n" if "t + 1 \<le> u" "i + n \<le> v2_padded x" for u i n
  proof (rule copy_from_settled)
    show "length (sub (v2_encode crc x) i n) = n"
      using that(2) length_v2_encode [OF x, of crc] by (simp add: length_sub fits_def)
    show "sub (E (u + j)) (off + i) n = sub (v2_encode crc x) i n" for j
      using that by (intro field) simp_all
    show "off + i + n \<le> length (E (u + j))" for j
      using that le at(2) [of "u + j"] by simp
  qed
  have raw: "rd32 (E (t + 1) @ [0, 0, 0]) off = of_nat (v2_padded x)"
    using field [of "t + 1" 0 4] F(1) B(3) le at(2) [of "t + 1"] by (simp add: rd32_def sub_append_left)
  have nz: "(of_nat (v2_padded x) :: u32) \<noteq> 0"
    using M(5) B(3) by (metis unat_0 not_numeral_le_zero)
  have c: "copy_from E (t + 2) (off + 4) 8 = u64_le (r_cursor x)" "copy_from E (t + 10) (off + 12) 8 = u64_le (r_ts x)"
    "copy_from E (t + 18) (off + 20) 4 = u32_le (of_nat (length (r_payload x)))"
    "copy_from E (t + 26) (off + 4) (v2_padded x - 8) = v2_body x"
    "copy_from E (t + 26 + v2_padded x) (off + 24) (length (r_payload x)) = r_payload x"
    using B(1,3) F by (simp_all add: copy)
  have "off + v2_padded x - 4 = off + (v2_padded x - 4)"
    using B(3) by simp
  then have crc_at: "copy_from E (t + 22) (off + v2_padded x - 4) 4 = u32_le (crc (v2_body x))"
    using B(3) F(7) copy [of "t + 22" "v2_padded x - 4" 4] by simp
  have pl: "unat (of_nat (length (r_payload x)) :: u32) = length (r_payload x)"
    by (rule record_ok_lengths(2) [OF x])
  show ?thesis
    using tail le B nz M unfolding v2_next_at_def Let_def r raw
    by (simp add: c crc_at pl RECORD_FRAMING_def not_le not_less del: add_2_eq_Suc')
qed

lemma v2_next_complete:
  assumes views: "\<And>u. t \<le> u \<Longrightarrow> \<exists>j. v2_view crc all cap j (E u) \<and> (t + 1 \<le> u \<longrightarrow> k < j)"
    and ok: "list_all record_ok all"
    and tail: "of_nat (v2_pos all k) < rd64 (E t) TAIL_OFFSET"
    and r: "mr_pos r = v2_pos all k" "mr_size r = cap"
  shows "v2_next_at crc E t r = (ReadRecord (all ! k), r\<lparr>mr_pos := v2_pos all (Suc k)\<rparr>)"
proof -
  have at: "sub (E u) (v2_pos all k) (v2_padded (all ! k)) = v2_encode crc (all ! k)" "length (E u) = cap"
    "v2_pos all k + v2_padded (all ! k) \<le> cap" "record_ok (all ! k)" "k < length all" if u: "t + 1 \<le> u" for u
  proof -
    obtain j where j: "v2_view crc all cap j (E u)" "k < j"
      using views [of u] u by fastforce
    show "length (E u) = cap" "k < length all"
      using j by (auto simp: v2_view_def)
    then show "sub (E u) (v2_pos all k) (v2_padded (all ! k)) = v2_encode crc (all ! k)"
      "v2_pos all k + v2_padded (all ! k) \<le> cap" "record_ok (all ! k)"
      using v2_view_record [OF j(1) ok j(2)] by simp_all
  qed
  have "v2_next_at crc E t r = (ReadRecord (all ! k), r\<lparr>mr_pos := v2_pos all k + v2_padded (all ! k)\<rparr>)"
    by (rule v2_next_settled [where off = "v2_pos all k" and cap = cap]) (use at tail r at(3,4) [of "t + 1"] in simp_all)
  then show ?thesis
    using v2_pos_Suc at(5) [of "t + 1"] by simp
qed

lemma v2_next_waits:
  assumes "v2_view crc all cap j (E t)" "v2_view crc all cap j' (E (t + 1))" "j' \<le> k" "j \<le> j'" "k \<le> length all" "cap < 2 ^ 63"
    "mr_pos r = v2_pos all k" "mr_size r = cap" "list_all record_ok all" "32 + v2_len all \<le> cap"
  shows "v2_next_at crc E t r = (if v2_pos all k = cap then EndOfSegment else AwaitMore, r)"
proof -
  have all: "v2_pos all i \<le> cap" for i
    using assms(10) v2_len_take_le [of i all] by (simp add: v2_pos_def)
  have small: "unat (of_nat (v2_pos all i) :: u64) = v2_pos all i" for i
    using all [of i] assms(6) by (intro unat_of_nat_small) simp
  have V: "length (E t) = cap" "length (E (t + 1)) = cap"
    using assms(1,2) by (simp_all add: v2_view_def)
  show ?thesis
  proof (cases "v2_pos all k = cap \<or> of_nat (v2_pos all k) \<ge> rd64 (E t) TAIL_OFFSET")
    case True
    then show ?thesis
      using all [of k] assms(7,8) by (auto simp: v2_next_at_def)
  next
    case False
    then have t1: "\<not> of_nat (v2_pos all k) \<ge> rd64 (E t) TAIL_OFFSET"
      by simp
    have "rd64 (E t) TAIL_OFFSET \<noteq> of_nat (v2_pos all j)"
      using t1 v2_pos_mono [of j k all] assms(3,4) small by (auto simp: word_le_nat_alt)
    then have T: "j < length all" "rd64 (E t) TAIL_OFFSET = of_nat (v2_pos all (Suc j))"
      using assms(1) by (auto simp: v2_view_def)
    have jk: "j = k" "j' = k"
    proof -
      have "\<not> Suc j \<le> k"
        using t1 T(2) v2_pos_mono [of "Suc j" k all] small by (auto simp: word_le_nat_alt)
      then show "j = k" "j' = k"
        using assms(3,4) by simp_all
    qed
    have k: "k < length all" "v2_pos all (Suc k) = v2_pos all k + v2_padded (all ! k)"
      using T(1) jk v2_pos_Suc by auto
    have "record_ok (all ! k)"
      using assms(9) k(1) by (simp add: list_all_length)
    note B = v2_padded_bounds [OF this]
    have room: "v2_pos all k + 4 \<le> cap"
      using all [of "Suc k"] k(2) B(3) by simp
    have "rd32 (E (t + 1)) (v2_pos all k) = 0 \<or> rd32 (E (t + 1)) (v2_pos all k) \<noteq> SKIP_TO_END_SENTINEL
        \<and> rd32 (E (t + 1)) (v2_pos all k) AND WRITING_BIT_U32 \<noteq> 0"
      using assms(2) jk k(1) by (simp add: v2_view_def)
    moreover have "rd32 (E (t + 1) @ [0, 0, 0]) (v2_pos all k) = rd32 (E (t + 1)) (v2_pos all k)"
      using room V by (simp add: rd32_def sub_append_left)
    moreover have "v2_pos all k < cap"
      using False all [of k] by simp
    ultimately show ?thesis
      using t1 assms(7,8) by (auto simp: v2_next_at_def Let_def)
  qed
qed


text \<open>C12: A reader beside a publisher that appends. Whatever the interleaving of its loads with the stores,
  one look at the segment either returns the record the reader is at, whole, or tells it to wait (or
  that the segment is used up) and leaves it where it is. It never reports an error, and a record that
  was complete when the look began is returned.\<close>

theorem v2_reader_no_torn_record:
  assumes "v2_image crc first cap rs m" "list_all record_ok ds" "32 + v2_len (rs @ ds) \<le> cap"
    "mono \<sigma>" "\<forall>u. \<sigma> u \<le> length (v2_program crc m ds)"
    "E = (\<lambda>u. apply_stores m (take (\<sigma> u) (v2_program crc m ds)))"
    "k \<le> length (rs @ ds)" "mr_pos r = v2_pos (rs @ ds) k" "mr_size r = cap"
  shows "v2_next_at crc E t r
      = (if k < length rs + v2_done ds (\<sigma> (t + 1)) \<and> of_nat (v2_pos (rs @ ds) k) < rd64 (E t) TAIL_OFFSET
         then (ReadRecord ((rs @ ds) ! k), r\<lparr>mr_pos := v2_pos (rs @ ds) (Suc k)\<rparr>)
         else (if v2_pos (rs @ ds) k = cap then EndOfSegment else AwaitMore, r))
    \<and> (k < length rs + v2_done ds (\<sigma> t) \<longrightarrow>
        v2_next_at crc E t r = (ReadRecord ((rs @ ds) ! k), r\<lparr>mr_pos := v2_pos (rs @ ds) (Suc k)\<rparr>))"
proof -
  let ?all = "rs @ ds" and ?j = "\<lambda>u. length rs + v2_done ds (\<sigma> u)"
  have V: "v2_view crc ?all cap (?j u) (E u)" for u
    using v2_program_view [OF assms(1-3), of "\<sigma> u"] assms(5,6) by simp
  have mj: "?j u \<le> ?j u'" if "u \<le> u'" for u u'
    using v2_done_mono assms(4) that by (simp add: mono_def)
  have ok: "list_all record_ok ?all" and cap: "cap < 2 ^ 63"
    using assms(1,2) by (simp_all add: v2_image_def)
  have all: "v2_pos ?all i \<le> cap" for i
    using assms(3) v2_len_take_le [of i ?all] by (simp add: v2_pos_def)
  have small: "unat (of_nat (v2_pos ?all i) :: u64) = v2_pos ?all i" for i
    using all [of i] cap by (intro unat_of_nat_small) simp
  let ?past = "of_nat (v2_pos ?all k) < rd64 (E t) TAIL_OFFSET"
  have "k < ?j t \<Longrightarrow> ?past"
  proof -
    assume k: "k < ?j t"
    have "v2_pos ?all (Suc k) \<le> unat (rd64 (E t) TAIL_OFFSET)"
      using V [of t] small v2_pos_mono [of "Suc k" "?j t" ?all] v2_pos_mono [of "Suc k" "Suc (?j t)" ?all] k
      by (auto simp: v2_view_def)
    moreover have "v2_pos ?all k < v2_pos ?all (Suc k)"
    proof -
      have "k < length ?all"
        using k V [of t] by (simp add: v2_view_def)
      moreover from this have "record_ok (?all ! k)"
        using ok by (simp only: list_all_length)
      ultimately show ?thesis
        using v2_padded_bounds(3) [of "?all ! k"] by (simp add: v2_pos_Suc)
    qed
    ultimately show ?past
      by (simp add: word_less_nat_alt small)
  qed
  moreover have "v2_next_at crc E t r = (ReadRecord (?all ! k), r\<lparr>mr_pos := v2_pos ?all (Suc k)\<rparr>)" if "k < ?j (t + 1)" ?past
  proof (rule v2_next_complete [OF _ ok _ assms(8,9)])
    show "\<exists>j. v2_view crc ?all cap j (E u) \<and> (t + 1 \<le> u \<longrightarrow> k < j)" if "t \<le> u" for u
      using V [of u] mj [of "t + 1" u] \<open>k < ?j (t + 1)\<close> by (intro exI [of _ "?j u"]) auto
  qed (use that in simp)
  moreover have "v2_next_at crc E t r = (if v2_pos ?all k = cap then EndOfSegment else AwaitMore, r)" if "\<not> k < ?j (t + 1)"
    using that mj [of t "t + 1"] assms(3,7-9) by (intro v2_next_waits [OF V V _ _ _ cap _ _ ok]) simp_all
  moreover have "v2_next_at crc E t r = (if v2_pos ?all k = cap then EndOfSegment else AwaitMore, r)" if "\<not> ?past"
    using that all [of k] assms(8,9) by (simp add: v2_next_at_def Let_def not_less)
  moreover have "?j t \<le> ?j (t + 1)"
    by (rule mj) simp
  ultimately show ?thesis
    by (cases "k < ?j (t + 1)"; cases ?past) auto
qed


theorem v2_reader_no_torn_record_witness:
  "\<exists>m. v2_image demo_crc 0 100 [] m
    \<and> v2_next_at demo_crc (\<lambda>u. apply_stores m (take (min u 9) (v2_program demo_crc m [demo_record 0]))) 20
        \<lparr>mr_name = [], mr_size = 100, mr_first = 0, mr_pos = 32\<rparr>
      = (ReadRecord (demo_record 0), \<lparr>mr_name = [], mr_size = 100, mr_first = 0, mr_pos = 64\<rparr>)"
proof -
  let ?m = "apply_stores (replicate 100 0) (v2_create_stores 0)"
  let ?r = "\<lparr>mr_name = [], mr_size = 100, mr_first = 0, mr_pos = 32\<rparr>" and ?ds = "[demo_record 0]"
  have I: "v2_image demo_crc 0 100 [] ?m"
    by (rule v2_image_fresh) simp_all
  have p: "v2_padded (demo_record 0) = 32"
    by (simp add: v2_padded_def demo_record_def align_record_len_eq RECORD_FRAMING_def)
  have ok: "list_all record_ok ?ds" "32 + v2_len ([] @ ?ds) \<le> 100"
    by (simp_all add: demo_record_ok p)
  have n: "length (v2_program demo_crc ?m ?ds) = 9" "v2_done ?ds 9 = 1"
    by (simp_all add: Let_def length_v2_append_stores demo_record_def)
  have "mono (\<lambda>u. min u 9 :: nat)"
    by (auto simp: mono_def min_def)
  from conjunct2 [OF v2_reader_no_torn_record [OF I ok this _ refl, of 0 ?r 20]]
  have "v2_next_at demo_crc (\<lambda>u. apply_stores ?m (take (min u 9) (v2_program demo_crc ?m ?ds))) 20 ?r
      = (ReadRecord (([] @ ?ds) ! 0), ?r\<lparr>mr_pos := v2_pos ([] @ ?ds) (Suc 0)\<rparr>)"
    unfolding n(1) by (simp add: n(2) v2_pos_def del: v2_program.simps v2_done.simps)
  then show ?thesis
    using I p by (intro exI [of _ ?m]) (simp add: v2_pos_def del: v2_program.simps)
qed

end
