(* ===== verification/V2_Wal.thy ===== *)
theory V2_Wal
  imports V2_Segment_Properties
begin

text \<open>
  The lock-free log over many segments: \<open>crates/mmbus/src/wal/v2/wal.rs\<close> and its read-only view
  \<open>reader.rs\<close>. An operation is one step on the state and the directory; the flusher takes three,
  because it holds no lock: it notes the cursor, loads the writer, syncs. Byte counters are natural
  numbers.
\<close>

subsection \<open>State (wal.rs, lines 49--139)\<close>

datatype v2_error =
    V2Io io_error
  | V2Writer v2_writer_error
  | V2Reader v2_reader_error
  | V2Rotation rotate_error
  | V2CursorTooOld u64 u64
  | V2Poisoned
  | V2WalPayloadTooLarge nat

record v2_wal =
  v2_segments :: "(u64 \<times> string) list"
  v2_sizes :: "(u64 \<times> nat) list"
  v2_wr :: "v2_writer option"
  v2_cfg :: wal_config
  v2_durable :: u64
  v2_pending :: u64
  v2_active_bytes :: nat
  v2_retained_bytes :: nat
  v2_cached_ts :: u64
  v2_wall_base :: u64
  v2_poisoned :: bool
  v2_appends :: nat
  v2_append_bytes :: nat
  v2_flushes :: nat

subsection \<open>Opening (wal.rs, lines 141--316)\<close>

fun v2_scan_dir ::
    "string list \<Rightarrow> mdisk \<Rightarrow> (u64 \<times> string) list \<Rightarrow> (u64 \<times> nat) list \<Rightarrow> (u64 \<times> string) list \<times> (u64 \<times> nat) list" where
  "v2_scan_dir [] d segments sizes = (segments, sizes)"
| "v2_scan_dir (name # names) d segments sizes = (case seg_key name of
      None \<Rightarrow> v2_scan_dir names d segments sizes
    | Some first_cursor \<Rightarrow> v2_scan_dir names d (bt_insert first_cursor name segments)
        (bt_insert first_cursor (length (mmap_of d name)) sizes))"

lemma v2_next_progress:
  assumes "v2_next_at crc E t r = (res, r')" "res \<noteq> AwaitMore" "res \<noteq> EndOfSegment"
  shows "mr_size r' = mr_size r" "mr_size r' - mr_pos r' < mr_size r - mr_pos r" "mr_name r' = mr_name r"
proof -
  have a: "0 < align_record_len n" if "\<not> n < 28" "\<not> MAX_RECORD_LEN < n" for n
    using that align_record_len_eq [of n] by (simp add: wal_consts)
  show "mr_size r' = mr_size r" "mr_size r' - mr_pos r' < mr_size r - mr_pos r" "mr_name r' = mr_name r"
    using assms a unfolding v2_next_at_def Let_def RECORD_FRAMING_def
    by (auto split: if_splits intro!: diff_less_mono2)
qed

text \<open>The last cursor before the first look that gives no record.\<close>

function v2_last_cursor :: "(bytes \<Rightarrow> u32) \<Rightarrow> mdisk \<Rightarrow> v2_reader \<Rightarrow> u64 option \<Rightarrow> u64 option" where
  "v2_last_cursor crc d r last_cursor = (case v2_next_record crc d r of
      (ReadRecord x, r') \<Rightarrow> v2_last_cursor crc d r' (Some (r_cursor x))
    | _ \<Rightarrow> last_cursor)"
  by pat_completeness auto
termination
proof (relation "measure (\<lambda>(crc, d, r, lc). mr_size r - mr_pos r)")
  fix crc d r x r' y lc assume "(x, r') = v2_next_record crc d r" "x = ReadRecord y"
  then show "((crc, d, r', Some (r_cursor y)), (crc, d, r, lc)) \<in> measure (\<lambda>(crc, d, r, lc). mr_size r - mr_pos r)"
    using v2_next_progress(2) [of crc "\<lambda>_. mmap_of d (mr_name r)" 0 r x r'] by (simp add: v2_next_record_def)
qed simp

declare v2_last_cursor.simps [simp del]

definition v2_open_active ::
    "(bytes \<Rightarrow> u32) \<Rightarrow> wal_config \<Rightarrow> (u64 \<times> string) list \<Rightarrow> (u64 \<times> nat) list \<Rightarrow> mdisk
      \<Rightarrow> (v2_error + v2_writer option \<times> u64 \<times> nat) \<times> ((u64 \<times> string) list \<times> (u64 \<times> nat) list) \<times> mdisk" where
  "v2_open_active crc cfg segments sizes d =
    (if segments = [] then (Inr (None, 0, 0), (segments, sizes), d)
     else
       let (last_first_cursor, last_path) = last segments;
           last_cursor = (case v2_reader_open last_path d of
               Inr reader \<Rightarrow> v2_last_cursor crc d reader None | Inl _ \<Rightarrow> None);
           next_cursor = (case last_cursor of Some c \<Rightarrow> c + 1 | None \<Rightarrow> last_first_cursor)
       in if next_cursor = last_first_cursor then
            (case store_active last_first_cursor d of
               (Inl e, d1) \<Rightarrow> (Inl (V2Io e), (segments, sizes), d1)
             | (Inr _, d1) \<Rightarrow> (Inr (None, last_first_cursor, 0), (segments, sizes), d1))
          else
            (case v2_create (seg_name next_cursor) (wc_segment_size_max cfg) next_cursor d of
               (Inl e, d1) \<Rightarrow> (Inl (V2Writer e), (segments, sizes), d1)
             | (Inr writer, d1) \<Rightarrow>
                 let idx = (bt_insert next_cursor (seg_name next_cursor) segments,
                            bt_insert next_cursor (unat (v2_tail writer d1)) sizes)
                 in (case store_active next_cursor d1 of
                       (Inl e, d2) \<Rightarrow> (Inl (V2Io e), idx, d2)
                     | (Inr _, d2) \<Rightarrow> (Inr (Some writer, next_cursor, unat (v2_tail writer d1)), idx, d2))))"

definition v2_wal_open ::
    "(bytes \<Rightarrow> u32) \<Rightarrow> u64 \<Rightarrow> wal_config \<Rightarrow> mdisk \<Rightarrow> (v2_error + v2_wal) \<times> mdisk" where
  "v2_wal_open crc now cfg d =
    (let (segments, sizes) = v2_scan_dir (map fst (md_files d)) d [] []
     in case open_or_create d of
       (Inl e, d1) \<Rightarrow> (Inl (V2Io e), d1)
     | (Inr _, d1) \<Rightarrow> (case v2_open_active crc cfg segments sizes d1 of
           (Inl e, _, d2) \<Rightarrow> (Inl e, d2)
         | (Inr (writer, pending, active_bytes), (segments, sizes), d2) \<Rightarrow>
             let sizes = (if segments \<noteq> [] \<and> active_bytes > 0 then bt_remove (fst (last segments)) sizes else sizes)
             in (Inr \<lparr>v2_segments = segments, v2_sizes = sizes, v2_wr = writer, v2_cfg = cfg,
                      v2_durable = pending, v2_pending = pending, v2_active_bytes = active_bytes,
                      v2_retained_bytes = sum_list (map snd sizes), v2_cached_ts = now, v2_wall_base = now,
                      v2_poisoned = False, v2_appends = 0, v2_append_bytes = 0, v2_flushes = 0\<rparr>, d2)))"

definition v2_current_ts :: "v2_wal \<Rightarrow> nat \<Rightarrow> u64" where
  "v2_current_ts w elapsed_nanos = (case wc_fsync_policy (v2_cfg w) of
      Batched \<Rightarrow> v2_cached_ts w
    | _ \<Rightarrow> let s = unat (v2_wall_base w) + unat (of_nat elapsed_nanos :: u64)
           in if 2 ^ 64 \<le> s then - 1 else of_nat s)"

subsection \<open>Rotation and retention (wal.rs, lines 529--613)\<close>

definition v2_first_segment :: "u64 \<Rightarrow> v2_wal \<Rightarrow> mdisk \<Rightarrow> (v2_error + unit) \<times> v2_wal \<times> mdisk" where
  "v2_first_segment first w d = (case v2_create (seg_name first) (wc_segment_size_max (v2_cfg w)) first d of
      (Inl e, d1) \<Rightarrow> (Inl (V2Writer e), w, d1)
    | (Inr nw, d1) \<Rightarrow>
        let w1 = w\<lparr>v2_segments := bt_insert first (seg_name first) (v2_segments w),
                   v2_active_bytes := unat (v2_tail nw d1), v2_wr := Some nw\<rparr>
        in (case store_active first d1 of
              (Inl e, d2) \<Rightarrow> (Inl (V2Io e), w1, d2) | (Inr _, d2) \<Rightarrow> (Inr (), w1, d2)))"

definition v2_rotate_locked :: "u64 \<Rightarrow> v2_wal \<Rightarrow> mdisk \<Rightarrow> (v2_error + unit) \<times> v2_wal \<times> mdisk" where
  "v2_rotate_locked new_first_cursor w d = (case v2_wr w of
      None \<Rightarrow> v2_first_segment new_first_cursor w d
    | Some old \<Rightarrow>
        let w1 = w\<lparr>v2_wr := None\<rparr>;
            first = mw_first old;
            final_bytes = unat (v2_tail old d)
        in (case v2_rotate old new_first_cursor (wc_segment_size_max (v2_cfg w)) d of
              (Inl e, d1) \<Rightarrow> (Inl (V2Rotation e), w1, d1)
            | (Inr new_w, d1) \<Rightarrow>
                (Inr (), w1\<lparr>v2_sizes := bt_insert first final_bytes (v2_sizes w),
                            v2_retained_bytes := v2_retained_bytes w + final_bytes,
                            v2_segments := bt_insert new_first_cursor (seg_name new_first_cursor) (v2_segments w),
                            v2_active_bytes := unat (v2_tail new_w d1), v2_wr := Some new_w\<rparr>, d1)))"

definition v2_oldest_inactive :: "v2_wal \<Rightarrow> u64 option" where
  "v2_oldest_inactive w =
    (let active_first = (case v2_wr w of None \<Rightarrow> - 1 | Some x \<Rightarrow> mw_first x)
     in find (\<lambda>k. k \<noteq> active_first) (map fst (v2_segments w)))"

definition v2_drop_segment :: "u64 \<Rightarrow> v2_wal \<Rightarrow> mdisk \<Rightarrow> v2_wal \<times> mdisk" where
  "v2_drop_segment k w d =
    (let (w, d) = (case map_of (v2_segments w) k of
           None \<Rightarrow> (w, d)
         | Some path \<Rightarrow> (w\<lparr>v2_segments := bt_remove k (v2_segments w)\<rparr>, mremove path d))
     in (case map_of (v2_sizes w) k of
           None \<Rightarrow> (w, d)
         | Some pruned \<Rightarrow> (w\<lparr>v2_sizes := bt_remove k (v2_sizes w),
                            v2_retained_bytes := v2_retained_bytes w - pruned\<rparr>, d)))"

lemma v2_drop_segment_shrinks:
  assumes "v2_oldest_inactive w = Some k" "v2_drop_segment k w d = (w', d')"
  shows "length (v2_segments w') < length (v2_segments w)"
proof -
  from assms(1) have "k \<in> set (map fst (v2_segments w))"
    unfolding v2_oldest_inactive_def Let_def by (metis (mono_tags, lifting) find_Some_iff nth_mem)
  moreover from this obtain path where "map_of (v2_segments w) k = Some path"
    by (metis dom_map_of_conv_image_fst domD list.set_map)
  ultimately show ?thesis
    using assms(2) by (auto simp: v2_drop_segment_def bt_remove_def intro!: length_filter_less split: option.splits)
qed

function v2_enforce_retention :: "v2_wal \<Rightarrow> mdisk \<Rightarrow> v2_wal \<times> mdisk" where
  "v2_enforce_retention w d =
    (if v2_retained_bytes w + v2_active_bytes w \<le> wc_retention_bytes (v2_cfg w) then (w, d)
     else case v2_oldest_inactive w of
       None \<Rightarrow> (w, d)
     | Some k \<Rightarrow> (case v2_drop_segment k w d of (w', d') \<Rightarrow> v2_enforce_retention w' d'))"
  by pat_completeness auto
termination
  by (relation "measure (\<lambda>(w, d). length (v2_segments w))")
     (auto dest: v2_drop_segment_shrinks [OF _ sym] split: prod.splits)

declare v2_enforce_retention.simps [simp del]

subsection \<open>Appending and syncing (wal.rs, lines 332--465, 616--626)\<close>

text \<open>The writer for a record of the given size: the active one, or after the first creation or a rotation.\<close>

definition v2_writer_for :: "u64 \<Rightarrow> nat \<Rightarrow> v2_wal \<Rightarrow> mdisk \<Rightarrow> (v2_error + v2_writer) \<times> v2_wal \<times> mdisk" where
  "v2_writer_for cursor record_bytes w d =
    (let max = wc_segment_size_max (v2_cfg w) in
     case v2_wr w of
       Some x \<Rightarrow>
         if v2_active_bytes w + record_bytes \<le> max then (Inr x, w, d)
         else (case v2_rotate_locked cursor w d of
             (Inl e, w1, d1) \<Rightarrow> (Inl e, w1, d1) | (Inr _, w1, d1) \<Rightarrow> (Inr (the (v2_wr w1)), w1, d1))
     | None \<Rightarrow> (case v2_first_segment cursor w d of
             (Inl e, w1, d1) \<Rightarrow> (Inl e, w1, d1) | (Inr _, w1, d1) \<Rightarrow> (Inr (the (v2_wr w1)), w1, d1)))"

text \<open>The append itself, with a second try after a rotation when the segment turns out to be full.\<close>

definition v2_append_retry ::
    "(bytes \<Rightarrow> u32) \<Rightarrow> u64 \<Rightarrow> u64 \<Rightarrow> bytes \<Rightarrow> v2_writer \<Rightarrow> v2_wal \<Rightarrow> mdisk \<Rightarrow> (v2_error + u64) \<times> v2_wal \<times> mdisk" where
  "v2_append_retry crc cursor ts payload writer w d = (case v2_append crc writer cursor ts payload d of
      (Inl e, d1) \<Rightarrow> (Inl (V2Writer e), w, d1)
    | (Inr (Appended offset next_cursor), d1) \<Rightarrow> (Inr next_cursor, w, d1)
    | (Inr SegmentFull, d1) \<Rightarrow> (case v2_rotate_locked cursor w d1 of
        (Inl e, w1, d2) \<Rightarrow> (Inl e, w1, d2)
      | (Inr _, w1, d2) \<Rightarrow> (case v2_append crc (the (v2_wr w1)) cursor ts payload d2 of
          (Inl e, d3) \<Rightarrow> (Inl (V2Writer e), w1, d3)
        | (Inr (Appended offset next_cursor), d3) \<Rightarrow> (Inr next_cursor, w1, d3)
        | (Inr SegmentFull, d3) \<Rightarrow> (Inl (V2WalPayloadTooLarge (length payload)), w1, d3))))"

text \<open>What follows an append: the counters, retention, and the sync of the Each policy. All of it
  looks at the writer chosen first.\<close>

definition v2_after_append :: "u64 \<Rightarrow> nat \<Rightarrow> v2_writer \<Rightarrow> v2_wal \<Rightarrow> mdisk \<Rightarrow> (v2_error + unit) \<times> v2_wal \<times> mdisk" where
  "v2_after_append next_cursor len writer w d =
    (let w1 = w\<lparr>v2_pending := next_cursor, v2_active_bytes := unat (v2_tail writer d),
                v2_appends := v2_appends w + 1, v2_append_bytes := v2_append_bytes w + len\<rparr>;
         (w2, d2) = (if v2_retained_bytes w1 + v2_active_bytes w1 > wc_retention_bytes (v2_cfg w1)
                     then v2_enforce_retention w1 d else (w1, d))
     in if wc_fsync_policy (v2_cfg w2) = Each then
          (case flush_sync (mw_name writer) d2 of
             (Inl e, d3) \<Rightarrow> (Inl (V2Io e), w2, d3)
           | (Inr _, d3) \<Rightarrow> (Inr (), w2\<lparr>v2_durable := next_cursor, v2_flushes := v2_flushes w2 + 1\<rparr>, d3))
        else (Inr (), w2, d2))"

definition v2_wal_append ::
    "(bytes \<Rightarrow> u32) \<Rightarrow> u64 \<Rightarrow> u64 \<Rightarrow> bytes \<Rightarrow> v2_wal \<Rightarrow> mdisk \<Rightarrow> (v2_error + unit) \<times> v2_wal \<times> mdisk" where
  "v2_wal_append crc cursor ts payload w d =
    (if \<not> wc_enabled (v2_cfg w) then (Inr (), w, d)
     else if length payload > MAX_PAYLOAD_LEN then (Inl (V2WalPayloadTooLarge (length payload)), w, d)
     else if v2_poisoned w then (Inl V2Poisoned, w, d)
     else (case v2_writer_for cursor (align_record_len (RECORD_FRAMING + length payload)) w d of
         (Inl e, w1, d1) \<Rightarrow> (Inl e, w1, d1)
       | (Inr writer, w1, d1) \<Rightarrow> (case v2_append_retry crc cursor ts payload writer w1 d1 of
           (Inl e, w2, d2) \<Rightarrow> (Inl e, w2, d2)
         | (Inr next_cursor, w2, d2) \<Rightarrow> v2_after_append next_cursor (length payload) writer w2 d2)))"

definition v2_fsync :: "v2_wal \<Rightarrow> mdisk \<Rightarrow> (v2_error + unit) \<times> v2_wal \<times> mdisk" where
  "v2_fsync w d = (case v2_wr w of
      None \<Rightarrow> (Inr (), w\<lparr>v2_durable := v2_pending w\<rparr>, d)
    | Some x \<Rightarrow> (case flush_sync (mw_name x) d of
        (Inl e, d1) \<Rightarrow> (Inl (V2Io e), w, d1)
      | (Inr _, d1) \<Rightarrow> (Inr (), w\<lparr>v2_flushes := v2_flushes w + 1, v2_durable := v2_pending w\<rparr>, d1)))"

definition v2_bump_generation :: "v2_wal \<Rightarrow> mdisk \<Rightarrow> (v2_error + unit) \<times> v2_wal \<times> mdisk" where
  "v2_bump_generation w d = (if v2_wr w \<noteq> None then v2_rotate_locked (v2_pending w) w d else (Inr (), w, d))"

definition v2_drop :: "v2_wal \<Rightarrow> mdisk \<Rightarrow> mdisk" where
  "v2_drop w d = (if wc_enabled (v2_cfg w) then snd (snd (v2_fsync w d)) else d)"

subsection \<open>The flusher (wal.rs, lines 685--740)\<close>

definition v2_tick_begin :: "u64 \<Rightarrow> v2_wal \<Rightarrow> u64 \<times> v2_wal" where
  "v2_tick_begin ts w = (v2_pending w, w\<lparr>v2_cached_ts := ts\<rparr>)"

definition v2_tick_load :: "v2_wal \<Rightarrow> string option" where
  "v2_tick_load w = map_option mw_name (v2_wr w)"

definition v2_tick_end :: "u64 \<Rightarrow> string option \<Rightarrow> v2_wal \<Rightarrow> mdisk \<Rightarrow> v2_wal \<times> mdisk" where
  "v2_tick_end snapshot file w d =
    (case (case file of None \<Rightarrow> (Inr (), d) | Some name \<Rightarrow> flush_sync name d) of
       (Inl e, d1) \<Rightarrow> (w\<lparr>v2_poisoned := True\<rparr>, d1)
     | (Inr _, d1) \<Rightarrow> (w\<lparr>v2_durable := snapshot, v2_flushes := v2_flushes w + 1\<rparr>, d1))"

subsection \<open>Reading (wal.rs, lines 475--525, 628--681; reader.rs)\<close>

record v2_replayer =
  vr_segments :: "string list"
  vr_floor :: u64
  vr_current :: "v2_reader option"

definition v2_replayer_new :: "string list \<Rightarrow> u64 \<Rightarrow> v2_replayer" where
  "v2_replayer_new segments cursor_floor = \<lparr>vr_segments = segments, vr_floor = cursor_floor, vr_current = None\<rparr>"

definition v2_index_read_from :: "u64 \<Rightarrow> (u64 \<times> string) list \<Rightarrow> v2_error + v2_replayer" where
  "v2_index_read_from cursor segments = (case oldest_cursor segments of
      None \<Rightarrow> Inr (v2_replayer_new [] cursor)
    | Some oldest \<Rightarrow>
        if cursor < oldest then Inl (V2CursorTooOld cursor oldest)
        else
          let below = filter (\<lambda>k. k \<le> cursor) (map fst segments);
              containing_first = (if below = [] then oldest else last below)
          in Inr (v2_replayer_new (map snd (filter (\<lambda>kv. containing_first \<le> fst kv) segments)) cursor))"

definition v2_read_from :: "u64 \<Rightarrow> v2_wal \<Rightarrow> v2_error + v2_replayer" where
  "v2_read_from cursor w = v2_index_read_from cursor (v2_segments w)"

definition v2_oldest_cursor :: "v2_wal \<Rightarrow> u64" where
  "v2_oldest_cursor w = (case oldest_cursor (v2_segments w) of None \<Rightarrow> 0 | Some k \<Rightarrow> k)"

definition v2_stats :: "v2_wal \<Rightarrow> wal_stats" where
  "v2_stats w = \<lparr>ws_pending = v2_pending w, ws_durable = v2_durable w, ws_oldest = v2_oldest_cursor w,
     ws_active_bytes = v2_active_bytes w, ws_total_bytes = v2_retained_bytes w + v2_active_bytes w,
     ws_segments = length (v2_segments w), ws_appends = v2_appends w,
     ws_append_bytes = v2_append_bytes w, ws_flushes = v2_flushes w\<rparr>"

definition v2_dir_reader_open :: "mdisk option \<Rightarrow> (u64 \<times> string) list" where
  "v2_dir_reader_open dir = (case dir of None \<Rightarrow> [] | Some d \<Rightarrow> index_names (map fst (md_files d)) [])"

definition v2_dir_read_from :: "u64 \<Rightarrow> (u64 \<times> string) list \<Rightarrow> v2_error + v2_replayer" where
  "v2_dir_read_from cursor reader = v2_index_read_from cursor reader"

function v2_replayer_next ::
    "(bytes \<Rightarrow> u32) \<Rightarrow> mdisk \<Rightarrow> v2_replayer \<Rightarrow> (v2_error + wal_record) option \<times> v2_replayer" where
  "v2_replayer_next crc d rp = (case vr_current rp of
      None \<Rightarrow> (case vr_segments rp of
          [] \<Rightarrow> (None, rp)
        | path # paths \<Rightarrow> (case v2_reader_open path d of
            Inl e \<Rightarrow> (Some (Inl (V2Reader e)), rp\<lparr>vr_segments := paths\<rparr>)
          | Inr r \<Rightarrow> v2_replayer_next crc d (rp\<lparr>vr_segments := paths, vr_current := Some r\<rparr>)))
    | Some r \<Rightarrow> (case v2_next_record crc d r of
        (ReadRecord x, r') \<Rightarrow>
          if r_cursor x < vr_floor rp then v2_replayer_next crc d (rp\<lparr>vr_current := Some r'\<rparr>)
          else (Some (Inr x), rp\<lparr>vr_current := Some r'\<rparr>)
      | (ReadErr e, r') \<Rightarrow> (Some (Inl (V2Reader e)), rp\<lparr>vr_current := Some r'\<rparr>)
      | (_, r') \<Rightarrow> v2_replayer_next crc d (rp\<lparr>vr_current := None\<rparr>)))"
  by pat_completeness auto
termination
proof (relation "measures [\<lambda>(crc, d, rp). length (vr_segments rp),
    \<lambda>(crc, d, rp). case vr_current rp of None \<Rightarrow> 0 | Some r \<Rightarrow> Suc (mr_size r - mr_pos r)]")
  fix crc d rp r x r' y assume "vr_current rp = Some r" "(x, r') = v2_next_record crc d r" "x = ReadRecord y"
  then show "((crc, d, rp\<lparr>vr_current := Some r'\<rparr>), (crc, d, rp)) \<in> measures [\<lambda>(crc, d, rp). length (vr_segments rp),
    \<lambda>(crc, d, rp). case vr_current rp of None \<Rightarrow> 0 | Some r \<Rightarrow> Suc (mr_size r - mr_pos r)]"
    using v2_next_progress(2) [of crc "\<lambda>_. mmap_of d (mr_name r)" 0 r x r'] by (simp add: v2_next_record_def)
qed auto

declare v2_replayer_next.simps [simp del]

end
