(* ===== verification/V2_Files.thy ===== *)
theory V2_Files
  imports V2_Wal Wal_Refine
begin

text \<open>
  The operations of the lock-free log on one file of the directory: what a reader finds in a segment at
  rest, closed or not, and what creating, appending, closing, syncing and the coordination file do.
\<close>

subsection \<open>Reading a segment at rest\<close>

lemma of_nat_less_tail:
  assumes "a < b" "b < 2 ^ 63"
  shows "(of_nat a :: u64) < of_nat b"
  using assms by (simp add: word_less_nat_alt unat_of_nat_small)

text \<open>A map on which a reader finds the records \<open>rs\<close> one after the other, and then none.\<close>

definition v2_holds :: "(bytes \<Rightarrow> u32) \<Rightarrow> nat \<Rightarrow> wal_record list \<Rightarrow> bytes \<Rightarrow> bool" where
  "v2_holds crc cap rs m \<longleftrightarrow> (\<forall>r k. mr_size r = cap \<longrightarrow> mr_pos r = v2_pos rs k \<longrightarrow>
     (k < length rs \<longrightarrow> v2_next_at crc (\<lambda>_. m) 0 r = (ReadRecord (rs ! k), r\<lparr>mr_pos := v2_pos rs (Suc k)\<rparr>))
     \<and> (k = length rs \<longrightarrow> fst (v2_next_at crc (\<lambda>_. m) 0 r) \<in> {AwaitMore, EndOfSegment}))"

text \<open>The prefix of complete records decides, whatever follows.\<close>

lemma v2_prefix_reads:
  assumes "length m = cap" "cap < 2 ^ 63" "list_all record_ok rs" "32 + v2_len rs \<le> cap"
    "sub m 32 (v2_len rs) = v2_log crc rs" "of_nat (32 + v2_len rs) \<le> rd64 m TAIL_OFFSET"
    "k < length rs" "mr_size r = cap" "mr_pos r = v2_pos rs k"
  shows "v2_next_at crc (\<lambda>_. m) 0 r = (ReadRecord (rs ! k), r\<lparr>mr_pos := v2_pos rs (Suc k)\<rparr>)"
proof -
  note k = v2_pos_Suc [OF assms(7)]
  have ok: "record_ok (rs ! k)"
    using assms(3,7) by (simp add: list_all_length)
  note B = v2_padded_bounds [OF ok]
  have le: "v2_pos rs k + v2_padded (rs ! k) \<le> 32 + v2_len rs"
    using v2_len_take_le [of "Suc k" rs] k by (simp add: v2_pos_def)
  have "drop k rs = rs ! k # drop (Suc k) rs"
    using assms(7) by (simp add: Cons_nth_drop_Suc)
  then have "v2_log crc rs = v2_log crc (take k rs) @ v2_encode crc (rs ! k) @ v2_log crc (drop (Suc k) rs)"
    by (metis append_take_drop_id v2_log_simps(2,3))
  moreover have "length (v2_log crc (take k rs)) = v2_len (take k rs)"
    using assms(3) by (intro length_v2_log) (auto simp: list_all_iff dest: in_set_takeD)
  ultimately have "sub (v2_log crc rs) (v2_len (take k rs)) (v2_padded (rs ! k)) = v2_encode crc (rs ! k)"
    using length_v2_encode [OF ok, of crc] by (simp add: sub_def)
  then have at: "sub m (v2_pos rs k) (v2_padded (rs ! k)) = v2_encode crc (rs ! k)"
    using sub_sub [of "v2_len (take k rs)" "v2_padded (rs ! k)" "v2_len rs" m 32] le assms(5) by (simp add: v2_pos_def)
  have "of_nat (v2_pos rs k) < (of_nat (32 + v2_len rs) :: u64)"
    using le B(3) assms(2,4) by (intro of_nat_less_tail) simp_all
  then have "of_nat (v2_pos rs k) < rd64 m TAIL_OFFSET"
    using assms(6) by (rule less_le_trans)
  then show ?thesis
    using v2_next_settled [of 0 "\<lambda>_. m" "v2_pos rs k" "rs ! k" crc cap r] at le assms(1,4,8,9) ok k by simp
qed

lemma v2_image_holds:
  assumes "v2_image crc first cap rs m"
  shows "v2_holds crc cap rs m"
proof -
  have I: "length m = cap" "cap < 2 ^ 63" "list_all record_ok rs" "32 + v2_len rs \<le> cap"
    "drop 32 m = v2_log crc rs @ replicate (cap - 32 - v2_len rs) 0" "rd64 m TAIL_OFFSET = of_nat (32 + v2_len rs)"
    using assms by (simp_all add: v2_image_def)
  then have s: "sub m 32 (v2_len rs) = v2_log crc rs"
    using length_v2_log [of rs crc] by (simp add: sub_def)
  have "fst (v2_next_at crc (\<lambda>_. m) 0 r) \<in> {AwaitMore, EndOfSegment}" if "mr_size r = cap" "mr_pos r = v2_pos rs (length rs)" for r
    using that I(6) by (simp add: v2_next_at_def v2_pos_def Let_def)
  then show ?thesis
    using v2_prefix_reads [OF I(1-4) s] I(6) by (auto simp: v2_holds_def)
qed

text \<open>A segment closed by the marker, or without room for it.\<close>

definition v2_skip_stores :: "wal_record list \<Rightarrow> store list" where
  "v2_skip_stores rs = [(TAIL_OFFSET, u64_le (of_nat (32 + v2_len rs) + 4)), (32 + v2_len rs, u32_le SKIP_TO_END_SENTINEL)]"

lemma v2_closed_holds:
  assumes "v2_image crc first cap rs m" "32 + v2_len rs + 4 \<le> cap"
  shows "v2_holds crc cap rs (apply_stores m (v2_skip_stores rs))" "length (apply_stores m (v2_skip_stores rs)) = cap"
    "rd64 (apply_stores m (v2_skip_stores rs)) 0 = SEGMENT_MAGIC" "rd32 (apply_stores m (v2_skip_stores rs)) 8 = SEGMENT_VERSION_V2"
    "rd64 (apply_stores m (v2_skip_stores rs)) 16 = first"
proof -
  let ?m = "apply_stores m (v2_skip_stores rs)"
  have I: "length m = cap" "cap < 2 ^ 63" "list_all record_ok rs" "32 + v2_len rs \<le> cap"
    "drop 32 m = v2_log crc rs @ replicate (cap - 32 - v2_len rs) 0" "rd64 m 0 = SEGMENT_MAGIC" "rd32 m 8 = SEGMENT_VERSION_V2"
    "rd64 m 16 = first"
    using assms by (simp_all add: v2_image_def)
  have room: "TAIL_OFFSET + 8 \<le> length m"
    using I assms(2) by (simp add: TAIL_OFFSET_def)
  show len: "length ?m = cap" "rd64 ?m 0 = SEGMENT_MAGIC" "rd32 ?m 8 = SEGMENT_VERSION_V2" "rd64 ?m 16 = first"
    using I assms(2) room
    by (simp_all add: v2_skip_stores_def apply_store_def rd64_def rd32_def TAIL_OFFSET_def sub_poke_other disjoint_ranges_def)
  have "sub m 32 (v2_len rs) = v2_log crc rs"
    using I length_v2_log [of rs crc] by (simp add: sub_def)
  then have s: "sub ?m 32 (v2_len rs) = v2_log crc rs"
    using I assms(2) room by (simp add: v2_skip_stores_def apply_store_def TAIL_OFFSET_def sub_poke_other disjoint_ranges_def)
  have tail: "rd64 ?m TAIL_OFFSET = of_nat (32 + v2_len rs + 4)"
    using I assms(2) room
    by (simp add: v2_skip_stores_def apply_store_def rd64_def TAIL_OFFSET_def sub_poke_other sub_poke_same disjoint_ranges_def add.commute)
  have e: "rd32 ?m (32 + v2_len rs) = SKIP_TO_END_SENTINEL"
    using I assms(2) room by (simp add: v2_skip_stores_def apply_store_def rd32_def TAIL_OFFSET_def sub_poke_same)
  have "fst (v2_next_at crc (\<lambda>_. ?m) 0 r) \<in> {AwaitMore, EndOfSegment}" if "mr_size r = cap" "mr_pos r = v2_pos rs (length rs)" for r
  proof -
    have "rd32 (?m @ [0, 0, 0]) (32 + v2_len rs) = SKIP_TO_END_SENTINEL"
      using e len(1) assms(2) by (simp add: rd32_def sub_append_left)
    moreover have "SKIP_TO_END_SENTINEL \<noteq> 0"
      by (simp add: SKIP_TO_END_SENTINEL_def)
    ultimately show ?thesis
      using that by (simp add: v2_next_at_def v2_pos_def Let_def)
  qed
  moreover have "of_nat (32 + v2_len rs) \<le> rd64 ?m TAIL_OFFSET"
    unfolding tail using I(2) assms(2) by (intro less_imp_le of_nat_less_tail) simp_all
  ultimately show "v2_holds crc cap rs ?m"
    using v2_prefix_reads [OF len(1) I(2-4) s] by (auto simp: v2_holds_def)
qed

text \<open>The scan for the last cursor.\<close>

lemma v2_last_cursor_holds:
  assumes "v2_holds crc cap rs (mmap_of d (mr_name r))" "mr_size r = cap" "mr_pos r = v2_pos rs k" "k \<le> length rs"
  shows "v2_last_cursor crc d r acc = (if k = length rs then acc else Some (r_cursor (last rs)))"
  using assms
proof (induction "length rs - k" arbitrary: r k acc)
  case 0
  then have k: "k = length rs"
    by simp
  then have "fst (v2_next_record crc d r) \<in> {AwaitMore, EndOfSegment}"
    using 0(2-4) by (simp add: v2_holds_def v2_next_record_def)
  then show ?case
    using k by (subst v2_last_cursor.simps) (auto split: prod.splits read_outcome.splits)
next
  case (Suc n)
  then have k: "k < length rs"
    by simp
  let ?r = "r\<lparr>mr_pos := v2_pos rs (Suc k)\<rparr>"
  have "v2_next_record crc d r = (ReadRecord (rs ! k), ?r)"
    using Suc.prems k by (simp add: v2_holds_def v2_next_record_def)
  then have "v2_last_cursor crc d r acc = v2_last_cursor crc d ?r (Some (r_cursor (rs ! k)))"
    by (subst v2_last_cursor.simps) simp
  also have "\<dots> = (if Suc k = length rs then Some (r_cursor (rs ! k)) else Some (r_cursor (last rs)))"
    using Suc.hyps(2) Suc.prems k by (intro Suc.hyps(1)) simp_all
  also have "\<dots> = Some (r_cursor (last rs))"
    using k by (cases rs rule: rev_cases) (auto simp: nth_append)
  finally show ?case
    using k by simp
qed


subsection \<open>Files\<close>

lemma mlookup_put [simp]: "mlookup (mput name f d) n = (if n = name then Some f else mlookup d n)"
  by (simp add: mput_def update_conv')

lemma md_up_put [simp]: "md_up (mput name f d) = md_up d"
  by (simp add: mput_def)

lemma mlookup_store: "mlookup (mstore name ss d) n =
    (if n = name then map_option (\<lambda>f. f\<lparr>mf_stores := mf_stores f @ ss\<rparr>) (mlookup d name) else mlookup d n)"
  by (simp add: mstore_def split: option.splits)

lemma md_up_store [simp]: "md_up (mstore name ss d) = md_up d"
  by (simp add: mstore_def split: option.splits)

lemma mlookup_remove: "md_up d \<Longrightarrow> mlookup (mremove name d) n = (if n = name then None else mlookup d n)"
  by (simp add: mremove_def delete_conv' split: option.splits)

lemma md_up_remove [simp]: "md_up (mremove name d) = md_up d"
  by (simp add: mremove_def split: option.splits)

lemma mmap_of_file: "mlookup d name = Some f \<Longrightarrow> mmap_of d name = mf_content f"
  by (simp add: mmap_of_def)

lemma content_stores: "mf_content (f\<lparr>mf_stores := mf_stores f @ ss\<rparr>) = apply_stores (mf_content f) ss"
  by (simp add: mf_content_def)

text \<open>Operations on one file leave the others alone.\<close>

definition only_mfile :: "string \<Rightarrow> mdisk \<Rightarrow> mdisk \<Rightarrow> bool" where
  "only_mfile name d d' \<longleftrightarrow> md_up d' = md_up d \<and> (\<forall>n. n \<noteq> name \<longrightarrow> mlookup d' n = mlookup d n)"

lemma only_mfile_simps: "only_mfile name d (mput name f d)" "only_mfile name d (mstore name ss d)" "only_mfile name d d"
  by (simp_all add: only_mfile_def mlookup_store)

lemma seg_name_not_active [simp]: "seg_name k \<noteq> ACTIVE_COORD_FILENAME" "ACTIVE_COORD_FILENAME \<noteq> seg_name k"
proof -
  have "seg_key ACTIVE_COORD_FILENAME = None"
    by (simp add: ACTIVE_COORD_FILENAME_def seg_key_def seg_stem_def Let_def)
  then show "seg_name k \<noteq> ACTIVE_COORD_FILENAME" "ACTIVE_COORD_FILENAME \<noteq> seg_name k"
    using seg_key_name [of k] by auto
qed

definition active_ok :: "mdisk \<Rightarrow> bool" where
  "active_ok d \<longleftrightarrow> (\<exists>f. mlookup d ACTIVE_COORD_FILENAME = Some f \<and> length (mf_content f) = ACTIVE_COORD_LEN)"

lemma store_active_ok:
  assumes "active_ok d" "md_up d"
  obtains d' where "store_active k d = (Inr (), d')" "only_mfile ACTIVE_COORD_FILENAME d d'" "active_ok d'"
    "load_first_cursor d' = k" "load_generation d' = load_generation d + 1" "peek_active d' = Some (k, load_generation d + 1)"
proof -
  obtain f where f: "mlookup d ACTIVE_COORD_FILENAME = Some f" "length (mf_content f) = 16"
    using assms(1) by (auto simp: active_ok_def ACTIVE_COORD_LEN_def)
  let ?c = "mf_content f" and ?m1 = "poke (mf_content f) 0 (u64_le k)"
  let ?g = "rd64 ?m1 8 + 1"
  have g: "rd64 ?m1 8 = rd64 ?c 8" "length ?m1 = 16"
    using f(2) by (simp_all add: rd64_def sub_poke_other disjoint_ranges_def)
  define d1 where "d1 = mstore ACTIVE_COORD_FILENAME [(FIRST_CURSOR_OFFSET, u64_le k)] d"
  define d2 where "d2 = mstore ACTIVE_COORD_FILENAME [(GENERATION_OFFSET, u64_le (load_generation d1 + 1))] d1"
  have l1: "mlookup d1 ACTIVE_COORD_FILENAME = Some (f\<lparr>mf_stores := mf_stores f @ [(FIRST_CURSOR_OFFSET, u64_le k)]\<rparr>)"
    using f(1) by (simp add: d1_def mlookup_store)
  then have lg: "load_generation d1 = rd64 ?m1 8"
    by (simp add: load_generation_def mmap_of_file content_stores apply_store_def GENERATION_OFFSET_def FIRST_CURSOR_OFFSET_def)
  obtain f2 where l2: "mlookup d2 ACTIVE_COORD_FILENAME = Some f2" "mf_content f2 = poke ?m1 8 (u64_le ?g)"
    using l1 lg by (simp add: d2_def mlookup_store mf_content_def apply_store_def GENERATION_OFFSET_def FIRST_CURSOR_OFFSET_def)
  have r: "rd64 (mf_content f2) 0 = k" "rd64 (mf_content f2) 8 = rd64 ?c 8 + 1" "length (mf_content f2) = 16"
    using g f(2) by (simp_all add: l2(2) rd64_def sub_poke_same sub_poke_other disjoint_ranges_def)
  have lgd: "load_generation d = rd64 ?c 8"
    using f(1) by (simp add: load_generation_def mmap_of_file GENERATION_OFFSET_def)
  show ?thesis
  proof (rule that [of d2])
    show "store_active k d = (Inr (), d2)"
      using assms(2) by (simp add: store_active_def flush_async_def d2_def d1_def Let_def)
    show "only_mfile ACTIVE_COORD_FILENAME d d2"
      by (simp add: only_mfile_def d2_def d1_def mlookup_store)
    show "active_ok d2"
      using l2(1) r(3) by (simp add: active_ok_def ACTIVE_COORD_LEN_def)
    show "load_first_cursor d2 = k" "load_generation d2 = load_generation d + 1"
      using l2(1) r lgd by (simp_all add: load_first_cursor_def load_generation_def mmap_of_file FIRST_CURSOR_OFFSET_def GENERATION_OFFSET_def)
    show "peek_active d2 = Some (k, load_generation d + 1)"
      using l2(1) r lgd by (simp add: peek_active_def ACTIVE_COORD_LEN_def)
  qed
qed

lemma v2_create_ok:
  assumes "mlookup d name = None" "md_up d" "60 \<le> cap" "cap < 2 ^ 63"
  obtains f d' where "v2_create name cap k d = (Inr \<lparr>mw_name = name, mw_size = cap, mw_first = k\<rparr>, d')"
    "mlookup d' name = Some f" "v2_image crc k cap [] (mf_content f)" "only_mfile name d d'" "\<not> mf_synced f"
proof -
  let ?f = "\<lparr>mf_base = replicate cap 0, mf_stores = v2_create_stores k, mf_synced = False\<rparr>"
  have "v2_create name cap k d = (Inr \<lparr>mw_name = name, mw_size = cap, mw_first = k\<rparr>, mput name ?f d)"
    using assms by (simp add: v2_create_def wal_consts)
  then show ?thesis
    using that [of "mput name ?f d" ?f] v2_image_fresh [OF assms(3,4), of crc k] only_mfile_simps(1) by (simp add: mf_content_def)
qed

lemma v2_tail_image:
  assumes "mlookup d (mw_name w) = Some f" "v2_image crc k cap rs (mf_content f)"
  shows "v2_tail w d = of_nat (32 + v2_len rs)" "unat (v2_tail w d) = 32 + v2_len rs"
  using assms v2_image_tail [OF assms(2)] by (simp_all add: v2_tail_def mmap_of_file) (simp add: v2_image_def)

lemma v2_append_cases:
  assumes "mlookup d (mw_name w) = Some f" "v2_image crc k cap rs (mf_content f)" "mw_size w = cap" "record_ok r"
  shows "cap < 32 + v2_len rs + v2_padded r
      \<Longrightarrow> v2_append crc w (r_cursor r) (r_ts r) (r_payload r) d = (Inr SegmentFull, d)"
    and "32 + v2_len rs + v2_padded r \<le> cap
      \<Longrightarrow> \<exists>d' f'. v2_append crc w (r_cursor r) (r_ts r) (r_payload r) d = (Inr (Appended (of_nat (32 + v2_len rs)) (r_cursor r + 1)), d')
        \<and> mlookup d' (mw_name w) = Some f' \<and> v2_image crc k cap (rs @ [r]) (mf_content f')
        \<and> mf_base f' = mf_base f \<and> mf_synced f' = mf_synced f \<and> only_mfile (mw_name w) d d'"
proof -
  note T = v2_tail_image [OF assms(1,2)] and B = v2_padded_bounds [OF assms(4)]
  have cap: "cap < 2 ^ 63" "32 + v2_len rs \<le> cap"
    using assms(2) by (simp_all add: v2_image_def)
  have small: "v2_padded r < 2 ^ 25"
    using B(2) by (simp add: wal_consts)
  have n: "unat (v2_tail w d + of_nat (v2_padded r)) = 32 + v2_len rs + v2_padded r"
  proof -
    have "v2_tail w d + of_nat (v2_padded r) = of_nat (32 + v2_len rs + v2_padded r)"
      unfolding T(1) by simp
    moreover have "32 + v2_len rs + v2_padded r < 2 ^ 64"
      using cap small by simp
    ultimately show ?thesis
      by (simp only: unat_of_nat_u64)
  qed
  have c: "unat (of_nat cap :: u64) = cap"
    using cap by (simp add: unat_of_nat_u64)
  have pay: "\<not> length (r_payload r) > MAX_PAYLOAD_LEN"
    using assms(4) by (simp add: record_ok_def)
  show "v2_append crc w (r_cursor r) (r_ts r) (r_payload r) d = (Inr SegmentFull, d)" if "cap < 32 + v2_len rs + v2_padded r"
    using that n c pay assms(3) by (simp add: v2_append_def Let_def word_less_nat_alt flip: v2_padded_def)
  assume fits: "32 + v2_len rs + v2_padded r \<le> cap"
  let ?ss = "v2_append_stores crc (mf_content f) (32 + v2_len rs) (v2_padded r) (r_cursor r) (r_ts r) (r_payload r)"
  let ?d = "mstore (mw_name w) ?ss d" and ?f = "f\<lparr>mf_stores := mf_stores f @ ?ss\<rparr>"
  have "v2_append crc w (r_cursor r) (r_ts r) (r_payload r) d = (Inr (Appended (v2_tail w d) (r_cursor r + 1)), ?d)"
    using fits n c pay assms(1,3) T(2)
    by (simp add: v2_append_def Let_def word_less_nat_alt mmap_of_file flip: v2_padded_def)
  moreover have "mlookup ?d (mw_name w) = Some ?f"
    using assms(1) by (simp add: mlookup_store)
  moreover have "v2_image crc k cap (rs @ [r]) (mf_content ?f)"
    unfolding content_stores by (rule v2_append_effect [OF assms(2,4) fits])
  ultimately show "\<exists>d' f'. v2_append crc w (r_cursor r) (r_ts r) (r_payload r) d = (Inr (Appended (of_nat (32 + v2_len rs)) (r_cursor r + 1)), d')
        \<and> mlookup d' (mw_name w) = Some f' \<and> v2_image crc k cap (rs @ [r]) (mf_content f')
        \<and> mf_base f' = mf_base f \<and> mf_synced f' = mf_synced f \<and> only_mfile (mw_name w) d d'"
    unfolding T(1) by (intro exI [of _ ?d] exI [of _ ?f]) (simp add: only_mfile_simps)
qed

lemma write_skip_cases:
  assumes "mlookup d (mw_name w) = Some f" "v2_image crc k cap rs (mf_content f)" "mw_size w = cap"
  shows "snd (write_skip_to_end w d) = (if 32 + v2_len rs + 4 \<le> cap then mstore (mw_name w) (v2_skip_stores rs) d else d)"
proof -
  note T = v2_tail_image [OF assms(1,2)]
  have cap: "cap < 2 ^ 63" "32 + v2_len rs \<le> cap"
    using assms(2) by (simp_all add: v2_image_def)
  have n: "unat (v2_tail w d + 4) = 32 + v2_len rs + 4"
  proof -
    have "v2_tail w d + 4 = of_nat (32 + v2_len rs + 4)"
      unfolding T(1) by simp
    moreover have "32 + v2_len rs + 4 < 2 ^ 64"
      using cap by simp
    ultimately show ?thesis
      by (simp only: unat_of_nat_u64)
  qed
  have c: "unat (of_nat cap :: u64) = cap"
    using cap by (simp add: unat_of_nat_u64)
  have "v2_tail w d + 4 > of_nat (mw_size w) \<longleftrightarrow> \<not> 32 + v2_len rs + 4 \<le> cap"
    using n c assms(3) by (simp add: word_less_nat_alt not_le)
  then show ?thesis
    using T by (simp add: write_skip_to_end_def Let_def v2_skip_stores_def)
qed

lemma flush_sync_ok:
  assumes "mlookup d name = Some f" "md_up d"
  shows "\<exists>d'. flush_sync name d = (Inr (), d') \<and> only_mfile name d d'
    \<and> mlookup d' name = Some \<lparr>mf_base = mf_content f, mf_stores = [], mf_synced = True\<rparr>"
  using assms by (simp add: flush_sync_def only_mfile_simps)

lemma flushed_content: "mf_content \<lparr>mf_base = m, mf_stores = [], mf_synced = True\<rparr> = m"
  by (simp add: mf_content_def)

end
