(* ===== verification/V2_Refine.thy ===== *)
theory V2_Refine
  imports V2_Files
begin

text \<open>
  The lock-free log as a list of segments with their records: how the state and the directory of
  \<open>crates/mmbus/src/wal/v2/wal.rs\<close> represent it, and what the first segment, a rotation and the
  retention loop do to it. The parameters \<open>kc\<close> and \<open>ka\<close> say whether the records of the
  retired segments and of the active one are all on the device.
\<close>

subsection \<open>The relation\<close>

definition v2_total :: "segments \<Rightarrow> nat" where
  "v2_total segs = sum_list (map (\<lambda>s. 32 + v2_len (snd s)) segs)"

definition v2_sizes_of :: "segments \<Rightarrow> (u64 \<times> nat) list" where
  "v2_sizes_of segs = map (\<lambda>s. (fst s, 32 + v2_len (snd s))) segs"

lemma v2_total_simps [simp]: "v2_total [] = 0" "v2_total (s # ss) = 32 + v2_len (snd s) + v2_total ss"
  "v2_total (ss @ [s]) = v2_total ss + (32 + v2_len (snd s))"
  by (simp_all add: v2_total_def)

definition v2_step_append :: "nat \<Rightarrow> wal_record \<Rightarrow> segments \<Rightarrow> segments" where
  "v2_step_append limit r segs =
    (if segs = [] then [(r_cursor r, [r])]
     else if 32 + v2_len (snd (last segs)) + v2_padded r > limit then segs @ [(r_cursor r, [r])]
     else butlast segs @ [(fst (last segs), snd (last segs) @ [r])])"

fun v2_retain :: "nat \<Rightarrow> segments \<Rightarrow> segments" where
  "v2_retain cap (s # t # ss) = (if v2_total (s # t # ss) \<le> cap then s # t # ss else v2_retain cap (t # ss))"
| "v2_retain cap segs = segs"

definition v2_log_step :: "wal_config \<Rightarrow> wal_record \<Rightarrow> segments \<Rightarrow> segments" where
  "v2_log_step cfg r segs = v2_retain (wc_retention_bytes cfg) (v2_step_append (wc_segment_size_max cfg) r segs)"

text \<open>A retired segment and the active one, in the directory. \<open>kept\<close>: all its records are on the device.\<close>

definition v2_closed_seg :: "(bytes \<Rightarrow> u32) \<Rightarrow> nat \<Rightarrow> bool \<Rightarrow> mdisk \<Rightarrow> u64 \<times> wal_record list \<Rightarrow> bool" where
  "v2_closed_seg crc cap kept d s \<longleftrightarrow> (\<exists>f. mlookup d (seg_name (fst s)) = Some f
     \<and> (\<exists>m. v2_image crc (fst s) cap (snd s) m
          \<and> mf_content f = (if 32 + v2_len (snd s) + 4 \<le> cap then apply_stores m (v2_skip_stores (snd s)) else m))
     \<and> (kept \<longrightarrow> mf_synced f \<and> v2_image crc (fst s) cap (snd s) (mf_base f) \<and> mf_stores f \<in> {[], v2_skip_stores (snd s)}))"

definition v2_active_seg :: "(bytes \<Rightarrow> u32) \<Rightarrow> nat \<Rightarrow> bool \<Rightarrow> mdisk \<Rightarrow> u64 \<times> wal_record list \<Rightarrow> bool" where
  "v2_active_seg crc cap kept d s \<longleftrightarrow> (\<exists>f. mlookup d (seg_name (fst s)) = Some f
     \<and> v2_image crc (fst s) cap (snd s) (mf_content f)
     \<and> (kept \<and> snd s \<noteq> [] \<longrightarrow> mf_synced f \<and> v2_image crc (fst s) cap (snd s) (mf_base f) \<and> mf_stores f = []))"

definition v2_no_strays :: "mdisk \<Rightarrow> segments \<Rightarrow> bool" where
  "v2_no_strays d segs \<longleftrightarrow>
    (\<forall>name. mlookup d name \<noteq> None \<and> seg_key name \<noteq> None \<longrightarrow> (\<exists>s \<in> set segs. name = seg_name (fst s)))"

definition v2_cap :: "v2_wal \<Rightarrow> nat" where
  "v2_cap w = wc_segment_size_max (v2_cfg w)"

definition v2_dir :: "mdisk \<Rightarrow> v2_wal \<Rightarrow> segments \<Rightarrow> bool" where
  "v2_dir d w segs \<longleftrightarrow> md_up d \<and> active_ok d \<and> well_numbered segs \<and> v2_no_strays d segs
     \<and> v2_segments w = index_of segs \<and> 60 \<le> v2_cap w \<and> v2_cap w < 2 ^ 63"

definition v2_fresh :: "mdisk \<Rightarrow> v2_wal \<Rightarrow> bool" where
  "v2_fresh d w \<longleftrightarrow> v2_dir d w [] \<and> v2_wr w = None \<and> v2_sizes w = [] \<and> v2_retained_bytes w = 0"

definition v2_rep :: "(bytes \<Rightarrow> u32) \<Rightarrow> bool \<Rightarrow> bool \<Rightarrow> mdisk \<Rightarrow> v2_wal \<Rightarrow> segments \<Rightarrow> bool" where
  "v2_rep crc kc ka d w segs \<longleftrightarrow> v2_dir d w segs \<and> segs \<noteq> []
     \<and> v2_sizes w = v2_sizes_of (butlast segs) \<and> v2_retained_bytes w = v2_total (butlast segs)
     \<and> (\<forall>s \<in> set (butlast segs). v2_closed_seg crc (v2_cap w) kc d s)
     \<and> v2_active_seg crc (v2_cap w) ka d (last segs)
     \<and> v2_wr w = Some \<lparr>mw_name = seg_name (fst (last segs)), mw_size = v2_cap w, mw_first = fst (last segs)\<rparr>
     \<and> v2_active_bytes w = 32 + v2_len (snd (last segs))"

definition v2_state :: "(bytes \<Rightarrow> u32) \<Rightarrow> bool \<Rightarrow> mdisk \<Rightarrow> v2_wal \<Rightarrow> segments \<Rightarrow> bool" where
  "v2_state crc kept d w segs \<longleftrightarrow> wc_enabled (v2_cfg w) \<and> \<not> v2_poisoned w
     \<and> (if segs = [] then v2_fresh d w else v2_rep crc kept kept d w segs \<and> unat (v2_pending w) = a_next segs)"

lemma only_mfile_seg:
  assumes "only_mfile name d d'" "name \<noteq> seg_name (fst s)"
  shows "v2_closed_seg crc cap k d' s = v2_closed_seg crc cap k d s" "v2_active_seg crc cap k d' s = v2_active_seg crc cap k d s"
  using assms by (simp_all add: only_mfile_def v2_closed_seg_def v2_active_seg_def)

lemma v2_no_strays_only:
  assumes "v2_no_strays d segs" "only_mfile (seg_name k) d d'" "k \<in> fst ` set segs'" "fst ` set segs \<subseteq> fst ` set segs'"
  shows "v2_no_strays d' segs'"
  unfolding v2_no_strays_def
proof (intro allI impI, elim conjE)
  fix name
  assume n: "mlookup d' name \<noteq> None" "seg_key name \<noteq> None"
  show "\<exists>s \<in> set segs'. name = seg_name (fst s)"
  proof (cases "name = seg_name k")
    case True
    then show ?thesis
      using assms(3) by auto
  next
    case False
    then have "mlookup d name \<noteq> None"
      using n(1) assms(2) by (simp add: only_mfile_def)
    then obtain s where s: "s \<in> set segs" "name = seg_name (fst s)"
      using n(2) assms(1) unfolding v2_no_strays_def by blast
    then have "fst s \<in> fst ` set segs'"
      using assms(4) by auto
    then show ?thesis
      using s(2) by auto
  qed
qed

lemma v2_no_strays_active:
  assumes "only_mfile ACTIVE_COORD_FILENAME d d'" "v2_no_strays d segs"
  shows "v2_no_strays d' segs"
  unfolding v2_no_strays_def
proof (intro allI impI, elim conjE)
  fix name assume n: "mlookup d' name \<noteq> None" "seg_key name \<noteq> None"
  have "seg_key ACTIVE_COORD_FILENAME = None"
    by (simp add: ACTIVE_COORD_FILENAME_def seg_key_def seg_stem_def Let_def)
  then have "name \<noteq> ACTIVE_COORD_FILENAME"
    using n(2) by metis
  then have "mlookup d name \<noteq> None"
    using n(1) assms(1) by (simp add: only_mfile_def)
  then show "\<exists>s \<in> set segs. name = seg_name (fst s)"
    using n(2) assms(2) unfolding v2_no_strays_def by blast
qed

lemma active_ok_only: "only_mfile (seg_name k) d d' \<Longrightarrow> active_ok d' = active_ok d"
  by (simp add: only_mfile_def active_ok_def)

lemma v2_repE:
  assumes "v2_rep crc kc ka d w segs"
  obtains ss s f where "segs = ss @ [s]" "v2_dir d w (ss @ [s])" "mlookup d (seg_name (fst s)) = Some f"
    "v2_image crc (fst s) (v2_cap w) (snd s) (mf_content f)"
    "ka \<and> snd s \<noteq> [] \<longrightarrow> mf_synced f \<and> v2_image crc (fst s) (v2_cap w) (snd s) (mf_base f) \<and> mf_stores f = []"
    "v2_wr w = Some \<lparr>mw_name = seg_name (fst s), mw_size = v2_cap w, mw_first = fst s\<rparr>"
    "v2_active_bytes w = 32 + v2_len (snd s)" "v2_sizes w = v2_sizes_of ss" "v2_retained_bytes w = v2_total ss"
    "\<forall>x \<in> set ss. v2_closed_seg crc (v2_cap w) kc d x"
proof -
  obtain ss s where s: "segs = ss @ [s]"
    using assms by (metis v2_rep_def append_butlast_last_id)
  then show ?thesis
    using assms that by (auto simp: v2_rep_def v2_active_seg_def)
qed

subsection \<open>A new segment\<close>

text \<open>Creating the segment with the next cursor over the segments \<open>segs\<close>, all of them with records.\<close>

lemma v2_new_file:
  assumes "v2_dir d w segs" "\<forall>s \<in> set segs. snd s \<noteq> []" "segs \<noteq> [] \<Longrightarrow> unat k = a_next segs"
  obtains d1 d2 where "v2_create (seg_name k) (v2_cap w) k d
      = (Inr \<lparr>mw_name = seg_name k, mw_size = v2_cap w, mw_first = k\<rparr>, d1)"
    "store_active k d1 = (Inr (), d2)" "v2_active_seg crc (v2_cap w) ka d2 (k, [])" "v2_active_seg crc (v2_cap w) ka d1 (k, [])"
    "\<And>s kc. s \<in> set segs \<Longrightarrow> v2_closed_seg crc (v2_cap w) kc d2 s = v2_closed_seg crc (v2_cap w) kc d s"
    "v2_dir d2 (w\<lparr>v2_segments := bt_insert k (seg_name k) (v2_segments w)\<rparr>) (segs @ [(k, [])])"
    "load_first_cursor d2 = k" "\<And>n. n \<noteq> seg_name k \<Longrightarrow> n \<noteq> ACTIVE_COORD_FILENAME \<Longrightarrow> mlookup d2 n = mlookup d n"
proof -
  have D: "md_up d" "active_ok d" "well_numbered segs" "v2_no_strays d segs" "v2_segments w = index_of segs"
    "60 \<le> v2_cap w" "v2_cap w < 2 ^ 63"
    using assms(1) by (simp_all add: v2_dir_def)
  have wn: "well_numbered (segs @ [(k, [])])"
    using D(3) assms(2,3) by (rule well_numbered_snoc_empty)
  note keys = well_numbered_keys [OF wn]
  have none: "mlookup d (seg_name k) = None"
  proof (rule ccontr)
    assume "mlookup d (seg_name k) \<noteq> None"
    then obtain s where "s \<in> set segs" "seg_name k = seg_name (fst s)"
      using D(4) seg_key_name [of k] by (auto simp: v2_no_strays_def)
    then show False
      using keys(2) [of s] by simp
  qed
  obtain f d1 where c: "v2_create (seg_name k) (v2_cap w) k d
      = (Inr \<lparr>mw_name = seg_name k, mw_size = v2_cap w, mw_first = k\<rparr>, d1)"
    "mlookup d1 (seg_name k) = Some f" "v2_image crc k (v2_cap w) [] (mf_content f)" "only_mfile (seg_name k) d d1"
    by (rule v2_create_ok [OF none D(1,6,7), of k crc]) blast
  have "active_ok d1" "md_up d1"
    using D(1,2) active_ok_only [OF c(4)] c(4) by (simp_all add: only_mfile_def)
  then obtain d2 where a: "store_active k d1 = (Inr (), d2)" "only_mfile ACTIVE_COORD_FILENAME d1 d2" "active_ok d2"
    "load_first_cursor d2 = k"
    using store_active_ok [of d1 k] by metis
  have l2: "mlookup d2 (seg_name n) = mlookup d1 (seg_name n)" for n
    using a(2) by (simp add: only_mfile_def)
  show ?thesis
  proof (rule that [OF c(1) a(1) _ _ _ _ a(4)])
    show "mlookup d2 n = mlookup d n" if "n \<noteq> seg_name k" "n \<noteq> ACTIVE_COORD_FILENAME" for n
      using that a(2) c(4) by (simp add: only_mfile_def)
    show "v2_active_seg crc (v2_cap w) ka d2 (k, [])" "v2_active_seg crc (v2_cap w) ka d1 (k, [])"
      using c(2,3) l2 by (simp_all add: v2_active_seg_def)
    show "v2_closed_seg crc (v2_cap w) kc d2 s = v2_closed_seg crc (v2_cap w) kc d s" if "s \<in> set segs" for s kc
      using only_mfile_seg(1) [OF a(2), of s] only_mfile_seg(1) [OF c(4), of s] keys(2) [OF that] by simp
    have "bt_insert k (seg_name k) (index_of segs) = index_of (segs @ [(k, [])])"
      using keys(1) by (subst bt_insert_last) (auto simp: index_of_def)
    moreover have "v2_no_strays d2 (segs @ [(k, [])])"
      by (rule v2_no_strays_active [OF a(2)], rule v2_no_strays_only [OF D(4) c(4)]) auto
    ultimately show "v2_dir d2 (w\<lparr>v2_segments := bt_insert k (seg_name k) (v2_segments w)\<rparr>) (segs @ [(k, [])])"
      using D a(2,3) c(4) wn by (simp add: v2_dir_def v2_cap_def only_mfile_def)
  qed
qed


text \<open>What an operation may not change.\<close>

definition v2_same :: "v2_wal \<Rightarrow> v2_wal \<Rightarrow> bool" where
  "v2_same w w' \<longleftrightarrow> v2_cfg w' = v2_cfg w \<and> v2_durable w' = v2_durable w \<and> v2_pending w' = v2_pending w
     \<and> v2_poisoned w' = v2_poisoned w"

lemma v2_first_segment_rep:
  assumes "v2_fresh d w"
  obtains w' d' where "v2_first_segment k w d = (Inr (), w', d')" "v2_rep crc kc ka d' w' [(k, [])]" "v2_same w w'"
proof -
  have D: "v2_dir d w []" "v2_wr w = None" "v2_sizes w = []" "v2_retained_bytes w = 0" "v2_segments w = []"
    using assms by (simp_all add: v2_fresh_def v2_dir_def index_of_def)
  obtain d1 d2 where N: "v2_create (seg_name k) (v2_cap w) k d
      = (Inr \<lparr>mw_name = seg_name k, mw_size = v2_cap w, mw_first = k\<rparr>, d1)"
    "store_active k d1 = (Inr (), d2)" "v2_active_seg crc (v2_cap w) ka d2 (k, [])" "v2_active_seg crc (v2_cap w) ka d1 (k, [])"
    "v2_dir d2 (w\<lparr>v2_segments := bt_insert k (seg_name k) (v2_segments w)\<rparr>) ([] @ [(k, [])])"
    by (rule v2_new_file [OF D(1), of k crc ka]) simp_all
  let ?wr = "\<lparr>mw_name = seg_name k, mw_size = v2_cap w, mw_first = k\<rparr>"
  have t: "unat (v2_tail ?wr d1) = 32"
    using N(4) v2_tail_image(2) [of d1 ?wr _ crc k "v2_cap w" "[]"] by (auto simp: v2_active_seg_def)
  let ?w = "w\<lparr>v2_segments := bt_insert k (seg_name k) (v2_segments w), v2_active_bytes := 32, v2_wr := Some ?wr\<rparr>"
  have "v2_first_segment k w d = (Inr (), ?w, d2)"
    using N(1,2) t by (simp add: v2_first_segment_def v2_cap_def)
  moreover have "v2_rep crc kc ka d2 ?w [(k, [])]"
    using N(3,5) D by (simp add: v2_rep_def v2_dir_def v2_cap_def v2_sizes_of_def)
  ultimately show ?thesis
    using that [of ?w d2] by (simp add: v2_same_def)
qed

lemma v2_rotate_rep:
  assumes "v2_rep crc kc ka d w segs" "snd (last segs) \<noteq> []" "unat k = a_next segs" "ka \<or> \<not> kc"
  obtains w' d' where "v2_rotate_locked k w d = (Inr (), w', d')" "v2_rep crc kc ka' d' w' (segs @ [(k, [])])" "v2_same w w'"
proof -
  from assms(1) obtain ss s f where R: "segs = ss @ [s]" "v2_dir d w (ss @ [s])" "mlookup d (seg_name (fst s)) = Some f"
    "v2_image crc (fst s) (v2_cap w) (snd s) (mf_content f)"
    "ka \<and> snd s \<noteq> [] \<longrightarrow> mf_synced f \<and> v2_image crc (fst s) (v2_cap w) (snd s) (mf_base f) \<and> mf_stores f = []"
    "v2_wr w = Some \<lparr>mw_name = seg_name (fst s), mw_size = v2_cap w, mw_first = fst s\<rparr>"
    "v2_active_bytes w = 32 + v2_len (snd s)" "v2_sizes w = v2_sizes_of ss" "v2_retained_bytes w = v2_total ss"
    "\<forall>x \<in> set ss. v2_closed_seg crc (v2_cap w) kc d x"
    by (rule v2_repE)
  let ?old = "\<lparr>mw_name = seg_name (fst s), mw_size = v2_cap w, mw_first = fst s\<rparr>"
  have wn: "well_numbered (ss @ [s])"
    using R(2) by (simp add: v2_dir_def)
  note keys = well_numbered_keys [OF wn]
  have ne: "\<forall>x \<in> set (ss @ [s]). snd x \<noteq> []"
    using wn assms(2) R(1) by (auto simp: well_numbered_def chain_snoc)
  define d1 where "d1 = snd (write_skip_to_end ?old d)"
  have d1: "d1 = (if 32 + v2_len (snd s) + 4 \<le> v2_cap w then mstore (seg_name (fst s)) (v2_skip_stores (snd s)) d else d)"
    using write_skip_cases [of d ?old f crc "fst s" "v2_cap w" "snd s"] R(3,4) by (simp add: d1_def)
  have o1: "only_mfile (seg_name (fst s)) d d1"
    by (simp add: d1 only_mfile_simps)
  have "v2_closed_seg crc (v2_cap w) kc d1 s"
  proof (cases "32 + v2_len (snd s) + 4 \<le> v2_cap w")
    case True
    then show ?thesis
      using R(3,4,5) assms(2,4) R(1) unfolding v2_closed_seg_def d1
      by (auto simp: mlookup_store mf_content_def)
  next
    case False
    then show ?thesis
      using R(3,4,5) assms(2,4) R(1) unfolding v2_closed_seg_def d1 by auto
  qed
  note closed_s = this
  have closed: "\<forall>x \<in> set (ss @ [s]). v2_closed_seg crc (v2_cap w) kc d1 x"
  proof -
    have "v2_closed_seg crc (v2_cap w) kc d1 x" if "x \<in> set ss" for x
      using R(10) only_mfile_seg(1) [OF o1, of x] keys(2) [OF that] that by simp
    then show ?thesis
      using closed_s by simp
  qed
  have dir1: "v2_dir d1 w (ss @ [s])"
    using R(2) o1 v2_no_strays_only [OF _ o1, of "ss @ [s]" "ss @ [s]"] active_ok_only [OF o1]
    by (auto simp: v2_dir_def only_mfile_def)
  obtain d2 d3 where N: "v2_create (seg_name k) (v2_cap w) k d1
      = (Inr \<lparr>mw_name = seg_name k, mw_size = v2_cap w, mw_first = k\<rparr>, d2)"
    "store_active k d2 = (Inr (), d3)" "v2_active_seg crc (v2_cap w) ka' d3 (k, [])"
    "\<And>x kc. x \<in> set (ss @ [s]) \<Longrightarrow> v2_closed_seg crc (v2_cap w) kc d3 x = v2_closed_seg crc (v2_cap w) kc d1 x"
    "v2_dir d3 (w\<lparr>v2_segments := bt_insert k (seg_name k) (v2_segments w)\<rparr>) ((ss @ [s]) @ [(k, [])])"
    by (rule v2_new_file [OF dir1 ne, of k crc ka']) (use assms(3) R(1) in \<open>blast+\<close>)
  let ?new = "\<lparr>mw_name = seg_name k, mw_size = v2_cap w, mw_first = k\<rparr>"
  have t: "unat (v2_tail ?new d3) = 32"
    using N(3) v2_tail_image(2) [of d3 ?new _ crc k "v2_cap w" "[]"] by (auto simp: v2_active_seg_def)
  have t0: "unat (v2_tail ?old d) = 32 + v2_len (snd s)"
    using v2_tail_image(2) [of d ?old f crc "fst s" "v2_cap w" "snd s"] R(3,4) by simp
  let ?w = "w\<lparr>v2_wr := Some ?new, v2_sizes := bt_insert (fst s) (32 + v2_len (snd s)) (v2_sizes w),
     v2_retained_bytes := v2_retained_bytes w + (32 + v2_len (snd s)),
     v2_segments := bt_insert k (seg_name k) (v2_segments w), v2_active_bytes := 32\<rparr>"
  have "v2_rotate ?old k (v2_cap w) d = (Inr ?new, d3)"
    using N(1,2) by (simp add: v2_rotate_def d1_def)
  then have "v2_rotate_locked k w d = (Inr (), ?w, d3)"
    using R(6) t t0 by (simp add: v2_rotate_locked_def v2_cap_def Let_def)
  moreover have "bt_insert (fst s) (32 + v2_len (snd s)) (v2_sizes_of ss) = v2_sizes_of (ss @ [s])"
    using keys(1) by (subst bt_insert_last) (auto simp: v2_sizes_of_def)
  then have "v2_rep crc kc ka' d3 ?w ((ss @ [s]) @ [(k, [])])"
    using N(3,4,5) R(8,9) closed unfolding v2_rep_def
    by (auto simp: v2_dir_def v2_cap_def simp del: append_assoc)
  ultimately show ?thesis
    using that [of ?w d3] R(1) by (simp add: v2_same_def)
qed

subsection \<open>Retention\<close>

lemma v2_oldest_inactive_rep:
  assumes "v2_rep crc kc ka d w segs"
  shows "v2_oldest_inactive w = (case segs of s # t # ss \<Rightarrow> Some (fst s) | _ \<Rightarrow> None)"
proof -
  from assms obtain ss s where r: "segs = ss @ [s]" "v2_dir d w (ss @ [s])"
    "v2_wr w = Some \<lparr>mw_name = seg_name (fst s), mw_size = v2_cap w, mw_first = fst s\<rparr>"
    by (rule v2_repE)
  have keys: "map fst (v2_segments w) = map fst ss @ [fst s]"
    using r(2) by (simp add: v2_dir_def index_of_def)
  show ?thesis
  proof (cases ss)
    case Nil
    then show ?thesis
      using r keys by (simp add: v2_oldest_inactive_def)
  next
    case (Cons x xs)
    then have "fst x \<noteq> fst s"
      using well_numbered_keys(1) [of ss s x] r(2) by (auto simp: v2_dir_def)
    then show ?thesis
      using r keys Cons by (cases xs) (simp_all add: v2_oldest_inactive_def)
  qed
qed

lemma v2_drop_rep:
  assumes "v2_rep crc kc ka d w (s # t # ss)"
  obtains w' d' where "v2_drop_segment (fst s) w d = (w', d')" "v2_rep crc kc ka d' w' (t # ss)" "v2_same w w'" "v2_wr w' = v2_wr w"
    "\<And>n. n \<noteq> seg_name (fst s) \<Longrightarrow> mlookup d' n = mlookup d n"
proof -
  have b: "butlast (s # t # ss) = s # butlast (t # ss)" "last (s # t # ss) = last (t # ss)"
    by simp_all
  have wn: "well_numbered (s # t # ss)"
    using assms by (simp add: v2_rep_def v2_dir_def)
  then have "chain (unat (fst s)) (s # t # ss)"
    by (simp add: well_numbered_def)
  from chain_distinct [OF this] have fresh: "fst s \<notin> fst ` set (t # ss)"
    by auto
  have fresh': "fst s \<notin> fst ` set (butlast (t # ss))"
    using fresh in_set_butlastD by fastforce
  have rm: "bt_remove (fst s) (index_of (s # t # ss)) = index_of (t # ss)"
    "bt_remove (fst s) (v2_sizes_of (s # butlast (t # ss))) = v2_sizes_of (butlast (t # ss))"
    unfolding index_of_def v2_sizes_of_def list.map
    by (rule bt_remove_head, use fresh fresh' in \<open>auto simp: image_iff\<close>)+
  let ?d = "mremove (seg_name (fst s)) d"
  have D: "v2_dir d w (s # t # ss)"
    using assms by (simp add: v2_rep_def)
  then have up: "md_up d"
    by (simp add: v2_dir_def)
  have o: "only_mfile (seg_name (fst s)) d ?d"
    using up by (simp add: only_mfile_def mlookup_remove)
  have other: "v2_closed_seg crc (v2_cap w) kc ?d x = v2_closed_seg crc (v2_cap w) kc d x"
    "v2_active_seg crc (v2_cap w) ka ?d x = v2_active_seg crc (v2_cap w) ka d x" if "x \<in> set (t # ss)" for x
    using only_mfile_seg [OF o, of x] fresh imageI [OF that, of fst] by (metis seg_name_eq_iff)+
  have closed: "\<forall>x \<in> set (butlast (t # ss)). v2_closed_seg crc (v2_cap w) kc ?d x"
    using assms other(1) in_set_butlastD unfolding v2_rep_def b by (metis list.set_intros(2))
  have "last (t # ss) \<in> set (t # ss)"
    by (rule last_in_set) simp
  note last_other = other(2) [OF this]
  have strays: "v2_no_strays ?d (t # ss)"
    using D up by (fastforce simp: v2_dir_def v2_no_strays_def mlookup_remove)
  let ?w = "w\<lparr>v2_segments := index_of (t # ss), v2_sizes := v2_sizes_of (butlast (t # ss)),
    v2_retained_bytes := v2_total (butlast (t # ss))\<rparr>"
  have "v2_drop_segment (fst s) w d = (?w, ?d)"
    using assms rm D by (simp add: v2_drop_segment_def v2_rep_def v2_dir_def b index_of_def v2_sizes_of_def)
  moreover have "v2_rep crc kc ka ?d ?w (t # ss)"
    using assms closed last_other strays well_numbered_tail [OF wn] up active_ok_only [OF o]
    unfolding v2_rep_def v2_dir_def b by (auto simp: v2_cap_def)
  moreover have "mlookup ?d n = mlookup d n" if "n \<noteq> seg_name (fst s)" for n
    using that up by (simp add: mlookup_remove)
  ultimately show ?thesis
    using that [of ?w ?d] by (simp add: v2_same_def)
qed

lemma v2_retention_rep:
  assumes "v2_rep crc kc ka d w segs"
  obtains w' d' where "v2_enforce_retention w d = (w', d')"
    "v2_rep crc kc ka d' w' (v2_retain (wc_retention_bytes (v2_cfg w)) segs)" "v2_same w w'" "v2_wr w' = v2_wr w"
proof -
  have total: "v2_retained_bytes w + v2_active_bytes w = v2_total segs" if "v2_rep crc kc ka d w segs" for d w segs
    using that by (elim v2_repE) simp
  have "\<exists>w' d'. v2_enforce_retention w d = (w', d') \<and> v2_rep crc kc ka d' w' (v2_retain cap segs)
    \<and> v2_same w w' \<and> v2_wr w' = v2_wr w"
    if "v2_rep crc kc ka d w segs" "wc_retention_bytes (v2_cfg w) = cap" for cap w d
    using that
  proof (induction cap segs arbitrary: w d rule: v2_retain.induct)
    case (1 cap s t ss)
    show ?case
    proof (cases "v2_total (s # t # ss) \<le> cap")
      case True
      then show ?thesis
        using 1(2,3) total [OF 1(2)] by (simp add: v2_enforce_retention.simps v2_same_def)
    next
      case False
      obtain w1 d1 where d: "v2_drop_segment (fst s) w d = (w1, d1)" "v2_rep crc kc ka d1 w1 (t # ss)"
        "v2_same w w1" "v2_wr w1 = v2_wr w"
        using v2_drop_rep [OF 1(2)] by metis
      have "\<not> v2_retained_bytes w + v2_active_bytes w \<le> wc_retention_bytes (v2_cfg w)"
        using False total [OF 1(2)] 1(3) by simp
      moreover have "v2_oldest_inactive w = Some (fst s)"
        using v2_oldest_inactive_rep [OF 1(2)] by simp
      ultimately have "v2_enforce_retention w d = v2_enforce_retention w1 d1"
        using d(1) by (subst v2_enforce_retention.simps) simp
      moreover have "wc_retention_bytes (v2_cfg w1) = cap"
        using d(3) 1(3) by (simp add: v2_same_def)
      from 1(1) [OF False d(2) this] obtain w2 d2 where "v2_enforce_retention w1 d1 = (w2, d2)"
        "v2_rep crc kc ka d2 w2 (v2_retain cap (t # ss))" "v2_same w1 w2" "v2_wr w2 = v2_wr w1"
        by blast
      ultimately show ?thesis
        using False d(3,4) by (simp add: v2_same_def)
    qed
  next
    case "2_1"
    then show ?case
      by (simp add: v2_rep_def)
  next
    case "2_2"
    then show ?case
      using v2_oldest_inactive_rep [OF "2_2"(1)] by (simp add: v2_enforce_retention.simps v2_same_def)
  qed
  from this [OF assms refl] show ?thesis
    using that by blast
qed

end
