(* ===== verification/V2_Append.thy ===== *)
theory V2_Append
  imports V2_Refine
begin

text \<open>
  An append to the lock-free log, from the choice of the segment to the sync of the Each policy, as a
  step on the list of segments with their records.
\<close>

subsection \<open>One append\<close>

lemma v2_rep_cong:
  assumes "v2_segments w' = v2_segments w" "v2_sizes w' = v2_sizes w" "v2_wr w' = v2_wr w" "v2_cfg w' = v2_cfg w"
    "v2_active_bytes w' = v2_active_bytes w" "v2_retained_bytes w' = v2_retained_bytes w"
  shows "v2_rep crc kc ka d w' segs = v2_rep crc kc ka d w segs"
  using assms by (simp add: v2_rep_def v2_dir_def v2_cap_def)

lemma v2_put_rep:
  assumes "v2_rep crc kc ka d w (ss @ [s])" "v2_wr w = Some x" "record_ok r" "unat (r_cursor r) = a_next (ss @ [s])"
    "unat (r_cursor r) + 1 < 2 ^ 64" "32 + v2_len (snd s) + v2_padded r \<le> v2_cap w"
  obtains d' where "v2_append_retry crc (r_cursor r) (r_ts r) (r_payload r) x w d = (Inr (r_cursor r + 1), w, d')"
    "v2_rep crc kc False d' (w\<lparr>v2_active_bytes := unat (v2_tail x d')\<rparr>) (ss @ [(fst s, snd s @ [r])])"
proof -
  from assms(1) obtain f where R: "v2_dir d w (ss @ [s])" "mlookup d (seg_name (fst s)) = Some f"
    "v2_image crc (fst s) (v2_cap w) (snd s) (mf_content f)" "x = \<lparr>mw_name = seg_name (fst s), mw_size = v2_cap w, mw_first = fst s\<rparr>"
    "v2_sizes w = v2_sizes_of ss" "v2_retained_bytes w = v2_total ss" "\<forall>x \<in> set ss. v2_closed_seg crc (v2_cap w) kc d x"
    using assms(2) by (elim v2_repE) simp
  obtain d' f' where A: "v2_append crc x (r_cursor r) (r_ts r) (r_payload r) d
      = (Inr (Appended (of_nat (32 + v2_len (snd s))) (r_cursor r + 1)), d')"
    "mlookup d' (seg_name (fst s)) = Some f'" "v2_image crc (fst s) (v2_cap w) (snd s @ [r]) (mf_content f')"
    "only_mfile (seg_name (fst s)) d d'"
    using v2_append_cases(2) [of d x f crc "fst s" "v2_cap w" "snd s" r] R(2-4) assms(3,6) by auto
  have wn: "well_numbered (ss @ [s])"
    using R(1) by (simp add: v2_dir_def)
  have "well_numbered (ss @ [(fst s, snd s @ [r])])"
    by (rule well_numbered_extend [OF wn assms(4,3,5)])
  moreover have "index_of (ss @ [(fst s, snd s @ [r])]) = index_of (ss @ [s])"
    by (simp add: index_of_def)
  moreover have "v2_no_strays d' (ss @ [(fst s, snd s @ [r])])"
    using R(1) by (intro v2_no_strays_only [OF _ A(4), of "ss @ [s]"]) (auto simp: v2_dir_def)
  ultimately have "v2_dir d' w (ss @ [(fst s, snd s @ [r])])"
    using R(1) A(4) active_ok_only [OF A(4)] by (simp add: v2_dir_def only_mfile_def)
  moreover have "\<forall>y \<in> set ss. v2_closed_seg crc (v2_cap w) kc d' y"
    using R(7) only_mfile_seg(1) [OF A(4)] well_numbered_keys(2) [OF wn] by metis
  moreover have "unat (v2_tail x d') = 32 + v2_len (snd s @ [r])"
    using v2_tail_image(2) [of d' x f' crc "fst s" "v2_cap w" "snd s @ [r]"] A(2,3) R(4) by simp
  ultimately have "v2_rep crc kc False d' (w\<lparr>v2_active_bytes := unat (v2_tail x d')\<rparr>) (ss @ [(fst s, snd s @ [r])])"
    using A(2,3) R(4-6) assms(2) by (simp add: v2_rep_def v2_dir_def v2_cap_def v2_active_seg_def)
  then show ?thesis
    using that [of d'] A(1) by (simp add: v2_append_retry_def)
qed

lemma v2_sync_rep:
  assumes "v2_rep crc kc ka d w segs" "v2_wr w = Some x"
  obtains d' where "flush_sync (mw_name x) d = (Inr (), d')" "v2_rep crc kc True d' w segs"
proof -
  from assms(1) obtain ss s f where R: "segs = ss @ [s]" "v2_dir d w (ss @ [s])" "mlookup d (seg_name (fst s)) = Some f"
    "v2_image crc (fst s) (v2_cap w) (snd s) (mf_content f)" "v2_wr w = Some \<lparr>mw_name = seg_name (fst s), mw_size = v2_cap w, mw_first = fst s\<rparr>"
    "v2_active_bytes w = 32 + v2_len (snd s)"
    "v2_sizes w = v2_sizes_of ss" "v2_retained_bytes w = v2_total ss" "\<forall>x \<in> set ss. v2_closed_seg crc (v2_cap w) kc d x"
    by (rule v2_repE)
  have wn: "well_numbered (ss @ [s])" and up: "md_up d"
    using R(2) by (simp_all add: v2_dir_def)
  obtain d' where F: "flush_sync (seg_name (fst s)) d = (Inr (), d')" "only_mfile (seg_name (fst s)) d d'"
    "mlookup d' (seg_name (fst s)) = Some \<lparr>mf_base = mf_content f, mf_stores = [], mf_synced = True\<rparr>"
    using flush_sync_ok [OF R(3) up] by blast
  have "v2_no_strays d' (ss @ [s])"
    using R(2) by (intro v2_no_strays_only [OF _ F(2), of "ss @ [s]"]) (auto simp: v2_dir_def)
  then have "v2_dir d' w (ss @ [s])"
    using R(2) F(2) active_ok_only [OF F(2)] by (simp add: v2_dir_def only_mfile_def)
  moreover have "\<forall>y \<in> set ss. v2_closed_seg crc (v2_cap w) kc d' y"
    using R(9) only_mfile_seg(1) [OF F(2)] well_numbered_keys(2) [OF wn] by metis
  ultimately have "v2_rep crc kc True d' w segs"
    using R F(3) by (simp add: v2_rep_def v2_active_seg_def mf_content_def)
  then show ?thesis
    using that [of d'] F(1) R(5) assms(2) by simp
qed

lemma v2_after_rep:
  assumes "v2_rep crc kc False d (w\<lparr>v2_active_bytes := unat (v2_tail x d)\<rparr>) segs" "v2_wr w = Some x" "kc \<longrightarrow> wc_fsync_policy (v2_cfg w) = Each"
  obtains w' d' where "v2_after_append n len x w d = (Inr (), w', d')"
    "v2_rep crc kc kc d' w' (v2_retain (wc_retention_bytes (v2_cfg w)) segs)" "v2_pending w' = n" "v2_cfg w' = v2_cfg w"
    "v2_poisoned w' = v2_poisoned w" "v2_durable w' = (if wc_fsync_policy (v2_cfg w) = Each then n else v2_durable w)"
proof -
  define w1 where "w1 = w\<lparr>v2_pending := n, v2_active_bytes := unat (v2_tail x d), v2_appends := v2_appends w + 1,
    v2_append_bytes := v2_append_bytes w + len\<rparr>"
  have r1: "v2_rep crc kc False d w1 segs"
    using assms(1) by (subst v2_rep_cong [of w1 "w\<lparr>v2_active_bytes := unat (v2_tail x d)\<rparr>"]) (simp_all add: w1_def)
  obtain w2 d2 where E: "v2_enforce_retention w1 d = (w2, d2)" "v2_rep crc kc False d2 w2 (v2_retain (wc_retention_bytes (v2_cfg w)) segs)"
    "v2_same w1 w2" "v2_wr w2 = Some x"
    by (rule v2_retention_rep [OF r1]) (simp add: w1_def assms(2))
  have "(if v2_retained_bytes w1 + v2_active_bytes w1 > wc_retention_bytes (v2_cfg w1) then v2_enforce_retention w1 d else (w1, d)) = (w2, d2)"
    using E(1) by (subst (asm) v2_enforce_retention.simps) (auto simp: v2_enforce_retention.simps)
  then have a: "v2_after_append n len x w d = (if wc_fsync_policy (v2_cfg w2) = Each then
          (case flush_sync (mw_name x) d2 of
             (Inl e, d3) \<Rightarrow> (Inl (V2Io e), w2, d3)
           | (Inr _, d3) \<Rightarrow> (Inr (), w2\<lparr>v2_durable := n, v2_flushes := v2_flushes w2 + 1\<rparr>, d3))
        else (Inr (), w2, d2))"
    unfolding v2_after_append_def Let_def w1_def by simp
  have c: "v2_cfg w2 = v2_cfg w" "v2_pending w2 = n" "v2_poisoned w2 = v2_poisoned w" "v2_durable w2 = v2_durable w"
    using E(3) by (simp_all add: v2_same_def w1_def)
  show ?thesis
  proof (cases "wc_fsync_policy (v2_cfg w) = Each")
    case True
    obtain d3 where F: "flush_sync (mw_name x) d2 = (Inr (), d3)" "v2_rep crc kc True d3 w2 (v2_retain (wc_retention_bytes (v2_cfg w)) segs)"
      using v2_sync_rep [OF E(2,4)] by metis
    let ?w = "w2\<lparr>v2_durable := n, v2_flushes := v2_flushes w2 + 1\<rparr>"
    have "v2_rep crc kc kc d3 ?w (v2_retain (wc_retention_bytes (v2_cfg w)) segs)"
      using F(2) by (subst v2_rep_cong [of ?w w2]) (auto simp: v2_rep_def v2_active_seg_def)
    then show ?thesis
      using that [of ?w d3] a F(1) c True by simp
  next
    case False
    then show ?thesis
      using that [of w2 d2] a E(2) c assms(3) by simp
  qed
qed


lemma v2_retain_facts:
  assumes "well_numbered segs" "segs \<noteq> []"
  shows "v2_retain cap segs \<noteq> []" "last (v2_retain cap segs) = last segs" "a_next (v2_retain cap segs) = a_next segs"
    "\<exists>ps. segs = ps @ v2_retain cap segs"
proof -
  have "v2_retain cap segs \<noteq> [] \<and> last (v2_retain cap segs) = last segs \<and> a_next (v2_retain cap segs) = a_next segs
    \<and> (\<exists>ps. segs = ps @ v2_retain cap segs)"
    using assms
  proof (induction cap segs rule: v2_retain.induct)
    case (1 cap s t ss)
    have "a_next (t # ss) = a_next (s # t # ss)"
      using 1(2) by (simp add: well_numbered_def a_next_def log_of_def)
    show ?case
    proof (cases "v2_total (s # t # ss) \<le> cap")
      case True
      then show ?thesis
        by simp
    next
      case False
      then obtain ps where "t # ss = ps @ v2_retain cap (t # ss)"
        using 1(1) [OF _ well_numbered_tail [OF 1(2)]] by blast
      then have "s # t # ss = (s # ps) @ v2_retain cap (s # t # ss)"
        using False by simp
      then have "\<exists>ps. s # t # ss = ps @ v2_retain cap (s # t # ss)"
        by blast
      moreover have "v2_retain cap (s # t # ss) = v2_retain cap (t # ss)"
        using False by simp
      ultimately show ?thesis
        using 1(1) [OF False well_numbered_tail [OF 1(2)]] \<open>a_next (t # ss) = a_next (s # t # ss)\<close>
        by (metis last_ConsR list.distinct(1))
    qed
  qed simp_all
  then show "v2_retain cap segs \<noteq> []" "last (v2_retain cap segs) = last segs" "a_next (v2_retain cap segs) = a_next segs"
    "\<exists>ps. segs = ps @ v2_retain cap segs"
    by blast+
qed

lemma v2_append_ok:
  assumes "v2_state crc kept d w segs" "record_ok r" "segs \<noteq> [] \<Longrightarrow> unat (r_cursor r) = a_next segs"
    "unat (r_cursor r) + 1 < 2 ^ 64" "32 + v2_padded r \<le> v2_cap w" "kept \<longrightarrow> wc_fsync_policy (v2_cfg w) = Each"
  obtains w' d' where "v2_wal_append crc (r_cursor r) (r_ts r) (r_payload r) w d = (Inr (), w', d')"
    "v2_state crc kept d' w' (v2_log_step (v2_cfg w) r segs)" "v2_pending w' = r_cursor r + 1" "v2_cfg w' = v2_cfg w"
    "v2_durable w' = (if wc_fsync_policy (v2_cfg w) = Each then r_cursor r + 1 else v2_durable w)"
    "v2_log_step (v2_cfg w) r segs \<noteq> []" "r \<in> set (snd (last (v2_log_step (v2_cfg w) r segs)))"
    "well_numbered (v2_step_append (v2_cap w) r segs)"
proof -
  have W: "wc_enabled (v2_cfg w)" "\<not> v2_poisoned w" "length (r_payload r) \<le> MAX_PAYLOAD_LEN"
    using assms(1,2) by (simp_all add: v2_state_def record_ok_def)
  have "\<exists>x w1 d1 ss s. v2_writer_for (r_cursor r) (v2_padded r) w d = (Inr x, w1, d1) \<and> v2_rep crc kept kept d1 w1 (ss @ [s])
    \<and> v2_wr w1 = Some x \<and> v2_same w w1 \<and> unat (r_cursor r) = a_next (ss @ [s]) \<and> 32 + v2_len (snd s) + v2_padded r \<le> v2_cap w1
    \<and> v2_step_append (v2_cap w) r segs = ss @ [(fst s, snd s @ [r])]"
  proof (cases "segs = []")
    case True
    then have fr: "v2_fresh d w"
      using assms(1) by (simp add: v2_state_def)
    obtain w1 d1 where F: "v2_first_segment (r_cursor r) w d = (Inr (), w1, d1)" "v2_rep crc kept kept d1 w1 [(r_cursor r, [])]" "v2_same w w1"
      by (rule v2_first_segment_rep [OF fr])
    obtain x where x: "v2_wr w1 = Some x"
      using F(2) by (simp add: v2_rep_def)
    have "v2_writer_for (r_cursor r) (v2_padded r) w d = (Inr x, w1, d1)"
      using F(1) x fr by (simp add: v2_writer_for_def v2_fresh_def)
    moreover have "v2_cap w1 = v2_cap w"
      using F(3) by (simp add: v2_same_def v2_cap_def)
    ultimately show ?thesis
      using F(2,3) x assms(5) True
      by (intro exI [of _ x] exI [of _ w1] exI [of _ d1] exI [of _ "[]"] exI [of _ "(r_cursor r, [])"])
        (simp add: a_next_def log_of_def v2_step_append_def)
  next
    case ne: False
    then have R: "v2_rep crc kept kept d w segs"
      using assms(1) by (simp add: v2_state_def)
    from this obtain ss s where s: "segs = ss @ [s]" "v2_wr w = Some \<lparr>mw_name = seg_name (fst s), mw_size = v2_cap w, mw_first = fst s\<rparr>"
      "v2_active_bytes w = 32 + v2_len (snd s)"
      by (rule v2_repE)
    show ?thesis
    proof (cases "32 + v2_len (snd s) + v2_padded r \<le> v2_cap w")
      case True
      then show ?thesis
        using s R assms(3) [OF ne]
        by (intro exI [of _ "\<lparr>mw_name = seg_name (fst s), mw_size = v2_cap w, mw_first = fst s\<rparr>"] exI [of _ w] exI [of _ d] exI [of _ ss] exI [of _ s])
          (simp add: v2_writer_for_def v2_cap_def v2_same_def v2_step_append_def)
    next
      case False
      then have last: "snd (last segs) \<noteq> []"
        using assms(5) s(1) by auto
      obtain w1 d1 where F: "v2_rotate_locked (r_cursor r) w d = (Inr (), w1, d1)"
        "v2_rep crc kept kept d1 w1 (segs @ [(r_cursor r, [])])" "v2_same w w1"
        by (rule v2_rotate_rep [OF R last assms(3) [OF ne]]) auto
      obtain x where x: "v2_wr w1 = Some x"
        using F(2) by (simp add: v2_rep_def)
      have c: "v2_cap w1 = v2_cap w"
        using F(3) by (simp add: v2_same_def v2_cap_def)
      have "v2_writer_for (r_cursor r) (v2_padded r) w d = (Inr x, w1, d1)"
        using F(1) x s False by (simp add: v2_writer_for_def v2_cap_def)
      moreover have "a_next (segs @ [(r_cursor r, [])]) = a_next segs"
        using ne by (simp add: a_next_def log_of_def)
      ultimately show ?thesis
        using F(2,3) x assms(5) ne c False s(1) assms(3) [OF ne]
        by (intro exI [of _ x] exI [of _ w1] exI [of _ d1] exI [of _ segs] exI [of _ "(r_cursor r, [])"])
          (simp add: v2_step_append_def)
    qed
  qed
  then obtain x w1 d1 ss s where V: "v2_writer_for (r_cursor r) (v2_padded r) w d = (Inr x, w1, d1)" "v2_rep crc kept kept d1 w1 (ss @ [s])"
    "v2_wr w1 = Some x" "v2_same w w1" "unat (r_cursor r) = a_next (ss @ [s])" "32 + v2_len (snd s) + v2_padded r \<le> v2_cap w1"
    "v2_step_append (v2_cap w) r segs = ss @ [(fst s, snd s @ [r])]"
    by blast
  obtain d2 where P: "v2_append_retry crc (r_cursor r) (r_ts r) (r_payload r) x w1 d1 = (Inr (r_cursor r + 1), w1, d2)"
    "v2_rep crc kept False d2 (w1\<lparr>v2_active_bytes := unat (v2_tail x d2)\<rparr>) (ss @ [(fst s, snd s @ [r])])"
    by (rule v2_put_rep [OF V(2,3) assms(2) V(5) assms(4) V(6)])
  have c: "v2_cfg w1 = v2_cfg w" "v2_poisoned w1 = v2_poisoned w" "v2_durable w1 = v2_durable w"
    using V(4) by (simp_all add: v2_same_def)
  obtain w3 d3 where A: "v2_after_append (r_cursor r + 1) (length (r_payload r)) x w1 d2 = (Inr (), w3, d3)"
    "v2_rep crc kept kept d3 w3 (v2_retain (wc_retention_bytes (v2_cfg w1)) (ss @ [(fst s, snd s @ [r])]))"
    "v2_pending w3 = r_cursor r + 1" "v2_cfg w3 = v2_cfg w1" "v2_poisoned w3 = v2_poisoned w1"
    "v2_durable w3 = (if wc_fsync_policy (v2_cfg w1) = Each then r_cursor r + 1 else v2_durable w1)"
    by (rule v2_after_rep [OF P(2) V(3)]) (use assms(6) c in simp_all)
  have step: "v2_log_step (v2_cfg w) r segs = v2_retain (wc_retention_bytes (v2_cfg w)) (ss @ [(fst s, snd s @ [r])])"
    using V(7) by (simp add: v2_log_step_def v2_cap_def)
  have "well_numbered (ss @ [(fst s, snd s @ [r])])"
    using P(2) by (simp add: v2_rep_def v2_dir_def)
  note wn = this
  note K = v2_retain_facts [OF this, of "wc_retention_bytes (v2_cfg w)", folded step, simplified]
  have pend: "unat (r_cursor r + 1) = a_next (v2_log_step (v2_cfg w) r segs)"
  proof -
    have "a_next (ss @ [(fst s, snd s @ [r])]) = a_next (ss @ [s]) + 1"
      by (cases ss) (simp_all add: a_next_def log_of_def)
    then show ?thesis
      using K(3) V(5) assms(4) by (simp add: unat_word_ariths)
  qed
  have "v2_wal_append crc (r_cursor r) (r_ts r) (r_payload r) w d = (Inr (), w3, d3)"
    using W V(1) P(1) A(1) by (simp add: v2_wal_append_def v2_padded_def)
  moreover have "v2_state crc kept d3 w3 (v2_log_step (v2_cfg w) r segs)"
    using A(2-5) W K(1) pend c step by (simp add: v2_state_def)
  ultimately show ?thesis
    using that [of w3 d3] A(3,4,6) c K(1,2) wn V(7) by simp
qed

end
