(* ===== verification/V2_Reading.thy ===== *)
theory V2_Reading
  imports V2_Append Wal_Reading
begin

text \<open>
  Reading the lock-free log from a cursor: the replayer comes to an end, and over segments on which a
  reader finds their records it yields the records from the cursor on.
\<close>

subsection \<open>Reading to the end\<close>

text \<open>What is left to read bounds how often the replayer can be asked before it returns none.\<close>

definition v2_left :: "mdisk \<Rightarrow> v2_replayer \<Rightarrow> nat" where
  "v2_left d rp = (case vr_current rp of None \<Rightarrow> 0 | Some r \<Rightarrow> mr_size r - mr_pos r)
    + sum_list (map (\<lambda>path. Suc (length (mmap_of d path))) (vr_segments rp))"

lemma v2_replayer_next_left:
  assumes "v2_replayer_next crc d rp = (Some x, rp')"
  shows "v2_left d rp' < v2_left d rp"
  using assms
proof (induction crc d rp arbitrary: x rp' rule: v2_replayer_next.induct)
  case (1 crc d rp)
  show ?case
  proof (cases "vr_current rp")
    case None
    show ?thesis
    proof (cases "vr_segments rp")
      case Nil
      then show ?thesis
        using None 1(5) by (subst (asm) v2_replayer_next.simps) simp
    next
      case (Cons path paths)
      show ?thesis
      proof (cases "v2_reader_open path d")
        case (Inl e)
        then show ?thesis
          using None Cons 1(5) by (subst (asm) v2_replayer_next.simps) (auto simp: v2_left_def)
      next
        case (Inr r)
        have "v2_replayer_next crc d (rp\<lparr>vr_segments := paths, vr_current := Some r\<rparr>) = (Some x, rp')"
          using None Cons Inr 1(5) by (subst (asm) v2_replayer_next.simps) simp
        from 1(1) [OF None Cons Inr this]
        have "v2_left d rp' < v2_left d (rp\<lparr>vr_segments := paths, vr_current := Some r\<rparr>)" .
        moreover have "mr_size r = length (mmap_of d path)"
          using Inr by (auto simp: v2_reader_open_def mmap_of_def Let_def split: option.splits if_splits)
        ultimately show ?thesis
          using None Cons by (simp add: v2_left_def)
      qed
    qed
  next
    case (Some r)
    obtain out r' where N: "v2_next_record crc d r = (out, r')"
      by fastforce
    have progress: "mr_size r' = mr_size r \<and> mr_size r' - mr_pos r' < mr_size r - mr_pos r"
      if "out \<noteq> AwaitMore" "out \<noteq> EndOfSegment"
      using v2_next_progress(1,2) [OF N [unfolded v2_next_record_def] that] by simp
    show ?thesis
    proof (cases out)
      case (ReadRecord y)
      show ?thesis
      proof (cases "r_cursor y < vr_floor rp")
        case True
        have "v2_replayer_next crc d (rp\<lparr>vr_current := Some r'\<rparr>) = (Some x, rp')"
          using Some N ReadRecord True 1(5) by (subst (asm) v2_replayer_next.simps) simp
        from 1(2) [OF Some N [symmetric] ReadRecord True this] show ?thesis
          using progress ReadRecord Some unfolding v2_left_def by (auto simp: less_diff_conv)
      next
        case False
        then show ?thesis
          using Some N ReadRecord 1(5) progress by (subst (asm) v2_replayer_next.simps) (auto simp: v2_left_def)
      qed
    next
      case (ReadErr e)
      then show ?thesis
        using Some N 1(5) progress by (subst (asm) v2_replayer_next.simps) (auto simp: v2_left_def)
    next
      case AwaitMore
      have "v2_replayer_next crc d (rp\<lparr>vr_current := None\<rparr>) = (Some x, rp')"
        using Some N AwaitMore 1(5) by (subst (asm) v2_replayer_next.simps) simp
      from 1(3) [OF Some N [symmetric] AwaitMore this] show ?thesis
        using Some by (simp add: v2_left_def)
    next
      case EndOfSegment
      have "v2_replayer_next crc d (rp\<lparr>vr_current := None\<rparr>) = (Some x, rp')"
        using Some N EndOfSegment 1(5) by (subst (asm) v2_replayer_next.simps) simp
      from 1(4) [OF Some N [symmetric] EndOfSegment this] show ?thesis
        using Some by (simp add: v2_left_def)
    qed
  qed
qed


text \<open>All that the iterator yields.\<close>

function v2_replay_all :: "(bytes \<Rightarrow> u32) \<Rightarrow> mdisk \<Rightarrow> v2_replayer \<Rightarrow> (v2_error + wal_record) list" where
  "v2_replay_all crc d rp = (case v2_replayer_next crc d rp of
      (None, rp') \<Rightarrow> [] | (Some x, rp') \<Rightarrow> x # v2_replay_all crc d rp')"
  by pat_completeness auto
termination
  by (relation "measure (\<lambda>(crc, d, rp). v2_left d rp)") (auto dest: v2_replayer_next_left [OF sym])

declare v2_replay_all.simps [simp del]

lemma v2_all_cong: "v2_replayer_next crc d rp = v2_replayer_next crc d rp' \<Longrightarrow> v2_replay_all crc d rp = v2_replay_all crc d rp'"
  by (simp add: v2_replay_all.simps)

lemma v2_all_done: "vr_current rp = None \<Longrightarrow> vr_segments rp = [] \<Longrightarrow> v2_replay_all crc d rp = []"
  by (simp add: v2_replay_all.simps v2_replayer_next.simps)

lemma v2_all_open:
  assumes "vr_current rp = None" "vr_segments rp = path # paths" "v2_reader_open path d = Inr r"
  shows "v2_replay_all crc d rp = v2_replay_all crc d (rp\<lparr>vr_segments := paths, vr_current := Some r\<rparr>)"
  using assms by (intro v2_all_cong) (subst v2_replayer_next.simps, simp)

lemma v2_all_record:
  assumes "vr_current rp = Some r" "v2_next_record crc d r = (ReadRecord x, r')"
  shows "v2_replay_all crc d rp = (if vr_floor rp \<le> r_cursor x then [Inr x] else [])
    @ v2_replay_all crc d (rp\<lparr>vr_current := Some r'\<rparr>)"
proof (cases "vr_floor rp \<le> r_cursor x")
  case True
  then show ?thesis
    using assms by (subst v2_replay_all.simps, subst v2_replayer_next.simps) (simp add: leD)
next
  case False
  then have "v2_replayer_next crc d rp = v2_replayer_next crc d (rp\<lparr>vr_current := Some r'\<rparr>)"
    using assms by (subst v2_replayer_next.simps) (simp add: not_le)
  then show ?thesis
    using False by (simp add: v2_all_cong [of crc d rp "rp\<lparr>vr_current := Some r'\<rparr>"])
qed

lemma v2_all_end:
  assumes "vr_current rp = Some r" "fst (v2_next_record crc d r) \<in> {AwaitMore, EndOfSegment}"
  shows "v2_replay_all crc d rp = v2_replay_all crc d (rp\<lparr>vr_current := None\<rparr>)"
  using assms by (intro v2_all_cong) (subst v2_replayer_next.simps, auto split: prod.splits)

text \<open>A segment on which a reader opens and finds the records.\<close>

definition v2_readable :: "(bytes \<Rightarrow> u32) \<Rightarrow> mdisk \<Rightarrow> u64 \<times> wal_record list \<Rightarrow> bool" where
  "v2_readable crc d s \<longleftrightarrow> (\<exists>r. v2_reader_open (seg_name (fst s)) d = Inr r
     \<and> v2_holds crc (mr_size r) (snd s) (mmap_of d (seg_name (fst s))))"

lemma v2_all_reader:
  assumes "v2_holds crc (mr_size r) rs (mmap_of d (mr_name r))" "mr_pos r = v2_pos rs k" "k \<le> length rs" "vr_current rp = Some r"
  shows "v2_replay_all crc d rp = map Inr (filter (\<lambda>x. vr_floor rp \<le> r_cursor x) (drop k rs))
    @ v2_replay_all crc d (rp\<lparr>vr_current := None\<rparr>)"
  using assms
proof (induction "length rs - k" arbitrary: r k rp)
  case 0
  then have k: "k = length rs"
    by simp
  then have "fst (v2_next_record crc d r) \<in> {AwaitMore, EndOfSegment}"
    using 0(2,3) by (simp add: v2_holds_def v2_next_record_def)
  then show ?case
    using k v2_all_end [OF 0(5)] by simp
next
  case (Suc n)
  then have k: "k < length rs"
    by simp
  let ?r = "r\<lparr>mr_pos := v2_pos rs (Suc k)\<rparr>"
  have "v2_next_record crc d r = (ReadRecord (rs ! k), ?r)"
    using Suc.prems k by (simp add: v2_holds_def v2_next_record_def)
  note step = v2_all_record [OF Suc.prems(4) this]
  have "v2_replay_all crc d (rp\<lparr>vr_current := Some ?r\<rparr>) =
      map Inr (filter (\<lambda>x. vr_floor (rp\<lparr>vr_current := Some ?r\<rparr>) \<le> r_cursor x) (drop (Suc k) rs))
      @ v2_replay_all crc d ((rp\<lparr>vr_current := Some ?r\<rparr>)\<lparr>vr_current := None\<rparr>)"
    using Suc.hyps(2) Suc.prems k by (intro Suc.hyps(1)) simp_all
  moreover have "drop k rs = rs ! k # drop (Suc k) rs"
    using k by (simp add: Cons_nth_drop_Suc)
  ultimately show ?case
    using step by simp
qed

lemma v2_all_segments:
  assumes "\<forall>s \<in> set segs. v2_readable crc d s" "vr_current rp = None" "vr_segments rp = map (\<lambda>s. seg_name (fst s)) segs"
  shows "v2_replay_all crc d rp = map Inr (filter (\<lambda>x. vr_floor rp \<le> r_cursor x) (log_of segs))"
  using assms
proof (induction segs arbitrary: rp)
  case Nil
  then show ?case
    by (simp add: v2_all_done log_of_def)
next
  case (Cons s segs)
  obtain r where r: "v2_reader_open (seg_name (fst s)) d = Inr r" "v2_holds crc (mr_size r) (snd s) (mmap_of d (seg_name (fst s)))"
    using Cons.prems(1) by (auto simp: v2_readable_def)
  have pos: "mr_pos r = v2_pos (snd s) 0" "mr_name r = seg_name (fst s)"
    using r(1) by (auto simp: v2_reader_open_def v2_pos_def Let_def SEGMENT_HEADER_LEN_def split: option.splits if_splits)
  let ?rp = "rp\<lparr>vr_segments := map (\<lambda>s. seg_name (fst s)) segs, vr_current := Some r\<rparr>"
  have "v2_replay_all crc d rp = v2_replay_all crc d ?rp"
    using Cons.prems(2,3) by (intro v2_all_open [OF _ _ r(1)]) simp_all
  also have "\<dots> = map Inr (filter (\<lambda>x. vr_floor rp \<le> r_cursor x) (snd s)) @ v2_replay_all crc d (?rp\<lparr>vr_current := None\<rparr>)"
    using v2_all_reader [of crc r "snd s" d 0 ?rp] r(2) pos by simp
  also have "v2_replay_all crc d (?rp\<lparr>vr_current := None\<rparr>) = map Inr (filter (\<lambda>x. vr_floor rp \<le> r_cursor x) (log_of segs))"
    using Cons.IH [of "?rp\<lparr>vr_current := None\<rparr>"] Cons.prems(1) by simp
  finally show ?case
    by (simp add: log_of_def)
qed

text \<open>The choice of the segments is the one of the other log.\<close>

lemma v2_index_read_from:
  "v2_index_read_from c segs = (case index_read_from c segs of
      Inl _ \<Rightarrow> Inl (V2CursorTooOld c (the (oldest_cursor segs))) | Inr rp \<Rightarrow> Inr (v2_replayer_new (rp_segments rp) (rp_floor rp)))"
  by (simp add: v2_index_read_from_def index_read_from_def replayer_new_def Let_def split: option.splits)

lemma v2_read_chain:
  assumes "chain n segs" "segs \<noteq> []" "\<forall>s \<in> set segs. v2_readable crc d s"
  shows "case v2_index_read_from c (index_of segs) of
      Inl e \<Rightarrow> c < fst (hd segs) \<and> e = V2CursorTooOld c (fst (hd segs))
    | Inr rp \<Rightarrow> fst (hd segs) \<le> c \<and> v2_replay_all crc d rp = map Inr (filter (\<lambda>r. c \<le> r_cursor r) (log_of segs))"
proof (cases "c < fst (hd segs)")
  case True
  then have "v2_index_read_from c (index_of segs) = Inl (V2CursorTooOld c (fst (hd segs)))"
    using assms(2) by (cases segs) (auto simp: v2_index_read_from_def oldest_cursor_def index_of_def)
  then show ?thesis
    using True by simp
next
  case False
  then have hd: "fst (hd segs) \<le> c"
    by simp
  from assms(1,2) hd obtain pre suf where S: "segs = pre @ suf" "\<forall>r \<in> set (log_of pre). unat (r_cursor r) < unat c"
    "index_read_from c (index_of segs) = Inr (replayer_new (map snd (index_of suf)) c)"
    by (rule index_read_from_spec)
  have "v2_replay_all crc d (v2_replayer_new (map snd (index_of suf)) c) = map Inr (filter (\<lambda>x. c \<le> r_cursor x) (log_of suf))"
    using v2_all_segments [of suf crc d "v2_replayer_new (map snd (index_of suf)) c"] assms(3) S(1)
    by (simp add: v2_replayer_new_def index_of_def comp_def)
  moreover have "filter (\<lambda>x. c \<le> r_cursor x) (log_of pre) = []"
    using S(2) unfolding filter_empty_conv word_le_nat_alt by (simp add: not_le)
  then have "filter (\<lambda>x. c \<le> r_cursor x) (log_of suf) = filter (\<lambda>x. c \<le> r_cursor x) (log_of segs)"
    by (simp add: S(1) log_of_def)
  ultimately show ?thesis
    using S(3) hd by (simp add: v2_index_read_from replayer_new_def)
qed

end
