(* ===== verification/V2_Crash.thy ===== *)
theory V2_Crash
  imports V2_Reading
begin

text \<open>
  What a crash may leave of the mapped segments of the lock-free log, and which segments a reader
  still reads afterwards.
\<close>

subsection \<open>Crashes\<close>

text \<open>What a crash leaves of a file: each aligned word of eight bytes as after some prefix of the stores
  made since the last sync, each word for itself. The directory keeps its entries.\<close>

definition torn_file :: "mfile \<Rightarrow> bytes \<Rightarrow> bool" where
  "torn_file f c \<longleftrightarrow> length c = length (mf_base f) \<and> (\<forall>i. \<exists>n \<le> length (mf_stores f).
     sub c (8 * i) 8 = sub (apply_stores (mf_base f) (take n (mf_stores f))) (8 * i) 8)"

definition v2_crashed :: "mdisk \<Rightarrow> mdisk \<Rightarrow> bool" where
  "v2_crashed d d' \<longleftrightarrow> md_up d' \<and> (\<forall>name. case mlookup d name of
      None \<Rightarrow> mlookup d' name = None
    | Some f \<Rightarrow> \<exists>c. torn_file f c \<and> mlookup d' name = Some \<lparr>mf_base = c, mf_stores = [], mf_synced = True\<rparr>)"

lemma sub_words:
  assumes "\<And>i. a \<le> i \<Longrightarrow> i < a + n \<Longrightarrow> sub c (8 * i) 8 = sub b (8 * i) 8"
  shows "sub c (8 * a) (8 * n) = sub b (8 * a) (8 * n)"
  using assms
proof (induction n)
  case (Suc n)
  have "sub c (8 * a) (8 * n + 8) = sub b (8 * a) (8 * n + 8)"
    unfolding sub_split using Suc.IH Suc.prems [of "a + n"] Suc.prems by (simp add: algebra_simps)
  then show ?case
    by (simp add: add.commute)
qed (simp add: sub_def)

lemma sub_word_half: "sub c a 8 = sub b a 8 \<Longrightarrow> rd32 c a = rd32 b a"
  unfolding rd32_def by (metis add.commute add_0 sub_sub le_numeral_extra(3) le_add2 numeral_Bit0)

lemma v2_len_words: "list_all record_ok rs \<Longrightarrow> v2_len rs mod 8 = 0"
  by (induction rs) (simp_all add: mod_add_eq [symmetric] v2_padded_bounds(4))

text \<open>A file whose words are the ones of a synced segment, the closing marker apart.\<close>

lemma v2_settled_holds:
  assumes "v2_image crc first cap rs b" "length c = cap"
    "\<And>i. i \<noteq> 3 \<Longrightarrow> 8 * i \<noteq> 32 + v2_len rs \<Longrightarrow> sub c (8 * i) 8 = sub b (8 * i) 8"
    "rd64 c 24 = of_nat (32 + v2_len rs) \<or> rd64 c 24 = of_nat (32 + v2_len rs + 4) \<and> 32 + v2_len rs + 4 \<le> cap"
    "32 + v2_len rs + 4 \<le> cap \<Longrightarrow> rd32 c (32 + v2_len rs) \<in> {0, SKIP_TO_END_SENTINEL}"
  shows "v2_holds crc cap rs c" "rd64 c 0 = SEGMENT_MAGIC" "rd32 c 8 = SEGMENT_VERSION_V2" "rd64 c 16 = first"
proof -
  have I: "length b = cap" "cap < 2 ^ 63" "list_all record_ok rs" "32 + v2_len rs \<le> cap"
    "drop 32 b = v2_log crc rs @ replicate (cap - 32 - v2_len rs) 0" "rd64 b 0 = SEGMENT_MAGIC" "rd32 b 8 = SEGMENT_VERSION_V2"
    "rd64 b 16 = first"
    using assms(1) by (simp_all add: v2_image_def)
  show "rd64 c 0 = SEGMENT_MAGIC" "rd64 c 16 = first"
    using I(6,8) assms(3) [of 0] assms(3) [of 2] by (simp_all add: rd64_def)
  show "rd32 c 8 = SEGMENT_VERSION_V2"
    using I(7) assms(3) [of 1] sub_word_half [of c 8 b] by simp
  obtain n where n: "v2_len rs = 8 * n"
    using v2_len_words [OF I(3)] by (metis mod_0_imp_dvd dvd_def)
  have "sub c (8 * 4) (8 * n) = sub b (8 * 4) (8 * n)"
    by (rule sub_words) (use assms(3) n in auto)
  then have s: "sub c 32 (v2_len rs) = v2_log crc rs"
    using I(5) length_v2_log [OF I(3), of crc] n by (simp add: sub_def)
  have tail: "of_nat (32 + v2_len rs) \<le> rd64 c TAIL_OFFSET"
    using assms(4) I(2) of_nat_less_tail [of "32 + v2_len rs" "32 + v2_len rs + 4"] by (auto simp: TAIL_OFFSET_def)
  have "fst (v2_next_at crc (\<lambda>_. c) 0 r) \<in> {AwaitMore, EndOfSegment}" if "mr_size r = cap" "mr_pos r = v2_pos rs (length rs)" for r
  proof -
    have p: "mr_pos r = 32 + v2_len rs"
      using that(2) by (simp add: v2_pos_def)
    show ?thesis
    proof (cases "rd64 c 24 = of_nat (32 + v2_len rs)")
      case True
      then show ?thesis
        using p by (simp add: v2_next_at_def Let_def TAIL_OFFSET_def)
    next
      case False
      then have room: "32 + v2_len rs + 4 \<le> cap"
        using assms(4) by simp
      then have "rd32 (c @ [0, 0, 0]) (32 + v2_len rs) \<in> {0, SKIP_TO_END_SENTINEL}"
        using assms(2,5) by (simp add: rd32_def sub_append_left)
      then show ?thesis
        using p by (auto simp: v2_next_at_def Let_def)
    qed
  qed
  then show "v2_holds crc cap rs c"
    using v2_prefix_reads [OF assms(2) I(2-4) s tail] by (auto simp: v2_holds_def)
qed

lemma torn_nothing: "torn_file f c \<Longrightarrow> mf_stores f = [] \<Longrightarrow> c = mf_base f"
proof -
  assume a: "torn_file f c" "mf_stores f = []"
  then have w: "sub c (8 * i) 8 = sub (mf_base f) (8 * i) 8" for i
    by (simp add: torn_file_def apply_stores_def)
  have "sub c (8 * 0) (8 * length c) = sub (mf_base f) (8 * 0) (8 * length c)"
    by (rule sub_words) (rule w)
  then show "c = mf_base f"
    using a(1) by (simp add: torn_file_def sub_def)
qed

lemma torn_closed:
  assumes "v2_image crc first cap rs (mf_base f)" "32 + v2_len rs + 4 \<le> cap" "mf_stores f = v2_skip_stores rs" "torn_file f c"
  shows "v2_holds crc cap rs c" "length c = cap" "rd64 c 0 = SEGMENT_MAGIC" "rd32 c 8 = SEGMENT_VERSION_V2"
proof -
  let ?b = "mf_base f" and ?p = "32 + v2_len rs"
  let ?m1 = "poke ?b 24 (u64_le (of_nat ?p + 4))"
  let ?m2 = "poke ?m1 ?p (u32_le SKIP_TO_END_SENTINEL)"
  have I: "length ?b = cap" "list_all record_ok rs" "drop 32 ?b = v2_log crc rs @ replicate (cap - 32 - v2_len rs) 0"
    "rd64 ?b 24 = of_nat ?p"
    using assms(1) by (simp_all add: v2_image_def TAIL_OFFSET_def)
  show len: "length c = cap"
    using assms(4) I(1) by (simp add: torn_file_def)
  have word: "sub c (8 * i) 8 \<in> {sub ?b (8 * i) 8, sub ?m1 (8 * i) 8, sub ?m2 (8 * i) 8}" for i
  proof -
    have "length (v2_skip_stores rs) = 2"
      by (simp add: v2_skip_stores_def)
    then obtain n where "n \<le> 2" "sub c (8 * i) 8 = sub (apply_stores ?b (take n (v2_skip_stores rs))) (8 * i) 8"
      using assms(3,4) unfolding torn_file_def by metis
    moreover from this(1) have "n = 0 \<or> n = 1 \<or> n = 2"
      by auto
    ultimately show ?thesis
      by (auto simp: v2_skip_stores_def apply_stores_def apply_store_def TAIL_OFFSET_def numeral_2_eq_2)
  qed
  have room: "32 + v2_len rs + 4 \<le> length ?b"
    using assms(2) I(1) by simp
  have m1: "sub ?m1 (8 * i) 8 = sub ?b (8 * i) 8" if "i \<noteq> 3" for i
    using that room by (intro sub_poke_other) (auto simp: disjoint_ranges_def)
  have m2: "sub ?m2 (8 * i) 8 = sub ?m1 (8 * i) 8" if "8 * i \<noteq> ?p" for i
  proof (rule sub_poke_other)
    have "?p mod 8 = 0"
      using v2_len_words [OF I(2)] by presburger
    then have "8 * i + 8 \<le> ?p \<or> ?p + 8 \<le> 8 * i"
      using that by presburger
    then show "disjoint_ranges ?p (length (u32_le SKIP_TO_END_SENTINEL)) (8 * i) 8"
      by (auto simp: disjoint_ranges_def)
  qed (use room in simp)
  have t1: "rd64 ?m1 24 = of_nat (?p + 4)"
    using room by (simp add: rd64_def sub_poke_same)
  have t2: "rd64 ?m2 24 = of_nat (?p + 4)"
    using room by (simp add: rd64_def sub_poke_same sub_poke_other disjoint_ranges_def)
  have tail: "rd64 c 24 \<in> {of_nat ?p, of_nat (?p + 4)}"
    using word [of 3] I(4) t1 t2 unfolding rd64_def by auto
  have z: "rd32 ?b ?p = 0"
  proof -
    have "sub ?b ?p 4 = [0, 0, 0, 0]"
    proof -
      have "drop ?p ?b = replicate (cap - 32 - v2_len rs) 0"
        using arg_cong [OF I(3), of "drop (v2_len rs)"] length_v2_log [OF I(2), of crc] by (simp add: add.commute)
      then show ?thesis
        using assms(2) by (simp add: sub_def min_def numeral_eq_Suc)
    qed
    then show ?thesis
      by (simp add: rd32_def le_u32_def)
  qed
  have q: "rd32 ?m2 ?p = SKIP_TO_END_SENTINEL"
    using room by (simp add: rd32_def sub_poke_same)
  define i where "i = ?p div 8"
  then have i: "?p = 8 * i"
    using v2_len_words [OF I(2)] by presburger
  have "i \<noteq> 3"
    using i by auto
  then have "sub c ?p 8 \<in> {sub ?b ?p 8, sub ?m2 ?p 8}"
    using word [of i] m1 [of i] i by auto
  then have "rd32 c ?p = rd32 ?b ?p \<or> rd32 c ?p = rd32 ?m2 ?p"
    using sub_word_half by blast
  then have mark: "rd32 c ?p \<in> {0, SKIP_TO_END_SENTINEL}"
    using q z by auto
  have words: "sub c (8 * i) 8 = sub ?b (8 * i) 8" if "i \<noteq> 3" "8 * i \<noteq> ?p" for i
    using word [of i] m1 [OF that(1)] m2 [OF that(2)] by auto
  show "v2_holds crc cap rs c" "rd64 c 0 = SEGMENT_MAGIC" "rd32 c 8 = SEGMENT_VERSION_V2"
    using v2_settled_holds [OF assms(1) len words _ mark] tail assms(2) by auto
qed


subsection \<open>Readable segments\<close>

lemma v2_readable_file:
  assumes "mlookup d (seg_name (fst s)) = Some f" "mf_content f = c" "length c = cap" "32 \<le> cap" "rd64 c 0 = SEGMENT_MAGIC"
    "rd32 c 8 = SEGMENT_VERSION_V2" "v2_holds crc cap (snd s) c"
  shows "v2_readable crc d s"
proof -
  have "v2_reader_open (seg_name (fst s)) d =
      Inr \<lparr>mr_name = seg_name (fst s), mr_size = cap, mr_first = rd64 c 16, mr_pos = SEGMENT_HEADER_LEN\<rparr>"
    using assms by (simp add: v2_reader_open_def Let_def SEGMENT_HEADER_LEN_def SEGMENT_VERSION_V2_def)
  then show ?thesis
    using assms by (simp add: v2_readable_def mmap_of_file)
qed

lemma v2_image_readable:
  assumes "mlookup d (seg_name (fst s)) = Some f" "v2_image crc (fst s) cap (snd s) (mf_content f)"
  shows "v2_readable crc d s"
  using assms(2) by (intro v2_readable_file [OF assms(1) refl _ _ _ _ v2_image_holds [OF assms(2)]]) (auto simp: v2_image_def)

lemma v2_closed_readable: "v2_closed_seg crc cap kc d s \<Longrightarrow> v2_readable crc d s"
proof -
  assume "v2_closed_seg crc cap kc d s"
  then obtain f m where f: "mlookup d (seg_name (fst s)) = Some f" "v2_image crc (fst s) cap (snd s) m"
    "mf_content f = (if 32 + v2_len (snd s) + 4 \<le> cap then apply_stores m (v2_skip_stores (snd s)) else m)"
    by (auto simp: v2_closed_seg_def)
  show ?thesis
  proof (cases "32 + v2_len (snd s) + 4 \<le> cap")
    case True
    then show ?thesis
      using v2_closed_holds [OF f(2) True] f by (intro v2_readable_file [OF f(1) _ _ _ _ _ v2_closed_holds(1) [OF f(2) True]]) simp_all
  next
    case False
    then show ?thesis
      using f by (intro v2_image_readable [OF f(1)]) simp
  qed
qed

lemma v2_active_readable: "v2_active_seg crc cap ka d s \<Longrightarrow> v2_readable crc d s"
  by (auto simp: v2_active_seg_def intro: v2_image_readable)

lemma v2_crashed_file:
  assumes "v2_crashed d d'" "mlookup d n = Some f"
  obtains c where "torn_file f c" "mlookup d' n = Some \<lparr>mf_base = c, mf_stores = [], mf_synced = True\<rparr>"
  using assms by (auto simp: v2_crashed_def dest!: spec [of _ n] split: option.splits)

lemma v2_crashed_closed:
  assumes "v2_closed_seg crc cap True d s" "v2_crashed d d'"
  shows "v2_readable crc d' s"
proof -
  obtain f m where f: "mlookup d (seg_name (fst s)) = Some f"
    "mf_content f = (if 32 + v2_len (snd s) + 4 \<le> cap then apply_stores m (v2_skip_stores (snd s)) else m)"
    "v2_image crc (fst s) cap (snd s) (mf_base f)" "mf_stores f \<in> {[], v2_skip_stores (snd s)}" "v2_image crc (fst s) cap (snd s) m"
    using assms(1) by (auto simp: v2_closed_seg_def)
  obtain c where c: "torn_file f c" "mlookup d' (seg_name (fst s)) = Some \<lparr>mf_base = c, mf_stores = [], mf_synced = True\<rparr>"
    by (rule v2_crashed_file [OF assms(2) f(1)])
  show ?thesis
  proof (cases "mf_stores f = []")
    case True
    then show ?thesis
      using torn_nothing [OF c(1)] f(3) by (intro v2_image_readable [OF c(2)]) (simp add: flushed_content)
  next
    case False
    then have st: "mf_stores f = v2_skip_stores (snd s)"
      using f(4) by simp
    have "32 + v2_len (snd s) + 4 \<le> cap"
    proof (rule ccontr)
      assume no: "\<not> 32 + v2_len (snd s) + 4 \<le> cap"
      then have "mf_content f = m"
        using f(2) by simp
      then have "rd64 (mf_content f) TAIL_OFFSET = of_nat (32 + v2_len (snd s))"
        using f(5) by (simp add: v2_image_def)
      moreover have "rd64 (mf_content f) TAIL_OFFSET = of_nat (32 + v2_len (snd s) + 4)"
      proof -
        have l: "length (mf_base f) = cap" "32 + v2_len (snd s) \<le> cap"
          using f(3) by (simp_all add: v2_image_def)
        let ?m1 = "poke (mf_base f) 24 (u64_le (of_nat (32 + v2_len (snd s)) + 4))"
        have "take (32 + v2_len (snd s)) (poke ?m1 (32 + v2_len (snd s)) xs) = take (32 + v2_len (snd s)) ?m1" for xs
          using l by (simp add: poke_def)
        then have "sub (poke ?m1 (32 + v2_len (snd s)) xs) 24 8 = sub ?m1 24 8" for xs
          using sub_take [of 24 8 "32 + v2_len (snd s)" "poke ?m1 (32 + v2_len (snd s)) xs"]
            sub_take [of 24 8 "32 + v2_len (snd s)" ?m1] by simp
        then show ?thesis
          using l by (simp add: mf_content_def st v2_skip_stores_def apply_stores_def apply_store_def TAIL_OFFSET_def rd64_def
              sub_poke_same)
      qed
      moreover have "(of_nat (32 + v2_len (snd s)) :: u64) \<noteq> of_nat (32 + v2_len (snd s) + 4)"
        by simp
      ultimately show False
        by simp
    qed
    from torn_closed [OF f(3) this st c(1)] this show ?thesis
      by (intro v2_readable_file [OF c(2)]) (simp_all add: flushed_content)
  qed
qed

lemma v2_crashed_active:
  assumes "v2_active_seg crc cap True d s" "snd s \<noteq> []" "v2_crashed d d'"
  shows "v2_readable crc d' s"
proof -
  obtain f where f: "mlookup d (seg_name (fst s)) = Some f" "v2_image crc (fst s) cap (snd s) (mf_base f)" "mf_stores f = []"
    using assms(1,2) by (auto simp: v2_active_seg_def)
  obtain c where c: "torn_file f c" "mlookup d' (seg_name (fst s)) = Some \<lparr>mf_base = c, mf_stores = [], mf_synced = True\<rparr>"
    by (rule v2_crashed_file [OF assms(3) f(1)])
  show ?thesis
    using torn_nothing [OF c(1) f(3)] f(2) by (intro v2_image_readable [OF c(2)]) (simp add: flushed_content)
qed

subsection \<open>The directory\<close>

lemma map_of_canonical:
  assumes "\<forall>(k, v) \<in> set xs. v = g k" "\<forall>(k, v) \<in> set ys. v = g k" "fst ` set xs = fst ` set ys"
  shows "map_of xs = map_of ys"
proof
  fix k
  show "map_of xs k = map_of ys k"
  proof (cases "k \<in> fst ` set xs")
    case True
    then obtain v v' where "map_of xs k = Some v" "map_of ys k = Some v'"
      using assms(3) by (metis map_of_eq_None_iff not_None_eq)
    then show ?thesis
      using map_of_SomeD [of xs k v] map_of_SomeD [of ys k v'] assms(1,2) by fastforce
  next
    case False
    then show ?thesis
      using assms(3) by (metis map_of_eq_None_iff)
  qed
qed

lemma index_names_canonical:
  assumes "well_numbered segs" "\<forall>n \<in> set names. seg_key n \<noteq> None \<longrightarrow> (\<exists>s \<in> set segs. n = seg_name (fst s))"
    "\<forall>s \<in> set segs. seg_name (fst s) \<in> set names"
  shows "index_names names [] = index_of segs"
proof -
  let ?kvs = "keyed names"
  have srt: "sorted_keys (index_of segs)"
    using assms(1) well_numbered_sorted by simp
  have canon: "v = seg_name k \<and> k \<in> fst ` set segs" if "(k, v) \<in> set ?kvs" for k v
  proof -
    have v: "v \<in> set names" "seg_key v = Some k"
      using that by (simp_all add: keyed_set)
    then obtain s where "s \<in> set segs" "v = seg_name (fst s)"
      using assms(2) by fastforce
    then show ?thesis
      using v(2) seg_key_name [of "fst s"] by auto
  qed
  have "map_of (rev ?kvs) = map_of (index_of segs)"
  proof (rule map_of_canonical [where g = seg_name])
    show "fst ` set (rev ?kvs) = fst ` set (index_of segs)"
    proof
      show "fst ` set (rev ?kvs) \<subseteq> fst ` set (index_of segs)"
        using canon by (force simp: index_of_def)
      show "fst ` set (index_of segs) \<subseteq> fst ` set (rev ?kvs)"
      proof
        fix k assume "k \<in> fst ` set (index_of segs)"
        then obtain s where "s \<in> set segs" "k = fst s"
          by (auto simp: index_of_def)
        then have "(k, seg_name k) \<in> set ?kvs"
          using assms(3) seg_key_name [of k] by (simp add: keyed_set)
        then show "k \<in> fst ` set (rev ?kvs)"
          by force
      qed
    qed
  qed (use canon in \<open>auto simp: index_of_def\<close>)
  then show ?thesis
    using btree.entries_unique [OF btree.insert_all(1) srt] btree.insert_all(2) [of "[]" ?kvs]
    by (simp add: index_names_fold)
qed

lemma names_lookup: "n \<in> set (map fst (md_files d)) \<longleftrightarrow> mlookup d n \<noteq> None"
  by (metis list.set_map map_of_eq_None_iff)

text \<open>A directory with the segments, each readable.\<close>

definition v2_files :: "(bytes \<Rightarrow> u32) \<Rightarrow> mdisk \<Rightarrow> segments \<Rightarrow> bool" where
  "v2_files crc d segs \<longleftrightarrow> md_up d \<and> well_numbered segs \<and> v2_no_strays d segs \<and> (\<forall>s \<in> set segs. v2_readable crc d s)"

lemma v2_readable_lookup: "v2_readable crc d s \<Longrightarrow> mlookup d (seg_name (fst s)) \<noteq> None"
  by (auto simp: v2_readable_def v2_reader_open_def split: option.splits)

lemma v2_files_index:
  assumes "v2_files crc d segs"
  shows "index_names (map fst (md_files d)) [] = index_of segs" "v2_dir_reader_open (Some d) = index_of segs"
proof -
  show "index_names (map fst (md_files d)) [] = index_of segs"
    using assms v2_readable_lookup names_lookup [of _ d] by (intro index_names_canonical) (auto simp: v2_files_def v2_no_strays_def)
  then show "v2_dir_reader_open (Some d) = index_of segs"
    by (simp add: v2_dir_reader_open_def)
qed

lemma v2_rep_files:
  assumes "v2_rep crc kc ka d w segs"
  shows "v2_files crc d segs"
proof -
  obtain ss s f where R: "segs = ss @ [s]" "v2_dir d w (ss @ [s])" "mlookup d (seg_name (fst s)) = Some f"
    "v2_image crc (fst s) (v2_cap w) (snd s) (mf_content f)" "\<forall>x \<in> set ss. v2_closed_seg crc (v2_cap w) kc d x"
    using assms by (rule v2_repE)
  then show ?thesis
    using v2_image_readable [OF R(3,4)] v2_closed_readable by (auto simp: v2_files_def v2_dir_def)
qed

lemma v2_crashed_files:
  assumes "v2_rep crc True True d w segs" "snd (last segs) \<noteq> []" "v2_crashed d d'"
  shows "v2_files crc d' segs"
proof -
  have "segs \<noteq> []" "v2_active_seg crc (v2_cap w) True d (last segs)" "\<forall>s \<in> set (butlast segs). v2_closed_seg crc (v2_cap w) True d s"
    using assms(1) by (simp_all add: v2_rep_def)
  moreover from this(1) have "set segs = set (butlast segs) \<union> {last segs}"
    by (cases segs rule: rev_cases) auto
  ultimately have r: "\<forall>s \<in> set segs. v2_readable crc d' s"
    using v2_crashed_active [OF _ assms(2,3)] v2_crashed_closed [OF _ assms(3)] by blast
  have dom: "mlookup d' n = None \<longleftrightarrow> mlookup d n = None" for n
    using assms(3) by (auto simp: v2_crashed_def dest!: spec [of _ n] split: option.splits)
  have D: "v2_dir d w segs"
    using assms(1) by (simp add: v2_rep_def)
  then show ?thesis
    using r dom assms(3) by (simp add: v2_files_def v2_dir_def v2_no_strays_def v2_crashed_def)
qed

end
