(* ===== verification/V2_Theorems.thy ===== *)
theory V2_Theorems
  imports V2_Crash
begin

text \<open>
  What the lock-free log promises over a run of appends to a fresh directory: the records are read
  back, and under the Each policy they survive a crash.
\<close>

subsection \<open>Runs of appends\<close>

fun v2_append_all :: "(bytes \<Rightarrow> u32) \<Rightarrow> wal_record list \<Rightarrow> v2_wal \<Rightarrow> mdisk \<Rightarrow> (v2_error + unit) list \<times> v2_wal \<times> mdisk" where
  "v2_append_all crc [] w d = ([], w, d)"
| "v2_append_all crc (r # rs) w d = (case v2_wal_append crc (r_cursor r) (r_ts r) (r_payload r) w d of
     (res, w1, d1) \<Rightarrow> (case v2_append_all crc rs w1 d1 of (ress, w2, d2) \<Rightarrow> (res # ress, w2, d2)))"

text \<open>A directory without a log, and records that an empty one of its segments can take.\<close>

definition v2_no_log :: "mdisk \<Rightarrow> bool" where
  "v2_no_log d \<longleftrightarrow> md_up d \<and> mlookup d ACTIVE_COORD_FILENAME = None \<and> (\<forall>n. mlookup d n \<noteq> None \<longrightarrow> seg_key n = None)"

definition v2_config_ok :: "wal_config \<Rightarrow> bool" where
  "v2_config_ok cfg \<longleftrightarrow> wc_enabled cfg \<and> 60 \<le> wc_segment_size_max cfg \<and> wc_segment_size_max cfg < 2 ^ 63"

definition v2_stream :: "wal_config \<Rightarrow> nat \<Rightarrow> wal_record list \<Rightarrow> bool" where
  "v2_stream cfg n rs \<longleftrightarrow> rs \<noteq> [] \<and> numbered n rs \<and> n + length rs < 2 ^ 64 \<and> list_all (\<lambda>r. 32 + v2_padded r \<le> wc_segment_size_max cfg) rs"

lemma v2_scan_none: "\<forall>n \<in> set names. seg_key n = None \<Longrightarrow> v2_scan_dir names d xs ys = (xs, ys)"
  by (induction names) simp_all

lemma v2_open_empty:
  assumes "v2_no_log d" "v2_config_ok cfg"
  obtains w d' where "v2_wal_open crc now cfg d = (Inr w, d')" "v2_fresh d' w" "v2_state crc kept d' w []" "v2_cfg w = cfg"
    "v2_pending w = 0" "\<And>n. seg_key n \<noteq> None \<Longrightarrow> mlookup d' n = None"
proof -
  have no: "md_up d" "mlookup d ACTIVE_COORD_FILENAME = None" "\<And>n. mlookup d n \<noteq> None \<Longrightarrow> seg_key n = None"
    using assms(1) by (simp_all add: v2_no_log_def)
  have scan: "v2_scan_dir (map fst (md_files d)) d [] [] = ([], [])"
    using no(3) names_lookup by (intro v2_scan_none) blast
  let ?d = "mput ACTIVE_COORD_FILENAME \<lparr>mf_base = replicate ACTIVE_COORD_LEN 0, mf_stores = [], mf_synced = False\<rparr> d"
  have oc: "open_or_create d = (Inr (), ?d)"
    using no by (simp add: open_or_create_def)
  let ?w = "\<lparr>v2_segments = [], v2_sizes = [], v2_wr = None, v2_cfg = cfg, v2_durable = 0, v2_pending = 0, v2_active_bytes = 0,
    v2_retained_bytes = 0, v2_cached_ts = now, v2_wall_base = now, v2_poisoned = False, v2_appends = 0, v2_append_bytes = 0, v2_flushes = 0\<rparr>"
  have none: "mlookup ?d n = None" if "seg_key n \<noteq> None" for n
  proof -
    have "n \<noteq> ACTIVE_COORD_FILENAME"
      using that by (auto simp: ACTIVE_COORD_FILENAME_def seg_key_def seg_stem_def Let_def)
    moreover have "mlookup d n = None"
      using no(3) [of n] that by blast
    ultimately show ?thesis
      by simp
  qed
  have fr: "v2_fresh ?d ?w"
  proof -
    have "v2_no_strays ?d []"
      using none unfolding v2_no_strays_def by metis
    then show ?thesis
      using no(1) assms(2)
      by (simp add: v2_fresh_def v2_dir_def active_ok_def index_of_def v2_cap_def v2_config_ok_def well_numbered_def mf_content_def apply_stores_def)
  qed
  show ?thesis
  proof (rule that [of ?w ?d])
    show "v2_wal_open crc now cfg d = (Inr ?w, ?d)"
      by (simp add: v2_wal_open_def scan oc v2_open_active_def)
    show "v2_state crc kept ?d ?w []"
      using fr assms(2) by (simp add: v2_state_def v2_config_ok_def)
  qed (use fr none in simp_all)
qed

lemma v2_log_step_facts:
  assumes "well_numbered (v2_step_append limit r segs)"
  shows "\<exists>zs. log_of segs @ [r] = zs @ log_of (v2_retain cap (v2_step_append limit r segs))"
    "a_next (v2_retain cap (v2_step_append limit r segs)) = (if segs = [] then Suc (unat (r_cursor r)) else Suc (a_next segs))"
proof -
  let ?s = "v2_step_append limit r segs"
  have l: "log_of ?s = log_of segs @ [r]" "?s \<noteq> []"
    by (cases segs rule: rev_cases; simp add: v2_step_append_def log_of_def)+
  have n: "a_next ?s = (if segs = [] then Suc (unat (r_cursor r)) else Suc (a_next segs))"
  proof (cases segs rule: rev_cases)
    case (snoc ss s)
    then show ?thesis
      by (cases ss) (auto simp: v2_step_append_def a_next_def log_of_def)
  qed (simp add: v2_step_append_def a_next_def log_of_def)
  note K = v2_retain_facts [OF assms l(2), of cap]
  obtain ps where "?s = ps @ v2_retain cap ?s"
    using K(4) by blast
  then have "log_of ?s = log_of ps @ log_of (v2_retain cap ?s)"
    by (metis concat_append log_of_def map_append)
  then show "\<exists>zs. log_of segs @ [r] = zs @ log_of (v2_retain cap ?s)"
    using l(1) by metis
  show "a_next (v2_retain cap ?s) = (if segs = [] then Suc (unat (r_cursor r)) else Suc (a_next segs))"
    using K(3) n by simp
qed


lemma v2_append_all_ok:
  assumes "v2_state crc kept d w segs" "v2_cfg w = cfg" "v2_config_ok cfg" "segs \<noteq> [] \<Longrightarrow> a_next segs = n"
    "numbered n rs" "n + length rs < 2 ^ 64" "list_all (\<lambda>r. 32 + v2_padded r \<le> wc_segment_size_max cfg) rs"
    "kept \<longrightarrow> wc_fsync_policy cfg = Each"
  obtains w' d' segs' zs where "v2_append_all crc rs w d = (replicate (length rs) (Inr ()), w', d')" "v2_state crc kept d' w' segs'"
    "segs' = fold (v2_log_step cfg) rs segs" "v2_cfg w' = cfg" "log_of segs @ rs = zs @ log_of segs'"
    "rs \<noteq> [] \<Longrightarrow> segs' \<noteq> [] \<and> snd (last segs') \<noteq> [] \<and> a_next segs' = n + length rs \<and> v2_pending w' = of_nat (n + length rs)
      \<and> (wc_fsync_policy cfg = Each \<longrightarrow> v2_durable w' = of_nat (n + length rs))"
proof -
  have "\<exists>w' d' segs' zs. v2_append_all crc rs w d = (replicate (length rs) (Inr ()), w', d') \<and> v2_state crc kept d' w' segs'
    \<and> segs' = fold (v2_log_step cfg) rs segs \<and> v2_cfg w' = cfg \<and> log_of segs @ rs = zs @ log_of segs' \<and> (rs = [] \<longrightarrow> w' = w \<and> segs' = segs)
    \<and> (rs \<noteq> [] \<longrightarrow> segs' \<noteq> [] \<and> snd (last segs') \<noteq> [] \<and> a_next segs' = n + length rs \<and> v2_pending w' = of_nat (n + length rs)
      \<and> (wc_fsync_policy cfg = Each \<longrightarrow> v2_durable w' = of_nat (n + length rs)))"
    using assms
  proof (induction rs arbitrary: n w d segs)
    case Nil
    then show ?case
      by simp
  next
    case (Cons r rs)
    have r: "record_ok r" "unat (r_cursor r) = n" "numbered (n + 1) rs" "unat (r_cursor r) + 1 < 2 ^ 64"
      "32 + v2_padded r \<le> v2_cap w" "kept \<longrightarrow> wc_fsync_policy (v2_cfg w) = Each"
      using Cons.prems by (simp_all add: v2_cap_def)
    have nx: "segs \<noteq> [] \<Longrightarrow> unat (r_cursor r) = a_next segs"
      using Cons.prems(4) r(2) by simp
    from Cons.prems(1) r(1) nx r(4-6) obtain w1 d1 where A: "v2_wal_append crc (r_cursor r) (r_ts r) (r_payload r) w d = (Inr (), w1, d1)"
      "v2_state crc kept d1 w1 (v2_log_step (v2_cfg w) r segs)" "v2_pending w1 = r_cursor r + 1" "v2_cfg w1 = v2_cfg w"
      "v2_durable w1 = (if wc_fsync_policy (v2_cfg w) = Each then r_cursor r + 1 else v2_durable w)"
      "v2_log_step (v2_cfg w) r segs \<noteq> []" "r \<in> set (snd (last (v2_log_step (v2_cfg w) r segs)))"
      "well_numbered (v2_step_append (v2_cap w) r segs)"
      by (rule v2_append_ok)
    let ?segs = "v2_log_step (v2_cfg w) r segs"
    have L: "\<exists>zs. log_of segs @ [r] = zs @ log_of ?segs" "a_next ?segs = Suc n"
      using v2_log_step_facts [OF A(8), of "wc_retention_bytes (v2_cfg w)"] r(2) nx by (auto simp: v2_log_step_def v2_cap_def)
    then obtain zs where zs: "log_of segs @ [r] = zs @ log_of ?segs"
      by blast
    have ih: "v2_cfg w1 = cfg" "?segs \<noteq> [] \<Longrightarrow> a_next ?segs = n + 1" "n + 1 + length rs < 2 ^ 64"
      "list_all (\<lambda>r. 32 + v2_padded r \<le> wc_segment_size_max cfg) rs"
      using A(4) Cons.prems(2,6,7) L(2) by simp_all
    obtain w2 d2 segs2 zs2 where I: "v2_append_all crc rs w1 d1 = (replicate (length rs) (Inr ()), w2, d2)" "v2_state crc kept d2 w2 segs2"
      "segs2 = fold (v2_log_step cfg) rs ?segs" "v2_cfg w2 = cfg" "log_of ?segs @ rs = zs2 @ log_of segs2" "rs = [] \<longrightarrow> w2 = w1 \<and> segs2 = ?segs"
      "rs \<noteq> [] \<longrightarrow> segs2 \<noteq> [] \<and> snd (last segs2) \<noteq> [] \<and> a_next segs2 = n + 1 + length rs \<and> v2_pending w2 = of_nat (n + 1 + length rs)
      \<and> (wc_fsync_policy cfg = Each \<longrightarrow> v2_durable w2 = of_nat (n + 1 + length rs))"
      using Cons.IH [OF A(2) ih(1) Cons.prems(3) ih(2) r(3) ih(3,4) Cons.prems(8)] by blast
    have "log_of segs @ r # rs = (zs @ zs2) @ log_of segs2"
      using zs I(5) by (metis append.assoc append_Cons append_Nil)
    moreover have "r_cursor r + 1 = of_nat (n + 1)"
      by (simp flip: r(2))
    moreover have "snd (last ?segs) \<noteq> []"
      using A(7) by auto
    ultimately show ?case
      using A I L(2) Cons.prems(2)
      by (intro exI [of _ w2] exI [of _ d2] exI [of _ segs2] exI [of _ "zs @ zs2"]) (cases "rs = []"; simp add: algebra_simps)
  qed
  then show ?thesis
    using that by blast
qed


subsection \<open>Reading what was appended\<close>

text \<open>Reading from a cursor: an error before the oldest cursor \<open>k\<close>, otherwise the records from it on.\<close>

definition v2_reads :: "(bytes \<Rightarrow> u32) \<Rightarrow> wal_record list \<Rightarrow> u64 \<Rightarrow> mdisk \<Rightarrow> (u64 \<Rightarrow> v2_error + v2_replayer) \<Rightarrow> bool" where
  "v2_reads crc rs k d read_from \<longleftrightarrow> (\<forall>c. case read_from c of
      Inl e \<Rightarrow> c < k \<and> e = V2CursorTooOld c k
    | Inr rp \<Rightarrow> k \<le> c \<and> v2_replay_all crc d rp = map Inr (filter (\<lambda>r. c \<le> r_cursor r) rs))"

lemma v2_files_read:
  assumes "v2_files crc d segs" "segs \<noteq> []" "rs = zs @ log_of segs" "numbered n rs" "a_next segs = n + length rs"
  shows "v2_reads crc rs (fst (hd segs)) d (\<lambda>c. v2_index_read_from c (index_of segs))"
proof -
  have ch: "chain (unat (fst (hd segs))) segs"
    using assms(1,2) by (simp add: v2_files_def well_numbered_def)
  have zs: "numbered n zs" "unat (fst (hd segs)) = n + length zs"
    using assms(3-5) by (simp_all add: numbered_append a_next_def)
  have "filter (\<lambda>r. c \<le> r_cursor r) zs = []" if "fst (hd segs) \<le> c" for c
    using numbered_range [OF zs(1)] zs(2) that by (fastforce simp: filter_empty_conv word_le_nat_alt not_le)
  then have "filter (\<lambda>r. c \<le> r_cursor r) rs = filter (\<lambda>r. c \<le> r_cursor r) (log_of segs)" if "fst (hd segs) \<le> c" for c
    using that by (simp add: assms(3))
  moreover have "\<forall>s \<in> set segs. v2_readable crc d s"
    using assms(1) by (simp add: v2_files_def)
  ultimately show ?thesis
    using v2_read_chain [OF ch assms(2), of crc d] unfolding v2_reads_def by (fastforce split: sum.splits)
qed

text \<open>All that a run of appends over a fresh directory gives.\<close>

lemma v2_run:
  assumes "v2_no_log d" "v2_config_ok cfg" "v2_stream cfg n rs" "v2_wal_open crc now cfg d = (Inr w, d1)"
    "v2_append_all crc rs w d1 = (outs, w2, d2)" "kept \<longrightarrow> wc_fsync_policy cfg = Each"
  obtains segs zs where "outs = replicate (length rs) (Inr ())" "v2_rep crc kept kept d2 w2 segs" "rs = zs @ log_of segs"
    "segs \<noteq> []" "snd (last segs) \<noteq> []" "a_next segs = n + length rs" "v2_pending w2 = of_nat (n + length rs)" "v2_cfg w2 = cfg"
    "wc_fsync_policy cfg = Each \<longrightarrow> v2_durable w2 = of_nat (n + length rs)" "v2_oldest_cursor w2 = fst (hd segs)"
    "v2_segments w2 = index_of segs" "\<not> v2_poisoned w2" "segs = fold (v2_log_step cfg) rs []"
proof -
  obtain w0 d0 where O: "v2_wal_open crc now cfg d = (Inr w0, d0)" "v2_fresh d0 w0" "v2_state crc kept d0 w0 []" "v2_cfg w0 = cfg"
    by (rule v2_open_empty [OF assms(1,2)])
  have s: "rs \<noteq> []" "numbered n rs" "n + length rs < 2 ^ 64" "list_all (\<lambda>r. 32 + v2_padded r \<le> wc_segment_size_max cfg) rs"
    using assms(3) by (simp_all add: v2_stream_def)
  have o: "w0 = w" "d0 = d1"
    using O(1) assms(4) by simp_all
  obtain w3 d3 segs zs where R: "v2_append_all crc rs w0 d0 = (replicate (length rs) (Inr ()), w3, d3)"
    "v2_state crc kept d3 w3 segs" "segs = fold (v2_log_step cfg) rs []" "v2_cfg w3 = cfg" "log_of [] @ rs = zs @ log_of segs"
    "rs \<noteq> [] \<Longrightarrow> segs \<noteq> [] \<and> snd (last segs) \<noteq> [] \<and> a_next segs = n + length rs \<and> v2_pending w3 = of_nat (n + length rs)
      \<and> (wc_fsync_policy cfg = Each \<longrightarrow> v2_durable w3 = of_nat (n + length rs))"
    by (rule v2_append_all_ok [OF O(3,4) assms(2) _ s(2-4) assms(6)]) (simp, blast)
  have eq: "w3 = w2" "d3 = d2" "outs = replicate (length rs) (Inr ())"
    using R(1) assms(5) o by simp_all
  have ne: "segs \<noteq> []"
    using R(6) s(1) by simp
  then have rep: "v2_rep crc kept kept d2 w2 segs" "\<not> v2_poisoned w2"
    using R(2) eq by (simp_all add: v2_state_def)
  then have idx: "v2_segments w2 = index_of segs"
    by (simp add: v2_rep_def v2_dir_def)
  then have "v2_oldest_cursor w2 = fst (hd segs)"
    using ne by (cases segs) (simp_all add: v2_oldest_cursor_def oldest_cursor_def index_of_def)
  moreover have "rs = zs @ log_of segs"
    using R(5) by (simp add: log_of_def)
  ultimately show ?thesis
    using that [OF eq(3) rep(1) _ ne] R(6) [OF s(1)] R(3,4) eq(1) rep(2) idx by blast
qed

text \<open>C14: what is appended to a fresh lock-free log is read back. All appends succeed, the pending cursor
  counts them, and reading from a cursor fails with CursorTooOld exactly before the oldest cursor
  retained and otherwise yields the records from that cursor on, each once and in order; the read-only
  view of the directory has the same segments.\<close>

theorem v2_log_reads_back:
  assumes "v2_no_log d" "v2_config_ok cfg" "v2_stream cfg n rs" "v2_wal_open crc now cfg d = (Inr w, d1)"
    "v2_append_all crc rs w d1 = (outs, w2, d2)"
  shows "outs = replicate (length rs) (Inr ()) \<and> v2_pending w2 = of_nat (n + length rs)
    \<and> v2_reads crc rs (v2_oldest_cursor w2) d2 (\<lambda>c. v2_read_from c w2)
    \<and> v2_dir_reader_open (Some d2) = v2_segments w2"
proof -
  from assms obtain segs zs where R: "outs = replicate (length rs) (Inr ())" "v2_rep crc False False d2 w2 segs" "rs = zs @ log_of segs"
    "segs \<noteq> []" "snd (last segs) \<noteq> []" "a_next segs = n + length rs" "v2_pending w2 = of_nat (n + length rs)"
    "v2_oldest_cursor w2 = fst (hd segs)" "v2_segments w2 = index_of segs"
    by (rule v2_run [where kept = False]) simp
  note F = v2_rep_files [OF R(2)]
  have "numbered n rs"
    using assms(3) by (simp add: v2_stream_def)
  from v2_files_read [OF F R(4,3) this R(6)] show ?thesis
    using R v2_files_index(2) [OF F] by (simp add: v2_read_from_def)
qed


end
