(* ===== verification/V2_Lost.thy ===== *)
theory V2_Lost
  imports V2_Theorems
begin

text \<open>
  Durability of the lock-free log without the Each policy: a rotation leaves the old segment unsynced,
  and nothing syncs it afterwards.
\<close>

subsection \<open>What was never synced\<close>

text \<open>Segment files of which the device has nothing but zeros.\<close>

definition v2_blank :: "mdisk \<Rightarrow> bool" where
  "v2_blank d \<longleftrightarrow> (\<forall>n f. seg_key n \<noteq> None \<longrightarrow> mlookup d n = Some f \<longrightarrow> set (mf_base f) \<subseteq> {0})"

named_theorems v2_blank

lemma seg_key_active [simp]: "seg_key ACTIVE_COORD_FILENAME = None"
  by (simp add: ACTIVE_COORD_FILENAME_def seg_key_def seg_stem_def Let_def)

lemma blank_store [v2_blank]: "v2_blank d \<Longrightarrow> v2_blank (mstore n ss d)"
  unfolding v2_blank_def by (fastforce simp: mlookup_store split: if_splits)

lemma blank_remove [v2_blank]: "v2_blank d \<Longrightarrow> v2_blank (mremove n d)"
  unfolding v2_blank_def by (auto simp: mremove_def delete_conv' split: option.splits if_splits)

lemma blank_put: "v2_blank d \<Longrightarrow> set (mf_base f) \<subseteq> {0} \<Longrightarrow> v2_blank (mput n f d)"
  unfolding v2_blank_def mlookup_put by (metis option.inject)

lemma blank_create [v2_blank]: "v2_create n k c d = (res, d') \<Longrightarrow> v2_blank d \<Longrightarrow> v2_blank d'"
  by (auto simp: v2_create_def intro!: blank_put split: if_splits)

lemma blank_store_active [v2_blank]: "store_active k d = (res, d') \<Longrightarrow> v2_blank d \<Longrightarrow> v2_blank d'"
  by (auto simp: store_active_def Let_def intro!: v2_blank)

lemma blank_skip [v2_blank]: "v2_blank d \<Longrightarrow> v2_blank (snd (write_skip_to_end w d))"
  by (auto simp: write_skip_to_end_def Let_def intro!: v2_blank)

lemma blank_append [v2_blank]: "v2_append crc x c t p d = (res, d') \<Longrightarrow> v2_blank d \<Longrightarrow> v2_blank d'"
  by (auto simp: v2_append_def Let_def intro!: v2_blank split: if_splits)

lemma blank_rotate [v2_blank]: "v2_rotate x k c d = (res, d') \<Longrightarrow> v2_blank d \<Longrightarrow> v2_blank d'"
  by (auto simp: v2_rotate_def Let_def dest: v2_blank intro: v2_blank split: prod.splits sum.splits)

text \<open>Operations that keep the configuration and sync no segment.\<close>

definition v2_lazy :: "v2_wal \<Rightarrow> mdisk \<Rightarrow> v2_wal \<Rightarrow> mdisk \<Rightarrow> bool" where
  "v2_lazy w d w' d' \<longleftrightarrow> v2_cfg w' = v2_cfg w \<and> (v2_blank d \<longrightarrow> v2_blank d')"

lemma lazy_first: "v2_first_segment k w d = (res, w', d') \<Longrightarrow> v2_lazy w d w' d'"
  by (auto simp: v2_first_segment_def v2_lazy_def Let_def dest: v2_blank split: prod.splits sum.splits)

lemma lazy_rotate: "v2_rotate_locked k w d = (res, w', d') \<Longrightarrow> v2_lazy w d w' d'"
  by (cases "v2_wr w")
     (auto simp: v2_rotate_locked_def v2_lazy_def Let_def dest: v2_blank dest!: lazy_first split: prod.splits sum.splits)

lemma lazy_writer_for: "v2_writer_for k n w d = (res, w', d') \<Longrightarrow> v2_lazy w d w' d'"
  by (auto simp: v2_writer_for_def Let_def v2_lazy_def dest!: lazy_first lazy_rotate split: option.splits prod.splits sum.splits if_splits)

lemma lazy_retry: "v2_append_retry crc c t p x w d = (res, w', d') \<Longrightarrow> v2_lazy w d w' d'"
  by (auto simp: v2_append_retry_def v2_lazy_def dest: v2_blank dest!: lazy_rotate
      split: prod.splits sum.splits append_outcome.splits)

lemma lazy_drop: "v2_drop_segment k w d = (w', d') \<Longrightarrow> v2_lazy w d w' d'"
  by (auto simp: v2_drop_segment_def v2_lazy_def Let_def intro: v2_blank split: option.splits prod.splits)

lemma lazy_retention: "v2_enforce_retention w d = (w', d') \<Longrightarrow> v2_lazy w d w' d'"
proof (induction w d arbitrary: w' d' rule: v2_enforce_retention.induct)
  case (1 w d)
  show ?case
  proof (cases "v2_retained_bytes w + v2_active_bytes w \<le> wc_retention_bytes (v2_cfg w) \<or> v2_oldest_inactive w = None")
    case True
    then show ?thesis
      using 1(2) by (subst (asm) v2_enforce_retention.simps) (auto simp: v2_lazy_def split: if_splits option.splits)
  next
    case False
    then obtain k where k: "v2_oldest_inactive w = Some k" "\<not> v2_retained_bytes w + v2_active_bytes w \<le> wc_retention_bytes (v2_cfg w)"
      by auto
    obtain w1 d1 where s: "v2_drop_segment k w d = (w1, d1)"
      by fastforce
    then have "v2_enforce_retention w1 d1 = (w', d')"
      using 1(2) k by (subst (asm) v2_enforce_retention.simps) simp
    from 1(1) [OF k(2,1) s [symmetric] this] lazy_drop [OF s] show ?thesis
      by (simp add: v2_lazy_def)
  qed
qed

lemma lazy_after:
  assumes "v2_after_append k n x w d = (res, w', d')" "wc_fsync_policy (v2_cfg w) \<noteq> Each"
  shows "v2_lazy w d w' d'"
  using assms unfolding v2_after_append_def
  by (auto simp: Let_def v2_lazy_def dest!: lazy_retention split: prod.splits if_splits)

lemma lazy_append:
  assumes "v2_wal_append crc c t p w d = (res, w', d')" "wc_fsync_policy (v2_cfg w) \<noteq> Each"
  shows "v2_lazy w d w' d'"
  using assms unfolding v2_wal_append_def
  by (auto simp: v2_lazy_def dest!: lazy_writer_for lazy_retry lazy_after split: prod.splits sum.splits if_splits)

lemma lazy_all:
  assumes "v2_append_all crc rs w d = (ress, w', d')" "wc_fsync_policy (v2_cfg w) \<noteq> Each"
  shows "v2_lazy w d w' d'"
  using assms
proof (induction rs arbitrary: ress w d)
  case (Cons r rs)
  then show ?case
    by (auto simp: v2_lazy_def dest!: lazy_append split: prod.splits)
qed (simp add: v2_lazy_def)


subsection \<open>Rotation without a sync\<close>

text \<open>The crash that keeps of each file what its last sync wrote.\<close>

definition v2_lose :: "mdisk \<Rightarrow> mdisk" where
  "v2_lose d = d\<lparr>md_up := True, md_files := map (\<lambda>(n, f). (n, \<lparr>mf_base = mf_base f, mf_stores = [], mf_synced = True\<rparr>)) (md_files d)\<rparr>"

lemma v2_lose_lookup: "mlookup (v2_lose d) n = map_option (\<lambda>f. \<lparr>mf_base = mf_base f, mf_stores = [], mf_synced = True\<rparr>) (mlookup d n)"
  by (simp add: v2_lose_def map_of_map)

lemma v2_lose_crashed: "v2_crashed d (v2_lose d)"
proof -
  have "torn_file f (mf_base f)" for f
    by (auto simp: torn_file_def apply_stores_def intro: exI [of _ 0])
  then show ?thesis
    unfolding v2_crashed_def v2_lose_lookup by (auto simp: v2_lose_def split: option.splits)
qed

lemma v2_blank_unreadable:
  assumes "mlookup d n = Some f" "set (mf_base f) \<subseteq> {0}" "mf_stores f = []"
  shows "\<exists>e. v2_reader_open n d = Inl e"
proof (cases "length (mf_base f) < SEGMENT_HEADER_LEN")
  case True
  then show ?thesis
    using assms by (simp add: v2_reader_open_def Let_def mf_content_def apply_stores_def)
next
  case False
  then have "replicate (length (mf_base f)) 0 = mf_base f" "32 \<le> length (mf_base f)"
    using assms(2) by (auto simp: SEGMENT_HEADER_LEN_def intro: replicate_length_same)
  then have "sub (mf_base f) 0 8 = replicate 8 0"
  proof -
    have "sub (replicate k 0) 0 8 = replicate 8 (0 :: u8)" if "32 \<le> k" for k
      using that by (simp add: sub_def min_def)
    then show ?thesis
      using \<open>32 \<le> length (mf_base f)\<close> \<open>replicate (length (mf_base f)) 0 = mf_base f\<close> by metis
  qed
  moreover have "le_u64 (replicate 8 0) = 0"
    by (simp add: le_u64_def eval_nat_numeral)
  ultimately have "rd64 (mf_base f) 0 \<noteq> SEGMENT_MAGIC"
    by (simp add: rd64_def SEGMENT_MAGIC_def)
  then show ?thesis
    using assms False by (simp add: v2_reader_open_def Let_def mf_content_def apply_stores_def)
qed

lemma v2_all_bad:
  assumes "vr_current rp = None" "vr_segments rp = path # paths" "v2_reader_open path d = Inl e"
  shows "v2_replay_all crc d rp = Inl (V2Reader e) # v2_replay_all crc d (rp\<lparr>vr_segments := paths\<rparr>)"
  using assms by (subst v2_replay_all.simps, subst v2_replayer_next.simps) simp

text \<open>The records of the readable segments are all that is read.\<close>

lemma v2_all_some:
  assumes "\<forall>s \<in> set segs. v2_readable crc d s \<and> P (snd s) \<or> (\<exists>e. v2_reader_open (seg_name (fst s)) d = Inl e)"
    "vr_current rp = None" "vr_segments rp = map (\<lambda>s. seg_name (fst s)) segs" "Inr r \<in> set (v2_replay_all crc d rp)"
  shows "\<exists>rs. P rs \<and> r \<in> set rs"
  using assms
proof (induction segs arbitrary: rp)
  case Nil
  then show ?case
    by (simp add: v2_all_done)
next
  case (Cons s segs)
  consider "v2_readable crc d s" "P (snd s)" | e where "v2_reader_open (seg_name (fst s)) d = Inl e"
    using Cons.prems(1) by auto
  then show ?case
  proof cases
    case 1
    then obtain rd where rd: "v2_reader_open (seg_name (fst s)) d = Inr rd" "v2_holds crc (mr_size rd) (snd s) (mmap_of d (seg_name (fst s)))"
      by (auto simp: v2_readable_def)
    have pos: "mr_pos rd = v2_pos (snd s) 0" "mr_name rd = seg_name (fst s)"
      using rd(1) by (auto simp: v2_reader_open_def v2_pos_def Let_def SEGMENT_HEADER_LEN_def split: option.splits if_splits)
    let ?rp = "rp\<lparr>vr_segments := map (\<lambda>s. seg_name (fst s)) segs, vr_current := Some rd\<rparr>"
    have "v2_replay_all crc d rp = v2_replay_all crc d ?rp"
      using Cons.prems(2,3) by (intro v2_all_open [OF _ _ rd(1)]) simp_all
    also have "\<dots> = map Inr (filter (\<lambda>x. vr_floor rp \<le> r_cursor x) (snd s)) @ v2_replay_all crc d (?rp\<lparr>vr_current := None\<rparr>)"
      using v2_all_reader [of crc rd "snd s" d 0 ?rp] rd(2) pos by simp
    finally have "r \<in> set (snd s) \<or> Inr r \<in> set (v2_replay_all crc d (?rp\<lparr>vr_current := None\<rparr>))"
      using Cons.prems(4) by auto
    then show ?thesis
      using 1(2) Cons.IH [of "?rp\<lparr>vr_current := None\<rparr>"] Cons.prems(1) by auto
  next
    case 2
    then have "Inr r \<in> set (v2_replay_all crc d (rp\<lparr>vr_segments := map (\<lambda>s. seg_name (fst s)) segs\<rparr>))"
      using v2_all_bad [of rp "seg_name (fst s)" "map (\<lambda>s. seg_name (fst s)) segs" d e crc] Cons.prems(2-4) by simp
    then show ?thesis
      using Cons.IH [of "rp\<lparr>vr_segments := map (\<lambda>s. seg_name (fst s)) segs\<rparr>"] Cons.prems(1,2) by simp
  qed
qed

lemma v2_dir_index:
  assumes "well_numbered segs" "v2_no_strays d segs" "\<forall>s \<in> set segs. mlookup d (seg_name (fst s)) \<noteq> None"
  shows "v2_dir_reader_open (Some d) = index_of segs"
  using assms names_lookup [of _ d] unfolding v2_dir_reader_open_def option.case
  by (intro index_names_canonical) (auto simp: v2_no_strays_def)

lemma v2_lose_reads:
  assumes "v2_rep crc kc True d w (ss @ [l])" "snd l \<noteq> []"
    "\<forall>s \<in> set ss. \<forall>f. mlookup d (seg_name (fst s)) = Some f \<longrightarrow> set (mf_base f) \<subseteq> {0}"
  shows "v2_dir_reader_open (Some (v2_lose d)) = index_of (ss @ [l])"
    "v2_dir_read_from k (index_of (ss @ [l])) = Inr rp \<Longrightarrow> Inr r \<in> set (v2_replay_all crc (v2_lose d) rp) \<Longrightarrow> fst l \<le> r_cursor r"
proof -
  let ?d = "v2_lose d" and ?segs = "ss @ [l]"
  have D: "v2_dir d w ?segs" "\<forall>s \<in> set ss. v2_closed_seg crc (v2_cap w) kc d s" "v2_active_seg crc (v2_cap w) True d l"
    using assms(1) by (simp_all add: v2_rep_def)
  have wn: "well_numbered ?segs" "v2_no_strays d ?segs"
    using D(1) by (simp_all add: v2_dir_def)
  have present: "\<exists>f. mlookup d (seg_name (fst s)) = Some f" if "s \<in> set ?segs" for s
    using D(2,3) that by (auto simp: v2_closed_seg_def v2_active_seg_def)
  have bad: "\<exists>e. v2_reader_open (seg_name (fst s)) ?d = Inl e" if s: "s \<in> set ss" for s
  proof -
    obtain f where f: "mlookup d (seg_name (fst s)) = Some f"
      using present [of s] s by auto
    then show ?thesis
      using assms(3) s f
      by (intro v2_blank_unreadable [of ?d _ "\<lparr>mf_base = mf_base f, mf_stores = [], mf_synced = True\<rparr>"]) (simp_all add: v2_lose_lookup)
  qed
  have good: "v2_readable crc ?d l"
    using v2_crashed_active [OF D(3) assms(2) v2_lose_crashed] .
  show "v2_dir_reader_open (Some ?d) = index_of ?segs"
    using wn present by (intro v2_dir_index) (auto simp: v2_no_strays_def v2_lose_lookup)
  have ch: "chain (unat (fst (hd ?segs))) ?segs"
    using wn(1) by (simp add: well_numbered_def)
  show "fst l \<le> r_cursor r" if rp: "v2_dir_read_from k (index_of ?segs) = Inr rp" and mem: "Inr r \<in> set (v2_replay_all crc ?d rp)"
  proof -
    have hd: "fst (hd ?segs) \<le> k"
      using rp by (cases "k < fst (hd ?segs)"; cases ss)
        (auto simp: v2_dir_read_from_def v2_index_read_from_def oldest_cursor_def index_of_def)
    obtain pre suf where S: "?segs = pre @ suf" "index_read_from k (index_of ?segs) = Inr (replayer_new (map snd (index_of suf)) k)"
      using index_read_from_spec [OF ch _ hd] by (metis snoc_eq_iff_butlast)
    then have rp': "vr_current rp = None" "vr_segments rp = map (\<lambda>s. seg_name (fst s)) suf"
      using rp by (auto simp: v2_dir_read_from_def v2_index_read_from replayer_new_def v2_replayer_new_def index_of_def comp_def)
    have "\<forall>s \<in> set ?segs. v2_readable crc ?d s \<and> snd s = snd l \<or> (\<exists>e. v2_reader_open (seg_name (fst s)) ?d = Inl e)"
      using bad good by auto
    then have "\<forall>s \<in> set suf. v2_readable crc ?d s \<and> snd s = snd l \<or> (\<exists>e. v2_reader_open (seg_name (fst s)) ?d = Inl e)"
      unfolding S(1) by simp
    from v2_all_some [OF this rp' mem] have "r \<in> set (snd l)"
      by simp
    moreover have "numbered (unat (fst l)) (snd l)"
      using ch by (simp add: chain_snoc)
    ultimately show ?thesis
      using numbered_range by (metis word_le_nat_alt)
  qed
qed

text \<open>The first record of a log of more than one segment.\<close>

lemma v2_oldest_record:
  assumes "well_numbered segs" "1 < length segs"
  obtains r where "r \<in> set (log_of segs)" "r_cursor r = fst (hd segs)" "r_cursor r < fst (last segs)" "unat (fst (last segs)) \<le> a_next segs"
proof -
  obtain s ss l where s: "segs = (s # ss) @ [l]"
    using assms(2) by (cases segs; cases "tl segs" rule: rev_cases) auto
  have ch: "chain (unat (fst s)) ((s # ss) @ [l])"
    using assms(1) by (simp add: well_numbered_def s)
  then have c: "numbered (unat (fst s)) (snd s)" "snd s \<noteq> []" "unat (fst l) = unat (fst s) + length (log_of (s # ss))"
    unfolding chain_snoc by simp_all
  then obtain r rs where r: "snd s = r # rs" "r_cursor r = fst s"
    by (cases "snd s") (auto simp: word_unat_eq_iff)
  show ?thesis
  proof (rule that [of r])
    show "r_cursor r < fst (last segs)"
      using well_numbered_keys(1) [of "s # ss" l s] assms(1) r(2) by (simp add: s)
    show "unat (fst (last segs)) \<le> a_next segs"
      using c(3) by (simp add: s a_next_def log_of_def)
  qed (use r in \<open>simp_all add: s log_of_def\<close>)
qed

text \<open>C16: the durable cursor of the lock-free log covers records that a crash can take. Without the Each
  policy, once a run of appends has rotated to a second segment, an explicit fsync (and a tick of the
  flusher, which does the same) succeeds and moves the durable cursor to the end, but only the last
  segment was synced: after some crash a retained record below the durable cursor is not read, from
  whatever cursor the reading starts.\<close>

theorem v2_rotation_loses_durable:
  assumes "v2_no_log d" "v2_config_ok cfg" "v2_stream cfg n rs" "v2_wal_open crc now cfg d = (Inr w, d1)"
    "v2_append_all crc rs w d1 = (outs, w2, d2)" "wc_fsync_policy cfg \<noteq> Each" "v2_fsync w2 d2 = (res, w3, d3)"
    "1 < length (v2_segments w3)"
  shows "res = Inr () \<and> v2_tick_end (v2_pending w2) (v2_tick_load w2) w2 d2 = (w3, d3)
    \<and> (\<exists>d4. \<exists>r \<in> set rs. v2_crashed d3 d4 \<and> v2_oldest_cursor w3 \<le> r_cursor r \<and> r_cursor r < v2_durable w3
        \<and> (\<forall>c. case v2_dir_read_from c (v2_dir_reader_open (Some d4)) of
             Inl e \<Rightarrow> True | Inr rp \<Rightarrow> Inr r \<notin> set (v2_replay_all crc d4 rp)))"
proof -
  from assms(1-5) obtain segs zs where R: "v2_rep crc False False d2 w2 segs" "rs = zs @ log_of segs"
    "segs \<noteq> []" "snd (last segs) \<noteq> []" "a_next segs = n + length rs" "v2_pending w2 = of_nat (n + length rs)" "v2_cfg w2 = cfg"
    "v2_oldest_cursor w2 = fst (hd segs)" "v2_segments w2 = index_of segs"
    by (rule v2_run [where kept = False]) simp
  obtain x where x: "v2_wr w2 = Some x" "mw_name x = seg_name (fst (last segs))"
    using R(1) by (simp add: v2_rep_def)
  obtain d' where F: "flush_sync (mw_name x) d2 = (Inr (), d')" "v2_rep crc False True d' w2 segs"
    by (rule v2_sync_rep [OF R(1) x(1)])
  have eqs: "res = Inr ()" "w3 = w2\<lparr>v2_flushes := v2_flushes w2 + 1, v2_durable := v2_pending w2\<rparr>" "d3 = d'"
    using assms(7) x(1) F(1) by (simp_all add: v2_fsync_def)
  have tick: "v2_tick_end (v2_pending w2) (v2_tick_load w2) w2 d2 = (w3, d3)"
    using eqs x(1) F(1) by (simp add: v2_tick_end_def v2_tick_load_def)
  obtain w0 d0 where O: "v2_wal_open crc now cfg d = (Inr w0, d0)" "v2_cfg w0 = cfg" "\<And>n. seg_key n \<noteq> None \<Longrightarrow> mlookup d0 n = None"
    by (rule v2_open_empty [OF assms(1,2), of crc now]) blast
  have "v2_blank d1" "v2_cfg w = cfg"
    using O assms(4) by (auto simp: v2_blank_def)
  then have blank: "v2_blank d2"
    using lazy_all [OF assms(5)] assms(6) by (simp add: v2_lazy_def)
  obtain ss l where segs: "segs = ss @ [l]"
    using R(3) by (cases segs rule: rev_cases) auto
  have wn: "well_numbered segs"
    using R(1) by (simp add: v2_rep_def v2_dir_def)
  have "set (mf_base f) \<subseteq> {0}" if s: "s \<in> set ss" and f: "mlookup d3 (seg_name (fst s)) = Some f" for s f
  proof -
    have "seg_name (fst s) \<noteq> mw_name x"
      using well_numbered_keys(2) [of ss l s] wn s x(2) by (simp add: segs)
    then have "mlookup d2 (seg_name (fst s)) = Some f"
      using F(1) f eqs(3) by (auto simp: flush_sync_def split: if_splits option.splits)
    then show ?thesis
      using blank seg_key_name [of "fst s"] by (auto simp: v2_blank_def)
  qed
  then have zero: "\<forall>s \<in> set ss. \<forall>f. mlookup d3 (seg_name (fst s)) = Some f \<longrightarrow> set (mf_base f) \<subseteq> {0}"
    by blast
  have "snd l \<noteq> []"
    using R(4) segs by simp
  note L = v2_lose_reads [OF F(2) [folded eqs(3), unfolded segs] this zero, folded segs]
  obtain r where r: "r \<in> set (log_of segs)" "r_cursor r = fst (hd segs)" "r_cursor r < fst (last segs)" "unat (fst (last segs)) \<le> a_next segs"
    using v2_oldest_record [OF wn] assms(8) R(9) eqs(2) by (auto simp: index_of_def)
  have "unat (v2_durable w3) = a_next segs"
    using R(5,6) assms(3) eqs(2) by (simp add: v2_stream_def unat_of_nat_u64 del: of_nat_add)
  then have below: "r_cursor r < v2_durable w3"
    using r(3,4) by (simp add: word_less_nat_alt)
  have "Inr r \<notin> set (v2_replay_all crc (v2_lose d3) rp)" if "v2_dir_read_from k (index_of segs) = Inr rp" for k rp
    using L(2) [OF that, of r] r(3) by (auto simp: segs)
  then show ?thesis
    using eqs(1,2) tick v2_lose_crashed [of d3] r(1,2) below L(1) R(2,4,8)
    by (intro conjI exI [of _ "v2_lose d3"] bexI [of _ r]) (auto simp: v2_oldest_cursor_def segs split: sum.splits)
qed

end
