(* ===== verification/V2_Restart.thy ===== *)
theory V2_Restart
  imports V2_Lost Wal_Crash
begin

text \<open>
  Reopening the lock-free log: what \<open>v2_wal_open\<close> does over the directory of a log, with and without
  records in its last segment, and that a second reopening blocks it. At the end the witnesses of the
  properties of this log.
\<close>

subsection \<open>Files and their contents\<close>

lemma v2_readable_content:
  assumes "map_option mf_content (mlookup d' (seg_name (fst s))) = map_option mf_content (mlookup d (seg_name (fst s)))"
    "v2_readable crc d s"
  shows "v2_readable crc d' s"
proof -
  obtain f where f: "mlookup d (seg_name (fst s)) = Some f"
    using v2_readable_lookup [OF assms(2)] by auto
  then obtain f' where f': "mlookup d' (seg_name (fst s)) = Some f'" "mf_content f' = mf_content f"
    using assms(1) by auto
  then show ?thesis
    using f assms(2) by (simp add: v2_readable_def v2_reader_open_def mmap_of_file)
qed

text \<open>A directory that the log can be opened over.\<close>

definition v2_log_dir :: "(bytes \<Rightarrow> u32) \<Rightarrow> mdisk \<Rightarrow> segments \<Rightarrow> bool" where
  "v2_log_dir crc d segs \<longleftrightarrow> v2_files crc d segs \<and> active_ok d"

lemma v2_log_dir_content:
  assumes "\<And>n. map_option mf_content (mlookup d' n) = map_option mf_content (mlookup d n)" "md_up d'" "v2_log_dir crc d segs"
  shows "v2_log_dir crc d' segs"
proof -
  have none: "mlookup d' n = None \<longleftrightarrow> mlookup d n = None" for n
    using assms(1) [of n] by (metis map_option_is_None)
  have "active_ok d'"
    using assms(1) [of ACTIVE_COORD_FILENAME] assms(3) by (auto simp: v2_log_dir_def active_ok_def)
  moreover have "v2_no_strays d' segs"
    using assms(3) none by (simp add: v2_log_dir_def v2_files_def v2_no_strays_def)
  ultimately show ?thesis
    using assms(2,3) v2_readable_content [OF assms(1)] by (simp add: v2_log_dir_def v2_files_def)
qed

lemma flush_sync_log_dir:
  assumes "flush_sync n d = (res, d')" "v2_log_dir crc d segs"
  shows "v2_log_dir crc d' segs"
proof (rule v2_log_dir_content [OF _ _ assms(2)])
  have up: "md_up d"
    using assms(2) by (simp add: v2_log_dir_def v2_files_def)
  then show "md_up d'"
    using assms(1) by (auto simp: flush_sync_def split: option.splits)
  show "map_option mf_content (mlookup d' m) = map_option mf_content (mlookup d m)" for m
    using assms(1) up by (auto simp: flush_sync_def flushed_content split: option.splits)
qed

lemma v2_drop_log_dir:
  assumes "v2_log_dir crc d segs"
  shows "v2_log_dir crc (v2_drop w d) segs"
  using assms flush_sync_log_dir [OF _ assms]
  by (auto simp: v2_drop_def v2_fsync_def split: option.splits prod.splits sum.splits)

subsection \<open>Opening a log\<close>

lemma v2_scan_index: "fst (v2_scan_dir names d segs sizes) = index_names names segs"
  by (induction names arbitrary: segs sizes) (simp_all split: option.splits)

lemma v2_open_dir:
  assumes "v2_log_dir crc d segs"
  obtains sizes where "v2_scan_dir (map fst (md_files d)) d [] [] = (index_of segs, sizes)" "open_or_create d = (Inr (), d)"
proof -
  have "fst (v2_scan_dir (map fst (md_files d)) d [] []) = index_of segs"
    using assms v2_files_index(1) [of crc d segs] by (simp add: v2_scan_index v2_log_dir_def)
  moreover have "open_or_create d = (Inr (), d)"
    using assms by (auto simp: v2_log_dir_def active_ok_def open_or_create_def)
  ultimately show ?thesis
    using that [of "snd (v2_scan_dir (map fst (md_files d)) d [] [])"] by (simp add: prod_eq_iff)
qed

lemma v2_last_cursor_file:
  assumes "v2_readable crc d s"
  shows "(case v2_reader_open (seg_name (fst s)) d of Inr rd \<Rightarrow> v2_last_cursor crc d rd None | Inl _ \<Rightarrow> None)
    = (if snd s = [] then None else Some (r_cursor (last (snd s))))"
proof -
  obtain rd where rd: "v2_reader_open (seg_name (fst s)) d = Inr rd" "v2_holds crc (mr_size rd) (snd s) (mmap_of d (seg_name (fst s)))"
    using assms by (auto simp: v2_readable_def)
  have "mr_pos rd = v2_pos (snd s) 0" "mr_name rd = seg_name (fst s)"
    using rd(1) by (auto simp: v2_reader_open_def v2_pos_def Let_def SEGMENT_HEADER_LEN_def split: option.splits if_splits)
  then show ?thesis
    using rd v2_last_cursor_holds [of crc "mr_size rd" "snd s" d rd 0 None] by simp
qed

text \<open>The last segment has no record: it stays, without a writer.\<close>

lemma v2_open_last_empty:
  assumes "v2_log_dir crc d (ss @ [(k, [])])"
  obtains w d' where "v2_wal_open crc now cfg d = (Inr w, d')" "v2_log_dir crc d' (ss @ [(k, [])])" "v2_wr w = None"
    "v2_pending w = k" "v2_cfg w = cfg" "\<not> v2_poisoned w" "mlookup d' (seg_name k) \<noteq> None"
proof -
  obtain sizes where O: "v2_scan_dir (map fst (md_files d)) d [] [] = (index_of (ss @ [(k, [])]), sizes)" "open_or_create d = (Inr (), d)"
    using v2_open_dir [OF assms] by blast
  have L: "v2_readable crc d (k, [])" "active_ok d" "md_up d"
    using assms by (simp_all add: v2_log_dir_def v2_files_def)
  obtain d' where A: "store_active k d = (Inr (), d')" "only_mfile ACTIVE_COORD_FILENAME d d'" "active_ok d'"
    by (rule store_active_ok [OF L(2,3), of k]) blast
  have same: "mlookup d' n = mlookup d n" if "n \<noteq> ACTIVE_COORD_FILENAME" for n
    using A(2) that by (simp add: only_mfile_def)
  have "v2_readable crc d' s" if "v2_readable crc d s" for s
    using v2_readable_content [OF _ that] same by simp
  then have "v2_log_dir crc d' (ss @ [(k, [])])"
    using assms A(2,3) v2_no_strays_active [OF A(2)] by (auto simp: v2_log_dir_def v2_files_def only_mfile_def)
  moreover have "mlookup d' (seg_name k) \<noteq> None"
    using v2_readable_lookup [OF L(1)] same by simp
  ultimately show ?thesis
    using that A(1) v2_last_cursor_file [OF L(1)] O
    by (simp add: v2_wal_open_def v2_open_active_def index_of_def)
qed

text \<open>The last segment has records: the next one is created.\<close>

lemma v2_open_last_full:
  assumes "v2_log_dir crc d segs" "segs \<noteq> []" "snd (last segs) \<noteq> []" "v2_config_ok cfg"
  obtains w d' k where "v2_wal_open crc now cfg d = (Inr w, d')" "v2_log_dir crc d' (segs @ [(k, [])])" "unat k = a_next segs"
    "v2_cfg w = cfg"
proof -
  obtain ss s where s: "segs = ss @ [s]" "snd s \<noteq> []"
    using assms(2,3) by (cases segs rule: rev_cases) auto
  have F: "v2_files crc d segs" "active_ok d" and wn: "well_numbered (ss @ [s])"
    using assms(1) s(1) by (simp_all add: v2_log_dir_def v2_files_def)
  let ?k = "of_nat (a_next segs) :: u64"
  have ch: "chain (unat (fst (hd segs))) (ss @ [s])"
    using wn s(1) by (simp add: well_numbered_def)
  have next': "a_next segs = unat (fst s) + length (snd s)" "a_next segs < 2 ^ 64"
    using wn ch s(1) by (simp_all add: well_numbered_def chain_snoc a_next_def log_of_def)
  have k: "unat ?k = a_next segs"
    using next'(2) by (rule unat_of_nat_u64)
  have "numbered (unat (fst s)) (snd s)"
    using ch by (simp add: chain_snoc)
  then have "unat (r_cursor (last (snd s))) + 1 = a_next segs"
    using numbered_last [OF _ s(2)] next'(1) by simp
  then have lc: "r_cursor (last (snd s)) + 1 = ?k"
    by (metis of_nat_1 of_nat_add of_nat_unat ucast_id)
  have "?k \<noteq> fst s"
    using k next'(1) s(2) by auto
  define w0 where "w0 = \<lparr>v2_segments = index_of segs, v2_sizes = [], v2_wr = None, v2_cfg = cfg, v2_durable = 0, v2_pending = 0,
    v2_active_bytes = 0, v2_retained_bytes = 0, v2_cached_ts = now, v2_wall_base = now, v2_poisoned = False, v2_appends = 0,
    v2_append_bytes = 0, v2_flushes = 0\<rparr>"
  have dir: "v2_dir d w0 segs"
    using F wn assms(4) s(1) by (simp add: v2_dir_def v2_files_def w0_def v2_cap_def v2_config_ok_def)
  have ne: "\<forall>x \<in> set segs. snd x \<noteq> []"
    using ch s by (auto simp: chain_snoc)
  obtain d1 d2 where N: "v2_create (seg_name ?k) (v2_cap w0) ?k d
      = (Inr \<lparr>mw_name = seg_name ?k, mw_size = v2_cap w0, mw_first = ?k\<rparr>, d1)"
    "store_active ?k d1 = (Inr (), d2)" "v2_active_seg crc (v2_cap w0) False d2 (?k, [])"
    "v2_dir d2 (w0\<lparr>v2_segments := bt_insert ?k (seg_name ?k) (v2_segments w0)\<rparr>) (segs @ [(?k, [])])"
    "\<And>n. n \<noteq> seg_name ?k \<Longrightarrow> n \<noteq> ACTIVE_COORD_FILENAME \<Longrightarrow> mlookup d2 n = mlookup d n"
    by (rule v2_new_file [OF dir ne, of ?k crc False]) (use k in \<open>blast+\<close>)
  have keep: "v2_readable crc d2 x" if "x \<in> set segs" for x
  proof (rule v2_readable_content [of _ _ d])
    have "well_numbered (segs @ [(?k, [])])"
      using N(4) by (simp add: v2_dir_def)
    from well_numbered_keys(2) [OF this that] show "map_option mf_content (mlookup d2 (seg_name (fst x))) = map_option mf_content (mlookup d (seg_name (fst x)))"
      using N(5) by simp
    show "v2_readable crc d x"
      using F(1) that by (simp add: v2_files_def)
  qed
  have "v2_log_dir crc d2 (segs @ [(?k, [])])"
    using N(4) keep v2_active_readable [OF N(3)] by (auto simp: v2_log_dir_def v2_files_def v2_dir_def)
  moreover obtain sizes where O: "v2_scan_dir (map fst (md_files d)) d [] [] = (index_of segs, sizes)" "open_or_create d = (Inr (), d)"
    using v2_open_dir [OF assms(1)] by blast
  have "last (index_of segs) = (fst s, seg_name (fst s))" "index_of segs \<noteq> []"
    by (simp_all add: s(1) index_of_def)
  moreover have "v2_readable crc d s"
    using F(1) s(1) by (simp add: v2_files_def)
  ultimately have "\<exists>w. v2_wal_open crc now cfg d = (Inr w, d2) \<and> v2_cfg w = cfg"
    using N(1,2) O lc \<open>?k \<noteq> fst s\<close> s(2) v2_last_cursor_file [of crc d s]
    by (auto simp: v2_wal_open_def v2_open_active_def w0_def v2_cap_def Let_def)
  then show ?thesis
    using that k \<open>v2_log_dir crc d2 (segs @ [(?k, [])])\<close> by blast
qed


text \<open>Two restarts in a row stop the lock-free log. After a clean run of appends, a first reopening
  creates the next segment; a second reopening, with no append in between, finds that segment empty,
  keeps it without a writer, and from then on every append of the next record fails with
  AlreadyExists and leaves the state and the directory as they were.\<close>

theorem v2_second_restart_blocks_log:
  assumes "v2_no_log d" "v2_config_ok cfg" "v2_stream cfg n rs" "v2_wal_open crc now cfg d = (Inr w, d1)"
    "v2_append_all crc rs w d1 = (outs, w2, d2)"
  shows "\<exists>w3 d3 w4 d4. v2_wal_open crc now2 cfg (v2_drop w2 d2) = (Inr w3, d3) \<and> v2_wal_open crc now3 cfg (v2_drop w3 d3) = (Inr w4, d4)
    \<and> v2_pending w4 = of_nat (n + length rs)
    \<and> (\<forall>ts payload. length payload \<le> MAX_PAYLOAD_LEN
        \<longrightarrow> v2_wal_append crc (v2_pending w4) ts payload w4 d4 = (Inl (V2Writer (V2WriterIo IoAlreadyExists)), w4, d4))"
proof -
  from assms obtain segs where R: "v2_rep crc False False d2 w2 segs" "segs \<noteq> []" "snd (last segs) \<noteq> []" "a_next segs = n + length rs"
    by (rule v2_run [where kept = False]) simp
  have "v2_log_dir crc d2 segs"
    using v2_rep_files [OF R(1)] R(1) by (simp add: v2_log_dir_def v2_rep_def v2_dir_def)
  note D2 = v2_drop_log_dir [OF this, of w2]
  obtain w3 d3 k where O3: "v2_wal_open crc now2 cfg (v2_drop w2 d2) = (Inr w3, d3)" "v2_log_dir crc d3 (segs @ [(k, [])])"
    "unat k = a_next segs"
    by (rule v2_open_last_full [OF D2 R(2,3) assms(2), of now2]) blast
  obtain w4 d4 where O4: "v2_wal_open crc now3 cfg (v2_drop w3 d3) = (Inr w4, d4)" "v2_wr w4 = None" "v2_pending w4 = k" "v2_cfg w4 = cfg"
    "\<not> v2_poisoned w4" "mlookup d4 (seg_name k) \<noteq> None"
    by (rule v2_open_last_empty [OF v2_drop_log_dir [OF O3(2), of w3], of now3 cfg]) blast
  have "v2_wal_append crc k ts payload w4 d4 = (Inl (V2Writer (V2WriterIo IoAlreadyExists)), w4, d4)"
    if "length payload \<le> MAX_PAYLOAD_LEN" for ts payload
    using that O4 assms(2)
    by (simp add: v2_wal_append_def v2_writer_for_def v2_first_segment_def v2_create_def v2_config_ok_def SEGMENT_HEADER_LEN_def RECORD_FRAMING_def)
  moreover have "k = of_nat (n + length rs)"
    using O3(3) R(4) by (metis of_nat_unat ucast_id)
  ultimately show ?thesis
    using O3(1) O4(1,3) by (intro exI [of _ w3] exI [of _ d3] exI [of _ w4] exI [of _ d4]) simp
qed

text \<open>C18: replaying the lock-free log ends. Over any directory, whatever its files hold, the iterator
  returns None after at most as many items as there are segments and bytes left to read.\<close>

theorem v2_replay_terminates:
  "\<exists>m \<le> v2_left d rp. fst (v2_replayer_next crc d (((\<lambda>p. snd (v2_replayer_next crc d p)) ^^ m) rp)) = None"
proof (induction "v2_left d rp" arbitrary: rp rule: less_induct)
  case less
  show ?case
  proof (cases "v2_replayer_next crc d rp")
    case (Pair x rp')
    show ?thesis
    proof (cases x)
      case None
      then show ?thesis
        using Pair by (intro exI [of _ 0]) simp
    next
      case (Some y)
      note lt = v2_replayer_next_left [OF Pair [unfolded Some]]
      obtain m where "m \<le> v2_left d rp'" "fst (v2_replayer_next crc d (((\<lambda>p. snd (v2_replayer_next crc d p)) ^^ m) rp')) = None"
        using less [OF lt] by blast
      then show ?thesis
        using Pair lt by (intro exI [of _ "Suc m"]) (simp add: funpow_swap1 del: funpow.simps(2) add: funpow_Suc_right)
    qed
  qed
qed

text \<open>C13: an append to the lock-free log refines the step on the list of segments. From any state that
  represents a list of segments, the append of the next record succeeds, and state and directory
  then represent the list with the record at its end, in a new segment when the last one has no room,
  the oldest ones dropped to the retention budget; the pending cursor moves behind the record, and
  under the Each policy the durable cursor with it, all records being on the device then.\<close>

theorem v2_append_refines:
  assumes "v2_state crc kept d w segs" "record_ok r" "segs \<noteq> [] \<Longrightarrow> unat (r_cursor r) = a_next segs"
    "unat (r_cursor r) + 1 < 2 ^ 64" "32 + v2_padded r \<le> v2_cap w" "kept \<longrightarrow> wc_fsync_policy (v2_cfg w) = Each"
  shows "\<exists>w' d'. v2_wal_append crc (r_cursor r) (r_ts r) (r_payload r) w d = (Inr (), w', d')
    \<and> v2_state crc kept d' w' (v2_log_step (v2_cfg w) r segs) \<and> v2_pending w' = r_cursor r + 1
    \<and> v2_durable w' = (if wc_fsync_policy (v2_cfg w) = Each then r_cursor r + 1 else v2_durable w)"
  by (rule v2_append_ok [OF assms], assumption) (intro exI conjI; assumption)

subsection \<open>Witnesses\<close>

definition demo_cfg2 :: "fsync_policy \<Rightarrow> wal_config" where
  "demo_cfg2 policy = \<lparr>wc_enabled = True, wc_fsync_policy = policy, wc_fsync_interval_ms = 5,
     wc_fsync_batch_bytes = 64, wc_segment_size_max = 100, wc_retention_bytes = 1000\<rparr>"

definition demo_disk2 :: mdisk where
  "demo_disk2 = \<lparr>md_up = True, md_files = [], md_unlinked = []\<rparr>"

definition demo_records2 :: "wal_record list" where
  "demo_records2 = [\<lparr>r_cursor = 5, r_ts = 1, r_payload = [1, 2]\<rparr>, \<lparr>r_cursor = 6, r_ts = 2, r_payload = [3]\<rparr>,
     \<lparr>r_cursor = 7, r_ts = 3, r_payload = []\<rparr>]"

lemma demo_padded: "length p \<le> 4 \<Longrightarrow> v2_padded \<lparr>r_cursor = c, r_ts = t, r_payload = p\<rparr> = 32"
  by (simp add: v2_padded_def align_record_len_eq RECORD_FRAMING_def)

lemma demo2_ok: "v2_no_log demo_disk2" "v2_config_ok (demo_cfg2 policy)" "v2_stream (demo_cfg2 policy) 5 demo_records2"
  by (simp_all add: v2_no_log_def demo_disk2_def v2_config_ok_def demo_cfg2_def v2_stream_def demo_records2_def record_ok_def
      MAX_PAYLOAD_LEN_def wal_consts demo_padded)

lemma demo2_run:
  obtains w d1 outs w2 d2 where "v2_wal_open crc 3 (demo_cfg2 policy) demo_disk2 = (Inr w, d1)" "v2_append_all crc demo_records2 w d1 = (outs, w2, d2)"
    "length (v2_segments w2) = 2" "v2_durable w = 0"
proof -
  obtain w d1 where o: "v2_wal_open crc 3 (demo_cfg2 policy) demo_disk2 = (Inr w, d1)"
    by (rule v2_open_empty [OF demo2_ok(1,2), of crc 3 policy]) blast
  obtain outs w2 d2 where a: "v2_append_all crc demo_records2 w d1 = (outs, w2, d2)"
    by (cases "v2_append_all crc demo_records2 w d1") auto
  from demo2_ok o a obtain segs where "v2_segments w2 = index_of segs" "segs = fold (v2_log_step (demo_cfg2 policy)) demo_records2 []"
    by (rule v2_run [where kept = False]) simp
  then have "length (v2_segments w2) = 2"
    by (simp add: index_of_def demo_records2_def v2_log_step_def v2_step_append_def demo_cfg2_def demo_padded)
  moreover have "v2_durable w = 0"
    using o by (simp add: v2_wal_open_def demo_disk2_def v2_open_active_def open_or_create_def) auto
  ultimately show ?thesis
    using that o a by blast
qed


theorem v2_log_reads_back_witness:
  "\<exists>w2 d2. v2_pending w2 = 8 \<and> v2_reads demo_crc demo_records2 (v2_oldest_cursor w2) d2 (\<lambda>c. v2_read_from c w2)"
proof -
  obtain w d1 outs w2 d2 where R: "v2_wal_open demo_crc 3 (demo_cfg2 Batched) demo_disk2 = (Inr w, d1)"
    "v2_append_all demo_crc demo_records2 w d1 = (outs, w2, d2)"
    by (rule demo2_run [of demo_crc Batched]) blast
  from v2_log_reads_back [OF demo2_ok R] show ?thesis
    by (intro exI [of _ w2] exI [of _ d2]) (simp add: demo_records2_def)
qed


theorem v2_rotation_loses_durable_witness:
  "\<exists>w3 d3 d4 r. r \<in> set demo_records2 \<and> v2_crashed d3 d4 \<and> r_cursor r < v2_durable (w3 :: v2_wal) \<and>
    (case v2_dir_read_from 5 (v2_dir_reader_open (Some d4)) of
       Inl e \<Rightarrow> True | Inr rp \<Rightarrow> Inr r \<notin> set (v2_replay_all demo_crc d4 rp))"
proof -
  obtain w d1 outs w2 d2 where R: "v2_wal_open demo_crc 3 (demo_cfg2 Batched) demo_disk2 = (Inr w, d1)"
    "v2_append_all demo_crc demo_records2 w d1 = (outs, w2, d2)" "length (v2_segments w2) = 2"
    by (rule demo2_run [of demo_crc Batched]) blast
  have p: "wc_fsync_policy (demo_cfg2 Batched) \<noteq> Each"
    by (simp add: demo_cfg2_def)
  obtain res w3 d3 where f: "v2_fsync w2 d2 = (res, w3, d3)"
    by (cases "v2_fsync w2 d2") auto
  then have "v2_segments w3 = v2_segments w2"
    by (auto simp: v2_fsync_def split: option.splits prod.splits sum.splits)
  then have "1 < length (v2_segments w3)"
    using R(3) by simp
  from v2_rotation_loses_durable [OF demo2_ok R(1,2) p f this] obtain d4 r where L: "r \<in> set demo_records2" "v2_crashed d3 d4"
    "r_cursor r < v2_durable w3"
    "\<forall>c. case v2_dir_read_from c (v2_dir_reader_open (Some d4)) of Inl e \<Rightarrow> True | Inr rp \<Rightarrow> Inr r \<notin> set (v2_replay_all demo_crc d4 rp)"
    by (elim conjE exE bexE) blast
  show ?thesis
    using L(1-3) spec [OF L(4), of 5] by (intro exI [of _ w3] exI [of _ d3] exI [of _ d4] exI [of _ r]) simp
qed

theorem v2_second_restart_blocks_log_witness:
  "\<exists>w2 d2 w3 d3 w4 d4. v2_wal_open demo_crc 4 (demo_cfg2 Batched) (v2_drop w2 d2) = (Inr w3, d3)
    \<and> v2_wal_open demo_crc 5 (demo_cfg2 Batched) (v2_drop w3 d3) = (Inr w4, d4) \<and> v2_pending w4 = 8
    \<and> v2_wal_append demo_crc 8 7 [1] w4 d4 = (Inl (V2Writer (V2WriterIo IoAlreadyExists)), w4, d4)"
proof -
  obtain w d1 outs w2 d2 where R: "v2_wal_open demo_crc 3 (demo_cfg2 Batched) demo_disk2 = (Inr w, d1)"
    "v2_append_all demo_crc demo_records2 w d1 = (outs, w2, d2)"
    by (rule demo2_run [of demo_crc Batched]) blast
  obtain w3 d3 w4 d4 where B: "v2_wal_open demo_crc 4 (demo_cfg2 Batched) (v2_drop w2 d2) = (Inr w3, d3)"
    "v2_wal_open demo_crc 5 (demo_cfg2 Batched) (v2_drop w3 d3) = (Inr w4, d4)" "v2_pending w4 = of_nat (5 + length demo_records2)"
    "\<And>ts payload. length payload \<le> MAX_PAYLOAD_LEN
        \<Longrightarrow> v2_wal_append demo_crc (v2_pending w4) ts payload w4 d4 = (Inl (V2Writer (V2WriterIo IoAlreadyExists)), w4, d4)"
    using v2_second_restart_blocks_log [OF demo2_ok R, of 4 5] by blast
  have "v2_pending w4 = 8"
    using B(3) by (simp add: demo_records2_def)
  moreover have "length [1 :: 8 word] \<le> MAX_PAYLOAD_LEN"
    by (simp add: wal_consts)
  ultimately show ?thesis
    using B(1,2) B(4) [of "[1]" 7] by metis
qed

theorem v2_append_refines_witness:
  "\<exists>d w w' d'. v2_wal_append demo_crc 5 1 [1, 2] w d = (Inr (), w', d')
    \<and> v2_state demo_crc True d' w' [(5, [\<lparr>r_cursor = 5, r_ts = 1, r_payload = [1, 2]\<rparr>])] \<and> v2_durable w' = 6"
proof -
  let ?r = "\<lparr>r_cursor = 5, r_ts = 1, r_payload = [1, 2]\<rparr>"
  obtain w d where O: "v2_state demo_crc True d w []" "v2_cfg w = demo_cfg2 Each"
    by (rule v2_open_empty [OF demo2_ok(1,2), of demo_crc 3 Each]) blast
  have "record_ok ?r" "[] \<noteq> [] \<Longrightarrow> unat (r_cursor ?r) = a_next []" "unat (r_cursor ?r) + 1 < 2 ^ 64" "32 + v2_padded ?r \<le> v2_cap w"
    "True \<longrightarrow> wc_fsync_policy (v2_cfg w) = Each"
    using O(2) by (simp_all add: record_ok_def wal_consts v2_cap_def demo_cfg2_def demo_padded)
  from v2_append_refines [OF O(1) this] obtain w' d' where "v2_wal_append demo_crc 5 1 [1, 2] w d = (Inr (), w', d')"
    "v2_state demo_crc True d' w' [(5, [?r])]" "v2_durable w' = 6"
    using O(2) by (auto simp: v2_log_step_def v2_step_append_def demo_cfg2_def)
  then show ?thesis
    by blast
qed

end
