(* ===== verification/V2_Invariant.thy ===== *)
theory V2_Invariant
  imports V2_Restart
begin

text \<open>
  The bookkeeping of the lock-free log on every path of every operation, errors of the device
  included: what \<open>Inner\<close>, the writer slot and the byte counters of
  \<open>crates/mmbus/src/wal/v2/wal.rs\<close> have to do with each other and with the directory.
\<close>

subsection \<open>Well-formed states\<close>

text \<open>The index is ordered by its keys and names only files that exist; the sizes are those of retired
  segments of the index, and the counter is their sum; the writer is a segment of the index that is
  not retired.\<close>

definition v2_wf :: "v2_wal \<Rightarrow> mdisk \<Rightarrow> bool" where
  "v2_wf w d \<longleftrightarrow> sorted_keys (v2_segments w) \<and> sorted_keys (v2_sizes w)
     \<and> (\<forall>k n. (k, n) \<in> set (v2_segments w) \<longrightarrow> n = seg_name k \<and> mlookup d n \<noteq> None)
     \<and> fst ` set (v2_sizes w) \<subseteq> fst ` set (v2_segments w) \<and> v2_retained_bytes w = sum_list (map snd (v2_sizes w))
     \<and> (case v2_wr w of None \<Rightarrow> True | Some x \<Rightarrow> mw_name x = seg_name (mw_first x)
          \<and> mw_first x \<in> fst ` set (v2_segments w) \<and> mw_first x \<notin> fst ` set (v2_sizes w))"

lemma v2_wf_cong:
  assumes "v2_segments w' = v2_segments w" "v2_sizes w' = v2_sizes w" "v2_wr w' = v2_wr w" "v2_retained_bytes w' = v2_retained_bytes w"
    "\<And>n. mlookup d n \<noteq> None \<Longrightarrow> mlookup d' n \<noteq> None" "v2_wf w d"
  shows "v2_wf w' d'"
  using assms unfolding v2_wf_def by metis

text \<open>Operations that remove no file.\<close>

definition v2_keep :: "mdisk \<Rightarrow> mdisk \<Rightarrow> bool" where
  "v2_keep d d' \<longleftrightarrow> (\<forall>n. mlookup d n \<noteq> None \<longrightarrow> mlookup d' n \<noteq> None)"

lemma keep_simps [simp]: "v2_keep d d" "v2_keep d (mput n f d)" "v2_keep d (mstore n ss d)"
  by (simp_all add: v2_keep_def mlookup_store)

lemma keep_trans: "v2_keep d d' \<Longrightarrow> v2_keep d' d'' \<Longrightarrow> v2_keep d d''"
  by (simp add: v2_keep_def)

lemma keep_store: "v2_keep d d' \<Longrightarrow> v2_keep d (mstore n ss d')"
  by (rule keep_trans [OF _ keep_simps(3)])

lemma keep_ops:
  "snd (write_skip_to_end x d) = d' \<Longrightarrow> v2_keep d d'"
  "v2_append crc x c t p d = (res, d') \<Longrightarrow> v2_keep d d'"
  "flush_sync n d = (res', d') \<Longrightarrow> v2_keep d d'"
  "store_active k d = (res', d') \<Longrightarrow> v2_keep d d'"
  "v2_create n sz k d = (res'', d') \<Longrightarrow> v2_keep d d'"
  by (auto simp: write_skip_to_end_def v2_append_def flush_sync_def store_active_def v2_create_def Let_def
      intro: keep_store split: if_splits option.splits)

lemma v2_wf_keep: "v2_wf w d \<Longrightarrow> v2_keep d d' \<Longrightarrow> v2_wf w d'"
  by (rule v2_wf_cong [of w w]) (simp_all add: v2_keep_def)

lemma create_new: "v2_create n sz k d = (Inr x, d') \<Longrightarrow>
    x = \<lparr>mw_name = n, mw_size = sz, mw_first = k\<rparr> \<and> mlookup d n = None \<and> mlookup d' n \<noteq> None"
  by (auto simp: v2_create_def split: if_splits)

lemma sum_list_insert:
  "sorted_keys kvs \<Longrightarrow> k \<notin> fst ` set kvs \<Longrightarrow> sum_list (map snd (bt_insert k v kvs)) = sum_list (map snd kvs) + (v :: nat)"
  by (induction k v kvs rule: bt_insert.induct) auto

lemma bt_insert_member: "(k', v') \<in> set (bt_insert k v kvs) \<Longrightarrow> (k', v') = (k, v) \<or> (k', v') \<in> set kvs"
  by (induction k v kvs rule: bt_insert.induct) (auto split: if_splits)

lemma bt_insert_fst: "fst ` set (bt_insert k v kvs) = Set.insert k (fst ` set kvs)"
  using bt_insert_keys [of k v kvs] by simp

text \<open>A new writer takes the place of the old one, which is retired or was none.\<close>

lemma v2_wf_new:
  assumes "v2_wf w d" "v2_create (seg_name k) sz k d = (Inr x, d1)" "v2_keep d1 d2"
    "v2_segments w' = bt_insert k (seg_name k) (v2_segments w)" "v2_sizes w' = v2_sizes w" "v2_retained_bytes w' = v2_retained_bytes w"
    "v2_wr w' = Some x"
  shows "v2_wf w' d2"
proof -
  note C = create_new [OF assms(2)]
  have keep: "v2_keep d d2"
    using keep_ops(5) [OF assms(2)] assms(3) by (rule keep_trans)
  have "mlookup d2 (seg_name k) \<noteq> None"
    using C assms(3) by (simp add: v2_keep_def)
  moreover have "k \<notin> fst ` set (v2_segments w)"
    using assms(1) C by (force simp: v2_wf_def)
  moreover have "n = seg_name j \<and> mlookup d2 n \<noteq> None" if "(j, n) \<in> set (v2_segments w)" for j n
    using that assms(1) keep unfolding v2_wf_def v2_keep_def by blast
  ultimately have "n = seg_name j \<and> mlookup d2 n \<noteq> None" if "(j, n) \<in> set (v2_segments w')" for j n
    using that bt_insert_member [of j n k "seg_name k" "v2_segments w"] assms(4) by auto
  then show ?thesis
    using assms(1,5-7) C \<open>k \<notin> fst ` set (v2_segments w)\<close> unfolding v2_wf_def assms(4)
    by (auto simp: bt_insert_sorted bt_insert_fst simp del: not_None_eq)
qed

lemma wf_first:
  assumes "v2_wf w d" "v2_first_segment k w d = (res, w', d')"
  shows "v2_wf w' d'"
proof (cases "v2_create (seg_name k) (wc_segment_size_max (v2_cfg w)) k d")
  case (Pair r d1)
  show ?thesis
  proof (cases r)
    case (Inl e)
    then show ?thesis
      using assms Pair v2_wf_keep [OF assms(1) keep_ops(5) [OF Pair]] by (simp add: v2_first_segment_def)
  next
    case (Inr x)
    obtain r' d2 where s: "store_active k d1 = (r', d2)"
      by fastforce
    have "v2_wf w' d2" "d' = d2"
      using assms(2) Pair Inr s v2_wf_new [OF assms(1) Pair [unfolded Inr] keep_ops(4) [OF s], of w']
      by (auto simp: v2_first_segment_def Let_def split: sum.splits)
    then show ?thesis
      by simp
  qed
qed

lemma wf_no_writer: "v2_wf w d \<Longrightarrow> v2_wf (w\<lparr>v2_wr := None\<rparr>) d"
  by (auto simp: v2_wf_def)

lemma wf_rotate:
  assumes "v2_wf w d" "v2_rotate_locked k w d = (res, w', d')"
  shows "v2_wf w' d'"
proof (cases "v2_wr w")
  case None
  then show ?thesis
    using assms wf_first by (simp add: v2_rotate_locked_def)
next
  case (Some old)
  define d1 where "d1 = snd (write_skip_to_end old d)"
  obtain r d2 where C: "v2_create (seg_name k) (wc_segment_size_max (v2_cfg w)) k d1 = (r, d2)"
    by fastforce
  obtain r' d3 where s: "store_active k d2 = (r', d3)"
    by fastforce
  have keep: "v2_keep d d1" "v2_keep d d2" "v2_keep d d3"
    using keep_ops(1) [of old d d1] keep_ops(5) [OF C] keep_ops(4) [OF s] keep_trans unfolding d1_def by blast+
  define wr where "wr = w\<lparr>v2_sizes := bt_insert (mw_first old) (unat (v2_tail old d)) (v2_sizes w),
    v2_retained_bytes := v2_retained_bytes w + unat (v2_tail old d), v2_wr := None\<rparr>"
  have retired: "v2_wf wr d1"
    using v2_wf_keep [OF assms(1) keep(1)] Some unfolding v2_wf_def wr_def
    by (auto simp: bt_insert_sorted bt_insert_fst sum_list_insert)
  show ?thesis
  proof (cases "\<exists>x y. r = Inr x \<and> r' = Inr y")
    case True
    then obtain x y where xy: "r = Inr x" "r' = Inr y"
      by blast
    then show ?thesis
      using v2_wf_new [OF retired C [unfolded xy(1)] keep_ops(4) [OF s], of w'] assms(2) Some C s
      by (auto simp: v2_rotate_locked_def v2_rotate_def Let_def wr_def simp flip: d1_def)
  next
    case False
    then show ?thesis
      using v2_wf_keep [OF wf_no_writer [OF assms(1)] keep(2)] v2_wf_keep [OF wf_no_writer [OF assms(1)] keep(3)] assms(2) Some C s
      by (cases r; cases r') (auto simp: v2_rotate_locked_def v2_rotate_def Let_def simp flip: d1_def)
  qed
qed

lemma sum_list_remove:
  "sorted_keys kvs \<Longrightarrow> map_of kvs k = Some v \<Longrightarrow> sum_list (map snd (bt_remove k kvs)) + (v :: nat) = sum_list (map snd kvs)"
proof (induction kvs)
  case (Cons kv kvs)
  show ?case
  proof (cases "fst kv = k")
    case True
    then have "bt_remove k kvs = kvs"
      using Cons.prems(1) by (auto simp: bt_remove_def filter_id_conv)
    then show ?thesis
      using Cons.prems(2) True by (auto simp: bt_remove_def)
  next
    case False
    then show ?thesis
      using Cons by (auto simp: bt_remove_def)
  qed
qed simp

lemma bt_remove_facts:
  shows "set (bt_remove k kvs) = {kv \<in> set kvs. fst kv \<noteq> k}" and "sorted_keys kvs \<Longrightarrow> sorted_keys (bt_remove k kvs)"
proof -
  show "set (bt_remove k kvs) = {kv \<in> set kvs. fst kv \<noteq> k}"
    by (simp add: bt_remove_def)
  show "sorted_keys (bt_remove k kvs)" if "sorted_keys kvs"
    unfolding bt_remove_def sorted_wrt_map
    by (rule sorted_wrt_filter) (use that in \<open>simp only: sorted_wrt_map\<close>)
qed

lemma find_found: "find P xs = Some x \<Longrightarrow> x \<in> set xs \<and> P x"
  by (induction xs) (auto split: if_splits)

lemma wf_drop:
  assumes "v2_wf w d" "v2_oldest_inactive w = Some k" "v2_drop_segment k w d = (w', d')"
  shows "v2_wf w' d'"
proof -
  have in_keys: "k \<in> fst ` set (v2_segments w)" and not_active: "case v2_wr w of None \<Rightarrow> True | Some x \<Rightarrow> mw_first x \<noteq> k"
  proof -
    have "find (\<lambda>k. k \<noteq> (case v2_wr w of None \<Rightarrow> - 1 | Some x \<Rightarrow> mw_first x)) (map fst (v2_segments w)) = Some k"
      using assms(2) by (simp add: v2_oldest_inactive_def)
    from find_found [OF this] show "k \<in> fst ` set (v2_segments w)" "case v2_wr w of None \<Rightarrow> True | Some x \<Rightarrow> mw_first x \<noteq> k"
      by (auto split: option.splits)
  qed
  have W: "sorted_keys (v2_segments w)" "sorted_keys (v2_sizes w)"
    "\<And>k n. (k, n) \<in> set (v2_segments w) \<Longrightarrow> n = seg_name k \<and> mlookup d n \<noteq> None"
    "fst ` set (v2_sizes w) \<subseteq> fst ` set (v2_segments w)" "v2_retained_bytes w = sum_list (map snd (v2_sizes w))"
    using assms(1) by (auto simp: v2_wf_def)
  obtain path where p: "map_of (v2_segments w) k = Some path"
    using in_keys by (metis map_of_eq_None_iff not_None_eq)
  then have path: "path = seg_name k"
    using W(3) map_of_SomeD by fastforce
  have other: "mlookup (mremove path d) n = mlookup d n" if "n \<noteq> path" for n
    using that by (auto simp: mremove_def delete_conv' split: option.splits)
  define segs where "segs = bt_remove k (v2_segments w)"
  have S: "sorted_keys segs" "\<And>j n. (j, n) \<in> set segs \<Longrightarrow> n = seg_name j \<and> mlookup (mremove path d) n \<noteq> None"
    "fst ` set segs = fst ` set (v2_segments w) - {k}"
  proof -
    show "sorted_keys segs" "fst ` set segs = fst ` set (v2_segments w) - {k}"
      using bt_remove_facts [where kvs = "v2_segments w" and k = k] W(1) by (auto simp: segs_def)
    show "n = seg_name j \<and> mlookup (mremove path d) n \<noteq> None" if "(j, n) \<in> set segs" for j n
      using W(3) [of j n] that other [of n] path bt_remove_facts(1) [of k "v2_segments w"] by (auto simp: segs_def)
  qed
  have wr: "case v2_wr w of None \<Rightarrow> True | Some x \<Rightarrow> mw_name x = seg_name (mw_first x) \<and> mw_first x \<in> fst ` set segs \<and> mw_first x \<notin> fst ` set (v2_sizes w)"
    using assms(1) not_active by (auto simp: v2_wf_def S(3) split: option.splits)
  show ?thesis
  proof (cases "map_of (v2_sizes w) k")
    case None
    then have "k \<notin> fst ` set (v2_sizes w)"
      by (simp add: map_of_eq_None_iff)
    moreover have "w' = w\<lparr>v2_segments := segs\<rparr>" "d' = mremove path d"
      using assms(3) p None by (simp_all add: v2_drop_segment_def segs_def)
    ultimately show ?thesis
      using S W wr unfolding v2_wf_def by (auto split: option.splits)
  next
    case (Some sz)
    define sizes where "sizes = bt_remove k (v2_sizes w)"
    have "sorted_keys sizes" "fst ` set sizes = fst ` set (v2_sizes w) - {k}" "sum_list (map snd sizes) = v2_retained_bytes w - sz"
      using bt_remove_facts [where kvs = "v2_sizes w" and k = k] W(2,5) sum_list_remove [OF W(2) Some] by (auto simp: sizes_def)
    moreover have "w' = w\<lparr>v2_segments := segs, v2_sizes := sizes, v2_retained_bytes := v2_retained_bytes w - sz\<rparr>" "d' = mremove path d"
      using assms(3) p Some by (simp_all add: v2_drop_segment_def segs_def sizes_def)
    ultimately show ?thesis
      using S W wr unfolding v2_wf_def by (auto split: option.splits)
  qed
qed


lemma wf_retention: "v2_wf w d \<Longrightarrow> v2_enforce_retention w d = (w', d') \<Longrightarrow> v2_wf w' d'"
proof (induction w d rule: v2_enforce_retention.induct)
  case (1 w d)
  show ?case
  proof (cases "v2_retained_bytes w + v2_active_bytes w \<le> wc_retention_bytes (v2_cfg w) \<or> v2_oldest_inactive w = None")
    case True
    then show ?thesis
      using 1(2,3) by (subst (asm) v2_enforce_retention.simps) (auto split: if_splits option.splits)
  next
    case False
    then obtain k where k: "v2_oldest_inactive w = Some k" "\<not> v2_retained_bytes w + v2_active_bytes w \<le> wc_retention_bytes (v2_cfg w)"
      by auto
    obtain w1 d1 where s: "v2_drop_segment k w d = (w1, d1)"
      by fastforce
    then have "v2_enforce_retention w1 d1 = (w', d')"
      using 1(3) k by (subst (asm) v2_enforce_retention.simps) simp
    from 1(1) [OF k(2,1) s [symmetric] wf_drop [OF 1(2) k(1) s] this] show ?thesis .
  qed
qed

lemma wf_writer_for: "v2_wf w d \<Longrightarrow> v2_writer_for k n w d = (res, w', d') \<Longrightarrow> v2_wf w' d'"
  by (auto simp: v2_writer_for_def Let_def intro: wf_first wf_rotate split: option.splits prod.splits sum.splits if_splits)

lemma wf_retry:
  assumes "v2_wf w d" "v2_append_retry crc c t p x w d = (res, w', d')"
  shows "v2_wf w' d'"
proof -
  obtain out d1 where a: "v2_append crc x c t p d = (out, d1)"
    by fastforce
  note w1 = v2_wf_keep [OF assms(1) keep_ops(2) [OF a]]
  obtain r w2 d2 where r: "v2_rotate_locked c w d1 = (r, w2, d2)"
    by (metis surj_pair)
  note w2 = wf_rotate [OF w1 r]
  obtain out2 d3 where b: "v2_append crc (the (v2_wr w2)) c t p d2 = (out2, d3)"
    by fastforce
  note w3 = v2_wf_keep [OF w2 keep_ops(2) [OF b]]
  show ?thesis
    using assms(2) a r b w1 w2 w3 by (auto simp: v2_append_retry_def split: sum.splits append_outcome.splits)
qed

lemma wf_after:
  assumes "v2_wf w d" "v2_after_append k n x w d = (res, w', d')"
  shows "v2_wf w' d'"
proof -
  define w1 where "w1 = w\<lparr>v2_pending := k, v2_active_bytes := unat (v2_tail x d), v2_appends := v2_appends w + 1,
    v2_append_bytes := v2_append_bytes w + n\<rparr>"
  have "v2_wf w1 d"
    using assms(1) by (rule v2_wf_cong [rotated -1]) (simp_all add: w1_def)
  moreover obtain w2 d2 where e: "(if v2_retained_bytes w1 + v2_active_bytes w1 > wc_retention_bytes (v2_cfg w1)
      then v2_enforce_retention w1 d else (w1, d)) = (w2, d2)"
    by fastforce
  ultimately have w2: "v2_wf w2 d2"
    using wf_retention by (auto split: if_splits)
  obtain f d3 where f: "flush_sync (mw_name x) d2 = (f, d3)"
    by fastforce
  note w3 = v2_wf_keep [OF w2 keep_ops(3) [OF f]]
  have "v2_wf (w2\<lparr>v2_durable := k, v2_flushes := v2_flushes w2 + 1\<rparr>) d3"
    using w3 by (rule v2_wf_cong [rotated -1]) simp_all
  then show ?thesis
    using assms(2) e f w2 w3 unfolding v2_after_append_def w1_def [symmetric] Let_def
    by (auto split: sum.splits if_splits)
qed

lemma wf_append:
  assumes "v2_wf w d" "v2_wal_append crc c t p w d = (res, w', d')"
  shows "v2_wf w' d'"
proof -
  obtain r1 w1 d1 where a: "v2_writer_for c (align_record_len (RECORD_FRAMING + length p)) w d = (r1, w1, d1)"
    by (metis surj_pair)
  note w1 = wf_writer_for [OF assms(1) a]
  obtain r2 w2 d2 where b: "v2_append_retry crc c t p (projr r1) w1 d1 = (r2, w2, d2)"
    by (metis surj_pair)
  note w2 = wf_retry [OF w1 b]
  obtain r3 w3 d3 where e: "v2_after_append (projr r2) (length p) (projr r1) w2 d2 = (r3, w3, d3)"
    by (metis surj_pair)
  note w3 = wf_after [OF w2 e]
  show ?thesis
    using assms a b e w1 w2 w3 unfolding v2_wal_append_def by (cases r1; cases r2) (auto split: if_splits)
qed

lemma wf_fsync:
  assumes "v2_wf w d" "v2_fsync w d = (res, w', d')"
  shows "v2_wf w' d'"
proof (cases "v2_wr w")
  case None
  then show ?thesis
    using assms by (auto simp: v2_fsync_def intro!: v2_wf_cong [of _ w d])
next
  case (Some x)
  obtain f d1 where f: "flush_sync (mw_name x) d = (f, d1)"
    by fastforce
  note w1 = v2_wf_keep [OF assms(1) keep_ops(3) [OF f]]
  then show ?thesis
    using assms(2) f Some by (cases f) (auto simp: v2_fsync_def intro!: v2_wf_cong [of _ w d1])
qed

subsection \<open>Runs\<close>

text \<open>The operations of the log in any order, the flusher's halves apart, with the device failing and
  coming back in between.\<close>

datatype v2_op = V2Append u64 u64 bytes | V2Sync | V2Bump | V2TickBegin u64 | V2TickEnd u64 "string option" | V2Device bool

fun v2_op_step :: "(bytes \<Rightarrow> u32) \<Rightarrow> v2_op \<Rightarrow> v2_wal \<times> mdisk \<Rightarrow> v2_wal \<times> mdisk" where
  "v2_op_step crc (V2Append c ts payload) (w, d) = snd (v2_wal_append crc c ts payload w d)"
| "v2_op_step crc V2Sync (w, d) = snd (v2_fsync w d)"
| "v2_op_step crc V2Bump (w, d) = snd (v2_bump_generation w d)"
| "v2_op_step crc (V2TickBegin ts) (w, d) = (snd (v2_tick_begin ts w), d)"
| "v2_op_step crc (V2TickEnd snapshot file) (w, d) = v2_tick_end snapshot file w d"
| "v2_op_step crc (V2Device up) (w, d) = (w, d\<lparr>md_up := up\<rparr>)"

lemma wf_step:
  assumes "v2_wf w d" "v2_op_step crc op (w, d) = (w', d')"
  shows "v2_wf w' d'"
proof (cases op)
  case (V2Append c ts payload)
  then show ?thesis
    using wf_append [OF assms(1)] assms(2) by (metis snd_conv surj_pair v2_op_step.simps(1))
next
  case V2Sync
  then show ?thesis
    using wf_fsync [OF assms(1)] assms(2) by (metis snd_conv surj_pair v2_op_step.simps(2))
next
  case V2Bump
  then show ?thesis
    using assms wf_rotate [OF assms(1), of "v2_pending w" "fst (v2_bump_generation w d)"]
    by (auto simp: v2_bump_generation_def prod_eq_iff split: if_splits)
next
  case (V2TickBegin ts)
  then show ?thesis
    using assms by (auto simp: v2_tick_begin_def intro!: v2_wf_cong [of _ w d])
next
  case (V2TickEnd snapshot target)
  obtain r d1 where f: "(case target of None \<Rightarrow> (Inr (), d) | Some name \<Rightarrow> flush_sync name d) = (r, d1)"
    by fastforce
  then have "v2_keep d d1"
    by (auto dest: keep_ops(3) split: option.splits)
  then have "v2_wf w d1"
    by (rule v2_wf_keep [OF assms(1)])
  then show ?thesis
    using assms(2) f by (cases r) (auto simp: V2TickEnd v2_tick_end_def intro!: v2_wf_cong [of _ w d1])
next
  case (V2Device up)
  then show ?thesis
    using assms by (auto intro!: v2_wf_cong [of _ w d])
qed

subsection \<open>Opening\<close>

text \<open>Segment files under their canonical names.\<close>

definition v2_canonical :: "mdisk \<Rightarrow> bool" where
  "v2_canonical d \<longleftrightarrow> (\<forall>n k. mlookup d n \<noteq> None \<longrightarrow> seg_key n = Some k \<longrightarrow> n = seg_name k)"

lemma v2_scan_wf:
  assumes "v2_scan_dir names d segs0 sizes0 = (segs, sizes)" "sorted_keys segs0" "sorted_keys sizes0"
    "\<forall>k n. (k, n) \<in> set segs0 \<longrightarrow> n = seg_name k \<and> mlookup d n \<noteq> None" "fst ` set sizes0 = fst ` set segs0"
    "v2_canonical d" "\<forall>n \<in> set names. mlookup d n \<noteq> None"
  shows "sorted_keys segs" "sorted_keys sizes" "\<forall>k n. (k, n) \<in> set segs \<longrightarrow> n = seg_name k \<and> mlookup d n \<noteq> None"
    "fst ` set sizes = fst ` set segs"
proof -
  have "sorted_keys segs \<and> sorted_keys sizes \<and> (\<forall>k n. (k, n) \<in> set segs \<longrightarrow> n = seg_name k \<and> mlookup d n \<noteq> None)
    \<and> fst ` set sizes = fst ` set segs"
    using assms
  proof (induction names d segs0 sizes0 rule: v2_scan_dir.induct)
    case (2 name names d segs0 sizes0)
    show ?case
    proof (cases "seg_key name")
      case None
      then show ?thesis
        using 2 by simp
    next
      case (Some k)
      then have "name = seg_name k" "mlookup d name \<noteq> None"
        using 2(8,9) by (auto simp: v2_canonical_def)
      then have "\<forall>j n. (j, n) \<in> set (bt_insert k name segs0) \<longrightarrow> n = seg_name j \<and> mlookup d n \<noteq> None"
        using 2(6) bt_insert_member [of _ _ k name segs0] by blast
      then show ?thesis
        using 2(2) [OF Some] 2(3-9) Some by (simp add: bt_insert_sorted bt_insert_fst)
    qed
  qed simp
  then show "sorted_keys segs" "sorted_keys sizes" "\<forall>k n. (k, n) \<in> set segs \<longrightarrow> n = seg_name k \<and> mlookup d n \<noteq> None"
    "fst ` set sizes = fst ` set segs"
    by simp_all
qed


lemma v2_create_tail:
  assumes "v2_create n sz k d = (Inr x, d')"
  shows "v2_tail x d' = 32"
proof -
  have C: "\<not> sz < 60" "x = \<lparr>mw_name = n, mw_size = sz, mw_first = k\<rparr>"
    "d' = mput n \<lparr>mf_base = replicate sz 0, mf_stores = v2_create_stores k, mf_synced = False\<rparr> d"
    using assms by (auto simp: v2_create_def wal_consts split: if_splits)
  have "rd64 (apply_stores (replicate sz 0) (v2_create_stores k)) TAIL_OFFSET = 32"
    using C(1) by (simp add: v2_create_stores_def apply_stores_def apply_store_def rd64_def sub_poke_same TAIL_OFFSET_def wal_consts)
  then show ?thesis
    by (simp add: v2_tail_def C(2,3) mmap_of_def mf_content_def)
qed

lemma keep_open_or_create: "open_or_create d = (res, d') \<Longrightarrow> v2_keep d d'"
  by (auto simp: open_or_create_def v2_keep_def split: option.splits if_splits)

lemma wf_open:
  assumes "v2_canonical d" "v2_wal_open crc now cfg d = (Inr w, d')"
    "\<forall>x. v2_wr w = Some x \<longrightarrow> mw_first x = fst (last (v2_segments w))"
  shows "v2_wf w d'"
proof -
  obtain segs sizes where s: "v2_scan_dir (map fst (md_files d)) d [] [] = (segs, sizes)"
    by fastforce
  obtain r d1 where o: "open_or_create d = (r, d1)"
    by fastforce
  have names: "\<forall>n \<in> set (map fst (md_files d)). mlookup d n \<noteq> None"
    using names_lookup by blast
  note S = v2_scan_wf [OF s _ _ _ _ assms(1) names, simplified]
  have present: "n = seg_name k \<and> mlookup d1 n \<noteq> None" if "(k, n) \<in> set segs" for k n
    using S(3) that keep_open_or_create [OF o] by (auto simp: v2_keep_def)
  obtain y where r: "r = Inr y"
    using assms(2) s o by (auto simp: v2_wal_open_def split: sum.splits)
  obtain wr p b segs' sizes' where A: "v2_open_active crc cfg segs sizes d1 = (Inr (wr, p, b), (segs', sizes'), d')"
    "w = \<lparr>v2_segments = segs', v2_sizes = (if segs' \<noteq> [] \<and> b > 0 then bt_remove (fst (last segs')) sizes' else sizes'), v2_wr = wr,
       v2_cfg = cfg, v2_durable = p, v2_pending = p, v2_active_bytes = b,
       v2_retained_bytes = sum_list (map snd (if segs' \<noteq> [] \<and> b > 0 then bt_remove (fst (last segs')) sizes' else sizes')),
       v2_cached_ts = now, v2_wall_base = now, v2_poisoned = False, v2_appends = 0, v2_append_bytes = 0, v2_flushes = 0\<rparr>"
    using assms(2) s o r unfolding v2_wal_open_def Let_def by (auto split: sum.splits prod.splits)
  show ?thesis
  proof (cases wr)
    case None
    then have "segs' = segs \<and> sizes' = sizes \<and> b = 0 \<and> v2_keep d1 d'"
      using A(1) by (auto simp: v2_open_active_def Let_def dest: keep_ops(4) split: if_splits prod.splits sum.splits)
    then show ?thesis
      using S(1,2,4) present None A(2) by (auto simp: v2_wf_def v2_keep_def)
  next
    case (Some x)
    then obtain k d2 e where C: "v2_create (seg_name k) (wc_segment_size_max cfg) k d1 = (Inr x, d2)"
      "segs' = bt_insert k (seg_name k) segs" "sizes' = bt_insert k 32 sizes" "b = 32" "store_active k d2 = (Inr e, d')"
      using A(1) v2_create_tail by (auto simp: v2_open_active_def Let_def split: if_splits prod.splits sum.splits)
    note N = create_new [OF C(1)]
    have k: "fst (last segs') = k"
      using assms(3) Some A(2) N by simp
    have keep: "v2_keep d1 d'" "mlookup d' (seg_name k) \<noteq> None"
      using keep_ops(5) [OF C(1)] keep_ops(4) [OF C(5)] keep_trans N by (auto simp: v2_keep_def)
    have canon: "n = seg_name j \<and> mlookup d' n \<noteq> None" if "(j, n) \<in> set segs'" for j n
      using that bt_insert_member [of j n k "seg_name k" segs] present [of j n] keep by (auto simp: C(2) v2_keep_def)
    have new: "k \<notin> fst ` set segs"
      using present N by force
    have ne: "segs' \<noteq> []"
      using bt_insert_fst [of k "seg_name k" segs] C(2) by fastforce
    have "sorted_keys sizes'" "fst ` set sizes' = Set.insert k (fst ` set segs)"
      using S(2,4) by (simp_all add: C(3) bt_insert_sorted bt_insert_fst)
    moreover define sizes2 where "sizes2 = bt_remove k sizes'"
    ultimately have z: "sorted_keys sizes2" "fst ` set sizes2 \<subseteq> fst ` set segs"
      using bt_remove_facts [where kvs = sizes' and k = k] by auto
    have "w = \<lparr>v2_segments = segs', v2_sizes = sizes2, v2_wr = Some x, v2_cfg = cfg, v2_durable = p, v2_pending = p,
       v2_active_bytes = 32, v2_retained_bytes = sum_list (map snd sizes2), v2_cached_ts = now, v2_wall_base = now,
       v2_poisoned = False, v2_appends = 0, v2_append_bytes = 0, v2_flushes = 0\<rparr>"
      using A(2) Some k C(4) ne by (simp add: sizes2_def)
    moreover have "sorted_keys segs'" "fst ` set segs' = Set.insert k (fst ` set segs)"
      using S(1) by (simp_all add: C(2) bt_insert_sorted bt_insert_fst)
    ultimately show ?thesis
      using z canon N new unfolding v2_wf_def by auto
  qed
qed


definition demo_ops2 :: "v2_op list" where
  "demo_ops2 = [V2Append 5 1 [1, 2], V2Append 6 2 (replicate 40 9), V2TickBegin 7, V2Device False, V2Append 7 3 (replicate 40 8),
     V2Device True, V2Append 7 3 [4], V2Bump, V2Sync, V2TickEnd 7 (Some (seg_name 5))]"


end
