(* ===== verification/Producer_Lock.thy ===== *)
theory Producer_Lock
  imports Publisher
begin

text \<open>
  The exclusive lock of a topic's producer: \<open>crates/mmbus/src/producer_lock.rs\<close>, with the removal of
  a topic's directory by \<open>Bus::clean_topic\<close> in \<open>bus.rs\<close>. Threads of several processes take the
  lock in three steps (the set of the process, the file, \<open>flock\<close>) and give it back in two (the set,
  then the close of the file). A lock of \<open>flock\<close> belongs to the open file, so to the inode and to
  the thread that opened it.
\<close>

subsection \<open>State\<close>

text \<open>Where a thread stands: the path and the inode it has opened.\<close>

datatype lock_pc = Idle | Reserved string | Opened string nat | Held string nat | Unreserved string nat

record lock_sys =
  lk_reserved :: "(nat \<times> string) set"
  lk_files :: "string \<Rightarrow> nat option"
  lk_inodes :: nat
  lk_owner :: "nat \<Rightarrow> nat option"
  lk_pc :: "nat \<Rightarrow> lock_pc"

definition lock_start :: lock_sys where
  "lock_start = \<lparr>lk_reserved = {}, lk_files = (\<lambda>_. None), lk_inodes = 0, lk_owner = (\<lambda>_. None), lk_pc = (\<lambda>_. Idle)\<rparr>"

subsection \<open>Operations (producer\_lock.rs, lines 26--75; bus.rs, line 217)\<close>

text \<open>\<open>proc\<close>: the process of a thread.\<close>

definition lock_reserve :: "(nat \<Rightarrow> nat) \<Rightarrow> nat \<Rightarrow> string \<Rightarrow> string \<Rightarrow> lock_sys \<Rightarrow> (bus_error + unit) \<times> lock_sys" where
  "lock_reserve proc t name path s =
    (if (proc t, path) \<in> lk_reserved s then (Inl (AlreadyPublishing name), s)
     else (Inr (), s\<lparr>lk_reserved := Set.insert (proc t, path) (lk_reserved s), lk_pc := (lk_pc s)(t := Reserved path)\<rparr>))"

definition lock_unreserve :: "(nat \<Rightarrow> nat) \<Rightarrow> nat \<Rightarrow> string \<Rightarrow> lock_pc \<Rightarrow> lock_sys \<Rightarrow> lock_sys" where
  "lock_unreserve proc t path pc s =
    s\<lparr>lk_reserved := lk_reserved s - {(proc t, path)}, lk_pc := (lk_pc s)(t := pc)\<rparr>"

definition lock_open :: "(nat \<Rightarrow> nat) \<Rightarrow> nat \<Rightarrow> string \<Rightarrow> io_error + unit \<Rightarrow> lock_sys \<Rightarrow> (bus_error + nat) \<times> lock_sys" where
  "lock_open proc t path opened s = (case opened of
      Inl e \<Rightarrow> (Inl (BusIo e), lock_unreserve proc t path Idle s)
    | Inr _ \<Rightarrow> (case lk_files s path of
        Some i \<Rightarrow> (Inr i, s\<lparr>lk_pc := (lk_pc s)(t := Opened path i)\<rparr>)
      | None \<Rightarrow> (Inr (lk_inodes s), s\<lparr>lk_files := (lk_files s)(path \<mapsto> lk_inodes s), lk_inodes := Suc (lk_inodes s),
                    lk_pc := (lk_pc s)(t := Opened path (lk_inodes s))\<rparr>)))"

definition try_lock_exclusive :: "nat \<Rightarrow> nat \<Rightarrow> lock_sys \<Rightarrow> bool" where
  "try_lock_exclusive t i s \<longleftrightarrow> lk_owner s i = None"

definition lock_flock :: "(nat \<Rightarrow> nat) \<Rightarrow> nat \<Rightarrow> string \<Rightarrow> string \<Rightarrow> nat \<Rightarrow> lock_sys \<Rightarrow> (bus_error + unit) \<times> lock_sys" where
  "lock_flock proc t name path i s =
    (if \<not> try_lock_exclusive t i s then (Inl (AlreadyPublishing name), lock_unreserve proc t path Idle s)
     else (Inr (), s\<lparr>lk_owner := (lk_owner s)(i \<mapsto> t), lk_pc := (lk_pc s)(t := Held path i)\<rparr>))"

text \<open>The whole call, when nothing comes between.\<close>

definition acquire_producer_lock ::
    "(nat \<Rightarrow> nat) \<Rightarrow> nat \<Rightarrow> string \<Rightarrow> string \<Rightarrow> io_error + unit \<Rightarrow> lock_sys \<Rightarrow> (bus_error + unit) \<times> lock_sys" where
  "acquire_producer_lock proc t name path opened s = (case lock_reserve proc t name path s of
      (Inl e, s1) \<Rightarrow> (Inl e, s1)
    | (Inr _, s1) \<Rightarrow> (case lock_open proc t path opened s1 of
        (Inl e, s2) \<Rightarrow> (Inl e, s2)
      | (Inr i, s2) \<Rightarrow> lock_flock proc t name path i s2))"

text \<open>Dropping a lock: first the entry of the set, then the file with its lock.\<close>

definition lock_close :: "nat \<Rightarrow> nat \<Rightarrow> lock_sys \<Rightarrow> lock_sys" where
  "lock_close t i s = s\<lparr>lk_owner := (lk_owner s)(i := None), lk_pc := (lk_pc s)(t := Idle)\<rparr>"

definition remove_lock_file :: "string \<Rightarrow> lock_sys \<Rightarrow> lock_sys" where
  "remove_lock_file path s = s\<lparr>lk_files := (lk_files s)(path := None)\<rparr>"

text \<open>The end of a process: its files are closed, its memory is gone.\<close>

definition process_exit :: "(nat \<Rightarrow> nat) \<Rightarrow> nat \<Rightarrow> lock_sys \<Rightarrow> lock_sys" where
  "process_exit proc p s = s\<lparr>lk_reserved := {x \<in> lk_reserved s. fst x \<noteq> p},
     lk_owner := (\<lambda>i. case lk_owner s i of None \<Rightarrow> None | Some t \<Rightarrow> if proc t = p then None else Some t),
     lk_pc := (\<lambda>t. if proc t = p then Idle else lk_pc s t)\<rparr>"

subsection \<open>Threads side by side\<close>

text \<open>\<open>clean\<close>: whether holders may remove the directory of a topic.\<close>

inductive lock_step :: "(nat \<Rightarrow> nat) \<Rightarrow> bool \<Rightarrow> lock_sys \<Rightarrow> lock_sys \<Rightarrow> bool" for proc clean where
  step_reserve: "lk_pc s t = Idle \<Longrightarrow> lock_step proc clean s (snd (lock_reserve proc t name path s))"
| step_open: "lk_pc s t = Reserved path \<Longrightarrow> lock_step proc clean s (snd (lock_open proc t path opened s))"
| step_flock: "lk_pc s t = Opened path i \<Longrightarrow> lock_step proc clean s (snd (lock_flock proc t name path i s))"
| step_unreserve: "lk_pc s t = Held path i \<Longrightarrow> lock_step proc clean s (lock_unreserve proc t path (Unreserved path i) s)"
| step_close: "lk_pc s t = Unreserved path i \<Longrightarrow> lock_step proc clean s (lock_close t i s)"
| step_exit: "lock_step proc clean s (process_exit proc p s)"
| step_clean: "clean \<Longrightarrow> lk_pc s t = Held path i \<Longrightarrow> lock_step proc clean s (remove_lock_file path s)"

inductive_simps lock_step_simps: "lock_step proc clean s s'"

abbreviation lock_reach :: "(nat \<Rightarrow> nat) \<Rightarrow> bool \<Rightarrow> lock_sys \<Rightarrow> bool" where
  "lock_reach proc clean \<equiv> (lock_step proc clean)\<^sup>*\<^sup>* lock_start"

subsection \<open>The invariant\<close>

definition has_open :: "lock_pc \<Rightarrow> string \<Rightarrow> nat \<Rightarrow> bool" where
  "has_open pc path i \<longleftrightarrow> pc \<in> {Opened path i, Held path i, Unreserved path i}"

definition owns :: "lock_pc \<Rightarrow> nat \<Rightarrow> bool" where
  "owns pc i \<longleftrightarrow> (\<exists>path. pc \<in> {Held path i, Unreserved path i})"

definition reserves :: "lock_pc \<Rightarrow> string \<Rightarrow> bool" where
  "reserves pc path \<longleftrightarrow> (\<exists>i. pc \<in> {Reserved path, Opened path i, Held path i})"

lemmas pc_defs = has_open_def owns_def reserves_def

definition lock_inv :: "(nat \<Rightarrow> nat) \<Rightarrow> lock_sys \<Rightarrow> bool" where
  "lock_inv proc s \<longleftrightarrow>
     (\<forall>t path i. has_open (lk_pc s t) path i \<longrightarrow> lk_files s path = Some i)
   \<and> (\<forall>path i. lk_files s path = Some i \<longrightarrow> i < lk_inodes s)
   \<and> (\<forall>path path' i. lk_files s path = Some i \<longrightarrow> lk_files s path' = Some i \<longrightarrow> path = path')
   \<and> (\<forall>i t. lk_owner s i = Some t \<longleftrightarrow> owns (lk_pc s t) i)
   \<and> (\<forall>t path. reserves (lk_pc s t) path \<longrightarrow> (proc t, path) \<in> lk_reserved s)
   \<and> (\<forall>p path. (p, path) \<in> lk_reserved s \<longrightarrow> (\<exists>t. proc t = p \<and> reserves (lk_pc s t) path))
   \<and> (\<forall>t t' path. reserves (lk_pc s t) path \<longrightarrow> reserves (lk_pc s t') path \<longrightarrow> proc t = proc t' \<longrightarrow> t = t')"

lemma lock_inv_start: "lock_inv proc lock_start"
  by (simp add: lock_inv_def lock_start_def pc_defs)

subsection \<open>Every step keeps it\<close>

lemma lock_invD:
  assumes "lock_inv proc s"
  shows "has_open (lk_pc s t) path i \<Longrightarrow> lk_files s path = Some i"
    "lk_files s path = Some i \<Longrightarrow> i < lk_inodes s"
    "lk_files s path = Some i \<Longrightarrow> lk_files s path' = Some i \<Longrightarrow> path = path'"
    "lk_owner s i = Some t \<longleftrightarrow> owns (lk_pc s t) i"
    "reserves (lk_pc s t) path \<Longrightarrow> (proc t, path) \<in> lk_reserved s"
    "(p, path) \<in> lk_reserved s \<Longrightarrow> \<exists>t. proc t = p \<and> reserves (lk_pc s t) path"
    "reserves (lk_pc s t) path \<Longrightarrow> reserves (lk_pc s t') path \<Longrightarrow> proc t = proc t' \<Longrightarrow> t = t'"
  using assms unfolding lock_inv_def by blast+

lemma pc_simps [simp]:
  "has_open Idle p i \<longleftrightarrow> False" "has_open (Reserved q) p i \<longleftrightarrow> False" "has_open (Opened q j) p i \<longleftrightarrow> q = p \<and> j = i"
  "has_open (Held q j) p i \<longleftrightarrow> q = p \<and> j = i" "has_open (Unreserved q j) p i \<longleftrightarrow> q = p \<and> j = i"
  "owns Idle i \<longleftrightarrow> False" "owns (Reserved q) i \<longleftrightarrow> False" "owns (Opened q j) i \<longleftrightarrow> False" "owns (Held q j) i \<longleftrightarrow> j = i"
  "owns (Unreserved q j) i \<longleftrightarrow> j = i"
  "reserves Idle p \<longleftrightarrow> False" "reserves (Reserved q) p \<longleftrightarrow> q = p" "reserves (Opened q j) p \<longleftrightarrow> q = p" "reserves (Held q j) p \<longleftrightarrow> q = p"
  "reserves (Unreserved q j) p \<longleftrightarrow> False"
  by (auto simp: pc_defs)


text \<open>One thread moves on.\<close>

lemma inv_move:
  assumes I: "lock_inv proc s" and pc: "lk_pc s' = (lk_pc s)(t := pc')"
    and files: "\<And>p i. has_open pc' p i \<Longrightarrow> lk_files s' p = Some i" "\<And>p i. lk_files s p = Some i \<Longrightarrow> lk_files s' p = Some i"
      "\<And>p i. lk_files s' p = Some i \<Longrightarrow> i < lk_inodes s'"
      "\<And>p p' i. lk_files s' p = Some i \<Longrightarrow> lk_files s' p' = Some i \<Longrightarrow> p = p'"
    and owner: "\<And>i u. lk_owner s' i = Some u \<longleftrightarrow> (if u = t then owns pc' i else lk_owner s i = Some u)"
    and reserved: "\<And>p path. (p, path) \<in> lk_reserved s' \<longleftrightarrow>
      p = proc t \<and> reserves pc' path \<or> (p, path) \<in> lk_reserved s \<and> \<not> (p = proc t \<and> reserves (lk_pc s t) path)"
    and free: "\<And>path. reserves pc' path \<Longrightarrow> reserves (lk_pc s t) path \<or> (proc t, path) \<notin> lk_reserved s"
  shows "lock_inv proc s'"
proof -
  note D = lock_invD [OF I]
  have unique: "u = t" if "reserves (lk_pc s u) path" "reserves pc' path" "proc u = proc t" for u path
    using that free [of path] D(5) [of u path] D(7) [of u path t] by auto
  show ?thesis
    unfolding lock_inv_def
  proof (intro conjI allI impI)
    show "lk_files s' path = Some i" if "has_open (lk_pc s' u) path i" for u path i
      using that files(1,2) D(1) [of u path i] by (auto simp: pc split: if_splits)
    show "lk_owner s' i = Some u \<longleftrightarrow> owns (lk_pc s' u) i" for u i
      using owner [of i u] D(4) [of i u] by (auto simp: pc)
    show "(proc u, path) \<in> lk_reserved s'" if "reserves (lk_pc s' u) path" for u path
      using that reserved [of "proc u" path] D(5) [of u path] D(7) [of u path t] by (auto simp: pc split: if_splits)
    show "\<exists>u. proc u = p \<and> reserves (lk_pc s' u) path" if "(p, path) \<in> lk_reserved s'" for p path
    proof (cases "p = proc t \<and> reserves pc' path")
      case True
      then show ?thesis
        by (intro exI [of _ t]) (simp add: pc)
    next
      case False
      then have r: "(p, path) \<in> lk_reserved s" "\<not> (p = proc t \<and> reserves (lk_pc s t) path)"
        using that reserved [of p path] by auto
      then obtain u where "proc u = p" "reserves (lk_pc s u) path"
        using D(6) by blast
      then show ?thesis
        using r(2) by (intro exI [of _ u]) (auto simp: pc)
    qed
    show "u = u'" if "reserves (lk_pc s' u) path" "reserves (lk_pc s' u') path" "proc u = proc u'" for u u' path
      using that unique [of u path] unique [of u' path] D(7) [of u path u'] by (auto simp: pc split: if_splits)
  qed (use files(3,4) in auto)
qed

lemma inv_reserve:
  assumes I: "lock_inv proc s" and "lk_pc s t = Idle"
  shows "lock_inv proc (snd (lock_reserve proc t name path s))"
proof (cases "(proc t, path) \<in> lk_reserved s")
  case False
  note D = lock_invD [OF I]
  show ?thesis
    by (rule inv_move [OF I, of _ t "Reserved path"])
      (use False assms(2) D(2,3) D(4) [of _ t] in \<open>auto simp: lock_reserve_def\<close>)
qed (simp add: lock_reserve_def I)

lemma inv_unreserve:
  assumes I: "lock_inv proc s" and "reserves (lk_pc s t) path" "\<And>i. owns (lk_pc s t) i \<longleftrightarrow> owns pc' i"
    "\<And>p i. has_open pc' p i \<Longrightarrow> has_open (lk_pc s t) p i" "\<And>p. \<not> reserves pc' p"
  shows "lock_inv proc (lock_unreserve proc t path pc' s)"
proof -
  note D = lock_invD [OF I]
  have "reserves (lk_pc s t) p \<longleftrightarrow> p = path" for p
    using assms(2) by (cases "lk_pc s t") auto
  then show ?thesis
    by (intro inv_move [OF I, of _ t pc'])
      (use assms(3-5) D(1) [of t] D(2,3) D(4) [of _ t] in \<open>auto simp: lock_unreserve_def\<close>)
qed

lemma inv_open:
  assumes I: "lock_inv proc s" and t: "lk_pc s t = Reserved path"
  shows "lock_inv proc (snd (lock_open proc t path opened s))"
proof (cases opened)
  case (Inl e)
  then show ?thesis
    using inv_unreserve [OF I, of t path Idle] t by (simp add: lock_open_def)
next
  case (Inr u)
  note D = lock_invD [OF I]
  show ?thesis
  proof (cases "lk_files s path")
    case (Some i)
    then show ?thesis
      by (intro inv_move [OF I, of _ t "Opened path i"])
        (use t Inr D(2,3) D(4) [of _ t] D(5) [of t] in \<open>auto simp: lock_open_def\<close>)
  next
    case None
    have fresh: "lk_files s p \<noteq> Some (lk_inodes s)" for p
      using D(2) [of p "lk_inodes s"] by auto
    show ?thesis
    proof (rule inv_move [OF I, of _ t "Opened path (lk_inodes s)"])
      show "i < lk_inodes (snd (lock_open proc t path opened s))" if "lk_files (snd (lock_open proc t path opened s)) p = Some i" for p i
        using that None Inr D(2) [of p i] by (auto simp: lock_open_def split: if_splits)
      show "p = p'" if "lk_files (snd (lock_open proc t path opened s)) p = Some i"
        "lk_files (snd (lock_open proc t path opened s)) p' = Some i" for p p' i
        using that None Inr D(3) [of p i p'] fresh by (auto simp: lock_open_def split: if_splits)
    qed (use None Inr t D(4) [of _ t] D(5) [of t] in \<open>auto simp: lock_open_def\<close>)
  qed
qed

lemma inv_flock:
  assumes I: "lock_inv proc s" and t: "lk_pc s t = Opened path i"
  shows "lock_inv proc (snd (lock_flock proc t name path i s))"
proof (cases "lk_owner s i")
  case None
  note D = lock_invD [OF I]
  have s': "snd (lock_flock proc t name path i s) = s\<lparr>lk_owner := (lk_owner s)(i \<mapsto> t), lk_pc := (lk_pc s)(t := Held path i)\<rparr>"
    using None by (simp add: lock_flock_def try_lock_exclusive_def)
  have "lk_files s path = Some i" "(proc t, path) \<in> lk_reserved s" "lk_owner s j \<noteq> Some t" for j
    using D(1) [of t path i] D(5) [of t path] D(4) [of j t] t by simp_all
  then show ?thesis
    unfolding s' using t None D(2,3) by (intro inv_move [OF I, of _ t "Held path i"]) (auto split: if_splits)
next
  case (Some u)
  then show ?thesis
    using inv_unreserve [OF I, of t path Idle] t by (simp add: lock_flock_def try_lock_exclusive_def)
qed

lemma inv_close:
  assumes I: "lock_inv proc s" and t: "lk_pc s t = Unreserved path i"
  shows "lock_inv proc (lock_close t i s)"
proof -
  note D = lock_invD [OF I]
  have "lk_owner s i = Some t"
    using D(4) [of i t] t by simp
  then have "lk_owner s i = Some u \<Longrightarrow> u = t" for u
    by simp
  then show ?thesis
    by (intro inv_move [OF I, of _ t Idle])
      (use t D(2,3) D(4) [of _ t] in \<open>auto simp: lock_close_def\<close>)
qed

lemma inv_exit:
  assumes I: "lock_inv proc s"
  shows "lock_inv proc (process_exit proc p s)"
proof -
  note D = lock_invD [OF I]
  show ?thesis
    unfolding lock_inv_def
  proof (intro conjI allI impI)
    show "lk_owner (process_exit proc p s) i = Some t \<longleftrightarrow> owns (lk_pc (process_exit proc p s) t) i" for i t
      using D(4) [of i t] by (auto simp: process_exit_def split: option.splits)
    show "\<exists>t. proc t = q \<and> reserves (lk_pc (process_exit proc p s) t) path" if "(q, path) \<in> lk_reserved (process_exit proc p s)" for q path
      using that D(6) [of q path] by (auto simp: process_exit_def)
  qed (use D in \<open>auto simp: process_exit_def split: if_splits\<close>)
qed

lemma lock_step_inv: "lock_step proc False s s' \<Longrightarrow> lock_inv proc s \<Longrightarrow> lock_inv proc s'"
proof (induction rule: lock_step.induct)
  case (step_unreserve s t path i)
  then show ?case
    by (intro inv_unreserve) auto
qed (simp_all add: inv_reserve inv_open inv_flock inv_close inv_exit)

lemma lock_reach_inv: "lock_reach proc False s \<Longrightarrow> lock_inv proc s"
  by (induction rule: rtranclp_induct) (auto intro: lock_inv_start lock_step_inv)

text \<open>C28: the producer lock is exclusive. In every interleaving of threads of any processes that take and
  drop locks, fail to open the file or die, at most one thread holds the lock of a topic, as long as
  nobody removes the lock file.\<close>

theorem producer_lock_exclusive:
  assumes "lock_reach proc False s"
  shows "\<exists>h. {t. \<exists>i. lk_pc s t = Held path i} \<subseteq> {h}"
proof -
  note D = lock_invD [OF lock_reach_inv [OF assms]]
  have "t = t'" if "lk_pc s t = Held path i" "lk_pc s t' = Held path j" for t t' i j
  proof -
    have "i = j"
      using that D(1) [of t path i] D(1) [of t' path j] by simp
    then show ?thesis
      using that D(4) [of i t] D(4) [of i t'] by simp
  qed
  then show ?thesis
    by blast
qed



text \<open>The whole call is a sequence of steps.\<close>

lemma reach_step: "lock_reach proc clean s \<Longrightarrow> lock_step proc clean s s' \<Longrightarrow> lock_reach proc clean s'"
  by (rule rtranclp.rtrancl_into_rtrancl)

lemma acquire_reach:
  assumes "lock_reach proc clean s" "lk_pc s t = Idle"
  shows "lock_reach proc clean (snd (acquire_producer_lock proc t name path opened s))"
proof -
  obtain r s1 where a: "lock_reserve proc t name path s = (r, s1)"
    by fastforce
  have R1: "lock_reach proc clean s1"
    using reach_step [OF assms(1) step_reserve [OF assms(2), of _ _ name path]] a by simp
  show ?thesis
  proof (cases r)
    case (Inl e)
    then show ?thesis
      using a R1 by (simp add: acquire_producer_lock_def)
  next
    case (Inr x)
    then have "lk_pc s1 t = Reserved path"
      using a by (auto simp: lock_reserve_def split: if_splits)
    obtain q s2 where b: "lock_open proc t path opened s1 = (q, s2)"
      by fastforce
    have R2: "lock_reach proc clean s2"
      using reach_step [OF R1 step_open [OF \<open>lk_pc s1 t = Reserved path\<close>, of _ _ opened]] b by simp
    show ?thesis
    proof (cases q)
      case (Inl e)
      then show ?thesis
        using a b Inr R2 by (simp add: acquire_producer_lock_def)
    next
      case q: (Inr i)
      then have "lk_pc s2 t = Opened path i"
        using b by (auto simp: lock_open_def split: sum.splits option.splits)
      then show ?thesis
        using reach_step [OF R2 step_flock, of t path i name] a b Inr q by (simp add: acquire_producer_lock_def)
    qed
  qed
qed

text \<open>The outcome of taking the producer lock. While no other thread is between the steps of taking or
  dropping a lock, the call is refused with AlreadyPublishing, and nothing is changed, when some thread
  of whatever process holds the lock of the topic; otherwise it succeeds.\<close>

theorem acquire_producer_lock_outcome:
  assumes "lock_reach proc False s" "\<forall>u. lk_pc s u = Idle \<or> (\<exists>p i. lk_pc s u = Held p i)" "lk_pc s t = Idle"
  shows "if \<exists>u i. lk_pc s u = Held path i then acquire_producer_lock proc t name path (Inr ()) s = (Inl (AlreadyPublishing name), s)
    else \<exists>s' i. acquire_producer_lock proc t name path (Inr ()) s = (Inr (), s') \<and> lk_pc s' t = Held path i
      \<and> (\<forall>u. u \<noteq> t \<longrightarrow> lk_pc s' u = lk_pc s u)"
proof -
  note D = lock_invD [OF lock_reach_inv [OF assms(1)]]
  have holder: "\<exists>i. lk_pc s u = Held path i" if "reserves (lk_pc s u) path" for u
    using that assms(2) by (metis pc_simps(11) pc_simps(14))
  show ?thesis
  proof (cases "\<exists>u i. lk_pc s u = Held path i")
    case True
    then obtain u i where u: "lk_pc s u = Held path i"
      by blast
    have f: "lk_files s path = Some i" "lk_owner s i = Some u"
      using D(1) [of u path i] D(4) [of i u] u by simp_all
    have "acquire_producer_lock proc t name path (Inr ()) s = (Inl (AlreadyPublishing name), s)"
    proof (cases "(proc t, path) \<in> lk_reserved s")
      case True
      then show ?thesis
        by (simp add: acquire_producer_lock_def lock_reserve_def)
    next
      case False
      have "s\<lparr>lk_reserved := lk_reserved s, lk_pc := (lk_pc s)(t := Idle)\<rparr> = s"
        using assms(3) by (simp add: fun_upd_idem)
      then show ?thesis
        using False f by (simp add: acquire_producer_lock_def lock_reserve_def lock_open_def lock_flock_def try_lock_exclusive_def
            lock_unreserve_def)
    qed
    then show ?thesis
      using True by simp
  next
    case False
    then have res: "(proc t, path) \<notin> lk_reserved s"
      using D(6) [of "proc t" path] holder by blast
    have free: "lk_owner s i = None" if "lk_files s path = Some i \<or> i = lk_inodes s" for i
    proof (rule ccontr)
      assume "lk_owner s i \<noteq> None"
      then obtain u where "owns (lk_pc s u) i"
        using D(4) [of i] by auto
      then obtain p where p: "lk_pc s u = Held p i"
        using assms(2) by (metis pc_simps(6) pc_simps(9))
      then have "lk_files s p = Some i"
        using D(1) [of u p i] by simp
      then have "p = path"
        using that D(2) [of p i] D(3) [of p i path] by auto
      then show False
        using p False by blast
    qed
    have "\<exists>s' i. acquire_producer_lock proc t name path (Inr ()) s = (Inr (), s') \<and> lk_pc s' t = Held path i
      \<and> (\<forall>u. u \<noteq> t \<longrightarrow> lk_pc s' u = lk_pc s u)"
      using res free by (cases "lk_files s path")
        (auto simp: acquire_producer_lock_def lock_reserve_def lock_open_def lock_flock_def try_lock_exclusive_def)
    then show ?thesis
      using False by simp
  qed
qed

text \<open>C29: clean\_topic breaks the producer lock. While a topic is cleaned, a publisher of another process
  can have opened the lock file that is removed; it then locks the removed inode, a third publisher
  locks the new file, and both hold the lock of the topic.\<close>

theorem clean_topic_breaks_lock:
  assumes "t \<noteq> u" "t \<noteq> c" "u \<noteq> c" "proc t \<noteq> proc u" "proc t \<noteq> proc c" "proc u \<noteq> proc c"
  shows "\<exists>s i j. lock_reach proc True s \<and> lk_pc s t = Held path i \<and> lk_pc s u = Held path j \<and> i \<noteq> j
    \<and> lk_files s path = Some j"
proof -
  define s1 where "s1 = snd (acquire_producer_lock proc c name path (Inr ()) lock_start)"
  define s2 where "s2 = snd (lock_reserve proc t name path s1)"
  define s3 where "s3 = snd (lock_open proc t path (Inr ()) s2)"
  define s4 where "s4 = remove_lock_file path s3"
  define s5 where "s5 = lock_unreserve proc c path (Unreserved path 0) s4"
  define s6 where "s6 = lock_close c 0 s5"
  define s7 where "s7 = snd (lock_flock proc t name path 0 s6)"
  define s8 where "s8 = snd (acquire_producer_lock proc u name path (Inr ()) s7)"
  note ops = lock_reserve_def lock_open_def lock_flock_def try_lock_exclusive_def lock_unreserve_def lock_close_def remove_lock_file_def
    acquire_producer_lock_def lock_start_def
  have e1: "s1 = \<lparr>lk_reserved = {(proc c, path)}, lk_files = [path \<mapsto> 0], lk_inodes = 1, lk_owner = [0 \<mapsto> c],
      lk_pc = (\<lambda>_. Idle)(c := Held path 0)\<rparr>"
    by (simp add: s1_def ops)
  have e3: "s3 = s1\<lparr>lk_reserved := {(proc t, path), (proc c, path)}, lk_pc := (\<lambda>_. Idle)(c := Held path 0, t := Opened path 0)\<rparr>"
    "lk_pc s2 t = Reserved path"
    using assms by (simp_all add: s2_def s3_def e1 ops)
  have e6: "s6 = \<lparr>lk_reserved = {(proc t, path)}, lk_files = Map.empty, lk_inodes = 1, lk_owner = Map.empty,
      lk_pc = (\<lambda>_. Idle)(t := Opened path 0)\<rparr>"
    using assms by (auto simp: s4_def s5_def s6_def e3(1) e1 ops fun_eq_iff)
  have e7: "s7 = s6\<lparr>lk_owner := [0 \<mapsto> t], lk_pc := (\<lambda>_. Idle)(t := Held path 0)\<rparr>"
    by (simp add: s7_def e6 ops)
  have e8: "lk_pc s8 t = Held path 0" "lk_pc s8 u = Held path 1" "lk_files s8 path = Some 1"
    using assms by (simp_all add: s8_def e7 e6 ops)
  have "lock_reach proc True s1"
    unfolding s1_def by (rule acquire_reach) (simp_all add: lock_start_def)
  then have "lock_reach proc True s2"
    unfolding s2_def by (rule reach_step) (rule step_reserve, use assms in \<open>simp add: e1\<close>)
  then have "lock_reach proc True s3"
    unfolding s3_def by (rule reach_step) (rule step_open [OF e3(2)])
  then have "lock_reach proc True s4"
    unfolding s4_def by (rule reach_step) (rule step_clean [where t = c and i = 0], use assms in \<open>simp_all add: e3 e1\<close>)
  then have "lock_reach proc True s5"
    unfolding s5_def by (rule reach_step) (rule step_unreserve, use assms in \<open>simp add: s4_def remove_lock_file_def e3 e1\<close>)
  then have "lock_reach proc True s6"
    unfolding s6_def by (rule reach_step) (rule step_close [where path = path], simp add: s5_def lock_unreserve_def)
  then have "lock_reach proc True s7"
    unfolding s7_def by (rule reach_step) (rule step_flock, simp add: e6)
  then have "lock_reach proc True s8"
    unfolding s8_def by (rule acquire_reach) (use assms in \<open>simp add: e7 e6\<close>)
  then show ?thesis
    using e8 by (intro exI [of _ s8] exI [of _ 0] exI [of _ 1]) simp
qed

theorem producer_lock_exclusive_witness:
  "\<exists>(s :: lock_sys) h. lk_pc s 4 = Held ''/t'' 0 \<and> {t. \<exists>i. lk_pc s t = Held ''/t'' i} \<subseteq> {h}"
proof -
  let ?s = "snd (acquire_producer_lock (\<lambda>t. t div 2) 4 ''topic'' ''/t'' (Inr ()) lock_start)"
  have "lock_reach (\<lambda>t. t div 2) False ?s"
    by (rule acquire_reach) (simp_all add: lock_start_def)
  from producer_lock_exclusive [OF this, of "''/t''"] show ?thesis
    by (intro exI [of _ ?s])
      (simp add: acquire_producer_lock_def lock_reserve_def lock_open_def lock_flock_def try_lock_exclusive_def lock_start_def)
qed

theorem clean_topic_breaks_lock_witness:
  "\<exists>(s :: lock_sys) i j. lk_pc s 0 = Held ''/t'' i \<and> lk_pc s 1 = Held ''/t'' j \<and> i \<noteq> j \<and> lk_files s ''/t'' = Some j"
proof -
  have "(0 :: nat) \<noteq> 1" "(0 :: nat) \<noteq> 2" "(1 :: nat) \<noteq> 2"
    by simp_all
  from clean_topic_breaks_lock [of 0 1 2 "\<lambda>t. t" "''/t''", OF this this] show ?thesis
    by blast
qed


theorem acquire_producer_lock_outcome_witness:
  "\<exists>(s :: lock_sys) s' i. lk_pc s 4 = Held ''/t'' 0
    \<and> acquire_producer_lock (\<lambda>t. t div 2) 5 ''topic'' ''/t'' (Inr ()) s = (Inl (AlreadyPublishing ''topic''), s)
    \<and> acquire_producer_lock (\<lambda>t. t div 2) 9 ''other'' ''/o'' (Inr ()) s = (Inr (), s') \<and> lk_pc s' 9 = Held ''/o'' i"
proof -
  let ?p = "\<lambda>t :: nat. t div 2"
  define s where "s = snd (acquire_producer_lock ?p 4 ''topic'' ''/t'' (Inr ()) lock_start)"
  have r: "lock_reach ?p False s"
    unfolding s_def by (rule acquire_reach) (simp_all add: lock_start_def)
  have pc: "lk_pc s = (\<lambda>_. Idle)(4 := Held ''/t'' 0)"
    by (simp add: s_def acquire_producer_lock_def lock_reserve_def lock_open_def lock_flock_def try_lock_exclusive_def lock_start_def)
  then have quiet: "\<forall>u. lk_pc s u = Idle \<or> (\<exists>p i. lk_pc s u = Held p i)" "lk_pc s 5 = Idle" "lk_pc s 9 = Idle"
    by auto
  have h: "\<exists>u i. lk_pc s u = Held ''/t'' i" "\<not> (\<exists>u i. lk_pc s u = Held ''/o'' i)"
    using pc by auto
  have a: "acquire_producer_lock ?p 5 ''topic'' ''/t'' (Inr ()) s = (Inl (AlreadyPublishing ''topic''), s)"
    using acquire_producer_lock_outcome [OF r quiet(1,2), of "''/t''" "''topic''"] h(1) by (simp only: if_True)
  obtain s' i where b: "acquire_producer_lock ?p 9 ''other'' ''/o'' (Inr ()) s = (Inr (), s')" "lk_pc s' 9 = Held ''/o'' i"
    using acquire_producer_lock_outcome [OF r quiet(1,3), of "''/o''" "''other''"] h(2) by (simp only: if_False) blast
  have "lk_pc s 4 = Held ''/t'' 0"
    by (simp add: pc)
  then show ?thesis
    using a b by blast
qed

end
