(* ===== verification/Bus.thy ===== *)
theory Bus
  imports Subscriber Producer_Lock
begin

text \<open>
  The namespace of topics, \<open>crates/mmbus/src/bus.rs\<close>, and the handle it gives to a subscriber,
  \<open>subscription.rs\<close>. A bus caches one publisher per topic and creates it on first use. What creating
  a publisher finds (the producer lock, the files of the topic, the socket) is an argument of each
  call that may create one; the files of the topic it leaves are part of the result.
\<close>

subsection \<open>State (bus.rs, lines 30--51, 229--234)\<close>

record bus =
  bs_name :: string
  bs_config :: bus_config
  bs_publishers :: "(string \<times> topic) list"

definition bus_with_config :: "string \<Rightarrow> bus_config \<Rightarrow> bus" where
  "bus_with_config name config = \<lparr>bs_name = name, bs_config = config, bs_publishers = []\<rparr>"

definition bus_new :: "string \<Rightarrow> string \<Rightarrow> bus" where
  "bus_new tmp name = bus_with_config name (bus_config_default tmp)"

definition topic_config_of :: "bus \<Rightarrow> bus_config" where
  "topic_config_of b = (bs_config b)\<lparr>cf_base_dir := cf_base_dir (bs_config b) @ ''/'' @ bs_name b\<rparr>"

text \<open>The files of a topic, and what a creation finds.\<close>

type_synonym topic_files = "bytes option \<times> disk"

record create_env =
  cr_now :: u64
  cr_lock :: "bus_error + unit"
  cr_bound :: "io_error + unit"
  cr_files :: topic_files

subsection \<open>Publishing (bus.rs, lines 53--90, 163--169, 224--227)\<close>

definition bus_create_publisher ::
    "(bytes \<Rightarrow> u32) \<Rightarrow> create_env \<Rightarrow> string \<Rightarrow> bus \<Rightarrow> ((bus_error + topic) \<times> bus \<times> topic_files) option" where
  "bus_create_publisher crc env name b =
    (case publisher_create crc (cr_now env) (topic_config_of b) (cr_lock env) (cr_bound env) (fst (cr_files env)) (snd (cr_files env)) of
       None \<Rightarrow> None
     | Some (Inl e, files) \<Rightarrow> Some (Inl e, b, files)
     | Some (Inr p, files) \<Rightarrow> Some (Inr p, b\<lparr>bs_publishers := AList.update name p (bs_publishers b)\<rparr>, files))"

text \<open>The shape of every call that needs the publisher of a topic: the cached one, or a new one.\<close>

definition with_publisher ::
    "(bytes \<Rightarrow> u32) \<Rightarrow> create_env \<Rightarrow> string \<Rightarrow> (topic \<Rightarrow> ((bus_error + 'a) \<times> topic) option) \<Rightarrow> bus
      \<Rightarrow> ((bus_error + 'a) \<times> bus) option" where
  "with_publisher crc env name call b =
    (let store = \<lambda>b'. map_option (\<lambda>(res, p). (res, b'\<lparr>bs_publishers := AList.update name p (bs_publishers b')\<rparr>))
     in case map_of (bs_publishers b) name of
          Some p \<Rightarrow> store b (call p)
        | None \<Rightarrow> (case bus_create_publisher crc env name b of
            None \<Rightarrow> None
          | Some (Inl e, b', _) \<Rightarrow> Some (Inl e, b')
          | Some (Inr p, b', _) \<Rightarrow> store b' (call p)))"

definition bus_publish ::
    "(bytes \<Rightarrow> u32) \<Rightarrow> create_env \<Rightarrow> penv \<Rightarrow> string \<Rightarrow> bytes \<Rightarrow> bus \<Rightarrow> ((bus_error + unit) \<times> bus) option" where
  "bus_publish crc cenv env name data b = with_publisher crc cenv name (publish crc env data) b"

definition bus_publish_many ::
    "(bytes \<Rightarrow> u32) \<Rightarrow> create_env \<Rightarrow> penv \<Rightarrow> string \<Rightarrow> bytes list \<Rightarrow> bus \<Rightarrow> ((bus_error + nat) \<times> bus) option" where
  "bus_publish_many crc cenv env name items b = with_publisher crc cenv name (publish_many crc env items) b"

definition bus_wait_for_subscribers ::
    "(bytes \<Rightarrow> u32) \<Rightarrow> create_env \<Rightarrow> string \<Rightarrow> nat \<Rightarrow> ((io_error + client) list \<times> bool) list \<Rightarrow> bus
      \<Rightarrow> ((bus_error + unit) \<times> bus) option" where
  "bus_wait_for_subscribers crc cenv name n turns b = with_publisher crc cenv name (wait_for_subscribers n turns) b"

text \<open>The publisher leaves the cache; without one, a fresh one is made and not cached.\<close>

definition take_publisher ::
    "(bytes \<Rightarrow> u32) \<Rightarrow> create_env \<Rightarrow> string \<Rightarrow> bus \<Rightarrow> ((bus_error + topic) \<times> bus) option" where
  "take_publisher crc env name b = (case map_of (bs_publishers b) name of
      Some p \<Rightarrow> Some (Inr p, b\<lparr>bs_publishers := AList.delete name (bs_publishers b)\<rparr>)
    | None \<Rightarrow> (case publisher_create crc (cr_now env) (topic_config_of b) (cr_lock env) (cr_bound env)
                    (fst (cr_files env)) (snd (cr_files env)) of
        None \<Rightarrow> None | Some (res, _) \<Rightarrow> Some (res, b)))"

subsection \<open>Monitoring and removal (bus.rs, lines 173--219)\<close>

definition bus_stats :: "string \<Rightarrow> bus \<Rightarrow> topic_stats option" where
  "bus_stats name b = map_option publisher_stats (map_of (bs_publishers b) name)"

definition bus_slow_subscribers :: "string \<Rightarrow> u64 \<Rightarrow> bus \<Rightarrow> (nat \<times> u64) list" where
  "bus_slow_subscribers name threshold b = (case map_of (bs_publishers b) name of
      None \<Rightarrow> [] | Some p \<Rightarrow> slow_subscribers p threshold)"

text \<open>The directory of the topic, whether it exists, the producer lock once the own publisher is
  gone, and what \<open>remove\_dir\_all\<close> returns; the result says whether the directory is gone.\<close>

definition clean_topic ::
    "string \<Rightarrow> bool \<Rightarrow> bus_error + unit \<Rightarrow> io_error + unit \<Rightarrow> bus \<Rightarrow> (bus_error + bool) \<times> bus" where
  "clean_topic name dir_exists lock removed b =
    (let b' = b\<lparr>bs_publishers := AList.delete name (bs_publishers b)\<rparr> in
     (if \<not> dir_exists then Inr False
      else case lock of
        Inl e \<Rightarrow> Inl e
      | Inr _ \<Rightarrow> (case removed of Inl e \<Rightarrow> Inl (BusIo e) | Inr _ \<Rightarrow> Inr True), b'))"

subsection \<open>Subscribing (bus.rs, lines 93--161; subscription.rs)\<close>

text \<open>The start positions of the three ways to subscribe.\<close>

definition bus_subscribe :: "string \<Rightarrow> connect_env \<Rightarrow> ((bus_error + subscriber) \<times> bytes option) option" where
  "bus_subscribe name env = connect_now name env"

definition subscribe_with_history ::
    "string \<Rightarrow> u64 \<Rightarrow> connect_env \<Rightarrow> ((bus_error + subscriber) \<times> bytes option) option" where
  "subscribe_with_history name n_messages_back env = connect_with name env (HistoryBack n_messages_back)"

definition subscribe_from ::
    "string \<Rightarrow> u64 \<Rightarrow> connect_env \<Rightarrow> ((bus_error + subscriber) \<times> bytes option) option" where
  "subscribe_from name cursor env = connect_with name env (Explicit cursor)"

text \<open>The iterator of a subscription ends when the publisher is gone.\<close>

definition subscription_next ::
    "(bytes \<Rightarrow> u32) \<Rightarrow> disk \<Rightarrow> wait_env list \<Rightarrow> subscriber \<Rightarrow> bytes
      \<Rightarrow> ((bus_error + bytes) option \<times> subscriber \<times> bytes) option" where
  "subscription_next crc d waits s m = map_option
     (\<lambda>(res, s', m'). (case res of
          Inr msg \<Rightarrow> Some (Inr msg)
        | Inl e \<Rightarrow> if e = BusIo IoUnexpectedEof \<or> e = BusIo IoConnectionReset then None else Some (Inl e), s', m'))
     (receive_into crc d waits s m)"

subsection \<open>Topics side by side\<close>

text \<open>A call on one topic, and a run of calls with their results.\<close>

datatype bus_call = CallPublish bytes penv | CallMany "bytes list" penv | CallWait nat "((io_error + client) list \<times> bool) list"

fun publisher_call :: "(bytes \<Rightarrow> u32) \<Rightarrow> bus_call \<Rightarrow> topic \<Rightarrow> ((bus_error + nat) \<times> topic) option" where
  "publisher_call crc (CallPublish data env) p = map_option (\<lambda>(res, p'). (map_sum id (\<lambda>_. 1) res, p')) (publish crc env data p)"
| "publisher_call crc (CallMany items env) p = publish_many crc env items p"
| "publisher_call crc (CallWait n turns) p = map_option (\<lambda>(res, p'). (map_sum id (\<lambda>_. 0) res, p')) (wait_for_subscribers n turns p)"

fun bus_calls ::
    "(bytes \<Rightarrow> u32) \<Rightarrow> (string \<times> create_env \<times> bus_call) list \<Rightarrow> bus \<Rightarrow> ((string \<times> (bus_error + nat)) list \<times> bus) option" where
  "bus_calls crc [] b = Some ([], b)"
| "bus_calls crc ((name, cenv, c) # cs) b = (case with_publisher crc cenv name (publisher_call crc c) b of
     None \<Rightarrow> None
   | Some (r, b') \<Rightarrow> map_option (\<lambda>(rs, b''). ((name, r) # rs, b'')) (bus_calls crc cs b'))"

end
