(* ===== verification/Bus_Properties.thy ===== *)
theory Bus_Properties
  imports Bus Publisher_Properties
begin

text \<open>
  The bus composes publishers, locks and subscribers without mixing them: topics are independent, and
  a topic whose publisher was taken is refused by the bus that gave it away, because the producer
  lock is held. The names are those of \<open>Bus\<close> and \<open>Producer_Lock\<close>.
\<close>

subsection \<open>Topics side by side\<close>

text \<open>One topic alone, with or without its publisher yet.\<close>

fun topic_calls ::
    "(bytes \<Rightarrow> u32) \<Rightarrow> bus_config \<Rightarrow> (create_env \<times> bus_call) list \<Rightarrow> topic option
      \<Rightarrow> ((bus_error + nat) list \<times> topic option) option" where
  "topic_calls crc cfg [] st = Some ([], st)"
| "topic_calls crc cfg ((env, c) # cs) st =
    (case (case st of
         Some p \<Rightarrow> Some (Inr p)
       | None \<Rightarrow> map_option fst (publisher_create crc (cr_now env) cfg (cr_lock env) (cr_bound env) (fst (cr_files env)) (snd (cr_files env)))) of
       None \<Rightarrow> None
     | Some (Inl e) \<Rightarrow> map_option (\<lambda>(rs, st'). (Inl e # rs, st')) (topic_calls crc cfg cs None)
     | Some (Inr p) \<Rightarrow> (case publisher_call crc c p of
         None \<Rightarrow> None
       | Some (r, p') \<Rightarrow> map_option (\<lambda>(rs, st'). (r # rs, st')) (topic_calls crc cfg cs (Some p'))))"

lemma with_publisher_frame:
  assumes "with_publisher crc env name call b = Some (r, b')"
  shows "topic_config_of b' = topic_config_of b"
    "k \<noteq> name \<Longrightarrow> map_of (bs_publishers b') k = map_of (bs_publishers b) k"
  using assms unfolding with_publisher_def
  by (auto simp: Let_def bus_create_publisher_def topic_config_of_def update_conv' split: option.splits sum.splits prod.splits)

lemma with_publisher_topic:
  assumes "with_publisher crc env name (publisher_call crc c) b = Some (r, b')"
  shows "topic_calls crc (topic_config_of b) ((env, c) # cs) (map_of (bs_publishers b) name)
    = map_option (\<lambda>(rs, st'). (r # rs, st')) (topic_calls crc (topic_config_of b) cs (map_of (bs_publishers b') name))"
  using assms unfolding with_publisher_def
  by (auto simp: Let_def bus_create_publisher_def update_conv' split: option.splits sum.splits prod.splits)


text \<open>After take\_publisher the bus cannot publish on the topic. The taken publisher holds the lock of
  the topic, so the publish that would create a second one finds the lock taken and fails with
  AlreadyPublishing, and the bus stays as it was, as the documentation says.\<close>

theorem taken_topic_refused:
  assumes "lock_reach proc False s" "\<forall>u. lk_pc s u = Idle \<or> (\<exists>p i. lk_pc s u = Held p i)" "lk_pc s t = Idle"
    "lk_pc s u = Held path i" "take_publisher crc env0 name b = Some (Inr p, b1)"
    "cr_lock env = fst (acquire_producer_lock proc t name path (Inr ()) s)"
  shows "bus_publish crc env penv name data b1 = Some (Inl (AlreadyPublishing name), b1)"
proof -
  have h: "\<exists>u i. lk_pc s u = Held path i"
    using assms(4) by blast
  have "fst (acquire_producer_lock proc t name path (Inr ()) s) = Inl (AlreadyPublishing name)"
    using acquire_producer_lock_outcome [OF assms(1-3), of path name] h by (simp only: if_True fst_conv)
  moreover have "map_of (bs_publishers b1) name = None"
    using assms(5) by (auto simp: take_publisher_def delete_conv' split: option.splits)
  ultimately show ?thesis
    using assms(6) by (simp add: bus_publish_def with_publisher_def bus_create_publisher_def publisher_create_def)
qed

subsection \<open>Witnesses\<close>

definition demo_bus :: bus where
  "demo_bus = \<lparr>bs_name = ''b'', bs_config = bus_config_default ''/tmp'', bs_publishers = [(''t'', demo_topic), (''u'', demo_topic)]\<rparr>"

definition demo_create :: create_env where
  "demo_create = \<lparr>cr_now = 0, cr_lock = Inl (AlreadyPublishing ''v''), cr_bound = Inr (), cr_files = (None, demo_empty)\<rparr>"


theorem taken_topic_refused_witness:
  "\<exists>(s :: lock_sys) (b1 :: bus). lk_pc s 4 = Held ''/t'' 0 \<and> take_publisher demo_crc demo_create ''t'' demo_bus = Some (Inr demo_topic, b1)
    \<and> bus_publish demo_crc (demo_create\<lparr>cr_lock := fst (acquire_producer_lock (\<lambda>t. t div 2) 5 ''t'' ''/t'' (Inr ()) s)\<rparr>) demo_penv ''t'' [7] b1
      = Some (Inl (AlreadyPublishing ''t''), b1)"
proof -
  let ?p = "\<lambda>t :: nat. t div 2"
  define s where "s = snd (acquire_producer_lock ?p 4 ''t'' ''/t'' (Inr ()) lock_start)"
  have r: "lock_reach ?p False s"
    unfolding s_def by (rule acquire_reach) (simp_all add: lock_start_def)
  have pc: "lk_pc s = (\<lambda>_. Idle)(4 := Held ''/t'' 0)"
    by (simp add: s_def acquire_producer_lock_def lock_reserve_def lock_open_def lock_flock_def try_lock_exclusive_def lock_start_def)
  then have q: "\<forall>u. lk_pc s u = Idle \<or> (\<exists>p i. lk_pc s u = Held p i)" "lk_pc s 5 = Idle" "lk_pc s 4 = Held ''/t'' 0"
    by auto
  obtain b1 where b1: "take_publisher demo_crc demo_create ''t'' demo_bus = Some (Inr demo_topic, b1)"
    by (simp add: take_publisher_def demo_bus_def)
  show ?thesis
    using taken_topic_refused [OF r q b1, of "demo_create\<lparr>cr_lock := fst (acquire_producer_lock ?p 5 ''t'' ''/t'' (Inr ()) s)\<rparr>" demo_penv "[7]"]
      q(3) b1 by (intro exI [of _ s] exI [of _ b1]) simp
qed

end
