(* ===== verification/Prometheus.thy ===== *)
theory Prometheus
  imports Publisher
begin

text \<open>
  The exporter of statistics, \<open>crates/mmbus/src/prometheus.rs\<close>: the lines of the text format for one
  or several topics, and the single-threaded server that answers \<open>GET /metrics\<close>. A Rust string is
  its UTF-8 bytes, as characters. What a connection sends is the list of results of \<open>read_line\<close>; when
  the list ends the client is silent.
\<close>

subsection \<open>Rendering (lines 46--273)\<close>

text \<open>\<open>Display\<close> of an integer.\<close>

fun show_nat :: "nat \<Rightarrow> string" where
  "show_nat n = (if n < 10 then [digit_char n] else show_nat (n div 10) @ [digit_char n])"

declare show_nat.simps [simp del]

definition escape_char :: "char \<Rightarrow> string" where
  "escape_char c =
    (if c = CHR 0x5C then [CHR 0x5C, CHR 0x5C]
     else if c = CHR 0x22 then [CHR 0x5C, CHR 0x22]
     else if c = CHR 0x0A then [CHR 0x5C, CHR ''n'']
     else if (of_char c :: nat) < 0x20 then ''_''
     else [c])"

definition escape_label :: "string \<Rightarrow> string" where
  "escape_label raw = concat (map escape_char raw)"

text \<open>A metric: name, help text, type, value. U+2212 is the bytes \<open>E2 88 92\<close>.\<close>

datatype metric = Metric (m_name: string) (m_help: string) (m_kind: string) (m_value: nat)

abbreviation minus_sign :: string where
  "minus_sign \<equiv> [CHR 0xE2, CHR 0x88, CHR 0x92]"

definition max_lag :: "u64 list \<Rightarrow> nat" where
  "max_lag lags = fold max (map unat lags) 0"

definition topic_metrics :: "topic_stats \<Rightarrow> metric list" where
  "topic_metrics s =
    [Metric ''mmbus_published_total'' ''Successful publishes since publisher creation.'' ''counter'' (ts_published s),
     Metric ''mmbus_full_rejected_total'' ''Publishes rejected with Error::Full under BackpressurePolicy::Error.'' ''counter''
       (ts_full_rejected s),
     Metric ''mmbus_subscribers_dropped_total''
       ''Subscribers dropped by the publisher because their wakeup call failed.'' ''counter'' (ts_dropped s),
     Metric ''mmbus_wakeups_sent_total''
       ''Wakeup syscalls fired (coalesced; below published_total under bursts).'' ''counter'' (ts_wakeups s),
     Metric ''mmbus_connected_sockets'' ''Subscriber sockets currently accepted.'' ''gauge'' (ts_connected_sockets s),
     Metric ''mmbus_ring_tail'' ''Next slot the producer will write (monotonic during a publisher's lifetime).'' ''counter''
       (unat (rs_tail (ts_ring s))),
     Metric ''mmbus_active_subscribers'' ''Number of subscribers with a claimed cursor slot.'' ''gauge''
       (rs_active_subscribers (ts_ring s)),
     Metric ''mmbus_max_subscriber_lag''
       (''Highest per-subscriber lag (tail '' @ minus_sign @ '' cursor) across all active subscribers.'') ''gauge''
       (max_lag (rs_lags (ts_ring s)))]"

definition wal_metrics :: "wal_stats \<Rightarrow> metric list" where
  "wal_metrics w =
    [Metric ''mmbus_wal_appends_total'' ''Successful WAL appends.'' ''counter'' (ws_appends w),
     Metric ''mmbus_wal_append_bytes_total'' ''Payload bytes appended to the WAL.'' ''counter'' (ws_append_bytes w),
     Metric ''mmbus_wal_flushes_total'' ''Completed flush_sync calls.'' ''counter'' (ws_flushes w),
     Metric ''mmbus_wal_pending_cursor'' ''Highest cursor appended.'' ''counter'' (unat (ws_pending w)),
     Metric ''mmbus_wal_durable_cursor'' ''Highest cursor fsynced to disk.'' ''counter'' (unat (ws_durable w)),
     Metric ''mmbus_wal_replay_lag''
       (''pending_cursor '' @ minus_sign @ '' durable_cursor; how many records aren't yet durable.'') ''gauge''
       (unat (saturating_sub (ws_pending w) (ws_durable w))),
     Metric ''mmbus_wal_total_bytes'' ''Total on-disk bytes across all segments.'' ''gauge'' (ws_total_bytes w),
     Metric ''mmbus_wal_segments'' ''Number of segment files on disk.'' ''gauge'' (ws_segments w)]"

definition all_metrics :: "topic_stats \<Rightarrow> metric list" where
  "all_metrics s = topic_metrics s @ (case ts_wal s of None \<Rightarrow> [] | Some w \<Rightarrow> wal_metrics w)"

text \<open>The three lines of a metric.\<close>

definition help_line :: "metric \<Rightarrow> string" where
  "help_line m = ''# HELP '' @ m_name m @ '' '' @ m_help m"

definition type_line :: "metric \<Rightarrow> string" where
  "type_line m = ''# TYPE '' @ m_name m @ '' '' @ m_kind m"

definition sample_line :: "string \<Rightarrow> metric \<Rightarrow> string" where
  "sample_line topic m = m_name m @ ''{topic='' @ CHR 0x22 # topic @ CHR 0x22 # ''} '' @ show_nat (m_value m)"

definition writeln :: "string \<Rightarrow> string \<Rightarrow> string" where
  "writeln out line = out @ line @ [CHR 0x0A]"

definition render_into :: "string \<Rightarrow> string \<Rightarrow> topic_stats \<Rightarrow> string" where
  "render_into out topic s =
    (let topic' = escape_label topic
     in foldl (\<lambda>out m. writeln (writeln (writeln out (help_line m)) (type_line m)) (sample_line topic' m)) out (all_metrics s))"

definition render :: "string \<Rightarrow> topic_stats \<Rightarrow> string" where
  "render topic s = render_into [] topic s"

definition render_all :: "(string \<times> topic_stats) list \<Rightarrow> string" where
  "render_all topics = foldl (\<lambda>out (name, s). render_into out name s) [] topics"

subsection \<open>Serving (lines 277--354)\<close>

text \<open>\<open>split_whitespace\<close>: the length of the white-space character at the front of a UTF-8 string.\<close>

fun white_len :: "string \<Rightarrow> nat" where
  "white_len [] = 0"
| "white_len (a # s) =
    (if of_char a \<in> {9 :: nat, 10, 11, 12, 13, 32} then 1
     else case s of
       [] \<Rightarrow> 0
     | b # s' \<Rightarrow>
         if a = CHR 0xC2 \<and> (b = CHR 0x85 \<or> b = CHR 0xA0) then 2
         else (case s' of
             [] \<Rightarrow> 0
           | c # _ \<Rightarrow>
               if a = CHR 0xE1 \<and> b = CHR 0x9A \<and> c = CHR 0x80
                 \<or> a = CHR 0xE2 \<and> b = CHR 0x80 \<and> ((0x80 :: nat) \<le> of_char c \<and> of_char c \<le> (0x8A :: nat)
                     \<or> of_char c \<in> {0xA8 :: nat, 0xA9, 0xAF})
                 \<or> a = CHR 0xE2 \<and> b = CHR 0x81 \<and> c = CHR 0x9F
                 \<or> a = CHR 0xE3 \<and> b = CHR 0x80 \<and> c = CHR 0x80 then 3 else 0))"

function skip_white :: "string \<Rightarrow> string" where
  "skip_white s = (if s \<noteq> [] \<and> white_len s \<noteq> 0 then skip_white (drop (white_len s) s) else s)"
  by pat_completeness auto
termination
  by (relation "measure length") auto

declare skip_white.simps [simp del]

fun take_word :: "string \<Rightarrow> string \<times> string" where
  "take_word [] = ([], [])"
| "take_word (c # s) = (if white_len (c # s) \<noteq> 0 then ([], c # s) else (case take_word s of (w, r) \<Rightarrow> (c # w, r)))"

text \<open>The first two words of the request line; a word that is missing is empty.\<close>

definition request_words :: "string \<Rightarrow> string \<times> string" where
  "request_words line = (case take_word (skip_white line) of
      (verb, rest) \<Rightarrow> (verb, fst (take_word (skip_white rest))))"

datatype line_result = Line string | LineEof | LineFailed

text \<open>At most 64 header lines are read; \<open>None\<close> when the client falls silent before the loop ends.\<close>

fun drain_headers :: "nat \<Rightarrow> line_result list \<Rightarrow> unit option" where
  "drain_headers 0 ls = Some ()"
| "drain_headers (Suc n) [] = None"
| "drain_headers (Suc n) (LineEof # ls) = Some ()"
| "drain_headers (Suc n) (LineFailed # ls) = Some ()"
| "drain_headers (Suc n) (Line header # ls) =
    (if header = [CHR 0x0D, CHR 0x0A] \<or> header = [CHR 0x0A] then Some () else drain_headers n ls)"

definition http_response :: "string \<Rightarrow> string \<Rightarrow> string" where
  "http_response status body =
    ''HTTP/1.1 '' @ status @ [CHR 0x0D, CHR 0x0A]
    @ ''Content-Type: text/plain; version=0.0.4'' @ [CHR 0x0D, CHR 0x0A]
    @ ''Content-Length: '' @ show_nat (length body) @ [CHR 0x0D, CHR 0x0A]
    @ ''Connection: close'' @ [CHR 0x0D, CHR 0x0A] @ [CHR 0x0D, CHR 0x0A] @ body"

text \<open>The answer to a request line; \<open>scrape\<close> is the closure of the caller with its state.\<close>

definition answer :: "('s \<Rightarrow> string \<times> 's) \<Rightarrow> string \<Rightarrow> 's \<Rightarrow> string \<times> 's" where
  "answer scrape line st = (case request_words line of (verb, path) \<Rightarrow>
     if verb \<noteq> ''GET'' then (http_response ''405 Method Not Allowed'' [], st)
     else if path \<noteq> ''/metrics'' then (http_response ''404 Not Found'' [], st)
     else (case scrape st of (body, st') \<Rightarrow> (http_response ''200 OK'' body, st')))"

text \<open>One connection: \<open>None\<close> when the server waits for it for ever, else what it is sent. Once the
  client has closed its side every further read finds the end too.\<close>

definition serve_connection ::
    "('s \<Rightarrow> string \<times> 's) \<Rightarrow> line_result list \<Rightarrow> 's \<Rightarrow> (string option \<times> 's) option" where
  "serve_connection scrape ls st = (case ls of
      [] \<Rightarrow> None
    | LineFailed # _ \<Rightarrow> Some (None, st)
    | l # ls' \<Rightarrow> (case drain_headers 64 (if l = LineEof then [LineEof] else ls') of
        None \<Rightarrow> None
      | Some _ \<Rightarrow> (case answer scrape (case l of Line line \<Rightarrow> line | _ \<Rightarrow> []) st of (resp, st') \<Rightarrow> Some (Some resp, st'))))"

datatype incoming = AcceptFailed | Accepted "line_result list"

text \<open>The accept loop over the connections that come in: what each is sent, and the connection on
  which the server hangs, with those never looked at.\<close>

fun serve_blocking ::
    "('s \<Rightarrow> string \<times> 's) \<Rightarrow> incoming list \<Rightarrow> 's \<Rightarrow> string option list \<times> incoming list \<times> 's" where
  "serve_blocking scrape [] st = ([], [], st)"
| "serve_blocking scrape (AcceptFailed # cs) st = (case serve_blocking scrape cs st of (rs, left, st') \<Rightarrow> (None # rs, left, st'))"
| "serve_blocking scrape (Accepted ls # cs) st = (case serve_connection scrape ls st of
      None \<Rightarrow> ([], Accepted ls # cs, st)
    | Some (r, st1) \<Rightarrow> (case serve_blocking scrape cs st1 of (rs, left, st') \<Rightarrow> (r # rs, left, st')))"

end
