(* ===== verification/Prometheus_Properties.thy ===== *)
theory Prometheus_Properties
  imports Prometheus
begin

text \<open>
  What the exporter promises: a reader of the text format gets back the metrics and the names of the
  topics, whatever characters the names have, and the server answers every request by its verb and
  path, until a client falls silent. The reader is the specification: the text format as its
  documentation describes it.
\<close>

subsection \<open>A reader of the text format\<close>

fun split_lines :: "string \<Rightarrow> string list" where
  "split_lines [] = [[]]"
| "split_lines (c # s) = (if c = CHR 0x0A then [] # split_lines s
     else (case split_lines s of [] \<Rightarrow> [[c]] | l # ls \<Rightarrow> (c # l) # ls))"

fun read_label :: "string \<Rightarrow> (string \<times> string) option" where
  "read_label [] = None"
| "read_label (c # s) =
    (if c = CHR 0x22 then Some ([], s)
     else if c = CHR 0x5C then (case s of
         [] \<Rightarrow> None
       | d # s' \<Rightarrow>
           if d = CHR ''n'' then map_option (apfst (Cons (CHR 0x0A))) (read_label s')
           else if d = CHR 0x22 \<or> d = CHR 0x5C then map_option (apfst (Cons d)) (read_label s')
           else None)
     else map_option (apfst (Cons c)) (read_label s))"

datatype prom_line = Blank | HelpLine string string | TypeLine string string | Sample string string nat | Junk

definition split_at :: "char \<Rightarrow> string \<Rightarrow> string \<times> string" where
  "split_at c s = (takeWhile (\<lambda>x. x \<noteq> c) s, dropWhile (\<lambda>x. x \<noteq> c) s)"

definition read_sample :: "string \<Rightarrow> prom_line" where
  "read_sample l = (case split_at (CHR ''{'') l of (name, r) \<Rightarrow>
     if take 8 r \<noteq> ''{topic='' @ [CHR 0x22] then Junk
     else (case read_label (drop 8 r) of
         None \<Rightarrow> Junk
       | Some (topic, r') \<Rightarrow> if take 2 r' = ''} '' \<and> drop 2 r' \<noteq> [] \<and> list_all is_digit (drop 2 r')
           then Sample name topic (dec_value (drop 2 r')) else Junk))"

definition read_line :: "string \<Rightarrow> prom_line" where
  "read_line l =
    (if l = [] then Blank
     else if take 7 l = ''# HELP '' then (case split_at (CHR '' '') (drop 7 l) of (n, r) \<Rightarrow> HelpLine n (drop 1 r))
     else if take 7 l = ''# TYPE '' then (case split_at (CHR '' '') (drop 7 l) of (n, r) \<Rightarrow> TypeLine n (drop 1 r))
     else read_sample l)"

definition read_exposition :: "string \<Rightarrow> prom_line list" where
  "read_exposition doc = map read_line (split_lines doc)"

text \<open>A topic as the exporter shows it: control characters other than the line feed are replaced.\<close>

definition shown_topic :: "string \<Rightarrow> string" where
  "shown_topic raw = map (\<lambda>c. if c \<noteq> CHR 0x0A \<and> (of_char c :: nat) < 0x20 then CHR ''_'' else c) raw"

definition shown_metric :: "string \<Rightarrow> metric \<Rightarrow> prom_line list" where
  "shown_metric topic m = [HelpLine (m_name m) (m_help m), TypeLine (m_name m) (m_kind m), Sample (m_name m) (shown_topic topic) (m_value m)]"

subsection \<open>Numbers\<close>

lemma digit_char_digit [simp]: "is_digit (digit_char n)" "of_char (digit_char n) = (48 + n mod 10 :: nat)"
proof -
  have "(48 + n mod 10) mod 256 = 48 + n mod 10"
    by (rule mod_less) (use mod_less_divisor [of 10 n] in linarith)
  then show "of_char (digit_char n) = (48 + n mod 10 :: nat)"
    by (simp add: digit_char_def of_char_of)
  then show "is_digit (digit_char n)"
    using mod_less_divisor [of 10 n] unfolding is_digit_def by linarith
qed

lemma show_nat_reads:
  "dec_value (show_nat n) = n" "show_nat n \<noteq> []" "list_all is_digit (show_nat n)"
proof -
  have "dec_value (show_nat n) = n \<and> show_nat n \<noteq> [] \<and> list_all is_digit (show_nat n)"
  proof (induction n rule: show_nat.induct)
    case (1 n)
    show ?case
    proof (cases "n < 10")
      case True
      then show ?thesis
        by (simp add: show_nat.simps [of n] dec_value_def)
    next
      case False
      then show ?thesis
        using 1 by (simp add: show_nat.simps [of n] dec_value_snoc)
    qed
  qed
  then show "dec_value (show_nat n) = n" "show_nat n \<noteq> []" "list_all is_digit (show_nat n)"
    by simp_all
qed

lemma digit_not_newline: "is_digit c \<Longrightarrow> c \<noteq> CHR 0x0A"
  by (auto simp: is_digit_def)

subsection \<open>Labels\<close>

lemma read_label_escape: "read_label (escape_label raw @ CHR 0x22 # rest) = Some (shown_topic raw, rest)"
proof (induction raw)
  case Nil
  then show ?case
    by (simp add: escape_label_def shown_topic_def)
next
  case (Cons c raw)
  have "escape_label (c # raw) = escape_char c @ escape_label raw"
    "shown_topic (c # raw) = (if c \<noteq> CHR 0x0A \<and> (of_char c :: nat) < 0x20 then CHR ''_'' else c) # shown_topic raw"
    by (simp_all add: escape_label_def shown_topic_def)
  then show ?case
    using Cons.IH by (auto simp: escape_char_def)
qed

lemma escape_no_newline: "CHR 0x0A \<notin> set (escape_label raw)"
  by (auto simp: escape_label_def escape_char_def split: if_splits)

subsection \<open>Lines\<close>

lemma split_lines_not_Nil: "split_lines s \<noteq> []"
  by (cases s) (auto split: list.splits)

lemma split_lines_line: "CHR 0x0A \<notin> set l \<Longrightarrow> split_lines (l @ CHR 0x0A # s) = l # split_lines s"
  by (induction l) (auto split: list.splits)

lemma split_at_append: "c \<notin> set a \<Longrightarrow> split_at c (a @ c # r) = (a, c # r)"
  by (induction a) (auto simp: split_at_def)

text \<open>What every metric of the exporter satisfies.\<close>

definition metric_ok :: "metric \<Rightarrow> bool" where
  "metric_ok m \<longleftrightarrow> m_name m \<noteq> [] \<and> hd (m_name m) \<noteq> CHR ''#'' \<and> CHR '' '' \<notin> set (m_name m) \<and> CHR ''{'' \<notin> set (m_name m)
     \<and> CHR 0x0A \<notin> set (m_name m) \<and> CHR 0x0A \<notin> set (m_help m) \<and> CHR 0x0A \<notin> set (m_kind m)"

lemma topic_metrics_ok: "list_all metric_ok (topic_metrics s)"
  by (simp add: topic_metrics_def metric_ok_def)

lemma wal_metrics_ok: "list_all metric_ok (wal_metrics w)"
  by (simp add: wal_metrics_def metric_ok_def)

lemma all_metrics_ok: "list_all metric_ok (all_metrics s)"
  by (auto simp: all_metrics_def topic_metrics_ok wal_metrics_ok split: option.splits)

lemma metric_lines_read:
  assumes "metric_ok m"
  shows "read_line (help_line m) = HelpLine (m_name m) (m_help m)"
    "read_line (type_line m) = TypeLine (m_name m) (m_kind m)"
    "read_line (sample_line (escape_label topic) m) = Sample (m_name m) (shown_topic topic) (m_value m)"
proof -
  note M = assms [unfolded metric_ok_def]
  show "read_line (help_line m) = HelpLine (m_name m) (m_help m)"
    using M split_at_append [of "CHR '' ''" "m_name m"] by (simp add: read_line_def help_line_def)
  show "read_line (type_line m) = TypeLine (m_name m) (m_kind m)"
    using M split_at_append [of "CHR '' ''" "m_name m"] by (simp add: read_line_def type_line_def)
  obtain c n where n: "m_name m = c # n" "c \<noteq> CHR ''#''"
    using M by (cases "m_name m") auto
  have "read_sample (sample_line (escape_label topic) m) = Sample (m_name m) (shown_topic topic) (m_value m)"
    using M split_at_append [of "CHR ''{''" "m_name m"] read_label_escape show_nat_reads [of "m_value m"]
    by (simp add: read_sample_def sample_line_def)
  then show "read_line (sample_line (escape_label topic) m) = Sample (m_name m) (shown_topic topic) (m_value m)"
    by (simp add: read_line_def sample_line_def n)
qed

lemma metric_lines_one_line:
  assumes "metric_ok m"
  shows "CHR 0x0A \<notin> set (help_line m)" "CHR 0x0A \<notin> set (type_line m)" "CHR 0x0A \<notin> set (sample_line (escape_label topic) m)"
  using assms escape_no_newline [of topic] show_nat_reads(3) [of "m_value m"] digit_not_newline
  by (auto simp: metric_ok_def help_line_def type_line_def sample_line_def list_all_iff)

text \<open>The text of one metric, and of a topic, in front of more text.\<close>

definition metric_text :: "string \<Rightarrow> metric \<Rightarrow> string" where
  "metric_text topic m = help_line m @ CHR 0x0A # type_line m @ CHR 0x0A # sample_line (escape_label topic) m @ [CHR 0x0A]"

lemma render_into_append: "render_into out topic s = out @ concat (map (metric_text topic) (all_metrics s))"
proof -
  have "foldl (\<lambda>out m. writeln (writeln (writeln out (help_line m)) (type_line m)) (sample_line (escape_label topic) m)) out ms
      = out @ concat (map (metric_text topic) ms)" for ms
    by (induction ms arbitrary: out) (simp_all add: writeln_def metric_text_def)
  then show ?thesis
    by (simp add: render_into_def)
qed

lemma read_metrics:
  "list_all metric_ok ms \<Longrightarrow> read_exposition (concat (map (metric_text topic) ms) @ rest)
    = concat (map (shown_metric topic) ms) @ read_exposition rest"
proof (induction ms)
  case (Cons m ms)
  then have m: "metric_ok m"
    by simp
  show ?case
    using Cons metric_lines_read [OF m] metric_lines_one_line [OF m]
    by (simp add: metric_text_def shown_metric_def read_exposition_def split_lines_line)
qed simp


subsection \<open>Serving\<close>

text \<open>A header line after which the server answers, and a client that gets that far: the request line has
  come or failed, and after it the end of the headers or 64 lines of them.\<close>

definition ends_headers :: "line_result \<Rightarrow> bool" where
  "ends_headers l \<longleftrightarrow> l \<in> {LineEof, LineFailed, Line [CHR 0x0D, CHR 0x0A], Line [CHR 0x0A]}"

fun complete_request :: "incoming \<Rightarrow> bool" where
  "complete_request AcceptFailed = True"
| "complete_request (Accepted []) = False"
| "complete_request (Accepted (l # hs)) = (l \<in> {LineEof, LineFailed} \<or> 64 \<le> length hs \<or> list_ex ends_headers hs)"

fun reply :: "string \<Rightarrow> incoming \<Rightarrow> string option" where
  "reply body (Accepted (Line l # hs)) = Some
     (if fst (request_words l) \<noteq> ''GET'' then http_response ''405 Method Not Allowed'' []
      else if snd (request_words l) \<noteq> ''/metrics'' then http_response ''404 Not Found'' []
      else http_response ''200 OK'' body)"
| "reply body (Accepted (LineEof # hs)) = Some (http_response ''405 Method Not Allowed'' [])"
| "reply body c = None"

lemma drain_headers_ends: "drain_headers n ls = (if n \<le> length ls \<or> list_ex ends_headers ls then Some () else None)"
  by (induction n ls rule: drain_headers.induct) (auto simp: ends_headers_def)

lemma request_words_empty: "request_words [] = ([], [])"
  by (simp add: request_words_def skip_white.simps)

lemma serve_connection_spec:
  "serve_connection (\<lambda>st. (body, st)) ls st = (if complete_request (Accepted ls) then Some (reply body (Accepted ls), st) else None)"
proof (cases ls)
  case (Cons l hs)
  then show ?thesis
    by (cases l) (auto simp: serve_connection_def drain_headers_ends answer_def request_words_empty ends_headers_def split: prod.splits)
qed (simp add: serve_connection_def)

text \<open>The exporter answers in turn, until a client falls silent. Every connection whose request has
  come whole, or has ended or failed, is answered by the verb and the path of its request line: 405 for
  another verb, 404 for another path, 200 with the text of the caller and its length; but the first client
  that sends no full request and keeps the connection open holds the server for ever, and no connection
  after it is looked at.\<close>

theorem exporter_serves_until_stall:
  "serve_blocking (\<lambda>st. (body, st)) cs st = (map (reply body) (takeWhile complete_request cs), dropWhile complete_request cs, st)"
proof (induction cs)
  case (Cons c cs)
  then show ?case
    by (cases c) (auto simp: serve_connection_spec)
qed simp

end
