(* ===== verification/Quic.thy ===== *)
theory Quic
  imports Bridge
begin

text \<open>
  The QUIC transport of the bridge, \<open>crates/mmbus-bridge/src/quic.rs\<close>: the identity on disk, the
  pinning of a peer's certificate, the outbound forwarder, the accepted connections, and the thread
  between the drop-oldest queue and the bounded channel of the runtime. The digest, the generator of
  certificates and what the runtime reports (connections, reads, writes, time-outs) are arguments.
\<close>

subsection \<open>Identity (lines 27--139)\<close>

record identity =
  id_cert_der :: bytes
  id_key_der :: bytes
  id_fingerprint :: bytes

datatype quic_error = Rcgen | Rustls | Quinn | IdentityIo bytes

definition hex_digit :: "u8 \<Rightarrow> u8" where
  "hex_digit n = (if n < 10 then 48 + n else 55 + n)"

definition hex_byte :: "u8 \<Rightarrow> bytes" where
  "hex_byte b = [hex_digit (drop_bit 4 b), hex_digit (b AND 15)]"

definition fingerprint_der :: "(bytes \<Rightarrow> bytes) \<Rightarrow> bytes \<Rightarrow> bytes" where
  "fingerprint_der sha256 der = sha256_prefix @ concat (map hex_byte (sha256 der))"

text \<open>Files by path. The environment says which files can be read and written, whether the directory of
  the certificate and the permissions of the key can be set, and what the generator returns. A write
  that fails leaves the file as it was.\<close>

type_synonym id_files = "bytes \<Rightarrow> bytes option"

record id_env =
  ie_generated :: "(bytes \<times> bytes) option"
  ie_mkdir_fails :: "bytes option"
  ie_readable :: "bytes \<Rightarrow> bool"
  ie_writable :: "bytes \<Rightarrow> bool"
  ie_chmod :: bool

definition identity_of :: "(bytes \<Rightarrow> bytes) \<Rightarrow> bytes \<Rightarrow> bytes \<Rightarrow> identity" where
  "identity_of sha256 cert key = \<lparr>id_cert_der = cert, id_key_der = key, id_fingerprint = fingerprint_der sha256 cert\<rparr>"

definition identity_generate :: "(bytes \<Rightarrow> bytes) \<Rightarrow> id_env \<Rightarrow> quic_error + identity" where
  "identity_generate sha256 env = (case ie_generated env of
      None \<Rightarrow> Inl Rcgen
    | Some (cert, key) \<Rightarrow> Inr (identity_of sha256 cert key))"

definition read_path :: "id_env \<Rightarrow> bytes \<Rightarrow> id_files \<Rightarrow> quic_error + bytes" where
  "read_path env path fs = (case fs path of
      Some x \<Rightarrow> if ie_readable env path then Inr x else Inl (IdentityIo path)
    | None \<Rightarrow> Inl (IdentityIo path))"

definition identity_load :: "(bytes \<Rightarrow> bytes) \<Rightarrow> id_env \<Rightarrow> bytes \<Rightarrow> bytes \<Rightarrow> id_files \<Rightarrow> quic_error + identity" where
  "identity_load sha256 env cert_path key_path fs = (case read_path env cert_path fs of
      Inl e \<Rightarrow> Inl e
    | Inr cert \<Rightarrow> (case read_path env key_path fs of
        Inl e \<Rightarrow> Inl e
      | Inr key \<Rightarrow> Inr (identity_of sha256 cert key)))"

definition identity_save :: "id_env \<Rightarrow> identity \<Rightarrow> bytes \<Rightarrow> bytes \<Rightarrow> id_files \<Rightarrow> (quic_error + unit) \<times> id_files" where
  "identity_save env i cert_path key_path fs =
    (if \<not> ie_writable env cert_path then (Inl (IdentityIo cert_path), fs)
     else let fs1 = fs(cert_path \<mapsto> id_cert_der i)
     in if \<not> ie_writable env key_path then (Inl (IdentityIo key_path), fs1)
     else let fs2 = fs1(key_path \<mapsto> id_key_der i)
     in if \<not> ie_chmod env then (Inl (IdentityIo key_path), fs2) else (Inr (), fs2))"

definition gen_or_load_identity ::
    "(bytes \<Rightarrow> bytes) \<Rightarrow> id_env \<Rightarrow> bytes \<Rightarrow> bytes \<Rightarrow> id_files \<Rightarrow> (quic_error + identity) \<times> id_files" where
  "gen_or_load_identity sha256 env cert_path key_path fs =
    (if fs cert_path \<noteq> None \<and> fs key_path \<noteq> None then (identity_load sha256 env cert_path key_path fs, fs)
     else case ie_mkdir_fails env of
       Some parent \<Rightarrow> (Inl (IdentityIo parent), fs)
     | None \<Rightarrow> (case identity_generate sha256 env of
         Inl e \<Rightarrow> (Inl e, fs)
       | Inr i \<Rightarrow> (case identity_save env i cert_path key_path fs of
           (Inl e, fs') \<Rightarrow> (Inl e, fs')
         | (Inr _, fs') \<Rightarrow> (Inr i, fs'))))"

subsection \<open>Pinning (lines 143--226)\<close>

definition ct_eq :: "bytes \<Rightarrow> bytes \<Rightarrow> bool" where
  "ct_eq a b =
    (if length a \<noteq> length b then False
     else foldl (\<lambda>diff (x, y). diff OR (x XOR y)) 0 (zip a b) = 0)"

datatype rustls_error = PinMismatch bytes bytes | Tls12NotOfferedOrEnabled

definition verify_server_cert :: "(bytes \<Rightarrow> bytes) \<Rightarrow> bytes \<Rightarrow> bytes \<Rightarrow> rustls_error + unit" where
  "verify_server_cert sha256 expected_fp end_entity =
    (let actual = fingerprint_der sha256 end_entity
     in if \<not> ct_eq actual expected_fp then Inl (PinMismatch expected_fp actual) else Inr ())"

definition verify_tls12_signature :: "rustls_error + unit" where
  "verify_tls12_signature = Inl Tls12NotOfferedOrEnabled"

subsection \<open>Outbound (lines 273--407)\<close>

datatype quic_event = QShutdown | QFrame bytes write_result | QClosed | QTimeout

fun quic_pump :: "quic_event list \<Rightarrow> bytes \<Rightarrow> bytes \<times> bool" where
  "quic_pump [] wire = (wire, True)"
| "quic_pump (QShutdown # es) wire = (wire, True)"
| "quic_pump (QClosed # es) wire = (wire, True)"
| "quic_pump (QTimeout # es) wire = quic_pump es wire"
| "quic_pump (QFrame b w # es) wire = (case w of Written \<Rightarrow> quic_pump es (wire @ b) | WriteFailed n \<Rightarrow> (wire @ take n b, False))"

text \<open>The stream is opened, the hello written, then the frames; what is on the wire, and whether the
  session ended without an error.\<close>

definition run_quic_connection :: "bool \<Rightarrow> bytes \<Rightarrow> write_result \<Rightarrow> quic_event list \<Rightarrow> bytes \<times> bool" where
  "run_quic_connection open_bi hello w es =
    (if \<not> open_bi then ([], False)
     else case w of WriteFailed n \<Rightarrow> (take n hello, False) | Written \<Rightarrow> quic_pump es hello)"

text \<open>One turn of \<open>outbound_main\<close>. Three outcomes end the forwarder for good.\<close>

datatype quic_attempt =
    ClientConfigFailed | EndpointUnparseable | BindFailed | SpawnFailed | HandshakeFailed
  | QuicConnected bool write_result "quic_event list"

definition max_backoff :: nat where "max_backoff = 1000"

fun outbound_main :: "bytes \<Rightarrow> nat \<Rightarrow> quic_attempt list \<Rightarrow> bytes list \<times> nat list" where
  "outbound_main hello backoff [] = ([], [])"
| "outbound_main hello backoff (ClientConfigFailed # as) = ([], [])"
| "outbound_main hello backoff (EndpointUnparseable # as) = ([], [])"
| "outbound_main hello backoff (SpawnFailed # as) = ([], [])"
| "outbound_main hello backoff (BindFailed # as) =
    (case outbound_main hello (min (backoff * 2) max_backoff) as of (wires, sleeps) \<Rightarrow> (wires, backoff # sleeps))"
| "outbound_main hello backoff (HandshakeFailed # as) =
    (case outbound_main hello (min (backoff * 2) max_backoff) as of (wires, sleeps) \<Rightarrow> (wires, backoff # sleeps))"
| "outbound_main hello backoff (QuicConnected open_bi w es # as) =
    (case outbound_main hello 50 as of (wires, sleeps) \<Rightarrow> (fst (run_quic_connection open_bi hello w es) # wires, sleeps))"

fun sleep_interruptible :: "nat \<Rightarrow> bool list \<Rightarrow> nat list" where
  "sleep_interruptible left [] = []"
| "sleep_interruptible left (shutdown # fs) =
    (if left = 0 \<or> shutdown then [] else (let chunk = min left 50 in chunk # sleep_interruptible (left - chunk) fs))"

subsection \<open>Inbound (lines 411--579)\<close>

definition handle_inbound_frame :: "u64 \<Rightarrow> bytes set \<Rightarrow> frame \<Rightarrow> (bytes \<times> bytes) list" where
  "handle_inbound_frame our_origin_id receive_topics f =
    (if f_origin_id f = our_origin_id then []
     else if f_type f \<noteq> Msg then []
     else if \<not> utf8_valid (f_topic f) then []
     else if f_topic f \<in> receive_topics then [(f_topic f, f_payload f)] else [])"

text \<open>The loop over the frames in the buffer: whether the connection goes on, the rest of the buffer,
  whether the peer is authenticated, and what has been sent to the publisher thread.\<close>

function quic_frames ::
    "u64 \<Rightarrow> bytes set \<Rightarrow> bytes set \<Rightarrow> bytes \<Rightarrow> bool \<Rightarrow> (bytes \<times> bytes) list \<Rightarrow> bool \<times> bytes \<times> bool \<times> (bytes \<times> bytes) list" where
  "quic_frames our topics psks buf authenticated sent = (case decode buf of
      Inr (frame, n) \<Rightarrow>
        if \<not> authenticated then
          if f_type frame \<noteq> PeerHello then (False, buf, authenticated, sent)
          else (case parse_peer_hello (f_payload frame) of
              Inl _ \<Rightarrow> (False, buf, authenticated, sent)
            | Inr parsed \<Rightarrow>
                if ph_psk parsed \<notin> psks then (False, buf, authenticated, sent)
                else quic_frames our topics psks (drop n buf) True sent)
        else quic_frames our topics psks (drop n buf) authenticated (sent @ handle_inbound_frame our topics frame)
    | Inl (Incomplete _ _) \<Rightarrow> (True, buf, authenticated, sent)
    | Inl _ \<Rightarrow> (False, buf, authenticated, sent))"
  by pat_completeness auto
termination
  by (relation "measure (\<lambda>(our, topics, psks, buf, authenticated, sent). length buf)") (auto dest: decode_shrinks)

declare quic_frames.simps [simp del]

fun quic_reads ::
    "u64 \<Rightarrow> bytes set \<Rightarrow> bytes set \<Rightarrow> read_result list \<Rightarrow> bytes \<Rightarrow> bool \<Rightarrow> (bytes \<times> bytes) list
      \<Rightarrow> bool \<times> bytes \<times> bool \<times> (bytes \<times> bytes) list" where
  "quic_reads our topics psks [] buf authenticated sent = (True, buf, authenticated, sent)"
| "quic_reads our topics psks (r # rs) buf authenticated sent = (case r of
      ReadShutdown \<Rightarrow> (False, buf, authenticated, sent)
    | ReadBytes bs \<Rightarrow>
        if bs = [] then (False, buf, authenticated, sent)
        else (case quic_frames our topics psks (buf @ bs) authenticated sent of
          (False, buf', authenticated', sent') \<Rightarrow> (False, buf', authenticated', sent')
        | (True, buf', authenticated', sent') \<Rightarrow> quic_reads our topics psks rs buf' authenticated' sent')
    | ReadEof \<Rightarrow> (False, buf, authenticated, sent)
    | ReadError \<Rightarrow> (False, buf, authenticated, sent)
    | ReadTimeout \<Rightarrow> quic_reads our topics psks rs buf authenticated sent)"

definition handle_connection ::
    "bool \<Rightarrow> u64 \<Rightarrow> bytes set \<Rightarrow> bytes set \<Rightarrow> read_result list \<Rightarrow> bool \<times> bytes \<times> bool \<times> (bytes \<times> bytes) list" where
  "handle_connection accept_bi our topics psks reads =
    (if accept_bi then quic_reads our topics psks reads [] False [] else (False, [], False, []))"

text \<open>The accept loop: what each accepted connection sends to the publisher thread.\<close>

datatype listen_event = AcceptTimeout | EndpointClosed | ListenShutdown | Incoming bool bool "read_result list"

fun quic_accepts :: "u64 \<Rightarrow> bytes set \<Rightarrow> bytes set \<Rightarrow> listen_event list \<Rightarrow> (bytes \<times> bytes) list list" where
  "quic_accepts our topics psks [] = []"
| "quic_accepts our topics psks (AcceptTimeout # es) = quic_accepts our topics psks es"
| "quic_accepts our topics psks (EndpointClosed # es) = []"
| "quic_accepts our topics psks (ListenShutdown # es) = []"
| "quic_accepts our topics psks (Incoming handshake accept_bi reads # es) =
    (if handshake then (case handle_connection accept_bi our topics psks reads of (_, _, _, sent) \<Rightarrow> [sent]) else [])
    @ quic_accepts our topics psks es"

definition quic_listener :: "bool \<Rightarrow> bool \<Rightarrow> u64 \<Rightarrow> bytes set \<Rightarrow> bytes set \<Rightarrow> listen_event list \<Rightarrow> (bytes \<times> bytes) list list" where
  "quic_listener bound has_addr our topics psks es = (if bound \<and> has_addr then quic_accepts our topics psks es else [])"

subsection \<open>Between queue and runtime (lines 583--609; bridge.rs, lines 178--182)\<close>

text \<open>The queue of a peer, the frame in the hands of the thread, and the channel of the runtime with its
  capacity and whether its receiver is alive.\<close>

record quic_link =
  ql_queue :: "bytes shared"
  ql_hand :: "bytes option"
  ql_channel :: "bytes list"
  ql_capacity :: nat
  ql_receiver :: bool
  ql_running :: bool

definition quic_link_start :: "nat \<Rightarrow> quic_link option" where
  "quic_link_start peer_buffer_max = map_option
     (\<lambda>q. \<lparr>ql_queue = q, ql_hand = None, ql_channel = [], ql_capacity = max peer_buffer_max 1, ql_receiver = True, ql_running = True\<rparr>)
     (channel peer_buffer_max)"

text \<open>A turn of the thread: it takes a frame from the queue, or hands the one it has to the channel,
  which it waits for while the channel is full; it ends at the shutdown flag, or when the receiver is
  gone, with the frame in its hands.\<close>

definition queue_bridge_turn :: "bool \<Rightarrow> quic_link \<Rightarrow> quic_link" where
  "queue_bridge_turn shutdown l =
    (if \<not> ql_running l then l
     else case ql_hand l of
       Some b \<Rightarrow>
         if \<not> ql_receiver l then l\<lparr>ql_hand := None, ql_running := False\<rparr>
         else if length (ql_channel l) < ql_capacity l then l\<lparr>ql_hand := None, ql_channel := ql_channel l @ [b]\<rparr>
         else l
     | None \<Rightarrow>
         if shutdown then l\<lparr>ql_running := False\<rparr>
         else (case pop_now (ql_queue l) of (out, q) \<Rightarrow> l\<lparr>ql_queue := q, ql_hand := out\<rparr>))"

definition link_send :: "bytes \<Rightarrow> quic_link \<Rightarrow> quic_link" where
  "link_send b l = l\<lparr>ql_queue := snd (send b (ql_queue l))\<rparr>"

definition link_recv :: "quic_link \<Rightarrow> bytes option \<times> quic_link" where
  "link_recv l = (case ql_channel l of [] \<Rightarrow> (None, l) | b # bs \<Rightarrow> (Some b, l\<lparr>ql_channel := bs\<rparr>))"

end
