(* ===== verification/Quic_Properties.thy ===== *)
theory Quic_Properties
  imports Quic Bridge_Properties
begin

text \<open>
  The QUIC transport keeps what the TCP transport promises: an accepted connection publishes the same, a
  forwarder writes the same. Its identity is stable, a certificate is accepted exactly when it is the
  pinned one, and the frames of a peer keep their order; but the channel of the runtime in front of the
  drop-oldest queue holds on to the oldest frames while a peer is away.
\<close>

subsection \<open>Pinning\<close>

lemma or_zero: "(a :: u8) OR b = 0 \<longleftrightarrow> a = 0 \<and> b = 0"
  by (auto simp: bit_eq_iff bit_or_iff)

lemma diff_zero:
  "foldl (\<lambda>diff (x, y). diff OR (x XOR y)) (d :: u8) ps = 0 \<longleftrightarrow> d = 0 \<and> list_all (\<lambda>(x, y). x = y) ps"
proof (induction ps arbitrary: d)
  case (Cons p ps)
  obtain x y where p: "p = (x, y)"
    by (cases p)
  have "x XOR y = 0 \<longleftrightarrow> x = y"
  proof
    assume "x XOR y = 0"
    then have "x XOR (x XOR y) = x"
      by simp
    then show "x = y"
      by (simp add: xor.assoc [symmetric] del: xor.assoc)
  qed simp
  moreover have "d OR (x XOR y) = 0 \<longleftrightarrow> d = 0 \<and> x XOR y = 0"
    by (rule or_zero)
  ultimately show ?case
    using Cons.IH [of "d OR (x XOR y)"] by (auto simp: p)
qed simp

lemma ct_eq_iff: "ct_eq a b \<longleftrightarrow> a = b"
proof -
  have "length a = length b \<Longrightarrow> list_all (\<lambda>(x, y). x = y) (zip a b) \<longleftrightarrow> a = b"
    by (induction a b rule: list_induct2) auto
  then show ?thesis
    by (auto simp: ct_eq_def diff_zero)
qed

text \<open>C33: a certificate is accepted exactly when its fingerprint is the pinned one, byte for byte; no name, no
  chain and no other certificate counts, and a handshake of TLS 1.2 is refused.\<close>

theorem pinned_certificate_only:
  "(verify_server_cert sha256 pin der = Inr () \<longleftrightarrow> pin = fingerprint_der sha256 der)
    \<and> (verify_server_cert sha256 pin der = Inl e \<longleftrightarrow> pin \<noteq> fingerprint_der sha256 der \<and> e = PinMismatch pin (fingerprint_der sha256 der))
    \<and> verify_tls12_signature \<noteq> Inr ()"
  by (auto simp: verify_server_cert_def ct_eq_iff Let_def verify_tls12_signature_def)

definition is_upper_hex :: "u8 \<Rightarrow> bool" where
  "is_upper_hex c \<longleftrightarrow> (48 \<le> c \<and> c \<le> 57) \<or> (65 \<le> c \<and> c \<le> 70)"

lemma hex_digit_upper: "n < 16 \<Longrightarrow> is_upper_hex (hex_digit n)"
  by (auto simp: is_upper_hex_def hex_digit_def word_le_nat_alt word_less_nat_alt unat_word_ariths)

lemma hex_byte_upper: "list_all is_upper_hex (hex_byte b)" "length (hex_byte b) = 2"
proof -
  have "drop_bit 4 b < 16"
  proof -
    have "unat (drop_bit 4 b) < 16"
      using unat_lt2p [of b] by (simp add: unat_drop_bit_eq) (simp add: drop_bit_eq_div)
    then show ?thesis
      by (simp add: word_less_nat_alt)
  qed
  moreover have "b AND 15 < 16"
  proof -
    have "b AND 15 = take_bit 4 b"
      by (simp add: take_bit_eq_mask mask_eq_exp_minus_1)
    then have "unat (b AND 15) < 16"
      by (simp add: take_bit_eq_mod unat_mod_distrib)
    then show ?thesis
      by (simp add: word_less_nat_alt)
  qed
  ultimately show "list_all is_upper_hex (hex_byte b)" "length (hex_byte b) = 2"
    by (simp_all add: hex_byte_def hex_digit_upper)
qed

lemma fingerprint_form:
  "\<exists>hex. fingerprint_der sha256 der = sha256_prefix @ hex \<and> list_all is_upper_hex hex \<and> length hex = 2 * length (sha256 der)"
proof -
  have "list_all is_upper_hex (concat (map hex_byte ds)) \<and> length (concat (map hex_byte ds)) = 2 * length ds" for ds
    by (induction ds) (simp_all add: hex_byte_upper)
  then show ?thesis
    by (auto simp: fingerprint_der_def)
qed

text \<open>A pin that validation accepts and that no certificate has. The configuration takes any
  \<open>sha256:\<close> with hexadecimal digits; with a digit in lower case, or not 64 of them, it is never the
  fingerprint of a certificate, and every handshake with the peer fails.\<close>

theorem valid_pin_never_matches:
  assumes "hex \<noteq> []" "list_all is_ascii_hexdigit hex" "\<not> list_all is_upper_hex hex \<or> length hex \<noteq> 64"
    and "length (sha256 der) = 32"
  shows "(validate_cert_fingerprint peer (sha256_prefix @ hex) :: 'e config_error + unit) = Inr ()
    \<and> verify_server_cert sha256 (sha256_prefix @ hex) der \<noteq> Inr ()"
proof -
  have "(validate_cert_fingerprint peer (sha256_prefix @ hex) :: 'e config_error + unit) = Inr ()"
    using assms(1,2) validate_cert_iff by blast
  moreover have "sha256_prefix @ hex \<noteq> fingerprint_der sha256 der"
    using fingerprint_form [of sha256 der] assms(3,4) by auto
  ultimately show ?thesis
    by (simp add: verify_server_cert_def ct_eq_iff Let_def)
qed

theorem valid_pin_never_matches_witness:
  "verify_server_cert (\<lambda>_. replicate 32 0xAB) (sha256_prefix @ concat (replicate 32 [97, 98])) der \<noteq> Inr ()"
proof -
  let ?hex = "concat (replicate 32 [97 :: u8, 98])"
  have h: "?hex \<noteq> []" "list_all is_ascii_hexdigit ?hex" "\<not> list_all is_upper_hex ?hex \<or> length ?hex \<noteq> 64"
    by (simp_all add: is_ascii_hexdigit_def is_upper_hex_def list_all_iff)
  show ?thesis
    by (rule valid_pin_never_matches [OF h, of "\<lambda>_. replicate 32 0xAB" der, THEN conjunct2]) simp
qed

subsection \<open>Identity\<close>

text \<open>The identity is stable. Once the bridge has loaded or generated an identity it finds the same
  certificate, key and fingerprint again, and leaves the files alone.\<close>

theorem identity_stable:
  assumes "gen_or_load_identity sha256 env cert key fs = (Inr i, fs')" "cert \<noteq> key" "ie_readable env' cert" "ie_readable env' key"
  shows "gen_or_load_identity sha256 env' cert key fs' = (Inr i, fs')"
  using assms
  by (auto simp: gen_or_load_identity_def identity_load_def identity_save_def identity_generate_def identity_of_def read_path_def
      Let_def split: if_splits option.splits sum.splits prod.splits)

definition demo_id_env :: id_env where
  "demo_id_env = \<lparr>ie_generated = Some ([1, 2], [3]), ie_mkdir_fails = None, ie_readable = (\<lambda>_. True), ie_writable = (\<lambda>_. True), ie_chmod = True\<rparr>"

theorem identity_stable_witness:
  "\<exists>i fs. gen_or_load_identity (\<lambda>d. d) demo_id_env [99] [107] (\<lambda>_. None) = (Inr i, fs) \<and> id_cert_der i = [1, 2]
    \<and> gen_or_load_identity (\<lambda>d. d) (demo_id_env\<lparr>ie_generated := None\<rparr>) [99] [107] fs = (Inr i, fs)"
proof -
  obtain i fs where g: "gen_or_load_identity (\<lambda>d. d) demo_id_env [99] [107] (\<lambda>_. None) = (Inr i, fs)" "id_cert_der i = [1, 2]"
    by (simp add: gen_or_load_identity_def identity_generate_def identity_save_def identity_of_def demo_id_env_def)
  show ?thesis
    using identity_stable [OF g(1), of "demo_id_env\<lparr>ie_generated := None\<rparr>"] g by (auto simp: demo_id_env_def)
qed

text \<open>A key that cannot be written when the certificate is new is paired with that certificate from then
  on.\<close>

lemma failed_save_mixes_pair:
  assumes "fs cert = None" "fs key = Some old" "ie_mkdir_fails env = None" "ie_generated env = Some (c, k)"
    "ie_writable env cert" "\<not> ie_writable env key" "cert \<noteq> key" "ie_readable env' cert" "ie_readable env' key"
  shows "\<exists>fs'. gen_or_load_identity sha256 env cert key fs = (Inl (IdentityIo key), fs')
    \<and> gen_or_load_identity sha256 env' cert key fs' = (Inr (identity_of sha256 c old), fs')"
  using assms
  by (auto simp: gen_or_load_identity_def identity_load_def identity_save_def identity_generate_def identity_of_def read_path_def Let_def)

subsection \<open>Inbound\<close>

lemma handle_inbound_frame_eq: "handle_inbound_frame our topics f = handle_frame our topics f"
  by (auto simp: handle_inbound_frame_def handle_frame_def split: frame_type.splits)

definition reader_view :: "reader \<Rightarrow> bool \<times> bytes \<times> bool \<times> (bytes \<times> bytes) list" where
  "reader_view s = (rd_open s, rd_buf s, rd_authenticated s, rd_published s)"

lemma quic_frames_drain:
  assumes "rd_open s"
  shows "quic_frames our topics psks (rd_buf s) (rd_authenticated s) (rd_published s) = reader_view (reader_drain our topics psks s)"
  using assms
proof (induction our topics psks s rule: reader_drain.induct)
  case (1 our topics psks s)
  show ?case
  proof (cases "decode (rd_buf s)")
    case (Inl e)
    then show ?thesis
      using "1.prems" by (subst quic_frames.simps, subst reader_drain.simps) (auto simp: reader_view_def split: decode_error.splits)
  next
    case (Inr fn)
    obtain f n where dec: "decode (rd_buf s) = Inr (f, n)"
      using Inr by (cases fn) auto
    show ?thesis
    proof (cases "rd_authenticated s")
      case True
      then show ?thesis
        using "1.IH"(2) [OF dec refl] "1.prems" dec
        by (subst quic_frames.simps, subst reader_drain.simps) (simp add: handle_inbound_frame_eq)
    next
      case False
      then show ?thesis
        using "1.IH"(1) [OF dec refl] "1.prems" dec
        by (subst quic_frames.simps, subst reader_drain.simps)
          (auto simp: hello_accepted_def reader_view_def split: sum.splits)
    qed
  qed
qed

lemma closed_stays: "\<not> rd_open s \<Longrightarrow> foldl (reader_step our topics psks) s rs = s"
  by (induction rs) simp_all

lemma quic_reads_fold:
  assumes "rd_open s"
  shows "quic_reads our topics psks rs (rd_buf s) (rd_authenticated s) (rd_published s) = reader_view (foldl (reader_step our topics psks) s rs)"
  using assms
proof (induction rs arbitrary: s)
  case (Cons r rs)
  show ?case
  proof (cases "\<exists>b bs. r = ReadBytes (b # bs)")
    case True
    then obtain b bs where r: "r = ReadBytes (b # bs)"
      by blast
    define s1 where "s1 = reader_drain our topics psks (s\<lparr>rd_buf := rd_buf s @ b # bs\<rparr>)"
    have d: "quic_frames our topics psks (rd_buf s @ b # bs) (rd_authenticated s) (rd_published s) = reader_view s1"
      using quic_frames_drain [of "s\<lparr>rd_buf := rd_buf s @ b # bs\<rparr>"] Cons.prems by (simp add: s1_def)
    have f: "foldl (reader_step our topics psks) s (r # rs) = foldl (reader_step our topics psks) s1 rs"
      using Cons.prems by (simp add: r s1_def)
    show ?thesis
      using Cons.IH [of s1] closed_stays [of s1 our topics psks rs] unfolding f
      by (cases "rd_open s1") (simp_all add: r d reader_view_def del: reader_step.simps)
  next
    case False
    show ?thesis
    proof (cases "r = ReadTimeout")
      case True
      have "reader_step our topics psks s ReadTimeout = s"
        by simp
      then show ?thesis
        using Cons True by (simp del: reader_step.simps)
    next
      case live: False
      have "reader_step our topics psks s r = s\<lparr>rd_open := False\<rparr>"
        using False live Cons.prems by (cases r) (auto simp: neq_Nil_conv split: list.splits)
      moreover have "quic_reads our topics psks (r # rs) (rd_buf s) (rd_authenticated s) (rd_published s)
          = reader_view (s\<lparr>rd_open := False\<rparr>)"
        using False live by (cases r) (auto simp: reader_view_def neq_Nil_conv)
      ultimately show ?thesis
        using closed_stays [of "s\<lparr>rd_open := False\<rparr>" our topics psks rs] by (simp del: reader_step.simps quic_reads.simps)
    qed
  qed
qed (simp add: reader_view_def)

text \<open>C32: a connection accepted over QUIC is one accepted over TCP. On the same reads it ends in the same
  state: open or closed at the same frame, authenticated or not, with the same bytes left over, and it
  has sent the same messages to the publisher thread.\<close>

theorem quic_reads_like_tcp:
  "handle_connection True our topics psks reads = reader_view (reader_main our topics psks reads)"
  using quic_reads_fold [of reader_start our topics psks reads]
  by (simp add: handle_connection_def reader_main_def reader_start_def)

subsection \<open>Outbound\<close>

fun tcp_event :: "quic_event \<Rightarrow> pump_event" where
  "tcp_event QShutdown = ShutdownSeen"
| "tcp_event (QFrame b w) = Dequeued b w"
| "tcp_event QClosed = DequeueTimeout True"
| "tcp_event QTimeout = DequeueTimeout False"

text \<open>A stream that cannot be opened is a hello of which nothing is written.\<close>

fun tcp_attempt :: "quic_attempt \<Rightarrow> attempt" where
  "tcp_attempt (QuicConnected open_bi w es) = Connected (if open_bi then w else WriteFailed 0) (map tcp_event es)"
| "tcp_attempt _ = ConnectFailed"

definition ends_forwarder :: "quic_attempt \<Rightarrow> bool" where
  "ends_forwarder a \<longleftrightarrow> a \<in> {ClientConfigFailed, EndpointUnparseable, SpawnFailed}"

lemma quic_pump_like_tcp: "quic_pump es wire = pump (map tcp_event es) wire"
  by (induction es wire rule: quic_pump.induct) (auto split: write_result.splits)

lemma run_quic_like_tcp:
  "run_quic_connection open_bi hello w es = run_connection hello (if open_bi then w else WriteFailed 0) (map tcp_event es)"
  by (auto simp: run_quic_connection_def run_connection_def quic_pump_like_tcp split: write_result.splits)

text \<open>A QUIC forwarder is a TCP forwarder. Up to the first attempt that ends it for good, it writes to each
  connection what the TCP forwarder writes, and waits as long after each failed attempt.\<close>

theorem quic_forwards_like_tcp:
  "outbound_main hello backoff as = forwarder_main hello backoff (map tcp_attempt (takeWhile (\<lambda>a. \<not> ends_forwarder a) as))"
  by (induction hello backoff as rule: outbound_main.induct)
    (simp_all add: ends_forwarder_def max_backoff_def run_quic_like_tcp)

subsection \<open>Between queue and runtime\<close>

datatype link_event = LinkSend bytes | LinkTurn bool | LinkRecv | LinkReceiverGone

fun link_run :: "link_event list \<Rightarrow> quic_link \<Rightarrow> bytes list \<times> quic_link" where
  "link_run [] l = ([], l)"
| "link_run (LinkSend b # es) l = link_run es (link_send b l)"
| "link_run (LinkTurn shutdown # es) l = link_run es (queue_bridge_turn shutdown l)"
| "link_run (LinkReceiverGone # es) l = link_run es (l\<lparr>ql_receiver := False\<rparr>)"
| "link_run (LinkRecv # es) l = (case link_recv l of (out, l') \<Rightarrow> (case link_run es l' of (outs, l'') \<Rightarrow>
     (case_option [] (\<lambda>b. [b]) out @ outs, l'')))"

fun link_sent :: "link_event list \<Rightarrow> bytes list" where
  "link_sent [] = []"
| "link_sent (LinkSend b # es) = b # link_sent es"
| "link_sent (_ # es) = link_sent es"

definition link_ahead :: "quic_link \<Rightarrow> bytes list" where
  "link_ahead l = ql_channel l @ case_option [] (\<lambda>b. [b]) (ql_hand l)"

definition link_contents :: "quic_link \<Rightarrow> bytes list" where
  "link_contents l = link_ahead l @ q_items (q_inner (ql_queue l))"

lemma link_turn:
  assumes "queue_ok (ql_queue l)"
  shows "queue_ok (ql_queue (queue_bridge_turn shutdown l))" "subseq (link_contents (queue_bridge_turn shutdown l)) (link_contents l)"
proof -
  show "queue_ok (ql_queue (queue_bridge_turn shutdown l))"
    using assms by (auto simp: queue_bridge_turn_def pop_now_eq queue_ok_def split: option.splits list.splits)
  show "subseq (link_contents (queue_bridge_turn shutdown l)) (link_contents l)"
  proof (cases "ql_hand l")
    case None
    then show ?thesis
      by (cases "q_items (q_inner (ql_queue l))") (simp_all add: queue_bridge_turn_def pop_now_eq link_contents_def link_ahead_def)
  next
    case (Some b)
    have "subseq (ql_channel l @ xs) (ql_channel l @ b # xs)" for xs
      by (rule list_emb_append_mono) auto
    then show ?thesis
      using Some by (simp add: queue_bridge_turn_def link_contents_def link_ahead_def)
  qed
qed

lemma link_send_contents:
  assumes "queue_ok (ql_queue l)"
  shows "queue_ok (ql_queue (link_send b l))" "subseq (link_contents (link_send b l)) (link_contents l @ [b])"
proof -
  show "queue_ok (ql_queue (link_send b l))"
    using dq.push_ok [OF assms, of b] by (simp add: link_send_def)
  have "subseq (q_items (q_inner (snd (send b (ql_queue l))))) (q_items (q_inner (ql_queue l)) @ [b])"
    using dq.push_items [OF assms, of b] by (cases "q_items (q_inner (ql_queue l))") (auto intro: subseq_Cons')
  then show "subseq (link_contents (link_send b l)) (link_contents l @ [b])"
    unfolding link_contents_def link_ahead_def link_send_def by (auto simp: intro!: list_emb_append_mono)
qed

lemma link_run_subseq:
  assumes "queue_ok (ql_queue l)"
  shows "subseq (fst (link_run es l) @ link_contents (snd (link_run es l))) (link_contents l @ link_sent es)"
  using assms
proof (induction es l rule: link_run.induct)
  case (2 b es l)
  have "subseq (link_contents (link_send b l) @ link_sent es) ((link_contents l @ [b]) @ link_sent es)"
    using link_send_contents(2) [OF 2(2)] by (intro list_emb_append_mono) auto
  moreover have "subseq (fst (link_run es (link_send b l)) @ link_contents (snd (link_run es (link_send b l)))) (link_contents (link_send b l) @ link_sent es)"
    using 2 link_send_contents(1) by blast
  ultimately show ?case
    using subseq_order.order_trans by auto
next
  case (3 shutdown es l)
  have a: "subseq (link_contents (queue_bridge_turn shutdown l) @ link_sent es) (link_contents l @ link_sent es)"
    using link_turn(2) [OF 3(2)] by (intro list_emb_append_mono) auto
  have b: "subseq (fst (link_run es (queue_bridge_turn shutdown l)) @ link_contents (snd (link_run es (queue_bridge_turn shutdown l))))
      (link_contents (queue_bridge_turn shutdown l) @ link_sent es)"
    using 3 link_turn(1) by blast
  show ?case
    using subseq_order.order_trans [OF b a] by (simp only: link_run.simps link_sent.simps)
next
  case (5 es l)
  then show ?case
    by (auto simp: link_recv_def link_contents_def link_ahead_def split: list.splits prod.splits)
qed (auto simp: link_contents_def link_ahead_def)

lemma quic_link_start_ok:
  assumes "quic_link_start cap = Some l"
  shows "queue_ok (ql_queue l)" "q_capacity (ql_queue l) = cap" "q_items (q_inner (ql_queue l)) = []" "link_ahead l = []"
    "ql_channel l = []" "ql_hand l = None" "ql_capacity l = cap" "ql_receiver l" "ql_running l"
  using assms channel_ok by (auto simp: quic_link_start_def link_ahead_def channel_def queue_ok_def split: if_splits)

text \<open>C34: the frames of a QUIC peer keep their order. Whatever the interleaving of the subscriber threads, the
  thread between queue and channel, the forwarder and the end of the forwarder, the frames taken out,
  followed by those in the channel, in the hands of the thread and in the queue, are a subsequence of the
  frames sent: none is duplicated, reordered or invented.\<close>

theorem quic_link_keeps_order:
  assumes "quic_link_start cap = Some l"
  shows "subseq (fst (link_run es l) @ link_ahead (snd (link_run es l)) @ q_items (q_inner (ql_queue (snd (link_run es l))))) (link_sent es)"
proof -
  note S = quic_link_start_ok [OF assms]
  have "link_contents l = []"
    using S(3,4) by (simp add: link_contents_def)
  then show ?thesis
    using link_run_subseq [OF S(1), of es] by (simp add: link_contents_def)
qed

theorem quic_link_keeps_order_witness:
  "fst (link_run [LinkSend [1], LinkTurn False, LinkTurn False, LinkSend [2], LinkRecv] (the (quic_link_start 3))) = [[1]]
    \<and> subseq (fst (link_run [LinkSend [1], LinkTurn False, LinkTurn False, LinkSend [2], LinkRecv] (the (quic_link_start 3)))) [[1], [2]]"
proof -
  let ?es = "[LinkSend [1], LinkTurn False, LinkTurn False, LinkSend [2], LinkRecv]"
  have s: "quic_link_start 3 = Some (the (quic_link_start 3))"
    by (simp add: quic_link_start_def channel_def)
  have "fst (link_run ?es (the (quic_link_start 3))) = [[1]]"
    by (simp add: quic_link_start_def channel_def link_send_def send_def queue_bridge_turn_def pop_now_eq link_recv_def Let_def)
  moreover have "subseq (fst (link_run ?es (the (quic_link_start 3)))) (link_sent ?es)"
    using quic_link_keeps_order [OF s, of ?es] list_emb_append_mono [of "(=)"] by (meson list_emb_prefix subseq_order.order_trans subseq_append' subseq_rev_drop_many subseq_order.refl)
  ultimately show ?thesis
    by simp
qed

text \<open>The link of a peer that has taken nothing, after \<open>bs\<close> were sent and the thread kept up.\<close>

definition link_after :: "nat \<Rightarrow> bytes list \<Rightarrow> quic_link \<Rightarrow> bool" where
  "link_after cap bs l \<longleftrightarrow> queue_ok (ql_queue l) \<and> q_capacity (ql_queue l) = cap \<and> ql_capacity l = cap \<and> ql_receiver l \<and> ql_running l
     \<and> ql_channel l = take cap bs \<and> ql_hand l = (if cap < length bs then Some (bs ! cap) else None)
     \<and> q_items (q_inner (ql_queue l)) = drop (length bs - (2 * cap + 1)) (drop (cap + 1) bs)"

lemma link_after_step:
  assumes "link_after cap bs l"
  shows "link_after cap (bs @ [b]) (queue_bridge_turn False (queue_bridge_turn False (link_send b l)))"
proof -
  define ys k where "ys = drop (cap + 1) bs" and "k = length bs - (2 * cap + 1)"
  note L = assms [unfolded link_after_def]
  let ?q = "snd (send b (ql_queue l))"
  have cap: "0 < cap"
    using L by (auto simp: queue_ok_def)
  have ok: "queue_ok ?q" "q_capacity ?q = cap"
    using dq.push_ok [of "ql_queue l" b] L by auto
  have items: "q_items (q_inner ?q) = (if length (q_items (q_inner (ql_queue l))) < cap then q_items (q_inner (ql_queue l)) @ [b]
      else tl (q_items (q_inner (ql_queue l))) @ [b])"
    using dq.push_items [of "ql_queue l" b] L by auto
  consider "length bs < cap" | "length bs = cap" | "cap < length bs"
    by linarith
  then show ?thesis
  proof cases
    case 1
    then have "q_items (q_inner ?q) = [b]"
      using items L cap by simp
    then show ?thesis
      using 1 L ok by (simp add: link_after_def queue_bridge_turn_def link_send_def pop_now_eq queue_ok_def)
  next
    case 2
    then have "q_items (q_inner ?q) = [b]"
      using items L cap by simp
    then show ?thesis
      using 2 L ok by (simp add: link_after_def queue_bridge_turn_def link_send_def pop_now_eq queue_ok_def nth_append)
  next
    case 3
    then have stuck: "queue_bridge_turn False (link_send b l) = link_send b l"
      using L by (simp add: queue_bridge_turn_def link_send_def)
    have "q_items (q_inner ?q) = drop (length (bs @ [b]) - (2 * cap + 1)) (drop (cap + 1) (bs @ [b]))"
    proof (cases "length bs < 2 * cap + 1")
      case True
      then show ?thesis
        using items L 3 by auto
    next
      case False
      then have "\<not> length (q_items (q_inner (ql_queue l))) < cap"
        using L 3 by simp
      then have "q_items (q_inner ?q) = tl (drop k ys) @ [b]"
        using items L by (simp add: ys_def k_def)
      also have "\<dots> = drop (Suc k) (ys @ [b])"
        using False 3 cap by (simp add: ys_def k_def drop_Suc tl_drop)
      also have "\<dots> = drop (length (bs @ [b]) - (2 * cap + 1)) (drop (cap + 1) (bs @ [b]))"
      proof -
        have "length (bs @ [b]) - (2 * cap + 1) = Suc k" "drop (cap + 1) (bs @ [b]) = ys @ [b]"
          using False 3 by (simp_all add: ys_def k_def)
        then show ?thesis
          by (simp only:)
      qed
      finally show ?thesis .
    qed
    then show ?thesis
      using 3 L ok unfolding stuck by (simp add: link_after_def link_send_def nth_append)
  qed
qed

text \<open>C35: while a QUIC peer is away, the oldest frames are kept and newer ones dropped. The channel of the
  runtime fills up with the oldest frames and the thread holds the next one; only behind them does the
  drop-oldest queue keep the newest. A peer that comes back is sent the first \<open>peer_buffer_max + 1\<close>
  frames of its absence, then the last \<open>peer_buffer_max\<close>, where over TCP it is sent the last ones only.\<close>

theorem quic_link_keeps_oldest:
  assumes "quic_link_start cap = Some l" "cap < length bs"
  shows "let l' = snd (link_run (concat (map (\<lambda>b. [LinkSend b, LinkTurn False, LinkTurn False]) bs)) l) in
    link_ahead l' = take (cap + 1) bs \<and> q_items (q_inner (ql_queue l')) = drop (length bs - (2 * cap + 1)) (drop (cap + 1) bs)"
proof -
  have "link_after cap (cs @ bs) (snd (link_run (concat (map (\<lambda>b. [LinkSend b, LinkTurn False, LinkTurn False]) bs)) l))"
    if "link_after cap cs l" for cs l
    using that
  proof (induction bs arbitrary: cs l)
    case (Cons b bs)
    then show ?case
      using Cons.IH [OF link_after_step [OF Cons.prems, of b]] by simp
  qed simp
  moreover have "link_after cap [] l"
    using quic_link_start_ok [OF assms(1)] by (simp add: link_after_def)
  ultimately have "link_after cap bs (snd (link_run (concat (map (\<lambda>b. [LinkSend b, LinkTurn False, LinkTurn False]) bs)) l))"
    by fastforce
  then show ?thesis
    using assms(2) by (simp add: link_after_def link_ahead_def Let_def take_Suc_conv_app_nth)
qed

theorem quic_link_keeps_oldest_witness:
  "let l' = snd (link_run (concat (map (\<lambda>b. [LinkSend b, LinkTurn False, LinkTurn False]) [[1], [2], [3], [4], [5]])) (the (quic_link_start 1))) in
    link_ahead l' = [[1], [2]] \<and> q_items (q_inner (ql_queue l')) = [[5]]"
proof -
  have "quic_link_start 1 = Some (the (quic_link_start 1))"
    by (simp add: quic_link_start_def channel_def)
  from quic_link_keeps_oldest [OF this, of "[[1], [2], [3], [4], [5]]"] show ?thesis
    by (simp only: Let_def) (simp add: numeral_eq_Suc)
qed

end
