(* ===== verification/Python_Bindings.thy ===== *)
theory Python_Bindings
  imports Bus Subscriber
begin

text \<open>
  The Python classes of the bus, \<open>crates/mmbus/src/python\<close>: \<open>_RustBus\<close> and \<open>TopicPublisher\<close> in
  \<open>bus.rs\<close>, \<open>Subscription\<close> in \<open>subscription.rs\<close>, the exceptions in \<open>exceptions.rs\<close>. The methods
  are the operations of the bus and the subscriber with their errors as exceptions, and four ways of
  receiving that exist only here. Holding or releasing the interpreter lock has no effect in the model. A
  number of seconds is the list of waits it allows; \<open>secs_ok\<close> says whether it is a duration at all, for
  otherwise the conversion panics. \<open>None\<close>: a panic, or a call that has not returned.
\<close>

subsection \<open>Exceptions (exceptions.rs)\<close>

datatype py_exc =
    BusFullError | MessageTooLargeError | ConnectTimeoutError | TooManySubscribersError | AlreadyPublishingError
  | CursorTooOldError | WalErrorExc | PyOSError | PyValueError | PyTypeError | PyBufferError

definition mmbus_err :: "bus_error \<Rightarrow> py_exc" where
  "mmbus_err e = (case e of
      Full \<Rightarrow> BusFullError
    | TooLarge _ _ \<Rightarrow> MessageTooLargeError
    | Timeout _ \<Rightarrow> ConnectTimeoutError
    | TooManySubscribers _ \<Rightarrow> TooManySubscribersError
    | AlreadyPublishing _ \<Rightarrow> AlreadyPublishingError
    | BusCursorTooOld _ _ \<Rightarrow> CursorTooOldError
    | BusIo _ \<Rightarrow> PyOSError
    | BusWal w \<Rightarrow> (case w of CursorTooOld _ _ \<Rightarrow> CursorTooOldError | _ \<Rightarrow> WalErrorExc))"

abbreviation py_result :: "bus_error + 'a \<Rightarrow> py_exc + 'a" where
  "py_result \<equiv> map_sum mmbus_err id"

subsection \<open>The bus (bus.rs, lines 20--238)\<close>

record py_bus_args =
  pa_base_dir :: "string option"
  pa_capacity :: "u32 option"
  pa_slot_size :: "u32 option"
  pa_max_subscribers :: "u32 option"
  pa_backpressure :: "string option"
  pa_wal_enabled :: "bool option"

definition unwrap_or :: "'a option \<Rightarrow> 'a \<Rightarrow> 'a" where
  "unwrap_or x y = (case x of None \<Rightarrow> y | Some v \<Rightarrow> v)"

definition py_backpressure :: "string option \<Rightarrow> bus_config \<Rightarrow> py_exc + backpressure" where
  "py_backpressure b defaults = (case b of
      None \<Rightarrow> Inr (cf_backpressure defaults)
    | Some s \<Rightarrow> if s = ''error'' then Inr ErrorPolicy else if s = ''drop_oldest'' then Inr DropOldest else Inl PyValueError)"

definition py_bus_new :: "string \<Rightarrow> string \<Rightarrow> py_bus_args \<Rightarrow> py_exc + bus" where
  "py_bus_new tmp name a =
    (let defaults = bus_config_default tmp in case py_backpressure (pa_backpressure a) defaults of
       Inl e \<Rightarrow> Inl e
     | Inr policy \<Rightarrow>
        let wal = (case pa_wal_enabled a of
              None \<Rightarrow> cf_wal defaults
            | Some True \<Rightarrow> (cf_wal defaults)\<lparr>wc_enabled := True\<rparr>
            | Some False \<Rightarrow> wal_config_disabled)
        in Inr (bus_with_config name
             \<lparr>cf_slot_size = unwrap_or (pa_slot_size a) (cf_slot_size defaults),
              cf_capacity = unwrap_or (pa_capacity a) (cf_capacity defaults),
              cf_base_dir = unwrap_or (pa_base_dir a) (cf_base_dir defaults),
              cf_max_subscribers = unwrap_or (pa_max_subscribers a) (cf_max_subscribers defaults),
              cf_backpressure = policy, cf_wal = wal\<rparr>))"

definition py_bus_publish ::
    "(bytes \<Rightarrow> u32) \<Rightarrow> create_env \<Rightarrow> penv \<Rightarrow> string \<Rightarrow> bytes \<Rightarrow> bus \<Rightarrow> ((py_exc + unit) \<times> bus) option" where
  "py_bus_publish crc cenv env name data b = map_option (apfst py_result) (bus_publish crc cenv env name data b)"

definition py_bus_publish_many ::
    "(bytes \<Rightarrow> u32) \<Rightarrow> create_env \<Rightarrow> penv \<Rightarrow> string \<Rightarrow> bytes list \<Rightarrow> bus \<Rightarrow> ((py_exc + nat) \<times> bus) option" where
  "py_bus_publish_many crc cenv env name items b = map_option (apfst py_result) (bus_publish_many crc cenv env name items b)"

definition py_bus_topic :: "(bytes \<Rightarrow> u32) \<Rightarrow> create_env \<Rightarrow> string \<Rightarrow> bus \<Rightarrow> ((py_exc + topic) \<times> bus) option" where
  "py_bus_topic crc cenv name b = map_option (apfst py_result) (take_publisher crc cenv name b)"

definition py_bus_wait_for_subscribers ::
    "(bytes \<Rightarrow> u32) \<Rightarrow> bool \<Rightarrow> create_env \<Rightarrow> string \<Rightarrow> nat \<Rightarrow> ((io_error + client) list \<times> bool) list \<Rightarrow> bus
      \<Rightarrow> ((py_exc + unit) \<times> bus) option" where
  "py_bus_wait_for_subscribers crc secs_ok cenv name n turns b =
    (if secs_ok then map_option (apfst py_result) (bus_wait_for_subscribers crc cenv name n turns b) else None)"

definition py_bus_subscribe :: "bool \<Rightarrow> string \<Rightarrow> connect_env \<Rightarrow> ((py_exc + subscriber) \<times> bytes option) option" where
  "py_bus_subscribe secs_ok name env = (if secs_ok then map_option (apfst py_result) (bus_subscribe name env) else None)"

definition py_bus_subscribe_with_history ::
    "bool \<Rightarrow> string \<Rightarrow> u64 \<Rightarrow> connect_env \<Rightarrow> ((py_exc + subscriber) \<times> bytes option) option" where
  "py_bus_subscribe_with_history secs_ok name n env =
    (if secs_ok then map_option (apfst py_result) (subscribe_with_history name n env) else None)"

definition py_bus_subscribe_from ::
    "bool \<Rightarrow> string \<Rightarrow> u64 \<Rightarrow> connect_env \<Rightarrow> ((py_exc + subscriber) \<times> bytes option) option" where
  "py_bus_subscribe_from secs_ok name cursor env =
    (if secs_ok then map_option (apfst py_result) (subscribe_from name cursor env) else None)"

definition py_bus_clean_topic ::
    "string \<Rightarrow> bool \<Rightarrow> bus_error + unit \<Rightarrow> io_error + unit \<Rightarrow> bus \<Rightarrow> (py_exc + bool) \<times> bus" where
  "py_bus_clean_topic name dir_exists lock removed b = apfst py_result (clean_topic name dir_exists lock removed b)"

subsection \<open>The handle of a topic (bus.rs, lines 240--311)\<close>

definition py_topic_publish :: "(bytes \<Rightarrow> u32) \<Rightarrow> penv \<Rightarrow> bytes \<Rightarrow> topic \<Rightarrow> ((py_exc + unit) \<times> topic) option" where
  "py_topic_publish crc env data t = map_option (apfst py_result) (publish crc env data t)"

definition py_topic_publish_many :: "(bytes \<Rightarrow> u32) \<Rightarrow> penv \<Rightarrow> bytes list \<Rightarrow> topic \<Rightarrow> ((py_exc + nat) \<times> topic) option" where
  "py_topic_publish_many crc env items t = map_option (apfst py_result) (publish_many crc env items t)"

definition py_topic_wait_for_subscribers ::
    "bool \<Rightarrow> nat \<Rightarrow> ((io_error + client) list \<times> bool) list \<Rightarrow> topic \<Rightarrow> ((py_exc + unit) \<times> topic) option" where
  "py_topic_wait_for_subscribers secs_ok n turns t =
    (if secs_ok then map_option (apfst py_result) (wait_for_subscribers n turns t) else None)"

subsection \<open>Receiving (subscription.rs, lines 42--112, 399--437)\<close>

definition py_recv ::
    "(bytes \<Rightarrow> u32) \<Rightarrow> disk \<Rightarrow> wait_env list \<Rightarrow> subscriber \<Rightarrow> bytes \<Rightarrow> ((py_exc + bytes) \<times> subscriber \<times> bytes) option" where
  "py_recv crc d waits s m = map_option (apfst py_result) (receive_into crc d waits s m)"

definition py_recv_timeout ::
    "(bytes \<Rightarrow> u32) \<Rightarrow> disk \<Rightarrow> bool \<Rightarrow> (bool \<times> wait_env) list \<Rightarrow> subscriber \<Rightarrow> bytes
      \<Rightarrow> ((py_exc + bytes option) \<times> subscriber \<times> bytes) option" where
  "py_recv_timeout crc d secs_ok waits s m =
    (if secs_ok then map_option (apfst py_result) (receive_timeout_into crc d waits s m) else None)"

definition py_try_recv :: "(bytes \<Rightarrow> u32) \<Rightarrow> disk \<Rightarrow> subscriber \<Rightarrow> bytes \<Rightarrow> (bytes option \<times> subscriber \<times> bytes) option" where
  "py_try_recv crc d s m = try_receive_into crc d s m"

definition py_poll_recv ::
    "(bytes \<Rightarrow> u32) \<Rightarrow> disk \<Rightarrow> u64 \<Rightarrow> subscriber \<Rightarrow> bytes \<Rightarrow> ((py_exc + bytes option) \<times> u64 \<times> subscriber \<times> bytes) option" where
  "py_poll_recv crc d count s m = map_option (apfst py_result) (poll_recv crc d count s m)"

definition py_arm_wakeup :: "(bytes \<Rightarrow> bytes) \<Rightarrow> subscriber \<Rightarrow> bytes \<Rightarrow> bool \<times> bytes" where
  "py_arm_wakeup arming s m = arm_wakeup arming s m"

definition py_drain_wakeup :: "u64 \<Rightarrow> (py_exc + bool) \<times> u64" where
  "py_drain_wakeup count = (case try_drain_wakeup count of (res, count') \<Rightarrow> (py_result (map_sum BusIo id res), count'))"

text \<open>\<open>Inr None\<close> is \<open>StopIteration\<close>.\<close>

definition py_next ::
    "(bytes \<Rightarrow> u32) \<Rightarrow> disk \<Rightarrow> wait_env list \<Rightarrow> subscriber \<Rightarrow> bytes \<Rightarrow> ((py_exc + bytes option) \<times> subscriber \<times> bytes) option" where
  "py_next crc d waits s m = map_option
     (\<lambda>(res, s', m'). (case res of
          Inr msg \<Rightarrow> Inr (Some msg)
        | Inl e \<Rightarrow> if e = BusIo IoUnexpectedEof \<or> e = BusIo IoConnectionReset then Inr None else Inl (mmbus_err e), s', m'))
     (receive_into crc d waits s m)"

subsection \<open>Into a buffer of the caller (subscription.rs, lines 59--80, 114--219)\<close>

record py_buffer =
  bf_exports_u8 :: bool
  bf_readonly :: bool
  bf_contiguous :: bool
  bf_bytes :: bytes

definition writable_view :: "py_buffer \<Rightarrow> py_exc + bytes" where
  "writable_view buf =
    (if \<not> bf_exports_u8 buf then Inl PyBufferError
     else if bf_readonly buf then Inl PyTypeError
     else if \<not> bf_contiguous buf then Inl PyTypeError
     else Inr (bf_bytes buf))"

fun py_recv_into_loop ::
    "(bytes \<Rightarrow> u32) \<Rightarrow> disk \<Rightarrow> wait_env list \<Rightarrow> subscriber \<Rightarrow> bytes \<Rightarrow> bytes
      \<Rightarrow> ((py_exc + nat) \<times> bytes \<times> subscriber \<times> bytes) option" where
  "py_recv_into_loop crc d waits s out m = (case try_receive_one_into_slice crc d s out m of
      None \<Rightarrow> None
    | Some (Inl e, out', s', m') \<Rightarrow> Some (Inl (mmbus_err e), out', s', m')
    | Some (Inr (Some n), out', s', m') \<Rightarrow> Some (Inr n, out', s', m')
    | Some (Inr None, out', s', m') \<Rightarrow> (case waits of
        [] \<Rightarrow> None
      | env # waits \<Rightarrow> (case wait_readable env s' m' of
          (Inl e, m'') \<Rightarrow> Some (Inl (mmbus_err e), out', s', m'')
        | (Inr _, m'') \<Rightarrow> py_recv_into_loop crc d waits s' out' m'')))"

definition py_recv_into ::
    "(bytes \<Rightarrow> u32) \<Rightarrow> disk \<Rightarrow> wait_env list \<Rightarrow> subscriber \<Rightarrow> py_buffer \<Rightarrow> bytes
      \<Rightarrow> ((py_exc + nat) \<times> bytes \<times> subscriber \<times> bytes) option" where
  "py_recv_into crc d waits s buf m = (case writable_view buf of
      Inl e \<Rightarrow> Some (Inl e, bf_bytes buf, s, m)
    | Inr out \<Rightarrow> py_recv_into_loop crc d waits s out m)"

fun py_recv_timeout_into_loop ::
    "(bytes \<Rightarrow> u32) \<Rightarrow> disk \<Rightarrow> (bool \<times> wait_env) list \<Rightarrow> subscriber \<Rightarrow> bytes \<Rightarrow> bytes
      \<Rightarrow> ((py_exc + nat option) \<times> bytes \<times> subscriber \<times> bytes) option" where
  "py_recv_timeout_into_loop crc d waits s out m = (case try_receive_one_into_slice crc d s out m of
      None \<Rightarrow> None
    | Some (Inl e, out', s', m') \<Rightarrow> Some (Inl (mmbus_err e), out', s', m')
    | Some (Inr (Some n), out', s', m') \<Rightarrow> Some (Inr (Some n), out', s', m')
    | Some (Inr None, out', s', m') \<Rightarrow> (case waits of
        [] \<Rightarrow> None
      | (late, env) # waits \<Rightarrow>
          if late then Some (Inr None, out', s', m')
          else (case wait_readable env s' m' of
            (Inl e, m'') \<Rightarrow> Some (Inl (mmbus_err e), out', s', m'')
          | (Inr False, m'') \<Rightarrow> Some (Inr None, out', s', m'')
          | (Inr True, m'') \<Rightarrow> py_recv_timeout_into_loop crc d waits s' out' m'')))"

definition py_recv_timeout_into ::
    "(bytes \<Rightarrow> u32) \<Rightarrow> disk \<Rightarrow> bool \<Rightarrow> (bool \<times> wait_env) list \<Rightarrow> subscriber \<Rightarrow> py_buffer \<Rightarrow> bytes
      \<Rightarrow> ((py_exc + nat option) \<times> bytes \<times> subscriber \<times> bytes) option" where
  "py_recv_timeout_into crc d secs_ok waits s buf m = (case writable_view buf of
      Inl e \<Rightarrow> Some (Inl e, bf_bytes buf, s, m)
    | Inr out \<Rightarrow> if secs_ok then py_recv_timeout_into_loop crc d waits s out m else None)"

definition py_try_recv_into ::
    "(bytes \<Rightarrow> u32) \<Rightarrow> disk \<Rightarrow> subscriber \<Rightarrow> py_buffer \<Rightarrow> bytes
      \<Rightarrow> ((py_exc + nat option) \<times> bytes \<times> subscriber \<times> bytes) option" where
  "py_try_recv_into crc d s buf m = (case writable_view buf of
      Inl e \<Rightarrow> Some (Inl e, bf_bytes buf, s, m)
    | Inr out \<Rightarrow> map_option (apfst py_result) (try_receive_one_into_slice crc d s out m))"

subsection \<open>Batches (subscription.rs, lines 221--363)\<close>

text \<open>The drain after the first message of \<open>recv_batch\<close>.\<close>

fun batch_rest :: "(bytes \<Rightarrow> u32) \<Rightarrow> disk \<Rightarrow> nat \<Rightarrow> subscriber \<Rightarrow> bytes \<Rightarrow> (bytes list \<times> subscriber \<times> bytes) option" where
  "batch_rest crc d 0 s m = Some ([], s, m)"
| "batch_rest crc d (Suc n) s m = (case try_receive_into crc d s m of
      None \<Rightarrow> None
    | Some (None, s', m') \<Rightarrow> Some ([], s', m')
    | Some (Some payload, s', m') \<Rightarrow>
        map_option (\<lambda>(ps, s'', m''). (payload # ps, s'', m'')) (batch_rest crc d n s' m'))"

definition py_recv_batch ::
    "(bytes \<Rightarrow> u32) \<Rightarrow> disk \<Rightarrow> bool \<Rightarrow> (bool \<times> wait_env) list \<Rightarrow> nat \<Rightarrow> subscriber \<Rightarrow> bytes
      \<Rightarrow> ((py_exc + bytes list) \<times> subscriber \<times> bytes) option" where
  "py_recv_batch crc d secs_ok waits n s m =
    (if n = 0 then Some (Inr [], s, m)
     else if \<not> secs_ok then None
     else case receive_timeout_into crc d waits s m of
       None \<Rightarrow> None
     | Some (Inl e, s', m') \<Rightarrow> Some (Inl (mmbus_err e), s', m')
     | Some (Inr None, s', m') \<Rightarrow> Some (Inr [], s', m')
     | Some (Inr (Some p), s', m') \<Rightarrow>
         map_option (\<lambda>(ps, s'', m''). (Inr (p # ps), s'', m'')) (batch_rest crc d (n - 1) s' m'))"

text \<open>The rows of the buffer after the first, filled from the ring alone; an error leaves the rows written
  so far in the buffer.\<close>

fun buffer_rows ::
    "nat \<Rightarrow> nat \<Rightarrow> nat \<Rightarrow> subscriber \<Rightarrow> bytes \<Rightarrow> bytes \<Rightarrow> ((py_exc + nat) \<times> bytes \<times> subscriber \<times> bytes) option" where
  "buffer_rows payload_size 0 n s buf m = Some (Inr n, buf, s, m)"
| "buffer_rows payload_size (Suc left) n s buf m =
    (let dst_offset = n * payload_size in case subscriber_try_slice s (sub buf dst_offset payload_size) m of
       None \<Rightarrow> None
     | Some (res, dst, s', m') \<Rightarrow>
        let buf' = poke buf dst_offset dst in
        (case res of
           None \<Rightarrow> Some (Inr n, buf', s', m')
         | Some None \<Rightarrow> Some (Inl PyValueError, buf', s', m')
         | Some (Some bytes_written) \<Rightarrow>
             if bytes_written = payload_size then buffer_rows payload_size left (n + 1) s' buf' m'
             else Some (Inl PyValueError, buf', s', m')))"

definition py_recv_into_buffer ::
    "(bytes \<Rightarrow> u32) \<Rightarrow> disk \<Rightarrow> bool \<Rightarrow> (bool \<times> wait_env) list \<Rightarrow> subscriber \<Rightarrow> py_buffer \<Rightarrow> nat \<Rightarrow> bytes
      \<Rightarrow> ((py_exc + nat) \<times> bytes \<times> subscriber \<times> bytes) option" where
  "py_recv_into_buffer crc d secs_ok waits s buffer payload_size m =
    (if payload_size = 0 then Some (Inl PyValueError, bf_bytes buffer, s, m)
     else case writable_view buffer of
       Inl e \<Rightarrow> Some (Inl e, bf_bytes buffer, s, m)
     | Inr buf \<Rightarrow>
        let capacity = length buf div payload_size in
        if capacity = 0 then Some (Inr 0, buf, s, m)
        else if \<not> secs_ok then None
        else case receive_timeout_into crc d waits s m of
          None \<Rightarrow> None
        | Some (Inl e, s', m') \<Rightarrow> Some (Inl (mmbus_err e), buf, s', m')
        | Some (Inr None, s', m') \<Rightarrow> Some (Inr 0, buf, s', m')
        | Some (Inr (Some p), s', m') \<Rightarrow>
            if length p \<noteq> payload_size then Some (Inl PyValueError, buf, s', m')
            else buffer_rows payload_size (capacity - 1) 1 s' (poke buf 0 p) m')"

end
