(* ===== verification/Python_Properties.thy ===== *)
theory Python_Properties
  imports Python_Bindings Subscriber_Witnesses
begin

text \<open>
  The ways of receiving that exist only in Python: a batch is what single receives would give; a buffer
  is filled with the next messages of the ring, in order, but on a subscriber that still replays the log
  it jumps over messages.
\<close>

subsection \<open>The slice variant of receive on a map nobody changes\<close>

lemma recv_slice_accept:
  assumes view: "log_view r m base msgs"
    and k: "base \<le> k" "k < base + length msgs" "base + length msgs \<le> k + ncap r"
  shows "\<exists>t'. recv_slice_loop (\<lambda>_. m) (Suc n) r (of_nat k) out t =
    (if length (msgs ! (k - base)) \<le> length out then (Some (of_nat k, Some (length (msgs ! (k - base)))), poke out 0 (msgs ! (k - base)), t')
     else (Some (of_nat k, None), out, t'))"
proof -
  have small: "k < 2 ^ 63"
    using log_viewD(3) [OF view] k by linarith
  then have clean: "of_nat k AND SEQ_WRITING_BIT = 0"
    by (simp only: clean_iff unat_of_nat_small)
  have "unat (of_nat k :: u64) mod ncap r = k mod ncap r"
    using small by (simp only: unat_of_nat_small)
  note reads = slot_reads [OF view k this]
  show ?thesis
    using log_view_payload [OF view k(1,2)] clean by (simp add: reads Let_def)
qed

lemma recv_slice_skip:
  assumes view: "log_view r m base msgs"
    and c: "base \<le> c" "c < base + length msgs"
  defines "k \<equiv> skip_to (ncap r) (base + length msgs) c"
  shows "\<exists>t'. recv_slice_loop (\<lambda>_. m) (Suc (Suc n)) r (of_nat c) out t =
    (if length (msgs ! (k - base)) \<le> length out then (Some (of_nat k, Some (length (msgs ! (k - base)))), poke out 0 (msgs ! (k - base)), t')
     else (Some (of_nat k, None), out, t'))"
proof -
  have wf: "0 < ncap r"
    using log_viewD(1) [OF view] by (simp add: mapped_def ring_wf_ncap)
  note b = skip_to_bounds [OF c(2) wf, folded k_def]
  have k: "base \<le> k" "k < base + length msgs" "base + length msgs \<le> k + ncap r"
    using b c by linarith+
  show ?thesis
  proof (cases "k = c")
    case True
    then show ?thesis
      using recv_slice_accept [OF view k] by simp
  next
    case False
    have small: "k < 2 ^ 63" "c < 2 ^ 63"
      using log_viewD(3) [OF view] k c by linarith+
    have clean: "of_nat k AND SEQ_WRITING_BIT = 0"
      using small(1) by (simp only: clean_iff unat_of_nat_small)
    have less: "(of_nat c :: u64) < of_nat k"
      using False b(1) small by (simp add: word_less_nat_alt unat_of_nat_small)
    have "unat (of_nat c :: u64) mod ncap r = k mod ncap r"
      using b(4) small(2) by (simp only: unat_of_nat_small)
    note reads = slot_reads [OF view k this]
    have "recv_slice_loop (\<lambda>_. m) (Suc (Suc n)) r (of_nat c) out t = recv_slice_loop (\<lambda>_. m) (Suc n) r (of_nat k) out (t + 1)"
      by (subst recv_slice_loop.simps) (simp only: Let_def reads clean less if_True if_False simp_thms not_False_eq_True)
    then show ?thesis
      using recv_slice_accept [OF view k] by simp
  qed
qed

lemma try_slice_next:
  assumes view: "log_view r m base msgs" and c: "base \<le> unat c" "unat c < base + length msgs"
    and p: "p = msgs ! (skip_to (ncap r) (base + length msgs) (unat c) - base)" "length p \<le> length out"
  shows "try_receive_into_slice r m idx c out =
    (let k = skip_to (ncap r) (base + length msgs) (unat c)
     in Some (Some (of_nat (k + 1), Some (length p)), poke out 0 p, set_cursor m idx (of_nat (k + 1))))"
proof -
  have lt: "\<not> rd64 m OFF_TAIL \<le> c"
    using log_viewD(2) [OF view] c(2) by (simp add: word_le_nat_alt current_tail_def)
  have cap: "capacity r \<noteq> 0"
    using log_viewD(1) [OF view] by (simp add: mapped_def ring_wf_def)
  have of: "of_nat (unat c) = c" and retries: "(16::nat) = Suc (Suc 14)"
    by simp_all
  obtain t' where "recv_slice_loop (\<lambda>_. m) 16 r c out 1 =
      (Some (of_nat (skip_to (ncap r) (base + length msgs) (unat c)), Some (length p)), poke out 0 p, t')"
    using recv_slice_skip [OF view c, of 14 out 1] p(2) unfolding of retries p(1) [symmetric] by auto
  then show ?thesis
    using lt cap by (simp add: try_receive_into_slice_def try_receive_into_slice_at_def Let_def set_cursor_def wr64_def
        apply_store_def ac_simps del: recv_slice_loop.simps)
qed

lemma slice_next:
  assumes "ring_refines (sb_ring s) m a" "sb_idx s < unat (max_subscribers (sb_ring s))"
    "unat (sb_cursor s) = c" "a_base a \<le> c" "c < a_tail a"
    "k = skip_to (ncap (sb_ring s)) (a_tail a) c" "length (a_msgs a ! (k - a_base a)) \<le> length out"
  shows "\<exists>m'. subscriber_try_slice s out m = Some (Some (Some (length (a_msgs a ! (k - a_base a)))),
      poke out 0 (a_msgs a ! (k - a_base a)), s\<lparr>sb_cursor := of_nat (k + 1)\<rparr>, m')
    \<and> ring_refines (sb_ring s) m' (a\<lparr>a_cursors := (a_cursors a)[sb_idx s := Some (k + 1)]\<rparr>)"
proof -
  note D = ring_refinesD [OF assms(1)]
  have wf: "0 < ncap (sb_ring s)"
    using D(2) by (simp add: mapped_def ring_wf_ncap)
  note K = skip_to_bounds [OF assms(5) wf, folded assms(6)]
  have "try_receive_into_slice (sb_ring s) m (sb_idx s) (sb_cursor s) out
      = Some (Some (of_nat (k + 1), Some (length (a_msgs a ! (k - a_base a)))), poke out 0 (a_msgs a ! (k - a_base a)),
          set_cursor m (sb_idx s) (of_nat (k + 1)))"
    using try_slice_next [OF D(1), of "sb_cursor s" "a_msgs a ! (k - a_base a)" out "sb_idx s"] assms(3-7)
    by (simp add: a_tail_def Let_def)
  moreover have "ring_refines (sb_ring s) (set_cursor m (sb_idx s) (of_nat (k + 1))) (a\<lparr>a_cursors := (a_cursors a)[sb_idx s := Some (k + 1)]\<rparr>)"
    using assms(4,5) K by (intro set_cursor_refines [OF assms(1,2)]) (simp add: cursor_rel_def)
  ultimately show ?thesis
    by (simp add: subscriber_try_slice_def)
qed

lemma slice_empty:
  assumes "ring_refines (sb_ring s) m a" "unat (sb_cursor s) = a_tail a"
  shows "subscriber_try_slice s out m = Some (None, out, s, m)"
proof -
  have "\<not> sb_cursor s < rd64 m OFF_TAIL"
    using ring_refinesD(4) [OF assms(1)] assms(2) by (simp add: word_less_nat_alt current_tail_def)
  then show ?thesis
    by (simp add: subscriber_try_slice_def try_receive_into_slice_def try_receive_into_slice_at_def not_less)
qed

subsection \<open>Rows of a buffer\<close>

lemma poke_sub: "off + n \<le> length m \<Longrightarrow> poke m off (sub m off n) = m"
  by (simp add: poke_def sub_def min_def) (metis add.commute append_take_drop_id drop_drop)

lemma poke_whole: "length xs = length m \<Longrightarrow> poke m 0 xs = xs"
  by (simp add: poke_def)

lemma rows_live:
  assumes "ring_refines (sb_ring s) m a" "sb_idx s < unat (max_subscribers (sb_ring s))"
    "unat (sb_cursor s) = c" "a_base a \<le> c" "c \<le> a_tail a" "a_tail a \<le> c + ncap (sb_ring s)"
    "a_cursors a ! sb_idx s = Some c" "\<forall>q \<in> set (drop (c - a_base a) (a_msgs a)). length q = ps"
    "(n + left) * ps \<le> length buf"
  shows "\<exists>m'. let got = take left (drop (c - a_base a) (a_msgs a)) in
      buffer_rows ps left n s buf m = Some (Inr (n + length got), poke buf (n * ps) (concat got), s\<lparr>sb_cursor := of_nat (c + length got)\<rparr>, m')
    \<and> ring_refines (sb_ring s) m' (a\<lparr>a_cursors := (a_cursors a)[sb_idx s := Some (c + length got)]\<rparr>)"
  using assms
proof (induction left arbitrary: s m a c n buf)
  case 0
  have "sb_cursor s = of_nat c"
    using 0(3) by (metis of_nat_unat ucast_id)
  moreover have "a\<lparr>a_cursors := (a_cursors a)[sb_idx s := Some c]\<rparr> = a"
    using 0(7) by (metis (mono_tags, lifting) alog.surjective alog.update_convs(3) list_update_id)
  ultimately show ?case
    using 0(1) by (simp add: Let_def poke_def)
next
  case (Suc left)
  note D = ring_refinesD [OF Suc.prems(1)]
  have fit: "n * ps + ps \<le> length buf"
    using Suc.prems(9) by (simp add: algebra_simps)
  then have dst: "length (sub buf (n * ps) ps) = ps"
    by (simp add: sub_def)
  have cur: "sb_cursor s = of_nat c"
    using Suc.prems(3) by (metis of_nat_unat ucast_id)
  show ?case
  proof (cases "c = a_tail a")
    case True
    have "a\<lparr>a_cursors := (a_cursors a)[sb_idx s := Some c]\<rparr> = a"
      using Suc.prems(7) by (metis (mono_tags, lifting) alog.surjective alog.update_convs(3) list_update_id)
    then show ?thesis
      using slice_empty [OF Suc.prems(1), of "sub buf (n * ps) ps"] Suc.prems(1,3) True fit cur
      by (simp add: Let_def a_tail_def poke_sub)
  next
    case False
    then have lt: "c < a_tail a"
      using Suc.prems(5) by simp
    have k: "skip_to (ncap (sb_ring s)) (a_tail a) c = c"
      using lt Suc.prems(6) by (rule skip_to_here)
    let ?p = "a_msgs a ! (c - a_base a)" and ?rest = "drop (c + 1 - a_base a) (a_msgs a)"
    have dr: "drop (c - a_base a) (a_msgs a) = ?p # ?rest"
      using lt Suc.prems(4) by (simp add: Cons_nth_drop_Suc [symmetric] a_tail_def Suc_diff_le)
    then have p: "length ?p = ps"
      using Suc.prems(8) by simp
    let ?s = "s\<lparr>sb_cursor := of_nat (c + 1)\<rparr>" and ?a = "a\<lparr>a_cursors := (a_cursors a)[sb_idx s := Some (c + 1)]\<rparr>"
    obtain m1 where m1: "subscriber_try_slice s (sub buf (n * ps) ps) m = Some (Some (Some ps), ?p, ?s, m1)" "ring_refines (sb_ring s) m1 ?a"
      using slice_next [OF Suc.prems(1-4) lt k [symmetric], of "sub buf (n * ps) ps"] p dst by (auto simp: poke_whole)
    have c1: "unat (of_nat (c + 1) :: u64) = c + 1"
      using lt D(5) by (intro unat_of_nat_small) simp
    have tail: "a_tail ?a = a_tail a"
      by (simp add: a_tail_def)
    have len: "length (poke buf (n * ps) ?p) = length buf"
      using fit p by simp
    have "\<exists>m'. let got = take left (drop (c + 1 - a_base ?a) (a_msgs ?a)) in
        buffer_rows ps left (n + 1) ?s (poke buf (n * ps) ?p) m1 = Some (Inr (n + 1 + length got), poke (poke buf (n * ps) ?p) ((n + 1) * ps) (concat got),
          ?s\<lparr>sb_cursor := of_nat (c + 1 + length got)\<rparr>, m')
      \<and> ring_refines (sb_ring ?s) m' (?a\<lparr>a_cursors := (a_cursors ?a)[sb_idx ?s := Some (c + 1 + length got)]\<rparr>)"
    proof (rule Suc.IH)
      show "(n + 1 + left) * ps \<le> length (poke buf (n * ps) ?p)"
        using Suc.prems(9) len by simp
      show "\<forall>q \<in> set (drop (c + 1 - a_base ?a) (a_msgs ?a)). length q = ps"
        using Suc.prems(8) dr by simp
      show "a_cursors ?a ! sb_idx ?s = Some (c + 1)"
        using Suc.prems(2) D(7) by simp
    qed (use m1(2) Suc.prems lt c1 tail in simp_all)
    moreover have "poke (poke buf (n * ps) ?p) ((n + 1) * ps) ys = poke buf (n * ps) (?p @ ys)" if "n * ps + ps + length ys \<le> length buf" for ys
      using poke_poke_append [of "n * ps" ?p ys buf] that p by (simp add: algebra_simps)
    moreover have "length (concat (take left ?rest)) \<le> left * ps"
    proof -
      have "length (concat xs) = length xs * ps" if "\<forall>q \<in> set xs. length q = ps" for xs :: "bytes list"
        using that by (induction xs) simp_all
      moreover have "\<forall>q \<in> set (take left ?rest). length q = ps"
        using Suc.prems(8) unfolding dr by (auto dest: in_set_takeD)
      ultimately show ?thesis
        by simp
    qed
    ultimately show ?thesis
      using m1(1) p dr Suc.prems(9) by (auto simp: Let_def algebra_simps)
  qed
qed

subsection \<open>Filling a buffer\<close>

lemma receive_timeout_loop_ready:
  "ring_receive s out m = Some (True, p, s', m') \<Longrightarrow> receive_timeout_loop ws s out m = Some (Inr (Some p), s', m')"
  by (subst receive_timeout_loop.simps) simp

lemma receive_timeout_ring:
  assumes "sb_replay s = None" "ring_receive s [] m = Some (True, p, s', m')"
  shows "receive_timeout_into crc d ws s m = Some (Inr (Some p), s', m')"
  using assms receive_timeout_loop_ready by (simp add: receive_timeout_into_def next_wal_record_def del: receive_timeout_loop.simps)

text \<open>A buffer is filled with the next messages. A live subscriber, not overtaken, whose unread messages all
  have the size of a row, gets as many of them as there are rows, in order, one after the other at the
  front of the buffer; the count is their number, the rest of the buffer is unchanged, and the next
  receive goes on after them.\<close>

theorem recv_into_buffer_fills:
  assumes "ring_refines (sb_ring s) m a" "sb_idx s < unat (max_subscribers (sb_ring s))" "sb_replay s = None"
    "unat (sb_cursor s) = c" "a_base a \<le> c" "c < a_tail a" "a_tail a \<le> c + ncap (sb_ring s)"
    "\<forall>q \<in> set (drop (c - a_base a) (a_msgs a)). length q = ps" "0 < ps"
    "writable_view buffer = Inr buf" "ps \<le> length buf"
    "got = take (length buf div ps) (drop (c - a_base a) (a_msgs a))"
  shows "\<exists>m'. py_recv_into_buffer crc d True ws s buffer ps m
      = Some (Inr (length got), concat got @ drop (length got * ps) buf, s\<lparr>sb_cursor := of_nat (c + length got)\<rparr>, m')
    \<and> ring_refines (sb_ring s) m' (a\<lparr>a_cursors := (a_cursors a)[sb_idx s := Some (c + length got)]\<rparr>)"
proof -
  note D = ring_refinesD [OF assms(1)]
  let ?p = "a_msgs a ! (c - a_base a)" and ?rest = "drop (c + 1 - a_base a) (a_msgs a)"
  let ?s = "s\<lparr>sb_cursor := of_nat (c + 1)\<rparr>" and ?a = "a\<lparr>a_cursors := (a_cursors a)[sb_idx s := Some (c + 1)]\<rparr>"
  have dr: "drop (c - a_base a) (a_msgs a) = ?p # ?rest"
    using assms(5,6) by (simp add: Cons_nth_drop_Suc [symmetric] a_tail_def Suc_diff_le)
  then have p: "length ?p = ps"
    using assms(8) by simp
  obtain m1 where m1: "ring_receive s [] m = Some (True, ?p, ?s, m1)" "ring_refines (sb_ring s) m1 ?a"
    using ring_receive_next [OF assms(1,2,4-7)] by blast
  define rows where "rows = length buf div ps"
  have rows: "rows = Suc (rows - 1)" "rows * ps \<le> length buf"
    using assms(9,11) by (simp_all add: rows_def div_greater_zero_iff)
  define more where "more = take (rows - 1) ?rest"
  have got: "got = ?p # more"
    unfolding assms(12) dr more_def by (subst rows(1) [unfolded rows_def]) (simp add: rows_def)
  have c1: "unat (of_nat (c + 1) :: u64) = c + 1"
    using assms(6) D(5) by (intro unat_of_nat_small) simp
  have len: "length (poke buf 0 ?p) = length buf"
    using p assms(11) by simp
  have "\<exists>m'. let got = take (rows - 1) (drop (c + 1 - a_base ?a) (a_msgs ?a)) in
      buffer_rows ps (rows - 1) 1 ?s (poke buf 0 ?p) m1 = Some (Inr (1 + length got), poke (poke buf 0 ?p) (1 * ps) (concat got),
        ?s\<lparr>sb_cursor := of_nat (c + 1 + length got)\<rparr>, m')
    \<and> ring_refines (sb_ring ?s) m' (?a\<lparr>a_cursors := (a_cursors ?a)[sb_idx ?s := Some (c + 1 + length got)]\<rparr>)"
  proof (rule rows_live)
    show "(1 + (rows - 1)) * ps \<le> length (poke buf 0 ?p)"
      using rows len by simp
    show "\<forall>q \<in> set (drop (c + 1 - a_base ?a) (a_msgs ?a)). length q = ps"
      using assms(8) dr by simp
    show "a_cursors ?a ! sb_idx ?s = Some (c + 1)"
      using assms(2) D(7) by simp
  qed (use m1(2) assms(2-7) c1 in \<open>simp_all add: a_tail_def\<close>)
  then obtain m' where R: "buffer_rows ps (rows - 1) 1 ?s (poke buf 0 ?p) m1
      = Some (Inr (1 + length more), poke (poke buf 0 ?p) ps (concat more), s\<lparr>sb_cursor := of_nat (c + 1 + length more)\<rparr>, m')"
    "ring_refines (sb_ring s) m' (a\<lparr>a_cursors := (a_cursors a)[sb_idx s := Some (c + 1 + length more)]\<rparr>)"
    by (auto simp: Let_def more_def)
  have "length (concat more) = length more * ps"
  proof -
    have "length (concat xs) = length xs * ps" if "\<forall>q \<in> set xs. length q = ps" for xs :: "bytes list"
      using that by (induction xs) simp_all
    moreover have "\<forall>q \<in> set more. length q = ps"
      using assms(8) unfolding dr more_def by (auto dest: in_set_takeD)
    ultimately show ?thesis
      by simp
  qed
  moreover have "length more * ps \<le> (rows - 1) * ps"
    by (simp add: more_def)
  ultimately have "poke (poke buf 0 ?p) ps (concat more) = concat got @ drop (length got * ps) buf"
    using p rows assms(11) by (simp add: poke_def got add.commute)
  then show ?thesis
    using R receive_timeout_ring [OF assms(3) m1(1), of crc d ws] assms(9-11) p got rows
    by (auto simp: py_recv_into_buffer_def rows_def [symmetric] Let_def add.commute)
qed

text \<open>C36: on a subscriber that still replays the log a buffer skips messages. The first row is the next record
  of the log, \<open>p\<close>; the second comes from the ring at the position after it, where the slot holds a later
  message \<open>k\<close> by now: the messages between are passed over, and the receive after that goes back to
  record \<open>p + 1\<close> of the log.\<close>

theorem recv_into_buffer_skips_log:
  assumes "ring_refines (sb_ring s) m a" "sb_idx s < unat (max_subscribers (sb_ring s))"
    "sb_replay s = Some rp" "replayer_next crc d rp = (Some (Inr x), rp1)" "replayer_next crc d rp1 = (Some (Inr y), rp2)"
    "unat (r_cursor x) = p" "a_base a \<le> p + 1" "p + 1 + ncap (sb_ring s) < a_tail a"
    "length (r_payload x) = ps" "0 < ps" "length (a_msgs a ! (k - a_base a)) = ps"
    "k = skip_to (ncap (sb_ring s)) (a_tail a) (p + 1)"
    "writable_view buffer = Inr buf" "length buf = 2 * ps"
  shows "p + 1 < k \<and> (\<exists>s' m'. py_recv_into_buffer crc d True ws s buffer ps m
      = Some (Inr 2, r_payload x @ a_msgs a ! (k - a_base a), s', m')
    \<and> py_recv crc d ws' s' m' = Some (Inr (r_payload y), s'\<lparr>sb_cursor := r_cursor y + 1, sb_replay := Some rp2\<rparr>, m'))"
proof -
  note D = ring_refinesD [OF assms(1)]
  have wf: "0 < ncap (sb_ring s)"
    using D(2) by (simp add: mapped_def ring_wf_ncap)
  have lt: "p + 1 < a_tail a"
    using assms(8) by simp
  note K = skip_to_bounds [OF lt wf, folded assms(12)]
  let ?s1 = "s\<lparr>sb_cursor := r_cursor x + 1, sb_replay := Some rp1\<rparr>" and ?q = "a_msgs a ! (k - a_base a)"
  have c1: "unat (r_cursor x + 1) = p + 1"
    using lt D(5) assms(6) by (subst unat_Suc_word) simp_all
  have first: "receive_timeout_into crc d ws s m = Some (Inr (Some (r_payload x)), ?s1, m)"
    using assms(3,4) by (simp add: receive_timeout_into_def next_wal_record_def)
  let ?b1 = "poke buf 0 (r_payload x)"
  have b1: "?b1 = r_payload x @ drop ps buf" "length (sub ?b1 ps ps) = ps"
    using assms(9,14) by (simp_all add: poke_def sub_def)
  obtain m1 where m1: "subscriber_try_slice ?s1 (sub ?b1 ps ps) m = Some (Some (Some ps), ?q, ?s1\<lparr>sb_cursor := of_nat (k + 1)\<rparr>, m1)"
    using slice_next [of ?s1 m a "p + 1" k "sub ?b1 ps ps"] assms(1,2,7,11,12) c1 lt b1(2) by (auto simp: poke_whole)
  have "poke ?b1 ps ?q = r_payload x @ ?q"
    using assms(9,11,14) by (simp add: b1(1) poke_def)
  then have "py_recv_into_buffer crc d True ws s buffer ps m = Some (Inr 2, r_payload x @ ?q, ?s1\<lparr>sb_cursor := of_nat (k + 1)\<rparr>, m1)"
    using m1 first assms(9,10,13,14) by (simp add: py_recv_into_buffer_def Let_def numeral_2_eq_2)
  moreover have "py_recv crc d ws' (?s1\<lparr>sb_cursor := of_nat (k + 1)\<rparr>) m1
      = Some (Inr (r_payload y), ?s1\<lparr>sb_cursor := r_cursor y + 1, sb_replay := Some rp2\<rparr>, m1)"
    using assms(5) by (simp add: py_recv_def receive_into_def next_wal_record_def)
  ultimately show ?thesis
    using K(3) assms(8) by auto
qed

subsection \<open>Batches\<close>

lemma batch_rest_drain: "batch_rest crc d n s m = sub_drain crc d n s m"
  by (induction n arbitrary: s m) (simp_all split: option.splits prod.splits)

text \<open>A batch is what single receives give. When a message is ready and the log has no error to report, a
  batch of at most \<open>n\<close> is the list of up to \<open>n\<close> messages that receiving without waiting returns one by
  one, and leaves subscriber and ring as those receives do, whatever the waits allowed.\<close>

theorem recv_batch_drains:
  assumes "sub_drain crc d n s m = Some (p # ps, s', m')" "next_wal_record crc d s m = (Inr rec, s1, m1)"
  shows "py_recv_batch crc d True ws n s m = Some (Inr (p # ps), s', m')"
proof -
  obtain k where n: "n = Suc k"
    using assms(1) by (cases n) simp_all
  obtain s2 m2 where t: "try_receive_into crc d s m = Some (Some p, s2, m2)" "sub_drain crc d k s2 m2 = Some (ps, s', m')"
    using assms(1) by (auto simp: n split: option.splits prod.splits)
  have "receive_timeout_into crc d ws s m = Some (Inr (Some p), s2, m2)"
  proof (cases rec)
    case (Some payload)
    then show ?thesis
      using t(1) assms(2) by (simp add: try_receive_into_def receive_timeout_into_def)
  next
    case None
    then have "ring_receive s1 [] m1 = Some (True, p, s2, m2)"
      using t(1) assms(2) by (auto simp: try_receive_into_def split: if_splits)
    then show ?thesis
      using None assms(2) receive_timeout_loop_ready by (simp add: receive_timeout_into_def del: receive_timeout_loop.simps)
  qed
  then show ?thesis
    using t(2) by (simp add: py_recv_batch_def n batch_rest_drain)
qed

subsection \<open>Witnesses\<close>

definition demo_buffer :: "bytes \<Rightarrow> py_buffer" where
  "demo_buffer b = \<lparr>bf_exports_u8 = True, bf_readonly = False, bf_contiguous = True, bf_bytes = b\<rparr>"

lemma demo_ring_simps: "ncap (ring_handle 4 16 2) = 4" "unat (max_subscribers (ring_handle 4 16 2)) = 2"
  by (simp_all add: ncap_def ring_handle_def)

theorem recv_into_buffer_fills_witness:
  "\<exists>s' m'. py_recv_into_buffer demo_crc demo_empty True [] (demo_sub demo_full) (demo_buffer [9, 9, 9]) 1 demo_full
      = Some (Inr 3, [1, 2, 3], s', m') \<and> sb_cursor s' = 3"
proof -
  let ?s = "demo_sub demo_full" and ?a = "\<lparr>a_base = 0, a_msgs = [[1], [2], [3], [4]], a_cursors = [Some 0, None]\<rparr>"
  have "ring_refines (sb_ring ?s) demo_full ?a"
    using demo_full_refines by (simp add: demo_sub_def)
  from recv_into_buffer_fills [OF this, of 0 1 "demo_buffer [9, 9, 9]" "[9, 9, 9]" "[[1], [2], [3]]" demo_crc demo_empty "[]"]
  show ?thesis
    by (auto simp: demo_sub_def demo_ring_simps a_tail_def demo_buffer_def writable_view_def)
qed

theorem recv_batch_drains_witness:
  "\<exists>s' m'. py_recv_batch demo_crc demo_empty True [] 9 (demo_sub demo_full) demo_full = Some (Inr [[1], [2], [3], [4]], s', m')"
proof -
  let ?s = "demo_sub demo_full" and ?a = "\<lparr>a_base = 0, a_msgs = [[1], [2], [3], [4]], a_cursors = [Some 0, None]\<rparr>"
  have "ring_refines (sb_ring ?s) demo_full ?a"
    using demo_full_refines by (simp add: demo_sub_def)
  from drain_ring [OF this, of 0 9 demo_crc demo_empty] obtain m' where
    d: "sub_drain demo_crc demo_empty 9 ?s demo_full = Some ([1] # [[2], [3], [4]], ?s\<lparr>sb_cursor := 4\<rparr>, m')"
    by (auto simp: demo_sub_def demo_ring_simps a_tail_def simp del: sub_drain.simps)
  have "next_wal_record demo_crc demo_empty ?s demo_full = (Inr None, ?s, demo_full)"
    by (simp add: next_wal_record_def demo_sub_def)
  from recv_batch_drains [OF d this] show ?thesis
    by blast
qed

text \<open>A ring of four slots after six messages, and a log of five records.\<close>

definition demo_lapped :: bytes where
  "demo_lapped = snd (the (run_steps (ring_step (ring_handle 4 16 2)) (map (\<lambda>b. PublishDropOldest [b, b]) [1, 2, 3, 4, 5, 6]) demo_map))"

lemma demo_lapped_refines:
  "\<exists>cs. ring_refines (ring_handle 4 16 2) demo_lapped \<lparr>a_base = 0, a_msgs = [[1, 1], [2, 2], [3, 3], [4, 4], [5, 5], [6, 6]], a_cursors = cs\<rparr>"
proof -
  let ?r = "ring_handle 4 16 2" and ?ops = "map (\<lambda>b. PublishDropOldest [b, b]) [1, 2, 3, 4, 5, 6 :: u8]"
  have ok: "run_ok (a_ok ?r) (a_step (ncap ?r)) ?ops (fresh_log ?r)"
    unfolding demo_fresh by (simp add: a_tail_def)
  define b where "b = snd (run_abs (a_step (ncap ?r)) ?ops (fresh_log ?r))"
  have "ring_refines ?r demo_lapped b"
    using ring_sim.run_sim [OF demo_map_refines, of ?ops] ok unfolding demo_lapped_def b_def by fastforce
  moreover have "a_msgs b = [[1, 1], [2, 2], [3, 3], [4, 4], [5, 5], [6, 6]]" "a_base b = 0"
    unfolding b_def demo_fresh by simp_all
  then have "b = \<lparr>a_base = 0, a_msgs = [[1, 1], [2, 2], [3, 3], [4, 4], [5, 5], [6, 6]], a_cursors = a_cursors b\<rparr>"
    by (cases b) simp
  ultimately show ?thesis
    by (intro exI [of _ "a_cursors b"]) simp
qed

theorem recv_into_buffer_skips_log_witness:
  "\<exists>(s :: subscriber) d s' m'. sb_replay s \<noteq> None
    \<and> py_recv_into_buffer demo_crc d True [] s (demo_buffer [0, 0, 0, 0]) 2 demo_lapped = Some (Inr 2, [1, 2, 6, 6], s', m')
    \<and> map_option fst (py_recv demo_crc d [] s' m') = Some (Inr [1, 2])"
proof -
  let ?segs = "[(0 :: u64, map (\<lambda>k. demo_record (of_nat k)) [0..<5])]"
  obtain w d i j where W: "wal_state demo_crc d w ?segs i j" "unat (w_pending w) = 5" "w_durable w = w_pending w"
    using demo_long_log [of 5] by auto
  have rep: "wal_rep demo_crc d w ?segs i j" and "5 \<le> i"
    using W by (simp_all add: wal_state_def)
  then have j: "5 \<le> j"
    by (auto simp: wal_rep_def open_seg_def)
  obtain rp where rp: "replay_all demo_crc d rp = map Inr (map (\<lambda>k. demo_record (of_nat k)) [0..<5])"
    using log_from(4) [OF rep, of 0] j by (auto simp: log_of_def)
  define x0 x1 xs where "x0 = demo_record 0" and "x1 = demo_record 1" and "xs = map (\<lambda>k. demo_record (of_nat k)) [2..<5]"
  have "[0..<5] = 0 # 1 # [2..<5 :: nat]"
    by (rule nth_equalityI) (auto simp: nth_Cons split: nat.splits)
  then have xs: "map (\<lambda>k. demo_record (of_nat k)) [0..<5] = x0 # x1 # xs"
    by (simp only: x0_def x1_def xs_def list.map semiring_1_class.of_nat_0 of_nat_1)
  have xp: "r_cursor x0 = 0" "r_payload x0 = [1, 2]" "r_payload x1 = [1, 2]"
    by (simp_all add: x0_def x1_def demo_record_def)
  obtain rp1 where n1: "replayer_next demo_crc d rp = (Some (Inr x0), rp1)" "replay_all demo_crc d rp1 = map Inr (x1 # xs)"
    using replay_all_Cons [of demo_crc d rp x0 "x1 # xs"] rp unfolding xs by blast
  obtain rp2 where n2: "replayer_next demo_crc d rp1 = (Some (Inr x1), rp2)"
    using replay_all_Cons [OF n1(2)] by auto
  define s where "s = demo_sub demo_lapped\<lparr>sb_replay := Some rp\<rparr>"
  obtain cs where R: "ring_refines (sb_ring s) demo_lapped \<lparr>a_base = 0, a_msgs = [[1, 1], [2, 2], [3, 3], [4, 4], [5, 5], [6, 6]], a_cursors = cs\<rparr>"
    using demo_lapped_refines by (auto simp: s_def demo_sub_def)
  have S: "sb_idx s < unat (max_subscribers (sb_ring s))" "sb_replay s = Some rp" "ncap (sb_ring s) = 4"
    by (simp_all add: s_def demo_sub_def demo_ring_simps)
  let ?a = "\<lparr>a_base = 0, a_msgs = [[1, 1], [2, 2], [3, 3], [4, 4], [5, 5], [6, 6 :: u8]], a_cursors = cs\<rparr>"
  have t: "a_tail ?a = 6" "a_msgs ?a ! (5 - a_base ?a) = [6, 6]"
    by (simp_all add: a_tail_def)
  have f: "unat (r_cursor x0) = 0" "a_base ?a \<le> 0 + 1" "0 + 1 + ncap (sb_ring s) < a_tail ?a" "length (r_payload x0) = 2" "(0 :: nat) < 2"
    "length (a_msgs ?a ! (5 - a_base ?a)) = 2" "5 = skip_to (ncap (sb_ring s)) (a_tail ?a) (0 + 1)"
    "writable_view (demo_buffer [0, 0, 0, 0]) = Inr [0, 0, 0, 0]" "length [0, 0, 0, 0 :: u8] = 2 * 2"
    unfolding t S(3) xp by (simp_all add: skip_to_def demo_buffer_def writable_view_def)
  note skips = recv_into_buffer_skips_log [OF R S(1,2) n1(1) n2 f, of "[]" "[]", unfolded t(2)]
  obtain s' m' where "py_recv_into_buffer demo_crc d True [] s (demo_buffer [0, 0, 0, 0]) 2 demo_lapped = Some (Inr 2, r_payload x0 @ [6, 6], s', m')"
    "py_recv demo_crc d [] s' m' = Some (Inr (r_payload x1), s'\<lparr>sb_cursor := r_cursor x1 + 1, sb_replay := Some rp2\<rparr>, m')"
    using skips by blast
  then show ?thesis
    using S(2) xp by (intro exI [of _ s] exI [of _ d] exI [of _ s'] exI [of _ m']) simp
qed

end
