(* ===== verification/Bridge_Python.thy ===== *)
theory Bridge_Python
  imports Bridge_Properties
begin

text \<open>
  The bridge as a Python class, \<open>crates/mmbus-bridge/src/python.rs\<close>: a state under a mutex that goes
  from configured to running to shut down, and the exit codes of the binary, \<open>main.rs\<close>. \<open>None\<close> as the
  result of a method is a panic, or a call that does not return; a panic while the mutex is held poisons
  it, and every later method panics when it takes it. The JSON and TOML parsers are parameters.
\<close>

subsection \<open>State and exceptions (lines 25--85, 250--277)\<close>

datatype bridge_exc =
    PyBridgeError | BridgeConfigError | BridgeListenError | BridgeQuicError | BridgeOSError | PyRuntimeError | PyTimeoutError
  | KeyboardInterrupt

datatype bridge_state = Configured bridge_config | Running bridge | Shutdown | Transitioning

record py_bridge =
  pb_state :: bridge_state
  pb_poisoned :: bool

definition config_err :: "'e config_error \<Rightarrow> bridge_exc" where
  "config_err e = (case e of ConfigIo \<Rightarrow> BridgeOSError | _ \<Rightarrow> BridgeConfigError)"

definition bridge_err :: "start_error \<Rightarrow> bridge_exc" where
  "bridge_err e = (case e of
      Listen \<Rightarrow> BridgeListenError
    | QuicNotCompiledListen \<Rightarrow> BridgeQuicError
    | QuicNotCompiledPeer \<Rightarrow> BridgeQuicError
    | QuicRuntime \<Rightarrow> BridgeQuicError
    | QuicSetup \<Rightarrow> BridgeQuicError)"

definition configured :: "bridge_config \<Rightarrow> py_bridge" where
  "configured cfg = \<lparr>pb_state = Configured cfg, pb_poisoned = False\<rparr>"

subsection \<open>Constructors (lines 87--123)\<close>

definition py_bridge_new :: "'e + bridge_config \<Rightarrow> bridge_exc + py_bridge" where
  "py_bridge_new parsed = (case parsed of
      Inl _ \<Rightarrow> Inl BridgeConfigError
    | Inr cfg \<Rightarrow> (case (validate cfg :: 'e config_error + unit) of
        Inl e \<Rightarrow> Inl (config_err e)
      | Inr _ \<Rightarrow> Inr (configured cfg)))"

definition py_bridge_from_toml :: "(bytes \<Rightarrow> 'e + bridge_config) \<Rightarrow> bytes \<Rightarrow> bridge_exc + py_bridge" where
  "py_bridge_from_toml toml text = map_sum config_err configured (config_from_str toml text)"

definition py_bridge_from_path :: "(bytes \<Rightarrow> 'e + bridge_config) \<Rightarrow> bytes option \<Rightarrow> bridge_exc + py_bridge" where
  "py_bridge_from_path toml contents = map_sum config_err configured (config_from_path toml contents)"

subsection \<open>Methods (lines 125--246)\<close>

definition py_bridge_start :: "start_env \<Rightarrow> py_bridge \<Rightarrow> (bridge_exc + unit) option \<times> py_bridge" where
  "py_bridge_start env b =
    (if pb_poisoned b then (None, b)
     else case pb_state b of
       Configured cfg \<Rightarrow>
         (case bridge_start env cfg of
            None \<Rightarrow> (None, b\<lparr>pb_state := Transitioning, pb_poisoned := True\<rparr>)
          | Some (Inr bridge) \<Rightarrow> (Some (Inr ()), b\<lparr>pb_state := Running bridge\<rparr>)
          | Some (Inl e) \<Rightarrow> (Some (Inl (bridge_err e)), b\<lparr>pb_state := Configured cfg\<rparr>))
     | Running bridge \<Rightarrow> (Some (Inr ()), b\<lparr>pb_state := Running bridge\<rparr>)
     | Shutdown \<Rightarrow> (Some (Inl PyRuntimeError), b\<lparr>pb_state := Shutdown\<rparr>)
     | Transitioning \<Rightarrow> (None, b\<lparr>pb_state := Transitioning, pb_poisoned := True\<rparr>))"

text \<open>\<open>join_with_deadline\<close> with a deadline: each turn whether the thread has finished, and whether the
  deadline has passed.\<close>

datatype join_outcome = Done | TimedOut

fun join_with_deadline :: "(bool \<times> bool) list \<Rightarrow> join_outcome option" where
  "join_with_deadline [] = None"
| "join_with_deadline ((finished, late) # turns) =
    (if finished then Some Done else if late then Some TimedOut else join_with_deadline turns)"

text \<open>The time-out of a shutdown: none, one that is no duration, or a deadline.\<close>

datatype join_arg = NoDeadline bool | NoDuration | Deadline "(bool \<times> bool) list"

definition joined :: "join_arg \<Rightarrow> (bridge_exc + unit) option" where
  "joined j = (case j of
      NoDeadline finishes \<Rightarrow> if finishes then Some (Inr ()) else None
    | NoDuration \<Rightarrow> None
    | Deadline turns \<Rightarrow> (case join_with_deadline turns of
        None \<Rightarrow> None | Some Done \<Rightarrow> Some (Inr ()) | Some TimedOut \<Rightarrow> Some (Inl PyTimeoutError)))"

definition py_bridge_shutdown :: "join_arg \<Rightarrow> py_bridge \<Rightarrow> (bridge_exc + unit) option \<times> py_bridge" where
  "py_bridge_shutdown j b =
    (if pb_poisoned b then (None, b)
     else let b' = b\<lparr>pb_state := Shutdown\<rparr> in case pb_state b of
       Running bridge \<Rightarrow> (joined j, b')
     | Configured cfg \<Rightarrow> (Some (Inr ()), b')
     | Shutdown \<Rightarrow> (Some (Inr ()), b')
     | Transitioning \<Rightarrow> (None, b'\<lparr>pb_poisoned := True\<rparr>))"

definition py_is_running :: "py_bridge \<Rightarrow> bool option" where
  "py_is_running b = (if pb_poisoned b then None else Some (case pb_state b of Running _ \<Rightarrow> True | _ \<Rightarrow> False))"

definition py_origin_id :: "py_bridge \<Rightarrow> u64 option option" where
  "py_origin_id b = (if pb_poisoned b then None else Some (case pb_state b of Running br \<Rightarrow> Some (br_origin_id br) | _ \<Rightarrow> None))"

text \<open>The bridge at each poll of \<open>wait\<close>, and whether a signal has come in the sleep after it.\<close>

fun py_wait :: "(py_bridge \<times> bool) list \<Rightarrow> (bridge_exc + unit) option" where
  "py_wait [] = None"
| "py_wait ((b, interrupted) # turns) = (case py_is_running b of
      None \<Rightarrow> None
    | Some running \<Rightarrow>
        if \<not> running then Some (Inr ()) else if interrupted then Some (Inl KeyboardInterrupt) else py_wait turns)"

subsection \<open>The binary (main.rs, lines 10--49)\<close>

definition bridge_main :: "(bytes \<Rightarrow> 'e config_error + bridge_config) \<Rightarrow> bytes list \<Rightarrow> nat" where
  "bridge_main load args = (case args of
      [] \<Rightarrow> 2
    | path # extra \<Rightarrow> if extra \<noteq> [] then 2 else (case load path of Inl _ \<Rightarrow> 1 | Inr _ \<Rightarrow> 0))"

subsection \<open>The life of a bridge\<close>

datatype bridge_method = CallStart start_env | CallShutdown join_arg

fun bridge_call :: "bridge_method \<Rightarrow> py_bridge \<Rightarrow> (bridge_exc + unit) option \<times> py_bridge" where
  "bridge_call (CallStart env) b = py_bridge_start env b"
| "bridge_call (CallShutdown j) b = py_bridge_shutdown j b"

definition bridge_calls :: "bridge_method list \<Rightarrow> py_bridge \<Rightarrow> py_bridge" where
  "bridge_calls cs b = foldl (\<lambda>b c. snd (bridge_call c b)) b cs"

text \<open>The first start that succeeds, and whether there is a shutdown.\<close>

fun first_started :: "bridge_config \<Rightarrow> bridge_method list \<Rightarrow> bridge option" where
  "first_started cfg [] = None"
| "first_started cfg (CallStart env # cs) = (case bridge_start env cfg of Some (Inr br) \<Rightarrow> Some br | _ \<Rightarrow> first_started cfg cs)"
| "first_started cfg (CallShutdown j # cs) = first_started cfg cs"

fun shuts_down :: "bridge_method list \<Rightarrow> bool" where
  "shuts_down [] = False"
| "shuts_down (CallShutdown j # cs) = True"
| "shuts_down (CallStart env # cs) = shuts_down cs"

lemma validated_peers_ok: "(validate cfg :: 'e config_error + unit) = Inr () \<Longrightarrow> list_all peer_ok (bc_peers cfg)"
  using validate_peers_iff [of "bc_peers cfg", where 'e = 'e] by (auto simp: validate_def split: sum.splits if_splits)

lemma bridge_start_total:
  assumes "(validate cfg :: 'e config_error + unit) = Inr ()" "0 < bc_peer_buffer_max cfg"
  shows "bridge_start env cfg \<noteq> None"
proof -
  define o' where "o' = (case bc_origin_id cfg of
    None \<Rightarrow> random_origin_id (se_nanos env) (se_pid env) | Some o' \<Rightarrow> o')"
  obtain links where "start_peers o' (bc_peer_buffer_max cfg) (bc_peers cfg) = Some links"
    using start_peers_None [OF validated_peers_ok [OF assms(1)], of o' "bc_peer_buffer_max cfg"] assms(2) by auto
  then show ?thesis
    by (simp add: bridge_start_def Let_def o'_def split: sum.splits)
qed

lemma bridge_calls_Cons: "bridge_calls (c # cs) b = bridge_calls cs (snd (bridge_call c b))"
  by (simp add: bridge_calls_def)

lemma shutdown_stays:
  "pb_state b = Shutdown \<Longrightarrow> \<not> pb_poisoned b \<Longrightarrow> pb_state (bridge_calls cs b) = Shutdown \<and> \<not> pb_poisoned (bridge_calls cs b)"
proof (induction cs arbitrary: b)
  case (Cons c cs)
  then show ?case
    by (cases c) (auto simp: bridge_calls_Cons py_bridge_start_def py_bridge_shutdown_def Let_def)
qed (simp add: bridge_calls_def)

lemma running_stays:
  "pb_state b = Running br \<Longrightarrow> \<not> pb_poisoned b
    \<Longrightarrow> pb_state (bridge_calls cs b) = (if shuts_down cs then Shutdown else Running br) \<and> \<not> pb_poisoned (bridge_calls cs b)"
proof (induction cs arbitrary: b rule: shuts_down.induct)
  case (2 j cs)
  then show ?case
    using shutdown_stays [of "snd (bridge_call (CallShutdown j) b)" cs]
    by (simp add: bridge_calls_Cons py_bridge_shutdown_def Let_def)
qed (auto simp: bridge_calls_Cons bridge_calls_def py_bridge_start_def)

lemma lifecycle_state:
  assumes "(validate cfg :: 'e config_error + unit) = Inr ()" "0 < bc_peer_buffer_max cfg"
  shows "bridge_calls cs (configured cfg) = \<lparr>pb_state = (if shuts_down cs then Shutdown
      else case first_started cfg cs of None \<Rightarrow> Configured cfg | Some br \<Rightarrow> Running br), pb_poisoned = False\<rparr>"
proof (induction cs rule: shuts_down.induct)
  case (2 j cs)
  have "snd (bridge_call (CallShutdown j) (configured cfg)) = \<lparr>pb_state = Shutdown, pb_poisoned = False\<rparr>"
    by (simp add: py_bridge_shutdown_def configured_def Let_def)
  then show ?case
    using shutdown_stays [of "\<lparr>pb_state = Shutdown, pb_poisoned = False\<rparr>" cs]
    by (auto simp: bridge_calls_Cons intro: py_bridge.equality)
next
  case (3 env cs)
  obtain res where res: "bridge_start env cfg = Some res"
    using bridge_start_total [OF assms] by blast
  show ?case
  proof (cases res)
    case (Inl e)
    then have "snd (bridge_call (CallStart env) (configured cfg)) = configured cfg"
      using res by (simp add: py_bridge_start_def configured_def)
    then show ?thesis
      using 3 res Inl by (simp add: bridge_calls_Cons)
  next
    case (Inr br)
    then have "snd (bridge_call (CallStart env) (configured cfg)) = \<lparr>pb_state = Running br, pb_poisoned = False\<rparr>"
      using res by (simp add: py_bridge_start_def configured_def)
    then show ?thesis
      using running_stays [of "\<lparr>pb_state = Running br, pb_poisoned = False\<rparr>" br cs] res Inr
      by (auto simp: bridge_calls_Cons intro: py_bridge.equality)
  qed
qed (simp add: bridge_calls_def configured_def)


text \<open>A start that panics leaves the object unusable. With a peer and \<open>peer_buffer_max = 0\<close>, which
  validation lets through, \<open>start\<close> panics with the mutex held: whatever is called afterwards, starting
  again, shutting down, asking whether it runs, panics too.\<close>

theorem zero_buffer_poisons_bridge:
  assumes "(validate cfg :: 'e config_error + unit) = Inr ()" "bc_peer_buffer_max cfg = 0" "bc_peers cfg \<noteq> []"
    "se_quic_feature env" "se_quic_ready env" "b = snd (py_bridge_start env (configured cfg))"
  shows "fst (py_bridge_start env (configured cfg)) = None
    \<and> fst (bridge_call c (bridge_calls cs b)) = None \<and> py_is_running (bridge_calls cs b) = None"
proof -
  define o' where "o' = (case bc_origin_id cfg of
    None \<Rightarrow> random_origin_id (se_nanos env) (se_pid env) | Some o' \<Rightarrow> o')"
  have "start_peers o' (bc_peer_buffer_max cfg) (bc_peers cfg) = None"
    using start_peers_None [OF validated_peers_ok [OF assms(1)], of o' "bc_peer_buffer_max cfg"] assms(2,3) by simp
  then have n: "bridge_start env cfg = None"
    using assms(4,5) by (simp add: bridge_start_def Let_def o'_def)
  have stays: "pb_poisoned b \<Longrightarrow> bridge_calls cs b = b" for cs b
  proof (induction cs)
    case (Cons c cs)
    then show ?case
      by (cases c) (simp_all add: bridge_calls_Cons py_bridge_start_def py_bridge_shutdown_def)
  qed (simp add: bridge_calls_def)
  have b: "pb_poisoned b"
    using n by (simp add: assms(6) py_bridge_start_def configured_def)
  then show ?thesis
    using n by (cases c) (simp_all add: stays py_bridge_start_def py_bridge_shutdown_def py_is_running_def configured_def)
qed


theorem zero_buffer_poisons_bridge_witness:
  "fst (py_bridge_start demo_env (configured demo_config)) = None
    \<and> fst (py_bridge_shutdown (NoDeadline True) (snd (py_bridge_start demo_env (configured demo_config)))) = None"
proof -
  have "(validate demo_config :: unit config_error + unit) = Inr ()" "bc_peer_buffer_max demo_config = 0" "bc_peers demo_config \<noteq> []"
    "se_quic_feature demo_env" "se_quic_ready demo_env"
    by (simp_all add: validate_def demo_config_def validate_peer_def is_quic_def demo_env_def)
  from zero_buffer_poisons_bridge [OF this refl, of "CallShutdown (NoDeadline True)" "[]"] show ?thesis
    by (simp add: bridge_calls_def)
qed

end
