(* ===== verification/Bridge_Threads.thy ===== *)
theory Bridge_Threads
  imports Bridge_Python Quic
begin

text \<open>
  The threads of a bridge, \<open>crates/mmbus-bridge/src/bridge.rs\<close>: what \<open>Bridge::start\<close> has spawned when it
  returns, which of these threads outlive a start that fails, the accept loop, and the QUIC identity a
  start needs. Shutting down sets the flag of one \<open>Bridge\<close> value and joins its threads; a start that
  returns an error has no such value, and nothing sets the flag its threads look at.
\<close>

subsection \<open>The QUIC identity (lines 862--905)\<close>

definition path_join :: "bytes \<Rightarrow> bytes \<Rightarrow> bytes" where
  "path_join base name = (if base = [] \<or> last base = 47 then base @ name else base @ 47 # name)"

definition cert_name :: bytes where
  "cert_name = map (of_char :: char \<Rightarrow> u8) ''bridge.cert.der''"

definition key_name :: bytes where
  "key_name = map (of_char :: char \<Rightarrow> u8) ''bridge.key.der''"

text \<open>\<open>Inr None\<close>: the bridge has no QUIC traffic; otherwise the runtime, and the identity if there is a
  listener. A runtime that cannot be built is reported as a failure to listen.\<close>

definition build_quic_runtime_and_identity ::
    "(bytes \<Rightarrow> bytes) \<Rightarrow> bool \<Rightarrow> bytes \<Rightarrow> id_env \<Rightarrow> bridge_config \<Rightarrow> id_files \<Rightarrow> (start_error + identity option option) \<times> id_files" where
  "build_quic_runtime_and_identity sha256 runtime_ok temp_dir env cfg fs =
    (let any_quic_peer = list_ex (\<lambda>p. is_quic (pc_transport p)) (bc_peers cfg); want_listen = (bc_listen_quic cfg \<noteq> None)
     in if \<not> any_quic_peer \<and> \<not> want_listen then (Inr None, fs)
        else if \<not> runtime_ok then (Inl Listen, fs)
        else if want_listen then
          let base = (case bc_base_dir cfg of None \<Rightarrow> temp_dir | Some d \<Rightarrow> d);
              cert_path = (case bc_quic_cert_path cfg of None \<Rightarrow> path_join base cert_name | Some p \<Rightarrow> p);
              key_path = (case bc_quic_key_path cfg of None \<Rightarrow> path_join base key_name | Some p \<Rightarrow> p)
          in (case gen_or_load_identity sha256 env cert_path key_path fs of
                (Inl e, fs') \<Rightarrow> (Inl QuicSetup, fs')
              | (Inr i, fs') \<Rightarrow> (Inr (Some (Some i)), fs'))
        else (Inr (Some None), fs))"

subsection \<open>The accept loop (lines 638--688)\<close>

text \<open>One turn: the shutdown flag, or what \<open>accept\<close> returns; for a connection whether its two options
  can be set, and what its reader meets.\<close>

datatype accept_event = Accepted bool bool "read_result list" | AcceptNotReady | AcceptFailed | AcceptShutdown

fun listener_main :: "u64 \<Rightarrow> bytes set \<Rightarrow> bytes set \<Rightarrow> accept_event list \<Rightarrow> reader list" where
  "listener_main our topics psks [] = []"
| "listener_main our topics psks (AcceptShutdown # es) = []"
| "listener_main our topics psks (Accepted nonblocking_ok timeout_ok reads # es) =
    (if nonblocking_ok \<and> timeout_ok then reader_main our topics psks reads # listener_main our topics psks es
     else listener_main our topics psks es)"
| "listener_main our topics psks (AcceptNotReady # es) = listener_main our topics psks es"
| "listener_main our topics psks (AcceptFailed # es) = []"

text \<open>The peers the loop serves: those whose options can be set, up to the first failed accept.\<close>

lemma listener_serves:
  "listener_main our topics psks es
    = concat (map (\<lambda>e. case e of Accepted True True reads \<Rightarrow> [reader_main our topics psks reads] | _ \<Rightarrow> [])
        (takeWhile (\<lambda>e. e \<noteq> AcceptFailed \<and> e \<noteq> AcceptShutdown) es))"
  by (induction es rule: listener_main.induct) (auto split: bool.splits)

subsection \<open>The threads a start spawns (lines 149--373)\<close>

datatype bridge_thread =
    ForwarderThread peer_config | QueueBridgeThread peer_config | OutboundTask peer_config
  | SubscriberThread bytes | PublisherThread | ListenerThread | QuicListenerTask

fun peer_threads :: "u64 \<Rightarrow> nat \<Rightarrow> peer_config list \<Rightarrow> bridge_thread list" where
  "peer_threads origin_id buffer_max [] = []"
| "peer_threads origin_id buffer_max (p # ps) =
    (if buffer_max = 0 then []
     else case pc_transport p of
       Tcp \<Rightarrow> ForwarderThread p # peer_threads origin_id buffer_max ps
     | Quic \<Rightarrow>
        if pc_fingerprint p = None then [QueueBridgeThread p]
        else QueueBridgeThread p # OutboundTask p # peer_threads origin_id buffer_max ps)"

definition receive_threads :: "start_env \<Rightarrow> bridge_config \<Rightarrow> bridge_thread list" where
  "receive_threads env cfg =
    (let want_tcp_listen = (bc_listen cfg \<noteq> None);
         want_quic_listen = (se_quic_feature env \<and> bc_listen_quic cfg \<noteq> None)
     in if want_tcp_listen \<or> want_quic_listen then
          if want_tcp_listen \<and> \<not> se_bind env (the (bc_listen cfg)) then [PublisherThread]
          else PublisherThread # (if want_tcp_listen then [ListenerThread] else [])
            @ (if want_quic_listen \<and> se_bind_quic env (the (bc_listen_quic cfg)) then [QuicListenerTask] else [])
        else [])"

definition start_threads :: "start_env \<Rightarrow> bridge_config \<Rightarrow> bridge_thread list" where
  "start_threads env cfg =
    (let quic = se_quic_feature env;
         quic_peer = list_ex (\<lambda>p. is_quic (pc_transport p)) (bc_peers cfg);
         quic_listen = (bc_listen_quic cfg \<noteq> None)
     in if \<not> quic \<and> (quic_listen \<or> quic_peer) then []
        else
          let origin_id = (case bc_origin_id cfg of
                None \<Rightarrow> random_origin_id (se_nanos env) (se_pid env) | Some o' \<Rightarrow> o')
          in if quic \<and> (quic_peer \<or> quic_listen) \<and> \<not> se_quic_ready env then []
             else peer_threads origin_id (bc_peer_buffer_max cfg) (bc_peers cfg)
               @ (case start_peers origin_id (bc_peer_buffer_max cfg) (bc_peers cfg) of
                    None \<Rightarrow> []
                  | Some _ \<Rightarrow> map (\<lambda>t. SubscriberThread (tc_name t)) (filter tc_forward (bc_topics cfg)) @ receive_threads env cfg))"

text \<open>The threads of a failed start that go on. Subscribers, TCP forwarders and the TCP listener end when they
  see the flag. The publisher ends when its channel is closed, which a listener keeps open. The tasks end
  with the runtime, and the thread in front of such a task ends at its next frame.\<close>

definition outlives :: "bridge_thread list \<Rightarrow> bridge_thread \<Rightarrow> bool" where
  "outlives spawned t = (case t of
      ForwarderThread _ \<Rightarrow> True
    | SubscriberThread _ \<Rightarrow> True
    | ListenerThread \<Rightarrow> True
    | PublisherThread \<Rightarrow> ListenerThread \<in> set spawned
    | QueueBridgeThread _ \<Rightarrow> False
    | OutboundTask _ \<Rightarrow> False
    | QuicListenerTask \<Rightarrow> False)"

subsection \<open>A Python bridge with its threads\<close>

record live_bridge =
  lv_bridge :: py_bridge
  lv_running :: "bridge_thread list"
  lv_leaked :: "bridge_thread list"

definition live_configured :: "bridge_config \<Rightarrow> live_bridge" where
  "live_configured cfg = \<lparr>lv_bridge = configured cfg, lv_running = [], lv_leaked = []\<rparr>"

definition live_start :: "start_env \<Rightarrow> live_bridge \<Rightarrow> live_bridge" where
  "live_start env l =
    (let l' = l\<lparr>lv_bridge := snd (py_bridge_start env (lv_bridge l))\<rparr> in
     if pb_poisoned (lv_bridge l) then l'
     else case pb_state (lv_bridge l) of
       Configured cfg \<Rightarrow>
         let spawned = start_threads env cfg in
         (case bridge_start env cfg of
            Some (Inr _) \<Rightarrow> l'\<lparr>lv_running := spawned\<rparr>
          | _ \<Rightarrow> l'\<lparr>lv_leaked := lv_leaked l @ filter (outlives spawned) spawned\<rparr>)
     | _ \<Rightarrow> l')"

text \<open>\<open>shutdown_inner\<close>: the flag of the running bridge is set and its threads are joined, in the call or
  after it.\<close>

definition live_shutdown :: "join_arg \<Rightarrow> live_bridge \<Rightarrow> live_bridge" where
  "live_shutdown j l =
    (let l' = l\<lparr>lv_bridge := snd (py_bridge_shutdown j (lv_bridge l))\<rparr> in
     if pb_poisoned (lv_bridge l) then l' else l'\<lparr>lv_running := []\<rparr>)"

fun live_call :: "live_bridge \<Rightarrow> bridge_method \<Rightarrow> live_bridge" where
  "live_call l (CallStart env) = live_start env l"
| "live_call l (CallShutdown j) = live_shutdown j l"

definition live_calls :: "bridge_method list \<Rightarrow> live_bridge \<Rightarrow> live_bridge" where
  "live_calls cs l = foldl live_call l cs"

lemma live_calls_Cons: "live_calls (c # cs) l = live_calls cs (live_call l c)"
  by (simp add: live_calls_def)

lemma live_calls_bridge: "lv_bridge (live_calls cs l) = bridge_calls cs (lv_bridge l)"
proof (induction cs arbitrary: l)
  case (Cons c cs)
  have "lv_bridge (live_call l c) = snd (bridge_call c (lv_bridge l))"
    by (cases c) (simp_all add: live_start_def live_shutdown_def Let_def split: bridge_state.splits option.splits sum.splits)
  then show ?case
    using Cons by (simp add: live_calls_Cons bridge_calls_Cons)
qed (simp add: live_calls_def bridge_calls_def)

definition past_start :: "live_bridge \<Rightarrow> bool" where
  "past_start l = (pb_poisoned (lv_bridge l) \<or> (case pb_state (lv_bridge l) of Configured _ \<Rightarrow> False | _ \<Rightarrow> True))"

lemma past_start_step: "past_start l \<Longrightarrow> past_start (live_call l c) \<and> lv_leaked (live_call l c) = lv_leaked l"
  by (cases c; cases "pb_state (lv_bridge l)")
    (auto simp: past_start_def live_start_def live_shutdown_def py_bridge_start_def py_bridge_shutdown_def Let_def)

lemma past_start_leaked: "past_start l \<Longrightarrow> lv_leaked (live_calls cs l) = lv_leaked l"
proof (induction cs arbitrary: l)
  case (Cons c cs)
  then show ?case
    using past_start_step [of l c] by (simp add: live_calls_Cons)
qed (simp add: live_calls_def)

definition joined_after_shutdown :: "live_bridge \<Rightarrow> bool" where
  "joined_after_shutdown l = (pb_state (lv_bridge l) = Shutdown \<longrightarrow> \<not> pb_poisoned (lv_bridge l) \<longrightarrow> lv_running l = [])"

lemma joined_step: "joined_after_shutdown l \<Longrightarrow> joined_after_shutdown (live_call l c)"
  by (cases c; cases "pb_state (lv_bridge l)")
    (auto simp: joined_after_shutdown_def live_start_def live_shutdown_def py_bridge_start_def py_bridge_shutdown_def Let_def
      split: option.splits sum.splits)

lemma joined_calls: "joined_after_shutdown l \<Longrightarrow> joined_after_shutdown (live_calls cs l)"
proof (induction cs arbitrary: l)
  case (Cons c cs)
  then show ?case
    using joined_step by (simp add: live_calls_Cons)
qed (simp add: live_calls_def)

subsection \<open>Counting threads\<close>

lemma count_list_filter: "P x \<Longrightarrow> count_list (filter P xs) x = count_list xs x"
  by (induction xs) auto

lemma count_map_inj: "inj f \<Longrightarrow> count_list (map f xs) (f x) = count_list xs x"
  by (induction xs) (auto dest: injD)

lemma count_not_in: "x \<notin> set xs \<Longrightarrow> count_list xs x = 0"
  by (simp add: count_list_0_iff)

lemma peer_threads_subscribers: "SubscriberThread t \<notin> set (peer_threads o' n ps)"
  by (induction ps) (auto split: transport_kind.splits)

lemma peer_threads_forwarders:
  "list_all peer_ok ps \<Longrightarrow> 0 < n
    \<Longrightarrow> count_list (peer_threads o' n ps) (ForwarderThread p) = (if pc_transport p = Tcp then count_list ps p else 0)"
  by (induction ps) (auto simp: peer_ok_def split: transport_kind.splits)

lemma receive_threads_count: "SubscriberThread t \<notin> set (receive_threads env cfg)" "ForwarderThread p \<notin> set (receive_threads env cfg)"
  by (auto simp: receive_threads_def Let_def)

text \<open>The attempts that get as far as the listeners and fail there.\<close>

fun failed_listens :: "bridge_config \<Rightarrow> bridge_method list \<Rightarrow> nat" where
  "failed_listens cfg [] = 0"
| "failed_listens cfg (CallStart env # cs) = (case bridge_start env cfg of
      Some (Inl e) \<Rightarrow> (if e = Listen \<or> e = QuicSetup then 1 else 0) + failed_listens cfg cs
    | _ \<Rightarrow> 0)"
| "failed_listens cfg (CallShutdown j # cs) = 0"

abbreviation forward_topics :: "bridge_config \<Rightarrow> bytes list" where
  "forward_topics cfg \<equiv> map tc_name (filter tc_forward (bc_topics cfg))"

lemma failed_start_threads:
  assumes "(validate cfg :: 'e config_error + unit) = Inr ()" "0 < bc_peer_buffer_max cfg" "bridge_start env cfg = Some (Inl e)"
  shows "\<exists>o'. start_threads env cfg = (if e = Listen \<or> e = QuicSetup
    then peer_threads o' (bc_peer_buffer_max cfg) (bc_peers cfg) @ map SubscriberThread (forward_topics cfg) @ receive_threads env cfg
    else [])"
proof -
  define o' where "o' = (case bc_origin_id cfg of
    None \<Rightarrow> random_origin_id (se_nanos env) (se_pid env) | Some o' \<Rightarrow> o')"
  obtain links where links: "start_peers o' (bc_peer_buffer_max cfg) (bc_peers cfg) = Some links"
    using start_peers_None [OF validated_peers_ok [OF assms(1)], of o' "bc_peer_buffer_max cfg"] assms(2) by auto
  have r: "start_receive env cfg = Inl e' \<Longrightarrow> e' = Listen \<or> e' = QuicSetup" for e'
    by (auto simp: start_receive_def Let_def split: if_splits)
  show ?thesis
    using assms(3) links r unfolding bridge_start_def start_threads_def Let_def o'_def [symmetric]
    by (intro exI [of _ o']) (auto simp: comp_def split: if_splits sum.splits)
qed

lemma failed_start_counts:
  assumes "(validate cfg :: 'e config_error + unit) = Inr ()" "0 < bc_peer_buffer_max cfg" "bridge_start env cfg = Some (Inl e)"
  shows "count_list (filter (outlives (start_threads env cfg)) (start_threads env cfg)) (SubscriberThread t)
      = (if e = Listen \<or> e = QuicSetup then count_list (forward_topics cfg) t else 0)"
    "count_list (filter (outlives (start_threads env cfg)) (start_threads env cfg)) (ForwarderThread p)
      = (if (e = Listen \<or> e = QuicSetup) \<and> pc_transport p = Tcp then count_list (bc_peers cfg) p else 0)"
proof -
  obtain o' where T: "start_threads env cfg = (if e = Listen \<or> e = QuicSetup
      then peer_threads o' (bc_peer_buffer_max cfg) (bc_peers cfg) @ map SubscriberThread (forward_topics cfg) @ receive_threads env cfg
      else [])"
    using failed_start_threads [OF assms] by blast
  have f: "count_list (filter (outlives (start_threads env cfg)) (start_threads env cfg)) (SubscriberThread t)
      = count_list (start_threads env cfg) (SubscriberThread t)"
    "count_list (filter (outlives (start_threads env cfg)) (start_threads env cfg)) (ForwarderThread p)
      = count_list (start_threads env cfg) (ForwarderThread p)"
    by (rule count_list_filter, simp add: outlives_def)+
  have "count_list (map SubscriberThread (forward_topics cfg)) (ForwarderThread p) = 0"
    by (rule count_not_in) auto
  moreover have "count_list (map SubscriberThread (forward_topics cfg)) (SubscriberThread t) = count_list (forward_topics cfg) t"
    by (rule count_map_inj) (simp add: inj_def)
  ultimately show "count_list (filter (outlives (start_threads env cfg)) (start_threads env cfg)) (SubscriberThread t)
      = (if e = Listen \<or> e = QuicSetup then count_list (forward_topics cfg) t else 0)"
    "count_list (filter (outlives (start_threads env cfg)) (start_threads env cfg)) (ForwarderThread p)
      = (if (e = Listen \<or> e = QuicSetup) \<and> pc_transport p = Tcp then count_list (bc_peers cfg) p else 0)"
    unfolding f unfolding T using peer_threads_forwarders [OF validated_peers_ok [OF assms(1)] assms(2)]
    by (simp_all del: map_map add: count_not_in [OF peer_threads_subscribers] count_not_in [OF receive_threads_count(1)]
      count_not_in [OF receive_threads_count(2)])
qed

lemma leaked_counts:
  assumes "(validate cfg :: 'e config_error + unit) = Inr ()" "0 < bc_peer_buffer_max cfg"
  shows "count_list (lv_leaked (live_calls cs \<lparr>lv_bridge = configured cfg, lv_running = [], lv_leaked = ts\<rparr>)) (SubscriberThread t)
      = count_list ts (SubscriberThread t) + failed_listens cfg cs * count_list (forward_topics cfg) t
    \<and> count_list (lv_leaked (live_calls cs \<lparr>lv_bridge = configured cfg, lv_running = [], lv_leaked = ts\<rparr>)) (ForwarderThread p)
      = count_list ts (ForwarderThread p) + (if pc_transport p = Tcp then failed_listens cfg cs * count_list (bc_peers cfg) p else 0)"
proof (induction cs arbitrary: ts rule: shuts_down.induct)
  case (2 j cs)
  let ?l = "live_shutdown j \<lparr>lv_bridge = configured cfg, lv_running = [], lv_leaked = ts\<rparr>"
  have "past_start ?l" "lv_leaked ?l = ts"
    by (simp_all add: live_shutdown_def past_start_def py_bridge_shutdown_def configured_def Let_def)
  then show ?case
    by (simp add: live_calls_Cons past_start_leaked)
next
  case (3 env cs)
  let ?l = "live_start env \<lparr>lv_bridge = configured cfg, lv_running = [], lv_leaked = ts\<rparr>"
  obtain res where res: "bridge_start env cfg = Some res"
    using bridge_start_total [OF assms] by blast
  show ?case
  proof (cases res)
    case (Inl e)
    define fs where "fs = filter (outlives (start_threads env cfg)) (start_threads env cfg)"
    have "?l = \<lparr>lv_bridge = configured cfg, lv_running = [], lv_leaked = ts @ fs\<rparr>"
      using res Inl by (simp add: live_start_def py_bridge_start_def configured_def Let_def fs_def)
    then show ?thesis
      using 3 [of "ts @ fs"] failed_start_counts [OF assms, of env e] res Inl
      by (simp add: live_calls_Cons fs_def [symmetric] add_mult_distrib)
  next
    case (Inr br)
    then have "past_start ?l" "lv_leaked ?l = ts"
      using res by (simp_all add: live_start_def past_start_def py_bridge_start_def configured_def Let_def)
    then show ?thesis
      using res Inr by (simp add: live_calls_Cons past_start_leaked)
  qed
qed (simp add: live_calls_def)


text \<open>A bridge that forwards one topic to one peer, whose port is taken at the first start.\<close>

definition demo_forwarder :: bridge_config where
  "demo_forwarder = demo_config\<lparr>bc_peer_buffer_max := 8, bc_listen := Some [58], bc_topics := [\<lparr>tc_name = [116], tc_forward = True, tc_receive = False\<rparr>]\<rparr>"


end
