(* ===== verification/Bridge_Locks.thy ===== *)
theory Bridge_Locks
  imports Mmbus_Prelude
begin

text \<open>
  The two locks a method of the Python bridge takes, \<open>crates/mmbus-bridge/src/python.rs\<close>: the
  interpreter's and the mutex of the state. Every method runs with the interpreter lock;
  \<open>py.allow_threads\<close> gives it back for the time of the call inside. A method is the list of what it does
  to the two locks, in the order of the code, and threads interleave between these actions; taking a lock
  that is held blocks.
\<close>

subsection \<open>The methods as sequences of lock actions\<close>

datatype lock_action = TakeGil | DropGil | LockState | UnlockState

text \<open>\<open>start\<close> on a configured bridge: the guard lives across \<open>allow_threads\<close>.\<close>

definition start_locks :: "lock_action list" where
  "start_locks = [TakeGil, LockState, DropGil, TakeGil, UnlockState, DropGil]"

text \<open>\<open>shutdown\<close> of a running bridge: the guard is dropped before \<open>allow_threads\<close>.\<close>

definition shutdown_locks :: "lock_action list" where
  "shutdown_locks = [TakeGil, LockState, UnlockState, DropGil, TakeGil, DropGil]"

text \<open>\<open>is_running\<close>, \<open>origin_id\<close>, \<open>listen_addr\<close>, and the other two methods in any other state.\<close>

definition read_locks :: "lock_action list" where
  "read_locks = [TakeGil, LockState, UnlockState, DropGil]"

text \<open>\<open>wait\<close> that finds the bridge running \<open>n\<close> times: each time it sleeps without the interpreter lock.\<close>

definition wait_locks :: "nat \<Rightarrow> lock_action list" where
  "wait_locks n = TakeGil # concat (replicate n [LockState, UnlockState, DropGil, TakeGil]) @ [LockState, UnlockState, DropGil]"

subsection \<open>Threads\<close>

record lock_state =
  lk_gil :: "nat option"
  lk_mutex :: "nat option"
  lk_threads :: "lock_action list list"

definition lock_init :: "lock_action list list \<Rightarrow> lock_state" where
  "lock_init ts = \<lparr>lk_gil = None, lk_mutex = None, lk_threads = ts\<rparr>"

text \<open>The next action of thread \<open>i\<close>: \<open>None\<close> if it is blocked or has no action left.\<close>

definition lock_act :: "nat \<Rightarrow> lock_state \<Rightarrow> lock_state option" where
  "lock_act i s =
    (if length (lk_threads s) \<le> i then None
     else case lk_threads s ! i of
       [] \<Rightarrow> None
     | a # as \<Rightarrow>
        let s' = s\<lparr>lk_threads := (lk_threads s)[i := as]\<rparr> in case a of
          TakeGil \<Rightarrow> if lk_gil s = None then Some (s'\<lparr>lk_gil := Some i\<rparr>) else None
        | DropGil \<Rightarrow> Some (s'\<lparr>lk_gil := None\<rparr>)
        | LockState \<Rightarrow> if lk_mutex s = None then Some (s'\<lparr>lk_mutex := Some i\<rparr>) else None
        | UnlockState \<Rightarrow> Some (s'\<lparr>lk_mutex := None\<rparr>))"

text \<open>A schedule names the thread of each step.\<close>

fun run_locks :: "nat list \<Rightarrow> lock_state \<Rightarrow> lock_state option" where
  "run_locks [] s = Some s"
| "run_locks (i # is) s = (case lock_act i s of None \<Rightarrow> None | Some s' \<Rightarrow> run_locks is s')"

definition lock_done :: "lock_state \<Rightarrow> bool" where
  "lock_done s = list_all (\<lambda>as. as = []) (lk_threads s)"

subsection \<open>Methods that keep the order of the locks\<close>

text \<open>The mutex is only taken, and always given back, while the interpreter lock is held.\<close>

fun nested :: "bool \<Rightarrow> bool \<Rightarrow> lock_action list \<Rightarrow> bool" where
  "nested gil mutex [] = (\<not> gil \<and> \<not> mutex)"
| "nested gil mutex (TakeGil # as) = (\<not> gil \<and> \<not> mutex \<and> nested True False as)"
| "nested gil mutex (LockState # as) = (gil \<and> \<not> mutex \<and> nested True True as)"
| "nested gil mutex (UnlockState # as) = (gil \<and> mutex \<and> nested True False as)"
| "nested gil mutex (DropGil # as) = (gil \<and> \<not> mutex \<and> nested False False as)"

lemma nested_append: "nested gil mutex as \<Longrightarrow> nested False False bs \<Longrightarrow> nested gil mutex (as @ bs)"
  by (induction gil mutex as rule: nested.induct) simp_all

lemma nested_methods: "nested False False shutdown_locks" "nested False False read_locks" "nested False False (wait_locks n)"
proof -
  show "nested False False shutdown_locks" "nested False False read_locks"
    by (simp_all add: shutdown_locks_def read_locks_def)
  have "nested True False (concat (replicate n [LockState, UnlockState, DropGil, TakeGil]) @ [LockState, UnlockState, DropGil])"
    by (induction n) simp_all
  then show "nested False False (wait_locks n)"
    by (simp add: wait_locks_def)
qed

definition locks_inv :: "lock_state \<Rightarrow> bool" where
  "locks_inv s = (\<forall>i < length (lk_threads s). nested (lk_gil s = Some i) (lk_mutex s = Some i) (lk_threads s ! i))"

text \<open>The owners are threads of the state.\<close>

definition owners_exist :: "lock_state \<Rightarrow> bool" where
  "owners_exist s = (pred_option (\<lambda>i. i < length (lk_threads s)) (lk_gil s) \<and> pred_option (\<lambda>i. i < length (lk_threads s)) (lk_mutex s))"

lemma lock_act_inv:
  assumes "lock_act i s = Some s'" "locks_inv s" "owners_exist s"
  shows "locks_inv s' \<and> owners_exist s' \<and> sum_list (map length (lk_threads s')) < sum_list (map length (lk_threads s))"
proof -
  have i: "i < length (lk_threads s)"
    using assms(1) by (auto simp: lock_act_def split: if_splits)
  obtain a as where a: "lk_threads s ! i = a # as"
    using assms(1) i by (cases "lk_threads s ! i") (simp_all add: lock_act_def)
  have T: "lk_threads s' = (lk_threads s)[i := as]"
    using assms(1) i a by (auto simp: lock_act_def Let_def split: lock_action.splits if_splits)
  have n: "nested (lk_gil s = Some i) (lk_mutex s = Some i) (a # as)"
    using assms(2) i a by (metis locks_inv_def)
  have less: "sum_list (map length ((lk_threads s)[i := as])) < sum_list (map length (lk_threads s))"
    using i a by (subst (2) id_take_nth_drop [OF i]) (simp add: upd_conv_take_nth_drop)
  have "nested (lk_gil s' = Some j) (lk_mutex s' = Some j) ((lk_threads s)[i := as] ! j)" if "j < length (lk_threads s)" for j
  proof (cases "j = i")
    case True
    then show ?thesis
      using n assms(1) i a by (cases a) (auto simp: lock_act_def split: if_splits)
  next
    case False
    moreover have "nested (lk_gil s = Some j) (lk_mutex s = Some j) (lk_threads s ! j)"
      using assms(2) that by (simp add: locks_inv_def)
    ultimately show ?thesis
      using n assms(1) i a by (cases a) (auto simp: lock_act_def split: if_splits)
  qed
  then have "locks_inv s'"
    by (simp add: locks_inv_def T)
  moreover have "owners_exist s'"
    using assms(1,3) i a by (cases a) (auto simp: lock_act_def owners_exist_def split: if_splits)
  ultimately show ?thesis
    using less by (simp add: T)
qed

lemma lock_progress:
  assumes "locks_inv s" "owners_exist s" "\<not> lock_done s"
  shows "\<exists>i s'. lock_act i s = Some s'"
proof (cases "lk_gil s")
  case None
  obtain i where i: "i < length (lk_threads s)" "lk_threads s ! i \<noteq> []"
    using assms(3) by (auto simp: lock_done_def list_all_length)
  then obtain a as where a: "lk_threads s ! i = a # as"
    by (cases "lk_threads s ! i") simp_all
  have "nested False (lk_mutex s = Some i) (a # as)"
    using assms(1) i(1) a None by (metis locks_inv_def option.distinct(1))
  then have "lock_act i s \<noteq> None"
    using None i(1) a by (cases a) (simp_all add: lock_act_def)
  then show ?thesis
    by blast
next
  case (Some i)
  then have i: "i < length (lk_threads s)"
    using assms(2) by (simp add: owners_exist_def)
  have n: "nested True (lk_mutex s = Some i) (lk_threads s ! i)"
    using assms(1) i Some by (metis locks_inv_def)
  then obtain a as where a: "lk_threads s ! i = a # as"
    by (cases "lk_threads s ! i") simp_all
  have "lk_mutex s = None" if "a = LockState"
  proof (cases "lk_mutex s")
    case (Some k)
    then have "k < length (lk_threads s)"
      using assms(2) by (simp add: owners_exist_def)
    then have "nested (i = k) True (lk_threads s ! k)"
      using assms(1) Some \<open>lk_gil s = Some i\<close> by (auto simp: locks_inv_def)
    moreover have "\<not> nested False True bs" for bs
      by (cases "(False, True, bs)" rule: nested.cases) simp_all
    ultimately have "k = i"
      by (cases "i = k") simp_all
    then show ?thesis
      using n a that Some by simp
  qed
  then have "lock_act i s \<noteq> None"
    using n i a by (cases a) (simp_all add: lock_act_def)
  then show ?thesis
    by blast
qed

lemma run_locks_inv: "run_locks sched s = Some s' \<Longrightarrow> locks_inv s \<Longrightarrow> owners_exist s \<Longrightarrow> locks_inv s' \<and> owners_exist s'"
  by (induction sched arbitrary: s) (auto split: option.splits dest: lock_act_inv)

lemma lock_finishes:
  "locks_inv s \<Longrightarrow> owners_exist s \<Longrightarrow> \<exists>sched s'. run_locks sched s = Some s' \<and> lock_done s'"
proof (induction "sum_list (map length (lk_threads s))" arbitrary: s rule: less_induct)
  case less
  show ?case
  proof (cases "lock_done s")
    case True
    then show ?thesis
      by (intro exI [of _ "[]"]) simp
  next
    case False
    then obtain i s1 where s1: "lock_act i s = Some s1"
      using lock_progress less.prems by blast
    then obtain sched s' where "run_locks sched s1 = Some s'" "lock_done s'"
      using less.hyps [of s1] lock_act_inv less.prems by blast
    then show ?thesis
      using s1 by (intro exI [of _ "i # sched"]) simp
  qed
qed

text \<open>C39: shutting down and polling never deadlock. Threads that run any methods one after the other, except
  the start of a configured bridge, can, from every state any schedule leads to, all run to their ends.\<close>

theorem shutdown_never_deadlocks:
  assumes "list_all (list_all (\<lambda>call. call = shutdown_locks \<or> call = read_locks \<or> (\<exists>n. call = wait_locks n))) threads"
    "run_locks sched (lock_init (map concat threads)) = Some s"
  shows "\<exists>sched' s'. run_locks sched' s = Some s' \<and> lock_done s'"
proof -
  have "nested False False (concat calls)"
    if "list_all (\<lambda>call. call = shutdown_locks \<or> call = read_locks \<or> (\<exists>n. call = wait_locks n)) calls" for calls
    using that by (induction calls) (auto intro: nested_append nested_methods)
  then have "locks_inv (lock_init (map concat threads))"
    using assms(1) by (simp add: locks_inv_def lock_init_def list_all_length)
  then show ?thesis
    using run_locks_inv [OF assms(2)] lock_finishes by (simp add: owners_exist_def lock_init_def)
qed

subsection \<open>Starting\<close>

text \<open>Thread \<open>i\<close> is in \<open>Bridge::start\<close> with the mutex, thread \<open>j\<close> waits for the mutex with the interpreter
  lock.\<close>

definition locks_stuck :: "nat \<Rightarrow> nat \<Rightarrow> lock_state \<Rightarrow> bool" where
  "locks_stuck i j s = (i \<noteq> j \<and> lk_gil s = Some j \<and> lk_mutex s = Some i \<and> i < length (lk_threads s) \<and> j < length (lk_threads s)
    \<and> take 1 (lk_threads s ! i) = [TakeGil] \<and> take 1 (lk_threads s ! j) = [LockState])"

text \<open>The remaining threads stand before a method.\<close>

definition others_outside :: "nat \<Rightarrow> nat \<Rightarrow> lock_state \<Rightarrow> bool" where
  "others_outside i j s = (\<forall>k < length (lk_threads s). k \<noteq> i \<longrightarrow> k \<noteq> j \<longrightarrow> take 1 (lk_threads s ! k) \<in> {[], [TakeGil]})"

lemma stuck_no_step:
  assumes "locks_stuck i j s" "others_outside i j s"
  shows "lock_act k s = None"
proof (cases "k < length (lk_threads s)")
  case True
  then have "take 1 (lk_threads s ! k) \<in> {[], [TakeGil], [LockState]}"
    using assms unfolding locks_stuck_def others_outside_def by (cases "k = i"; cases "k = j") auto
  then show ?thesis
    using assms(1) True by (cases "lk_threads s ! k") (auto simp: lock_act_def locks_stuck_def)
qed (simp add: lock_act_def)

text \<open>C40: starting a configured bridge can deadlock with any other method. When thread \<open>i\<close> is about to start
  and thread \<open>j\<close> to call anything that reads the state, there is a schedule after which neither lock is ever
  given back: no thread of the interpreter takes another step. \<open>shutdown\<close> avoids exactly this.\<close>

theorem start_can_freeze_interpreter:
  assumes "i \<noteq> j" "i < length threads" "j < length threads"
    "take 6 (threads ! i) = start_locks" "take 2 (threads ! j) = [TakeGil, LockState]"
    "list_all (\<lambda>as. take 1 as \<in> {[], [TakeGil]}) threads"
  shows "\<exists>s. run_locks [i, i, i, j] (lock_init threads) = Some s \<and> \<not> lock_done s \<and> (\<forall>k. lock_act k s = None)"
proof -
  obtain as where as: "threads ! i = TakeGil # LockState # DropGil # TakeGil # as"
    using append_take_drop_id [of 6 "threads ! i"] assms(4) by (simp add: start_locks_def) metis
  obtain bs where bs: "threads ! j = TakeGil # LockState # bs"
    using append_take_drop_id [of 2 "threads ! j"] assms(5) by (metis append_Cons append_Nil)
  define s where "s = \<lparr>lk_gil = Some j, lk_mutex = Some i, lk_threads = threads[i := TakeGil # as, j := LockState # bs]\<rparr>"
  have "run_locks [i, i, i, j] (lock_init threads) = Some s"
    using assms(1-3) as bs by (simp add: lock_act_def lock_init_def s_def Let_def)
  moreover have "locks_stuck i j s"
    using assms(1-3) by (simp add: locks_stuck_def s_def)
  moreover have "others_outside i j s"
    using assms(6) by (simp add: others_outside_def s_def list_all_length)
  moreover have "\<not> lock_done s"
    using assms(3) by (auto simp: lock_done_def s_def list_all_length intro!: exI [of _ j])
  ultimately show ?thesis
    using stuck_no_step by blast
qed

subsection \<open>Witnesses\<close>

theorem shutdown_never_deadlocks_witness:
  "\<exists>s sched' s'. run_locks [0, 0, 0, 0, 1, 1] (lock_init [shutdown_locks, wait_locks 1]) = Some s \<and> run_locks sched' s = Some s' \<and> lock_done s'"
proof -
  let ?ts = "[[shutdown_locks], [wait_locks 1]]"
  obtain s where s: "run_locks [0, 0, 0, 0, 1, 1] (lock_init (map concat ?ts)) = Some s"
    by (simp add: lock_act_def lock_init_def shutdown_locks_def wait_locks_def)
  have "list_all (list_all (\<lambda>call. call = shutdown_locks \<or> call = read_locks \<or> (\<exists>n. call = wait_locks n))) ?ts"
    by auto
  from shutdown_never_deadlocks [OF this s] show ?thesis
    using s by auto
qed

theorem start_can_freeze_interpreter_witness:
  "\<exists>s. run_locks [0, 0, 0, 1] (lock_init [start_locks, read_locks]) = Some s \<and> \<not> lock_done s \<and> (\<forall>k. lock_act k s = None)"
  using start_can_freeze_interpreter [of 0 1 "[start_locks, read_locks]"] by (simp add: start_locks_def read_locks_def)

end
