(* ===== verification/Waker_Windows.thy ===== *)
theory Waker_Windows
  imports Waker
begin

text \<open>
  The wakeup primitives of Windows: \<open>crates/mmbus/src/waker.rs\<close>, module \<open>windows\<close>, and what the
  publisher and the subscriber do with them: the accept thread and its channel in \<open>publisher.rs\<close>, the
  handshake in \<open>subscriber.rs\<close>. A semaphore is its
  count; the handshake goes through a named pipe, whose reads and writes may move any part of what is
  asked. What the calls of the system return is an argument. \<open>None\<close>: a panic, or a loop that is still
  running when the results it was given are used up.
\<close>

datatype win_error = WinIo io_error | WriteZero | InvalidInput

subsection \<open>The semaphore (lines 250--292)\<close>

definition SEMAPHORE_MAX :: nat where
  "SEMAPHORE_MAX = 2 ^ 31 - 1"

definition create_semaphore :: "win_error option \<Rightarrow> win_error + nat" where
  "create_semaphore failed = (case failed of Some e \<Rightarrow> Inl e | None \<Rightarrow> Inr 0)"

text \<open>A release beyond the maximum fails and leaves the count.\<close>

definition semaphore_wake :: "nat \<Rightarrow> bool \<times> nat" where
  "semaphore_wake count = (if SEMAPHORE_MAX \<le> count then (False, count) else (True, count + 1))"

definition semaphore_drain :: "win_error option \<Rightarrow> nat \<Rightarrow> (win_error + bool) \<times> nat" where
  "semaphore_drain failed count = (case failed of
      Some e \<Rightarrow> (Inl e, count)
    | None \<Rightarrow> if count = 0 then (Inr False, 0) else (Inr True, count - 1))"

lemma semaphore_wake_drain: "count < SEMAPHORE_MAX \<Longrightarrow> semaphore_drain None (snd (semaphore_wake count)) = (Inr True, count)"
  by (simp add: semaphore_drain_def semaphore_wake_def)

subsection \<open>Waiting (lines 294--322)\<close>

datatype wait_result = WaitObject nat | WaitTimeout | WaitFailed win_error

text \<open>\<open>None\<close> is \<open>INFINITE\<close>.\<close>

definition wait_millis :: "int \<Rightarrow> nat option" where
  "wait_millis timeout_ms = (if timeout_ms < 0 then None else Some (nat timeout_ms))"

definition win_wait_wakeup :: "(nat option \<Rightarrow> wait_result) \<Rightarrow> int \<Rightarrow> win_error + unit" where
  "win_wait_wakeup wait timeout_ms = (case wait (wait_millis timeout_ms) of
      WaitTimeout \<Rightarrow> Inl (WinIo IoWouldBlock)
    | WaitObject i \<Rightarrow> if i = 0 then Inr () else Inl (WinIo IoUnexpectedEof)
    | WaitFailed e \<Rightarrow> Inl e)"

subsection \<open>Named pipes (lines 324--402)\<close>

definition pipe_name :: "string \<Rightarrow> string" where
  "pipe_name bus_dir_name = [CHR 0x5C, CHR 0x5C] @ ''.'' @ [CHR 0x5C] @ ''pipe'' @ [CHR 0x5C] @ ''mmbus-'' @ bus_dir_name @ ''-signal''"

text \<open>The name must hold no zero character; \<open>create\<close> and \<open>connect\<close> are the calls of the system.\<close>

definition create_pipe_instance :: "(string \<Rightarrow> win_error + nat) \<Rightarrow> string \<Rightarrow> win_error + nat" where
  "create_pipe_instance create name = (if CHR 0x00 \<in> set name then Inl InvalidInput else create name)"

definition connect_pipe :: "(string \<Rightarrow> win_error + nat) \<Rightarrow> string \<Rightarrow> win_error + nat" where
  "connect_pipe connect name = (if CHR 0x00 \<in> set name then Inl InvalidInput else connect name)"

definition ERROR_PIPE_CONNECTED :: int where
  "ERROR_PIPE_CONNECTED = 535"

definition accept_pipe :: "(win_error \<times> int option) option \<Rightarrow> win_error + unit" where
  "accept_pipe failed = (case failed of
      None \<Rightarrow> Inr ()
    | Some (e, code) \<Rightarrow> if code = Some ERROR_PIPE_CONNECTED then Inr () else Inl e)"

subsection \<open>Reading and writing (lines 479--533)\<close>

fun pipe_write_all :: "(win_error + nat) list \<Rightarrow> bytes \<Rightarrow> ((win_error + unit) \<times> bytes) option" where
  "pipe_write_all results [] = Some (Inr (), [])"
| "pipe_write_all [] (b # data) = None"
| "pipe_write_all (Inl e # results) (b # data) = Some (Inl e, [])"
| "pipe_write_all (Inr written # results) (b # data) =
    (if written = 0 then Some (Inl WriteZero, [])
     else if length (b # data) < written then None
     else map_option (\<lambda>(res, out). (res, take written (b # data) @ out)) (pipe_write_all results (drop written (b # data))))"

text \<open>The result of a read is the bytes it puts into the buffer, at most as many as are left.\<close>

fun pipe_read_exact :: "(win_error + bytes) list \<Rightarrow> nat \<Rightarrow> (win_error + bytes) option" where
  "pipe_read_exact results 0 = Some (Inr [])"
| "pipe_read_exact [] (Suc n) = None"
| "pipe_read_exact (Inl e # results) (Suc n) = Some (Inl e)"
| "pipe_read_exact (Inr chunk # results) (Suc n) =
    (if chunk = [] then Some (Inl (WinIo IoUnexpectedEof))
     else if Suc n < length chunk then None
     else map_option (map_sum id ((@) chunk)) (pipe_read_exact results (Suc n - length chunk)))"

subsection \<open>The handshake (lines 404--477)\<close>

definition win_handshake :: "u32 \<Rightarrow> u64 \<Rightarrow> u32 \<Rightarrow> bytes" where
  "win_handshake pid sem cursor_idx =
    poke (poke (poke (replicate 16 0) 0 (u32_le pid)) 4 (u64_le sem)) 12 (u32_le cursor_idx)"

definition send_handshake :: "u32 \<Rightarrow> (win_error + nat) list \<Rightarrow> u64 \<Rightarrow> u32 \<Rightarrow> ((win_error + unit) \<times> bytes) option" where
  "send_handshake pid results sem cursor_idx = pipe_write_all results (win_handshake pid sem cursor_idx)"

definition recv_handshake_and_dup ::
    "(u32 \<Rightarrow> win_error + 'p) \<Rightarrow> ('p \<Rightarrow> u64 \<Rightarrow> win_error + 'h) \<Rightarrow> (win_error + bytes) list \<Rightarrow> (win_error + 'h \<times> u32) option" where
  "recv_handshake_and_dup open_process duplicate results = (case pipe_read_exact results 16 of
      None \<Rightarrow> None
    | Some (Inl e) \<Rightarrow> Some (Inl e)
    | Some (Inr buf) \<Rightarrow>
        let pid = rd32 buf 0; sub_sem_val = rd64 buf 4; cursor_idx = rd32 buf 12 in
        (case open_process pid of
           Inl e \<Rightarrow> Some (Inl e)
         | Inr sub_proc \<Rightarrow> (case duplicate sub_proc sub_sem_val of
             Inl e \<Rightarrow> Some (Inl e)
           | Inr dup_handle \<Rightarrow> Some (Inr (dup_handle, cursor_idx)))))"

subsection \<open>Any chunking\<close>

lemma pipe_write_chunks:
  "list_all (\<lambda>n. 0 < n) ns \<Longrightarrow> sum_list ns = length data \<Longrightarrow> pipe_write_all (map Inr ns) data = Some (Inr (), data)"
proof (induction ns arbitrary: data)
  case (Cons n ns)
  then show ?case
    using Cons.IH [of "drop n data"] by (cases data) auto
qed simp

lemma pipe_read_chunks:
  "list_all (\<lambda>c. c \<noteq> []) chunks \<Longrightarrow> pipe_read_exact (map Inr chunks) (length (concat chunks)) = Some (Inr (concat chunks))"
proof (induction chunks)
  case (Cons c chunks)
  then obtain k where k: "length (concat (c # chunks)) = Suc k"
    by (cases "length (concat (c # chunks))") auto
  then have "Suc k - length c = length (concat chunks)" "length c \<le> Suc k"
    by simp_all
  then show ?case
    using Cons by (subst k) simp
qed simp

lemma win_handshake_fields:
  "length (win_handshake pid sem cursor_idx) = 16" "rd32 (win_handshake pid sem cursor_idx) 0 = pid"
  "rd64 (win_handshake pid sem cursor_idx) 4 = sem" "rd32 (win_handshake pid sem cursor_idx) 12 = cursor_idx"
  by (simp_all add: win_handshake_def wr32_def [symmetric] wr64_def [symmetric] rd_after_wr rd_beside_wr disjoint_ranges_def wr_length)

text \<open>The handshake arrives whatever parts the system writes and reads: the publisher duplicates the handle
  the subscriber named out of the subscriber's process, and has its cursor slot.\<close>

theorem windows_handshake_roundtrip:
  assumes "list_all (\<lambda>n. 0 < n) ns" "sum_list ns = 16" "send_handshake pid (map Inr ns) sem cursor_idx = Some (res, wire)"
    "list_all (\<lambda>c. c \<noteq> []) chunks" "concat chunks = wire" "open_process pid = Inr p" "duplicate p sem = Inr h"
  shows "res = Inr () \<and> recv_handshake_and_dup open_process duplicate (map Inr chunks) = Some (Inr (h, cursor_idx))"
proof -
  have w: "res = Inr ()" "wire = win_handshake pid sem cursor_idx"
    using assms(3) pipe_write_chunks [OF assms(1), of "win_handshake pid sem cursor_idx"] assms(2)
    by (simp_all add: send_handshake_def win_handshake_fields)
  then have "pipe_read_exact (map Inr chunks) 16 = Some (Inr wire)"
    using pipe_read_chunks [OF assms(4)] assms(5) by (simp add: win_handshake_fields)
  then show ?thesis
    using w assms(6,7) by (simp add: recv_handshake_and_dup_def win_handshake_fields)
qed

subsection \<open>The subscriber's side (subscriber.rs, lines 181--214)\<close>

datatype win_connect_error = WinConnectIo win_error | WinConnectTimeout

text \<open>Each try to connect, and whether the deadline has passed after one that failed.\<close>

fun win_connect_loop :: "((win_error + nat) \<times> bool) list \<Rightarrow> (win_connect_error + nat) option" where
  "win_connect_loop [] = None"
| "win_connect_loop ((Inr pipe, late) # tries) = Some (Inr pipe)"
| "win_connect_loop ((Inl e, late) # tries) = (if late then Some (Inl WinConnectTimeout) else win_connect_loop tries)"

text \<open>The second component says whether the claimed cursor slot has been released.\<close>

definition win_connect ::
    "win_error option \<Rightarrow> ((win_error + nat) \<times> bool) list \<Rightarrow> u32 \<Rightarrow> (win_error + nat) list \<Rightarrow> u64 \<Rightarrow> u32
      \<Rightarrow> ((win_connect_error + nat) \<times> bool) option" where
  "win_connect sem_failed tries pid writes sem cursor_idx = (case create_semaphore sem_failed of
      Inl e \<Rightarrow> Some (Inl (WinConnectIo e), True)
    | Inr _ \<Rightarrow> (case win_connect_loop tries of
        None \<Rightarrow> None
      | Some (Inl e) \<Rightarrow> Some (Inl e, True)
      | Some (Inr pipe) \<Rightarrow> (case send_handshake pid writes sem cursor_idx of
          None \<Rightarrow> None
        | Some (Inl e, _) \<Rightarrow> Some (Inl (WinConnectIo e), True)
        | Some (Inr _, _) \<Rightarrow> Some (Inr pipe, False))))"

text \<open>A connection that fails gives the slot back, one that succeeds keeps it.\<close>

lemma win_connect_releases: "win_connect sem_failed tries pid writes sem cursor_idx = Some (res, released) \<Longrightarrow> released = (\<exists>e. res = Inl e)"
  by (auto simp: win_connect_def split: sum.splits option.splits)

subsection \<open>The publisher's side (publisher.rs, lines 502--512, 570--634)\<close>

record win_client =
  wc_cursor_idx :: nat
  wc_pipe :: nat
  wc_sem :: nat

text \<open>What one turn of the accept thread meets: the stop flag before and after the connection, what creating
  the pipe, accepting and the handshake return, and whether the publisher still has the channel.\<close>

record accept_turn =
  at_stop :: bool
  at_pipe :: "win_error + nat"
  at_accept :: "win_error + unit"
  at_stop_after :: bool
  at_handshake :: "win_error + nat \<times> u32"
  at_receiver :: bool

fun accept_thread :: "accept_turn list \<Rightarrow> (win_error + win_client) list" where
  "accept_thread [] = []"
| "accept_thread (t # ts) =
    (if at_stop t then []
     else case at_pipe t of
       Inl e \<Rightarrow> [Inl e]
     | Inr pipe \<Rightarrow> (case at_accept t of
         Inl e \<Rightarrow> Inl e # accept_thread ts
       | Inr _ \<Rightarrow>
           if at_stop_after t then []
           else (case at_handshake t of
             Inl e \<Rightarrow> Inl e # accept_thread ts
           | Inr (sem, idx) \<Rightarrow>
               if at_receiver t then Inr \<lparr>wc_cursor_idx = unat idx, wc_pipe = pipe, wc_sem = sem\<rparr> # accept_thread ts else [])))"

text \<open>Before a publish the channel is emptied up to its first error, which the publish returns.\<close>

fun accept_from_channel :: "(win_error + win_client) list \<Rightarrow> win_client list \<Rightarrow> (win_error + unit) \<times> (win_error + win_client) list \<times> win_client list" where
  "accept_from_channel [] clients = (Inr (), [], clients)"
| "accept_from_channel (Inl e # rx) clients = (Inl e, rx, clients)"
| "accept_from_channel (Inr c # rx) clients = accept_from_channel rx (clients @ [c])"

fun accept_rounds :: "nat \<Rightarrow> (win_error + win_client) list \<Rightarrow> win_client list \<Rightarrow> win_client list" where
  "accept_rounds 0 rx clients = clients"
| "accept_rounds (Suc n) rx clients = (case accept_from_channel rx clients of (_, rx', clients') \<Rightarrow> accept_rounds n rx' clients')"

text \<open>No client is lost to the errors between: after more publishes than there are errors every accepted
  client is in the list, in the order of the handshakes.\<close>

lemma accept_rounds_all:
  "length (filter isl rx) < n \<Longrightarrow> accept_rounds n rx clients = clients @ map projr (filter (\<lambda>r. \<not> isl r) rx)"
proof (induction n arbitrary: rx clients)
  case (Suc n)
  have "accept_rounds (Suc n) rx clients = clients @ map projr (filter (\<lambda>r. \<not> isl r) rx)"
    if "length (filter isl rx) < Suc n" for rx clients
    using that
  proof (induction rx clients rule: accept_from_channel.induct)
    case (1 clients)
    then show ?case
      using Suc.IH [of "[]" clients] by (cases n) simp_all
  next
    case (2 e rx clients)
    then show ?case
      using Suc.IH [of rx clients] by simp
  qed simp
  then show ?case
    using Suc.prems .
qed simp

end
