(* ===== verification/Spec2Isabelle.thy ===== *)
theory Spec2Isabelle
  imports Seqlock Bridge_Properties Subscriber_Witnesses V2_Invariant Bus_Properties Prometheus_Properties Quic_Properties Python_Properties
    Bridge_Threads Bridge_Locks Waker_Windows
begin

text \<open>
  mmbus: publish and subscribe between the processes of one machine, and a bridge between machines.

  The program. A topic is a directory with a memory-mapped ring file, a producer lock, a signal socket
  and, unless switched off, a write-ahead log. One publisher writes messages into the slots of the ring
  (\<open>crates/mmbus/src/ring.rs\<close>, \<open>publisher.rs\<close>), first appending them to the log (\<open>wal/\<close>); every
  subscriber (\<open>subscriber.rs\<close>) has a cursor and a wakeup flag in the ring and an eventfd
  (\<open>waker.rs\<close>), reads the log while it is behind the ring and the ring afterwards, and sleeps when it
  has caught up. \<open>bus.rs\<close> keeps the publishers of a process by topic, \<open>producer_lock.rs\<close> keeps
  other publishers off. The bridge (\<open>crates/mmbus-bridge/src\<close>) subscribes to topics, cuts messages
  into frames (\<open>frame.rs\<close>), queues them for each peer (\<open>queue.rs\<close>), sends them over TCP or
  QUIC and publishes what it receives from authenticated peers (\<open>bridge.rs\<close>); \<open>config.rs\<close> is its
  configuration.

  Theories and sources.
  \<^item> \<open>Mmbus_Prelude\<close>: machine integers as words, buffers as byte lists with little-endian reads and
    writes, and the locale that lifts a step-wise simulation to runs. \<open>Stream_Codec\<close>: the locale of a
    decoder of a byte stream, interpreted on frames and on log records.
  \<^item> \<open>Ring\<close>: \<open>ring.rs\<close> on the bytes of the map. \<open>Ring_Layout\<close>: addresses and frame lemmas.
    \<open>Ring_Log\<close>, \<open>Ring_Refine\<close>, \<open>Ring_Properties\<close>: the abstract log with cursors, the
    refinement, and delivery. \<open>Seqlock\<close>: a reader interleaved with the stores of the publisher.
  \<^item> \<open>Wal_Record\<close>, \<open>Wal_Segment\<close>, \<open>Wal\<close>: \<open>wal/record.rs\<close>, \<open>segment_writer.rs\<close> and
    \<open>segment_reader.rs\<close>, \<open>wal.rs\<close> with \<open>config.rs\<close>, \<open>stats.rs\<close> and \<open>reader.rs\<close>, over a
    model of the directory. \<open>Wal_Refine\<close>, \<open>Wal_Reading\<close>, \<open>Wal_Recovery\<close>, \<open>Wal_Crash\<close>,
    \<open>Wal_Properties\<close>, \<open>Wal_Theorems\<close>: appending refines a list of segments; reading, recovery,
    crashes; the properties.
  \<^item> \<open>V2_Segment\<close>, \<open>V2_Files\<close>, \<open>V2_Wal\<close>: the lock-free log \<open>wal/v2\<close> over mapped files.
    \<open>V2_Segment_Properties\<close>, \<open>V2_Refine\<close>, \<open>V2_Append\<close>, \<open>V2_Reading\<close>, \<open>V2_Crash\<close>,
    \<open>V2_Theorems\<close>, \<open>V2_Lost\<close>, \<open>V2_Restart\<close>, \<open>V2_Invariant\<close>: its reader beside its writer, the
    refinement, reading, crashes, losses, restarts, and the well-formedness of its state.
  \<^item> \<open>Publisher\<close>: \<open>publisher.rs\<close>, \<open>error.rs\<close>, \<open>config.rs\<close>, \<open>stats.rs\<close>.
    \<open>Publisher_Wakeups\<close>, \<open>Publisher_Properties\<close>, \<open>Publisher_Restart\<close>: the broadcast, ring and
    log in step, starting again.
  \<^item> \<open>Waker\<close>, \<open>Waker_Windows\<close>: \<open>waker.rs\<close>, modules \<open>linux\<close> and \<open>windows\<close>, the latter with
    the accept thread and the pipe handshake. \<open>Subscriber\<close>: \<open>subscriber.rs\<close>.
    \<open>Eventcount\<close>: both sides of the wakeup protocol interleaved.
    \<open>Subscriber_Properties\<close>, \<open>Subscriber_Witnesses\<close>: connecting, reading and waiting.
  \<^item> \<open>Producer_Lock\<close>: \<open>producer_lock.rs\<close>. \<open>Bus\<close>: \<open>bus.rs\<close>, \<open>subscription.rs\<close>.
    \<open>Bus_Properties\<close>: topics side by side.
  \<^item> \<open>Frame\<close>, \<open>Bridge_Queue\<close>, \<open>Bridge_Config\<close>, \<open>Bridge\<close>, \<open>Bridge_Properties\<close>: the bridge
    over TCP. \<open>Quic\<close>, \<open>Quic_Properties\<close>: \<open>quic.rs\<close>, its identity, pinning, connections and queues,
    compared with TCP.
  \<^item> \<open>Prometheus\<close>, \<open>Prometheus_Properties\<close>: \<open>prometheus.rs\<close>, the text format and the exporter.
  \<^item> \<open>Python_Bindings\<close>, \<open>Python_Properties\<close>: \<open>crates/mmbus/src/python\<close>, the classes of the bus and the
    ways of receiving that exist only there.
  \<^item> \<open>Bridge_Python\<close>: \<open>crates/mmbus-bridge/src/python.rs\<close>, the life of a bridge object, and \<open>main.rs\<close>.
    \<open>Bridge_Threads\<close>: the threads a start spawns, its accept loop and identity, and what a failed start
    leaves behind. \<open>Bridge_Locks\<close>: the interpreter lock and the mutex of the object, interleaved.

  Modelling. A struct is a record with the fields of the source, an enum a datatype, an integer a word
  of its width; \<open>usize\<close> values that only count are natural numbers, and the hypotheses of the theorems
  say that they stay below \<open>2 ^ 63\<close> or \<open>2 ^ 64\<close> where it matters. Errors are the left side of a
  sum; \<open>None\<close> around a result is a panic or an access outside the map, or a call that has not returned
  when the turns it was given are used up. What the system decides (accepted connections, the clock, what
  other processes do to the map during a system call) is an argument. The checksum of records is a
  parameter. Files of the first log are contents with the length that is on stable storage; a crash keeps
  at least that prefix. Mapped files of the second log are a base with the stores since the last sync; a
  crash keeps any of the stores. Where processes or threads race, their steps are interleaved as an
  inductive relation, sequentially consistent: the reader of a slot against the stores of a write, the
  sleeper against the publisher, the lock takers against each other.

  Bounds. The retry loop of a ring read is bounded by 16 in the source and in the model. Loops of the
  source that may go on (waiting for a connection, a message or subscribers) take the list of what each
  turn meets and have not returned when it is empty; theorems state for which lists they return. Scans of
  log segments end because every record advances the position below the length of the file.

  Not modelled: memory orderings weaker than interleaving; sockets, file descriptors and threads as
  resources; the macOS branches and the remaining Windows ones, whose locking and waiting are modelled as on
  Linux; tracing and \<open>logging.rs\<close>; the settings given to rustls, quinn and tokio; the representations
  and getters of the Python classes; the conversion of a number of seconds to a duration, of which only
  success counts; the re-exports of \<open>lib.rs\<close>; third-party crates.
\<close>

end
